(* ===== verification/Prelude.thy ===== *)
theory Prelude
  imports Main "HOL-Library.Word"
begin

text \<open>
  Shared vocabulary of the development: the machine integers of the Rust sources, the wrapping
  arithmetic of a release build, the bounded scan that most of the kernel's tables use to find a
  slot, byte buffers with the two operations the sources perform on them (copy a slice in, read a
  slice out), and the fixed-width byte codecs (\<open>to_be_bytes\<close>, \<open>from_le_bytes\<close>, ...) together with
  the interface that the packet and disk layouts rely on.
\<close>

unbundle bit_operations_syntax

type_synonym u8 = "8 word"
type_synonym u16 = "16 word"
type_synonym u32 = "32 word"
type_synonym u64 = "64 word"
type_synonym bytes = "8 word list"

named_theorems wire \<open>evaluation of byte codecs and buffer accesses\<close>

section \<open>Wrapping arithmetic\<close>

text \<open>
  Counters that the sources keep in a \<open>u64\<close>, \<open>usize\<close> or \<open>AtomicU64\<close> are natural numbers here;
  the kernel is built in release mode, where an overflowing operation wraps at 64 bits.
\<close>

definition wadd64 :: "nat \<Rightarrow> nat \<Rightarrow> nat" where
  "wadd64 a b = (a + b) mod 2 ^ 64"

definition wsub64 :: "nat \<Rightarrow> nat \<Rightarrow> nat" where
  "wsub64 a b = (if b \<le> a then a - b else (a + 2 ^ 64 - b) mod 2 ^ 64)"

lemma wadd64_exact [simp]: "a + b < 2 ^ 64 \<Longrightarrow> wadd64 a b = a + b"
  by (simp add: wadd64_def)

lemma wsub64_exact [simp]: "b \<le> a \<Longrightarrow> wsub64 a b = a - b"
  by (simp add: wsub64_def)

lemma wadd64_bound: "wadd64 a b < 2 ^ 64"
  by (simp add: wadd64_def)

section \<open>Bounded scans\<close>

text \<open>
  The loop \<open>for k in i..n { if p(k) { return Some(k) } }\<close>: the least index of the range that
  satisfies the test.
\<close>

function first_from :: "(nat \<Rightarrow> bool) \<Rightarrow> nat \<Rightarrow> nat \<Rightarrow> nat option" where
  "first_from P i n = (if i < n then if P i then Some i else first_from P (Suc i) n else None)"
  by pat_completeness auto
termination
  by (relation "measure (\<lambda>(P, i, n). n - i)") auto

declare first_from.simps [simp del]

lemma first_from_hit: "i < n \<Longrightarrow> P i \<Longrightarrow> first_from P i n = Some i"
  by (simp add: first_from.simps)

lemma first_from_miss: "i < n \<Longrightarrow> \<not> P i \<Longrightarrow> first_from P i n = first_from P (Suc i) n"
  by (simp add: first_from.simps [of P i n])

lemma first_from_end: "n \<le> i \<Longrightarrow> first_from P i n = None"
  by (simp add: first_from.simps)

lemma first_from_SomeD:
  "first_from P i n = Some k \<Longrightarrow> i \<le> k \<and> k < n \<and> P k \<and> (\<forall>j. i \<le> j \<and> j < k \<longrightarrow> \<not> P j)"
proof (induction P i n rule: first_from.induct)
  case (1 P i n)
  show ?case
  proof (cases "i < n \<and> \<not> P i")
    case True
    with "1.prems" have "first_from P (Suc i) n = Some k"
      by (simp add: first_from_miss)
    with True "1.IH" have *: "Suc i \<le> k \<and> k < n \<and> P k \<and> (\<forall>j. Suc i \<le> j \<and> j < k \<longrightarrow> \<not> P j)"
      by blast
    have "\<not> P j" if "i \<le> j" "j < k" for j
      using that True * by (cases "j = i") auto
    with * show ?thesis by auto
  next
    case False
    with "1.prems" show ?thesis
      by (auto simp: first_from.simps [of P i n] split: if_splits)
  qed
qed

lemma first_from_NoneD: "first_from P i n = None \<Longrightarrow> i \<le> j \<Longrightarrow> j < n \<Longrightarrow> \<not> P j"
proof (induction P i n rule: first_from.induct)
  case (1 P i n)
  then have "i < n" by simp
  with "1.prems"(1) have "\<not> P i" and *: "first_from P (Suc i) n = None"
    by (auto simp: first_from.simps [of P i n] split: if_splits)
  show ?case
  proof (cases "j = i")
    case True
    with \<open>\<not> P i\<close> show ?thesis by simp
  next
    case False
    with "1.IH" * \<open>i < n\<close> \<open>\<not> P i\<close> "1.prems" show ?thesis by simp
  qed
qed

lemma first_from_None_iff:
  "first_from P i n = None \<longleftrightarrow> (\<forall>j. i \<le> j \<and> j < n \<longrightarrow> \<not> P j)"
proof
  assume "\<forall>j. i \<le> j \<and> j < n \<longrightarrow> \<not> P j"
  then show "first_from P i n = None"
    using first_from_SomeD [of P i n] by (cases "first_from P i n") auto
qed (use first_from_NoneD in blast)

lemma first_from_Some_iff:
  "first_from P i n = Some k \<longleftrightarrow> i \<le> k \<and> k < n \<and> P k \<and> (\<forall>j. i \<le> j \<and> j < k \<longrightarrow> \<not> P j)"
    (is "?l \<longleftrightarrow> ?r")
proof
  assume r: ?r
  show ?l
  proof (cases "first_from P i n")
    case None
    with r show ?thesis by (auto simp: first_from_None_iff)
  next
    case (Some m)
    from first_from_SomeD [OF this] r have "m = k"
      by (meson linorder_less_linear order.trans less_imp_le)
    with Some show ?thesis by simp
  qed
qed (use first_from_SomeD in blast)

lemma first_from_cong:
  assumes "\<And>j. i \<le> j \<Longrightarrow> j < n \<Longrightarrow> P j = Q j"
  shows "first_from P i n = first_from Q i n"
proof (cases "first_from Q i n")
  case None
  then have "first_from P i n = None"
    using assms by (auto simp: first_from_None_iff)
  with None show ?thesis by simp
next
  case (Some k)
  then have "first_from P i n = Some k"
    using assms by (auto simp: first_from_Some_iff)
  with Some show ?thesis by simp
qed

section \<open>Byte buffers\<close>

text \<open>
  \<open>bslice off n buf\<close> is \<open>&buf[off..off + n]\<close> and \<open>put_at off xs buf\<close> is
  \<open>buf[off..off + xs.len()].copy_from_slice(xs)\<close>, for ranges inside the buffer.
\<close>

definition bslice :: "nat \<Rightarrow> nat \<Rightarrow> 'a list \<Rightarrow> 'a list" where
  "bslice off n buf = take n (drop off buf)"

definition put_at :: "nat \<Rightarrow> 'a list \<Rightarrow> 'a list \<Rightarrow> 'a list" where
  "put_at off xs buf = take off buf @ xs @ drop (off + length xs) buf"

lemma length_bslice [simp]: "length (bslice off n buf) = min n (length buf - off)"
  by (simp add: bslice_def)

lemma length_put_at [simp]:
  "off + length xs \<le> length buf \<Longrightarrow> length (put_at off xs buf) = length buf"
  by (simp add: put_at_def)

lemma bslice_put_at_same:
  "off + length xs \<le> length buf \<Longrightarrow> n = length xs \<Longrightarrow> bslice off n (put_at off xs buf) = xs"
  by (simp add: bslice_def put_at_def)

lemma bslice_put_at_before:
  assumes "o' + n \<le> off" "off \<le> length buf"
  shows "bslice o' n (put_at off xs buf) = bslice o' n buf"
proof -
  have "take n (drop o' (take off buf)) = take n (drop o' buf)"
    using assms by (simp add: drop_take min_def)
  then show ?thesis
    using assms by (simp add: bslice_def put_at_def)
qed

lemma bslice_put_at_after:
  assumes "off + length xs \<le> o'" "off + length xs \<le> length buf"
  shows "bslice o' n (put_at off xs buf) = bslice o' n buf"
  using assms by (simp add: bslice_def put_at_def)

lemma nth_bslice: "i < n \<Longrightarrow> off + i < length buf \<Longrightarrow> bslice off n buf ! i = buf ! (off + i)"
  by (simp add: bslice_def)

lemma nth_put_at:
  assumes "off + length xs \<le> length buf" "i < length buf"
  shows "put_at off xs buf ! i =
    (if off \<le> i \<and> i < off + length xs then xs ! (i - off) else buf ! i)"
  using assms by (auto simp: put_at_def nth_append)

section \<open>Fixed-width byte codecs\<close>

definition to_be16 :: "u16 \<Rightarrow> bytes" where
  "to_be16 w = [ucast (drop_bit 8 w), ucast w]"

definition from_be16 :: "u8 \<Rightarrow> u8 \<Rightarrow> u16" where
  "from_be16 a b = push_bit 8 (ucast a) OR ucast b"

definition to_be32 :: "u32 \<Rightarrow> bytes" where
  "to_be32 w = [ucast (drop_bit 24 w), ucast (drop_bit 16 w), ucast (drop_bit 8 w), ucast w]"

definition from_be32 :: "u8 \<Rightarrow> u8 \<Rightarrow> u8 \<Rightarrow> u8 \<Rightarrow> u32" where
  "from_be32 a b c d =
     push_bit 24 (ucast a) OR push_bit 16 (ucast b) OR push_bit 8 (ucast c) OR ucast d"

definition to_le16 :: "u16 \<Rightarrow> bytes" where
  "to_le16 w = rev (to_be16 w)"

definition to_le32 :: "u32 \<Rightarrow> bytes" where
  "to_le32 w = rev (to_be32 w)"

definition from_le16 :: "u8 \<Rightarrow> u8 \<Rightarrow> u16" where
  "from_le16 a b = from_be16 b a"

definition from_le32 :: "u8 \<Rightarrow> u8 \<Rightarrow> u8 \<Rightarrow> u8 \<Rightarrow> u32" where
  "from_le32 a b c d = from_be32 d c b a"

definition to_be64 :: "u64 \<Rightarrow> bytes" where
  "to_be64 w = [ucast (drop_bit 56 w), ucast (drop_bit 48 w), ucast (drop_bit 40 w),
     ucast (drop_bit 32 w), ucast (drop_bit 24 w), ucast (drop_bit 16 w), ucast (drop_bit 8 w),
     ucast w]"

definition to_le64 :: "u64 \<Rightarrow> bytes" where
  "to_le64 w = rev (to_be64 w)"

definition from_le64 :: "bytes \<Rightarrow> u64" where
  "from_le64 bs =
     push_bit 56 (ucast (bs ! 7)) OR push_bit 48 (ucast (bs ! 6)) OR
     push_bit 40 (ucast (bs ! 5)) OR push_bit 32 (ucast (bs ! 4)) OR
     push_bit 24 (ucast (bs ! 3)) OR push_bit 16 (ucast (bs ! 2)) OR
     push_bit 8 (ucast (bs ! 1)) OR ucast (bs ! 0)"

lemma length_codecs [simp, wire]:
  "length (to_be16 w) = 2" "length (to_be32 v) = 4" "length (to_le16 w) = 2"
  "length (to_le32 v) = 4" "length (to_be64 x) = 8" "length (to_le64 x) = 8"
  by (simp_all add: to_be16_def to_be32_def to_le16_def to_le32_def to_be64_def to_le64_def)

lemma from_be16_to_be16 [wire]: "from_be16 (ucast (drop_bit 8 w)) (ucast w) = w"
  by (rule bit_word_eqI) (auto simp: from_be16_def bit_simps)

lemma from_be32_to_be32 [wire]:
  "from_be32 (ucast (drop_bit 24 w)) (ucast (drop_bit 16 w)) (ucast (drop_bit 8 w)) (ucast w) = w"
proof (rule bit_word_eqI)
  fix n assume "n < LENGTH(32)"
  then consider "n < 8" | "8 \<le> n" "n < 16" | "16 \<le> n" "n < 24" | "24 \<le> n" "n < 32"
    by fastforce
  then show "bit (from_be32 (ucast (drop_bit 24 w)) (ucast (drop_bit 16 w)) (ucast (drop_bit 8 w))
      (ucast w)) n = bit w n"
    by cases (auto simp: from_be32_def bit_simps)
qed

lemma from_le64_to_le64: "from_le64 (to_le64 w) = w"
proof (rule bit_word_eqI)
  fix n
  assume "n < LENGTH(64)"
  then consider "n < 8" | "8 \<le> n" "n < 16" | "16 \<le> n" "n < 24" | "24 \<le> n" "n < 32"
    | "32 \<le> n" "n < 40" | "40 \<le> n" "n < 48" | "48 \<le> n" "n < 56" | "56 \<le> n" "n < 64"
    by fastforce
  then show "bit (from_le64 (to_le64 w)) n = bit w n"
    by cases (auto simp: from_le64_def to_le64_def to_be64_def bit_simps)
qed

text \<open>Reading a field back: \<open>u16_at\<close>, \<open>u32_at\<close> over a buffer, in either byte order.\<close>

definition be16_at :: "bytes \<Rightarrow> nat \<Rightarrow> u16" where
  "be16_at buf i = from_be16 (buf ! i) (buf ! (i + 1))"

definition be32_at :: "bytes \<Rightarrow> nat \<Rightarrow> u32" where
  "be32_at buf i = from_be32 (buf ! i) (buf ! (i + 1)) (buf ! (i + 2)) (buf ! (i + 3))"

definition le16_at :: "bytes \<Rightarrow> nat \<Rightarrow> u16" where
  "le16_at buf i = from_le16 (buf ! i) (buf ! (i + 1))"

definition le32_at :: "bytes \<Rightarrow> nat \<Rightarrow> u32" where
  "le32_at buf i = from_le32 (buf ! i) (buf ! (i + 1)) (buf ! (i + 2)) (buf ! (i + 3))"

definition le64_at :: "bytes \<Rightarrow> nat \<Rightarrow> u64" where
  "le64_at buf i = from_le64 (bslice i 8 buf)"

text \<open>
  The interface of a fixed-width field codec: what the packet and disk layouts rely on.  A value
  stored at an offset is read back, and storing at a disjoint offset does not disturb it.
\<close>

locale field_codec =
  fixes enc :: "'v \<Rightarrow> bytes"
    and at :: "bytes \<Rightarrow> nat \<Rightarrow> 'v"
    and width :: nat
  assumes enc_width: "length (enc v) = width"
    and at_bslice: "i + width \<le> length buf \<Longrightarrow> at buf i = at (bslice i width buf) 0"
    and at_enc: "at (enc v) 0 = v"
begin

lemma at_put_same:
  assumes "i + width \<le> length buf"
  shows "at (put_at i (enc v) buf) i = v"
  using assms at_bslice [of i "put_at i (enc v) buf"]
  by (simp add: enc_width bslice_put_at_same at_enc)

lemma at_put_before:
  assumes "i + width \<le> off" "off + length xs \<le> length buf"
  shows "at (put_at off xs buf) i = at buf i"
  using assms at_bslice [of i "put_at off xs buf"] at_bslice [of i buf]
  by (simp add: bslice_put_at_before)

lemma at_put_after:
  assumes "off + length xs \<le> i" "i + width \<le> length buf"
  shows "at (put_at off xs buf) i = at buf i"
  using assms at_bslice [of i "put_at off xs buf"] at_bslice [of i buf]
  by (simp add: bslice_put_at_after)

end

interpretation be16: field_codec to_be16 be16_at 2
  by unfold_locales
    (simp_all add: be16_at_def nth_bslice to_be16_def from_be16_to_be16)

interpretation be32: field_codec to_be32 be32_at 4
  by unfold_locales
    (simp_all add: be32_at_def nth_bslice to_be32_def from_be32_to_be32)

interpretation le16: field_codec to_le16 le16_at 2
  by unfold_locales
    (simp_all add: le16_at_def from_le16_def nth_bslice to_le16_def to_be16_def from_be16_to_be16)

interpretation le32: field_codec to_le32 le32_at 4
  by unfold_locales
    (simp_all add: le32_at_def from_le32_def nth_bslice to_le32_def to_be32_def from_be32_to_be32)

lemma bslice_bslice: "bslice 0 n (bslice i n buf) = bslice i n buf"
  by (simp add: bslice_def)

interpretation le64: field_codec to_le64 le64_at 8
  by unfold_locales (simp_all add: le64_at_def bslice_bslice, simp add: bslice_def from_le64_to_le64)

section \<open>Text as bytes\<close>

text \<open>A Rust \<open>&str\<close> literal as its bytes (every literal of the sources is ASCII).\<close>

definition str :: "string \<Rightarrow> bytes" where
  "str s = map of_char s"

lemma str_simps [simp]:
  "str [] = []" "str (c # cs) = of_char c # str cs"
  by (simp_all add: str_def)

lemma length_str [simp]: "length (str s) = length s"
  by (simp add: str_def)

text \<open>\<open>str::split\<close> on one byte: the pieces between separators, at least one of them.\<close>

fun split_on :: "'a \<Rightarrow> 'a list \<Rightarrow> 'a list list" where
  "split_on c [] = [[]]"
| "split_on c (x # xs) =
     (if x = c then [] # split_on c xs
      else case split_on c xs of [] \<Rightarrow> [[x]] | p # ps \<Rightarrow> (x # p) # ps)"

lemma split_on_not_Nil [simp]: "split_on c xs \<noteq> []"
  by (cases xs) (auto split: list.splits)

lemma split_on_piece:
  assumes "c \<notin> set xs"
  shows "split_on c xs = [xs]"
  using assms by (induction xs) auto

lemma split_on_append:
  assumes "c \<notin> set xs"
  shows "split_on c (xs @ c # ys) = xs # split_on c ys"
  using assms by (induction xs) auto

text \<open>An index scan over a prefix of a list is \<^const>\<open>find\<close> on that prefix.\<close>

lemma find_drop_first_from:
  assumes "n \<le> length xs" "i \<le> n"
  shows "map_option ((!) xs) (first_from (\<lambda>i. Q (xs ! i)) i n) = find Q (drop i (take n xs))"
  using assms
proof (induction "\<lambda>i. Q (xs ! i)" i n rule: first_from.induct)
  case (1 i n)
  show ?case
  proof (cases "i < n")
    case True
    then have "drop i (take n xs) = xs ! i # drop (Suc i) (take n xs)"
      using 1 by (simp add: Cons_nth_drop_Suc [symmetric] nth_take)
    with 1 True show ?thesis
      by (simp add: first_from.simps [of "\<lambda>i. Q (xs ! i)" i n])
  next
    case False
    with 1 show ?thesis by (simp add: first_from_end)
  qed
qed

lemma find_first_from:
  "n \<le> length xs \<Longrightarrow>
     map_option ((!) xs) (first_from (\<lambda>i. Q (xs ! i)) 0 n) = find Q (take n xs)"
  using find_drop_first_from [of n xs 0 Q] by simp

lemma option_eqI_Some: "(\<And>v. a = Some v \<longleftrightarrow> b = Some v) \<Longrightarrow> a = b"
  by (metis not_Some_eq)

section \<open>Cyclic scans\<close>

text \<open>A scan of \<open>m\<close> cyclically consecutive indices reaches every index.\<close>

lemma mod_reach:
  assumes "k < (m :: nat)"
  shows "\<exists>i < m. (h + i) mod m = k"
proof -
  let ?i = "(k + (m - h mod m)) mod m"
  have pos: "0 < m" using assms by simp
  have "(h + ?i) mod m = (h mod m + (k + (m - h mod m))) mod m"
    by (metis mod_add_eq mod_mod_trivial)
  also have "\<dots> = (k + m) mod m"
    using mod_less_divisor [OF pos, of h] by (simp add: algebra_simps)
  also have "\<dots> = k" using assms by simp
  finally show ?thesis using pos by (meson mod_less_divisor)
qed

text \<open>No index is met twice.\<close>

lemma mod_add_le: "j \<le> k \<Longrightarrow> k < m \<Longrightarrow> (c + k) mod m = (c + j) mod m \<Longrightarrow> k = (j :: nat)"
  using mod_eq_dvd_iff_nat [of "c + j" "c + k" m] by (auto dest: dvd_imp_le)

lemma mod_add_inj: "j < m \<Longrightarrow> k < m \<Longrightarrow> (c + j) mod m = (c + k) mod m \<longleftrightarrow> j = (k :: nat)"
  using mod_add_le [of j k m c] mod_add_le [of k j m c] by (cases "j \<le> k") auto

section \<open>Bump arenas\<close>

text \<open>
  Blocks \<open>(address, length)\<close> handed out by an allocator that only moves a top upwards.  The kernel
  heap and the data pool of the RAM file system are both of this kind.
\<close>

type_synonym block = "nat \<times> nat"

definition apart :: "block \<Rightarrow> block \<Rightarrow> bool" where
  "apart b c \<longleftrightarrow> fst b + snd b \<le> fst c \<or> fst c + snd c \<le> fst b"

definition all_apart :: "block list \<Rightarrow> bool" where
  "all_apart bs = sorted_wrt apart bs"

definition blocks_below :: "nat \<Rightarrow> block list \<Rightarrow> bool" where
  "blocks_below t bs = list_all (\<lambda>b. fst b + snd b \<le> t) bs"

lemma apart_commute: "apart b c = apart c b"
  by (auto simp: apart_def)

lemma all_apart_filter: "all_apart bs \<Longrightarrow> all_apart (filter P bs)"
  by (simp add: all_apart_def sorted_wrt_filter)

lemma blocks_below_mono: "blocks_below t bs \<Longrightarrow> t \<le> u \<Longrightarrow> blocks_below u bs"
  by (auto simp: blocks_below_def list_all_iff)

locale bump_arena =
  fixes top_of :: "'s \<Rightarrow> nat"
    and give :: "'s \<Rightarrow> nat \<Rightarrow> nat \<Rightarrow> 's \<Rightarrow> bool"
  assumes give_above: "give s a n s' \<Longrightarrow> top_of s \<le> a \<and> a + n \<le> top_of s'"
begin

lemma give_fresh:
  assumes "give s a n s'" "blocks_below (top_of s) bs"
  shows "list_all (apart (a, n)) bs"
  using give_above [OF assms(1)] assms(2)
  by (auto simp: blocks_below_def list_all_iff apart_def)

lemma give_keeps:
  assumes "give s a n s'" "blocks_below (top_of s) bs" "all_apart bs"
  shows "all_apart ((a, n) # bs) \<and> blocks_below (top_of s') ((a, n) # bs)"
  using give_above [OF assms(1)] give_fresh [OF assms(1,2)] assms(3)
    blocks_below_mono [OF assms(2), of "top_of s'"]
  by (auto simp: all_apart_def blocks_below_def list_all_iff)

end

end
