(* ===== verification/Mem_Map.thy ===== *)
theory Mem_Map
  imports Prelude
begin

text \<open>
  The boot memory map: \<open>kernel/src/mem/efi.rs\<close> (memory types and descriptors) and
  \<open>kernel/src/mem/memmap.rs\<close> (the bounded table of regions, filled from the UEFI descriptors or
  synthesised on the BIOS path).  The descriptor array lives in memory owned by the firmware; it is
  a parameter \<open>rd\<close> that gives the descriptor stored at an address.
\<close>

section \<open>Memory types and descriptors (efi.rs)\<close>

datatype memory_type =
    Reserved | LoaderCode | LoaderData | BootServicesCode | BootServicesData
  | RuntimeServicesCode | RuntimeServicesData | ConventionalMemory | UnusableMemory
  | AcpiReclaimMemory | AcpiMemoryNvs | MemoryMappedIo | MemoryMappedIoPortSpace | PalCode
  | PersistentMemory

definition memory_type_from_u32 :: "u32 \<Rightarrow> memory_type" where
  "memory_type_from_u32 v =
     (if v = 0 then Reserved else if v = 1 then LoaderCode else if v = 2 then LoaderData
      else if v = 3 then BootServicesCode else if v = 4 then BootServicesData
      else if v = 5 then RuntimeServicesCode else if v = 6 then RuntimeServicesData
      else if v = 7 then ConventionalMemory else if v = 8 then UnusableMemory
      else if v = 9 then AcpiReclaimMemory else if v = 10 then AcpiMemoryNvs
      else if v = 11 then MemoryMappedIo else if v = 12 then MemoryMappedIoPortSpace
      else if v = 13 then PalCode else if v = 14 then PersistentMemory
      else Reserved)"

definition is_usable :: "memory_type \<Rightarrow> bool" where
  "is_usable k \<longleftrightarrow> (case k of ConventionalMemory \<Rightarrow> True | _ \<Rightarrow> False)"

record efi_memory_descriptor =
  memory_type :: u32
  physical_start :: nat
  virtual_start :: nat
  number_of_pages :: nat
  attribute :: nat

definition region_type :: "efi_memory_descriptor \<Rightarrow> memory_type" where
  "region_type d = memory_type_from_u32 (memory_type d)"

definition PAGE_SIZE :: nat where "PAGE_SIZE = 4096"
definition PAGE_SHIFT :: nat where "PAGE_SHIFT = 12"

section \<open>The region table (memmap.rs)\<close>

definition MAX_REGIONS :: nat where "MAX_REGIONS = 32"

record region =
  start :: nat
  pages :: nat
  kind :: memory_type

record mem_map =
  regions :: "region list"
  count :: nat
  source :: string
  total_pages :: nat
  usable_pages :: nat

definition mem_map_new :: mem_map where
  "mem_map_new =
     \<lparr>regions = replicate MAX_REGIONS \<lparr>start = 0, pages = 0, kind = Reserved\<rparr>, count = 0,
      source = [], total_pages = 0, usable_pages = 0\<rparr>"

definition mm_push :: "mem_map \<Rightarrow> region \<Rightarrow> mem_map" where
  "mm_push m r =
     (if count m < MAX_REGIONS then
        m\<lparr>total_pages := wadd64 (total_pages m) (pages r),
          usable_pages := (if is_usable (kind r) then wadd64 (usable_pages m) (pages r)
                           else usable_pages m),
          regions := (regions m)[count m := r],
          count := count m + 1\<rparr>
      else m)"

record boot_info_c =
  magic :: nat
  memmap :: nat
  memmap_size :: nat
  memmap_desc_size :: nat
  boot_flags :: u32

definition BARRYOS_BOOTINFO_MAGIC :: nat where "BARRYOS_BOOTINFO_MAGIC = 0x534F52524142"

text \<open>A null \<open>boot_info\<close> pointer is \<open>None\<close>.\<close>

definition get_boot_flags :: "boot_info_c option \<Rightarrow> u32" where
  "get_boot_flags boot_info =
     (case boot_info of
        None \<Rightarrow> 0
      | Some bi \<Rightarrow> if magic bi \<noteq> BARRYOS_BOOTINFO_MAGIC then 0 else boot_flags bi)"

definition is_uefi_boot :: "boot_info_c option \<Rightarrow> bool" where
  "is_uefi_boot boot_info =
     (case boot_info of
        None \<Rightarrow> False
      | Some bi \<Rightarrow> magic bi = BARRYOS_BOOTINFO_MAGIC \<and> memmap bi \<noteq> 0)"

definition bios_fallback_into :: "mem_map \<Rightarrow> mem_map" where
  "bios_fallback_into out =
     mm_push
       (mm_push (out\<lparr>source := ''BIOS''\<rparr>) \<lparr>start = 0x100000, pages = 256, kind = LoaderData\<rparr>)
       \<lparr>start = 0x200000, pages = 15872, kind = ConventionalMemory\<rparr>"

definition bios_fallback :: mem_map where
  "bios_fallback = bios_fallback_into mem_map_new"

definition parse_uefi_into ::
  "(nat \<Rightarrow> efi_memory_descriptor) \<Rightarrow> boot_info_c \<Rightarrow> mem_map \<Rightarrow> mem_map" where
  "parse_uefi_into rd bi out =
     (let out = out\<lparr>source := ''UEFI''\<rparr> in
      if memmap bi = 0 \<or> memmap_size bi = 0 \<or> memmap_desc_size bi = 0
      then bios_fallback_into out
      else fold (\<lambda>i m. let d = rd (memmap bi + i * memmap_desc_size bi) in
                   mm_push m \<lparr>start = physical_start d, pages = number_of_pages d,
                             kind = region_type d\<rparr>)
             [0..<memmap_size bi div memmap_desc_size bi] out)"

definition parse_into ::
  "(nat \<Rightarrow> efi_memory_descriptor) \<Rightarrow> boot_info_c option \<Rightarrow> mem_map \<Rightarrow> mem_map" where
  "parse_into rd boot_info out =
     (case boot_info of
        None \<Rightarrow> bios_fallback_into out
      | Some bi \<Rightarrow>
          if magic bi \<noteq> BARRYOS_BOOTINFO_MAGIC then bios_fallback_into out
          else parse_uefi_into rd bi out)"

section \<open>Well-formed tables\<close>

definition live_regions :: "mem_map \<Rightarrow> region list" where
  "live_regions m = take (count m) (regions m)"

definition mm_wf :: "mem_map \<Rightarrow> bool" where
  "mm_wf m \<longleftrightarrow> length (regions m) = MAX_REGIONS \<and> count m \<le> MAX_REGIONS \<and>
     total_pages m = sum_list (map pages (live_regions m)) mod 2 ^ 64 \<and>
     usable_pages m = sum_list (map pages (filter (is_usable \<circ> kind) (live_regions m))) mod 2 ^ 64"

lemma is_usable_simps [simp]: "is_usable k \<longleftrightarrow> k = ConventionalMemory"
  by (cases k) (simp_all add: is_usable_def)

lemma mm_wf_new [simp]: "mm_wf mem_map_new"
  by (simp add: mm_wf_def mem_map_new_def live_regions_def)

lemma new_empty [simp]: "live_regions mem_map_new = []" "count mem_map_new = 0"
  by (simp_all add: mem_map_new_def live_regions_def)

lemma mm_wf_source [simp]: "mm_wf (m\<lparr>source := s\<rparr>) = mm_wf m"
  by (simp add: mm_wf_def live_regions_def)

lemma live_regions_source [simp]: "live_regions (m\<lparr>source := s\<rparr>) = live_regions m"
  by (simp add: live_regions_def)

lemma live_regions_push:
  assumes "mm_wf m"
  shows "live_regions (mm_push m r) =
    (if count m < MAX_REGIONS then live_regions m @ [r] else live_regions m)"
  using assms by (simp add: mm_push_def live_regions_def mm_wf_def take_Suc_conv_app_nth)

lemma count_push [simp]:
  "count (mm_push m r) = (if count m < MAX_REGIONS then Suc (count m) else count m)"
  by (simp add: mm_push_def)

lemma mm_wf_push [intro]:
  assumes "mm_wf m"
  shows "mm_wf (mm_push m r)"
proof (cases "count m < MAX_REGIONS")
  case True
  with assms live_regions_push [OF assms, of r] show ?thesis
    by (auto simp: mm_wf_def mm_push_def wadd64_def mod_add_left_eq)
next
  case False
  with assms show ?thesis by (simp add: mm_push_def)
qed

lemma live_regions_pushes:
  assumes "mm_wf m"
  shows "mm_wf (fold (\<lambda>i m. mm_push m (f i)) is m)"
    and "live_regions (fold (\<lambda>i m. mm_push m (f i)) is m) =
      live_regions m @ take (MAX_REGIONS - count m) (map f is)"
  using assms
proof (induction "is" arbitrary: m)
  case (Cons i "is")
  {
    case 1
    with Cons.IH(1) [of "mm_push m (f i)"] show ?case by auto
  next
    case 2
    from 2 have "mm_wf (mm_push m (f i))" by auto
    from Cons.IH(2) [OF this] 2 show ?case
      by (cases "count m < MAX_REGIONS") (auto simp: live_regions_push take_Cons' Suc_diff_le)
  }
qed auto

lemma live_bios:
  "live_regions bios_fallback =
     [\<lparr>start = 0x100000, pages = 256, kind = LoaderData\<rparr>,
      \<lparr>start = 0x200000, pages = 15872, kind = ConventionalMemory\<rparr>]"
  by (simp add: bios_fallback_def bios_fallback_into_def live_regions_push mm_wf_push MAX_REGIONS_def)

end
