(* ===== verification/Frame_Alloc.thy ===== *)
theory Frame_Alloc
  imports Mem_Map
begin

text \<open>
  The physical page-frame allocator, \<open>kernel/src/mem/frame_alloc.rs\<close>: one bit per 4 KiB frame in a
  static 8 KiB bitmap (bit set: used or not usable), a next-fit \<open>alloc\<close>, a first-fit
  \<open>alloc_contig\<close> and \<open>free\<close>.  The bitmap is a store from byte indices to bytes; every index the
  allocator touches is shown to lie below \<open>MAX_FRAMES\<close>.
\<close>

section \<open>State and operations\<close>

definition BITMAP_BYTES :: nat where "BITMAP_BYTES = 8 * 1024"
definition MAX_FRAMES :: nat where "MAX_FRAMES = BITMAP_BYTES * 8"
definition KERNEL_BASE :: nat where "KERNEL_BASE = 0x00100000"
definition KERNEL_STACK_TOP :: nat where "KERNEL_STACK_TOP = 0x01000000"

lemma MAX_FRAMES_val: "MAX_FRAMES = 65536"
  by (simp add: MAX_FRAMES_def BITMAP_BYTES_def)

type_synonym bitmap = "nat \<Rightarrow> u8"

definition fa_set_bit :: "bitmap \<Rightarrow> nat \<Rightarrow> bitmap" where
  "fa_set_bit bm idx = bm(idx div 8 := bm (idx div 8) OR push_bit (idx mod 8) 1)"

definition fa_clear_bit :: "bitmap \<Rightarrow> nat \<Rightarrow> bitmap" where
  "fa_clear_bit bm idx = bm(idx div 8 := bm (idx div 8) AND NOT (push_bit (idx mod 8) 1))"

definition fa_test_bit :: "bitmap \<Rightarrow> nat \<Rightarrow> bool" where
  "fa_test_bit bm idx \<longleftrightarrow> drop_bit (idx mod 8) (bm (idx div 8)) AND 1 = 1"

record frame_allocator =
  fbitmap :: bitmap
  frames_total :: nat
  frames_used :: nat
  frames_usable :: nat
  next_hint :: nat

definition frame_allocator_new :: frame_allocator where
  "frame_allocator_new =
     \<lparr>fbitmap = (\<lambda>_. 0), frames_total = 0, frames_used = 0, frames_usable = 0, next_hint = 0\<rparr>"

text \<open>Clear the bits of one usable region, counting the frames that lie in the bitmap.\<close>

definition fa_clear_frame :: "nat \<Rightarrow> frame_allocator \<Rightarrow> frame_allocator" where
  "fa_clear_frame f fa =
     (if f < MAX_FRAMES
      then fa\<lparr>fbitmap := fa_clear_bit (fbitmap fa) f, frames_usable := frames_usable fa + 1\<rparr>
      else fa)"

definition fa_add_region :: "region \<Rightarrow> frame_allocator \<Rightarrow> frame_allocator" where
  "fa_add_region r fa =
     (if is_usable (kind r)
      then fold (\<lambda>j. fa_clear_frame (start r div PAGE_SIZE + j)) [0..<pages r] fa
      else fa)"

definition fa_init :: "mem_map \<Rightarrow> frame_allocator \<Rightarrow> frame_allocator" where
  "fa_init mm fa =
     (let fa = fa\<lparr>fbitmap := (\<lambda>i. if i < BITMAP_BYTES then 0xFF else fbitmap fa i),
                  frames_total := MAX_FRAMES\<rparr>;
          fa = fold fa_add_region (take (count mm) (regions mm)) fa;
          fa = fa\<lparr>fbitmap := fold (\<lambda>f bm. if f < MAX_FRAMES then fa_set_bit bm f else bm)
                   [KERNEL_BASE div PAGE_SIZE ..< KERNEL_STACK_TOP div PAGE_SIZE] (fbitmap fa)\<rparr>
      in fa\<lparr>frames_used := wsub64 (frames_total fa) (frames_usable fa)\<rparr>)"

definition fa_alloc :: "frame_allocator \<Rightarrow> nat \<times> frame_allocator" where
  "fa_alloc fa =
     (case first_from (\<lambda>i. \<not> fa_test_bit (fbitmap fa) ((next_hint fa + i) mod MAX_FRAMES))
             0 MAX_FRAMES of
        Some i \<Rightarrow>
          let idx = (next_hint fa + i) mod MAX_FRAMES in
          (idx * 2 ^ PAGE_SHIFT,
           fa\<lparr>fbitmap := fa_set_bit (fbitmap fa) idx,
              frames_used := wadd64 (frames_used fa) 1,
              next_hint := (idx + 1) mod MAX_FRAMES\<rparr>)
      | None \<Rightarrow> (0, fa))"

text \<open>The scan of \<open>alloc_contig\<close>: \<open>run\<close> free frames have just been seen, from \<open>run_start\<close> on.\<close>

function contig_scan :: "bitmap \<Rightarrow> nat \<Rightarrow> nat \<Rightarrow> nat \<Rightarrow> nat \<Rightarrow> nat option" where
  "contig_scan bm n i run run_start =
     (if i < MAX_FRAMES then
        if \<not> fa_test_bit bm i then
          let run_start = (if run = 0 then i else run_start); run = run + 1 in
          if run = n then Some run_start else contig_scan bm n (i + 1) run run_start
        else contig_scan bm n (i + 1) 0 run_start
      else None)"
  by pat_completeness auto
termination
  by (relation "measure (\<lambda>(bm, n, i, run, run_start). MAX_FRAMES - i)") auto

declare contig_scan.simps [simp del]

definition fa_alloc_contig :: "nat \<Rightarrow> frame_allocator \<Rightarrow> nat \<times> frame_allocator" where
  "fa_alloc_contig n fa =
     (if n = 0 then (0, fa)
      else case contig_scan (fbitmap fa) n 0 0 0 of
        Some run_start \<Rightarrow>
          (run_start * 2 ^ PAGE_SHIFT,
           fa\<lparr>fbitmap := fold (\<lambda>j bm. fa_set_bit bm (run_start + j)) [0..<n] (fbitmap fa),
              frames_used := wadd64 (frames_used fa) n,
              next_hint := (run_start + n) mod MAX_FRAMES\<rparr>)
      | None \<Rightarrow> (0, fa))"

definition fa_free :: "nat \<Rightarrow> frame_allocator \<Rightarrow> frame_allocator" where
  "fa_free addr fa =
     (let idx = addr div 2 ^ PAGE_SHIFT in
      if idx < MAX_FRAMES \<and> fa_test_bit (fbitmap fa) idx then
        fa\<lparr>fbitmap := fa_clear_bit (fbitmap fa) idx,
           frames_used := wsub64 (frames_used fa) 1,
           next_hint := (if idx < next_hint fa then idx else next_hint fa)\<rparr>
      else fa)"

section \<open>The bitmap as a set of bits\<close>

text \<open>
  What the allocator relies on of its bitmap: a bit test sees exactly the last write to that bit.
\<close>

locale bit_store =
  fixes tst :: "'m \<Rightarrow> nat \<Rightarrow> bool"
    and on :: "'m \<Rightarrow> nat \<Rightarrow> 'm"
    and off :: "'m \<Rightarrow> nat \<Rightarrow> 'm"
  assumes tst_on: "tst (on m i) j \<longleftrightarrow> j = i \<or> tst m j"
    and tst_off: "tst (off m i) j \<longleftrightarrow> j \<noteq> i \<and> tst m j"
begin

lemma tst_fold_on: "tst (fold (\<lambda>k m. on m (f k)) ks m) j \<longleftrightarrow> j \<in> f ` set ks \<or> tst m j"
  by (induction ks arbitrary: m) (auto simp: tst_on)

lemma tst_fold_on_if:
  "tst (fold (\<lambda>k m. if P k then on m k else m) ks m) j \<longleftrightarrow> (j \<in> set ks \<and> P j) \<or> tst m j"
  by (induction ks arbitrary: m) (auto simp: tst_on)

lemma finite_used [simp]: "finite {i. i < (n :: nat) \<and> tst m i}"
  by simp

lemma used_on_fresh:
  assumes "i < n" "\<not> tst m i"
  shows "card {j. j < n \<and> tst (on m i) j} = Suc (card {j. j < n \<and> tst m j})"
proof -
  have "{j. j < n \<and> tst (on m i) j} = insert i {j. j < n \<and> tst m j}"
    using assms by (auto simp: tst_on)
  with assms show ?thesis by simp
qed

lemma used_off:
  assumes "i < n" "tst m i"
  shows "Suc (card {j. j < n \<and> tst (off m i) j}) = card {j. j < n \<and> tst m j}"
proof -
  have "{j. j < n \<and> tst m j} = insert i {j. j < n \<and> tst (off m i) j}"
    using assms by (auto simp: tst_off)
  then show ?thesis by (simp add: tst_off)
qed

lemma used_fold_on_fresh:
  assumes "inj_on f (set ks)" "distinct ks" "\<forall>k \<in> set ks. f k < n \<and> \<not> tst m (f k)"
  shows "card {j. j < n \<and> tst (fold (\<lambda>k m. on m (f k)) ks m) j} =
    length ks + card {j. j < n \<and> tst m j}"
proof -
  have "{j. j < n \<and> tst (fold (\<lambda>k m. on m (f k)) ks m) j} =
      f ` set ks \<union> {j. j < n \<and> tst m j}"
    using assms(3) by (auto simp: tst_fold_on)
  moreover have "card (f ` set ks) = length ks"
    using assms by (simp add: card_image distinct_card)
  moreover have "f ` set ks \<inter> {j. j < n \<and> tst m j} = {}"
    using assms(3) by auto
  ultimately show ?thesis by (simp add: card_Un_disjoint)
qed

end

lemma fa_test_bit_iff: "fa_test_bit bm i \<longleftrightarrow> bit (bm (i div 8)) (i mod 8)"
  by (simp add: fa_test_bit_def and_one_eq bit_iff_odd_drop_bit odd_iff_mod_2_eq_one)

lemma same_bit_iff: "i div 8 = j div 8 \<and> i mod 8 = j mod 8 \<longleftrightarrow> i = (j :: nat)"
  by (metis div_mult_mod_eq)

interpretation bits: bit_store fa_test_bit fa_set_bit fa_clear_bit
proof
  show "fa_test_bit (fa_set_bit m i) j \<longleftrightarrow> j = i \<or> fa_test_bit m j" for m i j
    using same_bit_iff [of j i]
    by (auto simp: fa_test_bit_iff fa_set_bit_def bit_simps)
  show "fa_test_bit (fa_clear_bit m i) j \<longleftrightarrow> j \<noteq> i \<and> fa_test_bit m j" for m i j
    using same_bit_iff [of j i]
    by (auto simp: fa_test_bit_iff fa_clear_bit_def bit_simps)
qed

lemmas fa_bits = bits.tst_on bits.tst_off bits.tst_fold_on bits.tst_fold_on_if

section \<open>Initialisation\<close>

definition frame_free :: "frame_allocator \<Rightarrow> nat \<Rightarrow> bool" where
  "frame_free fa i \<longleftrightarrow> i < MAX_FRAMES \<and> \<not> fa_test_bit (fbitmap fa) i"

definition used_frames :: "frame_allocator \<Rightarrow> nat" where
  "used_frames fa = card {i. i < MAX_FRAMES \<and> fa_test_bit (fbitmap fa) i}"

text \<open>The frames the memory map offers, and those the kernel image and its stack occupy.\<close>

definition in_region :: "region \<Rightarrow> nat \<Rightarrow> bool" where
  "in_region r i \<longleftrightarrow> is_usable (kind r) \<and>
     start r div PAGE_SIZE \<le> i \<and> i < start r div PAGE_SIZE + pages r"

definition kernel_frame :: "nat \<Rightarrow> bool" where
  "kernel_frame i \<longleftrightarrow> KERNEL_BASE div PAGE_SIZE \<le> i \<and> i < KERNEL_STACK_TOP div PAGE_SIZE"

lemma clear_frames_bits:
  "fa_test_bit (fbitmap (fold (\<lambda>j. fa_clear_frame (b + j)) js fa)) i \<longleftrightarrow>
     fa_test_bit (fbitmap fa) i \<and> \<not> (i < MAX_FRAMES \<and> i \<in> (+) b ` set js)"
  by (induction js arbitrary: fa) (auto simp: fa_clear_frame_def fa_bits)

lemma clear_frames_usable:
  assumes "\<forall>j \<in> set js. b + j < MAX_FRAMES"
  shows "frames_usable (fold (\<lambda>j. fa_clear_frame (b + j)) js fa) = frames_usable fa + length js"
  using assms by (induction js arbitrary: fa) (auto simp: fa_clear_frame_def)

lemma clear_frames_total [simp]:
  "frames_total (fold (\<lambda>j. fa_clear_frame (b + j)) js fa) = frames_total fa"
  by (induction js arbitrary: fa) (auto simp: fa_clear_frame_def)

lemma image_plus_upt: "i \<in> (+) b ` {0..<n} \<longleftrightarrow> b \<le> i \<and> i < b + (n :: nat)"
  by (simp add: image_add_atLeastLessThan add.commute)

lemma add_region_bits:
  "fa_test_bit (fbitmap (fa_add_region r fa)) i \<longleftrightarrow>
     fa_test_bit (fbitmap fa) i \<and> \<not> (i < MAX_FRAMES \<and> in_region r i)"
  by (auto simp: fa_add_region_def clear_frames_bits in_region_def image_plus_upt)

lemma add_regions_bits:
  "fa_test_bit (fbitmap (fold fa_add_region rs fa)) i \<longleftrightarrow>
     fa_test_bit (fbitmap fa) i \<and> \<not> (i < MAX_FRAMES \<and> (\<exists>r \<in> set rs. in_region r i))"
  by (induction rs arbitrary: fa) (auto simp: add_region_bits)

lemma fa_init_bits:
  assumes "i < MAX_FRAMES"
  shows "fa_test_bit (fbitmap (fa_init mm fa)) i \<longleftrightarrow>
    kernel_frame i \<or> \<not> (\<exists>r \<in> set (live_regions mm). in_region r i)"
proof -
  have "i div 8 < BITMAP_BYTES"
    using assms by (simp add: MAX_FRAMES_def less_mult_imp_div_less)
  moreover have "i mod 8 < 8" by simp
  ultimately have "fa_test_bit (\<lambda>i. if i < BITMAP_BYTES then 0xFF else fbitmap fa i) i"
    using bit_mask_iff [of 8 "i mod 8", where ?'a = u8]
    by (simp add: fa_test_bit_iff mask_eq_exp_minus_1)
  with assms show ?thesis
    by (auto simp: fa_init_def Let_def fa_bits add_regions_bits kernel_frame_def live_regions_def)
qed

section \<open>Allocation\<close>

lemma fa_alloc_cases:
  obtains (found) idx where "frame_free fa idx" "fst (fa_alloc fa) = idx * 4096"
      "snd (fa_alloc fa) = fa\<lparr>fbitmap := fa_set_bit (fbitmap fa) idx,
         frames_used := wadd64 (frames_used fa) 1, next_hint := (idx + 1) mod MAX_FRAMES\<rparr>"
  | (full) "\<forall>i. \<not> frame_free fa i" "fa_alloc fa = (0, fa)"
proof (cases "first_from (\<lambda>i. \<not> fa_test_bit (fbitmap fa) ((next_hint fa + i) mod MAX_FRAMES)) 0
    MAX_FRAMES")
  case None
  have "\<forall>k. \<not> frame_free fa k"
    using None mod_reach [of _ MAX_FRAMES "next_hint fa"]
    by (auto simp: first_from_None_iff frame_free_def)
  moreover from None have "fa_alloc fa = (0, fa)" by (simp add: fa_alloc_def)
  ultimately show ?thesis by (rule full)
next
  case (Some i)
  let ?idx = "(next_hint fa + i) mod MAX_FRAMES"
  from first_from_SomeD [OF Some] have "frame_free fa ?idx"
    by (simp add: frame_free_def MAX_FRAMES_val)
  then show ?thesis
    by (rule found) (simp_all add: fa_alloc_def Some PAGE_SHIFT_def Let_def)
qed

definition run_free :: "frame_allocator \<Rightarrow> nat \<Rightarrow> nat \<Rightarrow> bool" where
  "run_free fa s n \<longleftrightarrow> s + n \<le> MAX_FRAMES \<and> (\<forall>k. s \<le> k \<and> k < s + n \<longrightarrow> frame_free fa k)"

text \<open>
  What the scan knows at frame \<open>i\<close>: the last \<open>run\<close> frames are free, and every window that starts
  before them contains a used frame below \<open>i\<close>.
\<close>

definition scan_inv :: "bitmap \<Rightarrow> nat \<Rightarrow> nat \<Rightarrow> nat \<Rightarrow> nat \<Rightarrow> bool" where
  "scan_inv bm n i run rs \<longleftrightarrow> run < n \<and> run \<le> i \<and> (0 < run \<longrightarrow> rs = i - run) \<and>
     (\<forall>k. i - run \<le> k \<and> k < i \<longrightarrow> \<not> fa_test_bit bm k) \<and>
     (\<forall>s. s < i - run \<longrightarrow> (\<exists>k. s \<le> k \<and> k < s + n \<and> k < i \<and> fa_test_bit bm k))"

lemma scan_inv_used:
  assumes "scan_inv bm n i run rs" "fa_test_bit bm i"
  shows "scan_inv bm n (i + 1) 0 rs'"
proof -
  have "\<exists>k. s \<le> k \<and> k < s + n \<and> k < i + 1 \<and> fa_test_bit bm k" if "s < i + 1" for s
  proof (cases "s < i - run")
    case True
    with assms(1) obtain k where "s \<le> k" "k < s + n" "k < i" "fa_test_bit bm k"
      by (auto simp: scan_inv_def)
    then show ?thesis by (intro exI [of _ k]) auto
  next
    case False
    with assms that show ?thesis by (intro exI [of _ i]) (auto simp: scan_inv_def)
  qed
  with assms(1) show ?thesis by (auto simp: scan_inv_def)
qed

lemma scan_inv_free:
  assumes "scan_inv bm n i run rs" "\<not> fa_test_bit bm i" "run + 1 \<noteq> n"
  shows "scan_inv bm n (i + 1) (run + 1) (if run = 0 then i else rs)"
proof -
  have "\<not> fa_test_bit bm k" if "i - run \<le> k" "k < i + 1" for k
    using assms that by (cases "k = i") (auto simp: scan_inv_def)
  moreover have "\<exists>k. s \<le> k \<and> k < s + n \<and> k < i + 1 \<and> fa_test_bit bm k" if "s < i - run" for s
    using assms(1) that less_SucI by (fastforce simp: scan_inv_def)
  ultimately show ?thesis using assms by (auto simp: scan_inv_def)
qed

lemma contig_scan_Some:
  assumes "contig_scan bm n i run rs = Some s" "scan_inv bm n i run rs"
  shows "s + n \<le> MAX_FRAMES \<and> (\<forall>k. s \<le> k \<and> k < s + n \<longrightarrow> \<not> fa_test_bit bm k) \<and>
    (\<forall>s' < s. \<exists>k. s' \<le> k \<and> k < s' + n \<and> fa_test_bit bm k)"
  using assms
proof (induction bm n i run rs rule: contig_scan.induct)
  case (1 bm n i run rs)
  from "1.prems"(1) have i: "i < MAX_FRAMES"
    by (auto simp: contig_scan.simps [of bm n i run rs] split: if_splits)
  consider (used) "fa_test_bit bm i" | (last) "\<not> fa_test_bit bm i" "run + 1 = n"
    | (more) "\<not> fa_test_bit bm i" "run + 1 \<noteq> n" by blast
  then show ?case
  proof cases
    case used
    with "1.prems" i have "contig_scan bm n (i + 1) 0 rs = Some s"
      by (simp add: contig_scan.simps [of bm n i run rs])
    with "1.IH"(2) i used scan_inv_used [OF "1.prems"(2) used] show ?thesis by simp
  next
    case last
    with "1.prems" i have s: "s = i - run"
      by (auto simp: contig_scan.simps [of bm n i run rs] scan_inv_def split: if_splits)
    have "\<not> fa_test_bit bm k" if "s \<le> k" "k < s + n" for k
      using "1.prems"(2) last s that by (cases "k = i") (auto simp: scan_inv_def)
    with "1.prems"(2) last s i show ?thesis by (auto simp: scan_inv_def)
  next
    case more
    let ?rs = "if run = 0 then i else rs"
    from more "1.prems" i have "contig_scan bm n (i + 1) (run + 1) ?rs = Some s"
      by (simp add: contig_scan.simps [of bm n i run rs] Let_def)
    with "1.IH"(1) [OF i _ refl refl] more scan_inv_free [OF "1.prems"(2) more]
    show ?thesis by simp
  qed
qed

lemma contig_scan_None:
  assumes "contig_scan bm n i run rs = None" "scan_inv bm n i run rs" "s + n \<le> MAX_FRAMES"
  shows "\<exists>k. s \<le> k \<and> k < s + n \<and> fa_test_bit bm k"
  using assms
proof (induction bm n i run rs rule: contig_scan.induct)
  case (1 bm n i run rs)
  show ?case
  proof (cases "i < MAX_FRAMES")
    case False
    with "1.prems"(2,3) have "s < i - run" by (auto simp: scan_inv_def)
    with "1.prems"(2) show ?thesis by (auto simp: scan_inv_def)
  next
    case i: True
    show ?thesis
    proof (cases "fa_test_bit bm i")
      case used: True
      with "1.prems" i have "contig_scan bm n (i + 1) 0 rs = None"
        by (simp add: contig_scan.simps [of bm n i run rs])
      with "1.IH"(2) i used scan_inv_used [OF "1.prems"(2) used] "1.prems"(3) show ?thesis by simp
    next
      case free: False
      let ?rs = "if run = 0 then i else rs"
      from free "1.prems" i have more: "run + 1 \<noteq> n"
        and "contig_scan bm n (i + 1) (run + 1) ?rs = None"
        by (simp_all add: contig_scan.simps [of bm n i run rs] Let_def split: if_splits)
      with "1.IH"(1) [OF i _ refl refl] free scan_inv_free [OF "1.prems"(2) free more] "1.prems"(3)
      show ?thesis by simp
    qed
  qed
qed

lemma scan_inv_start: "0 < n \<Longrightarrow> scan_inv bm n 0 0 0"
  by (simp add: scan_inv_def)

lemma fa_alloc_contig_cases:
  assumes "0 < n"
  obtains (found) s where "run_free fa s n" "\<forall>s' < s. \<not> run_free fa s' n"
      "fa_alloc_contig n fa = (s * 4096, fa\<lparr>fbitmap := fold (\<lambda>j bm. fa_set_bit bm (s + j)) [0..<n] (fbitmap fa),
         frames_used := wadd64 (frames_used fa) n, next_hint := (s + n) mod MAX_FRAMES\<rparr>)"
  | (full) "\<forall>s. \<not> run_free fa s n" "fa_alloc_contig n fa = (0, fa)"
proof (cases "contig_scan (fbitmap fa) n 0 0 0")
  case None
  from contig_scan_None [OF this scan_inv_start [OF assms]]
  have "\<forall>s. \<not> run_free fa s n" by (auto simp: run_free_def frame_free_def)
  moreover from None have "fa_alloc_contig n fa = (0, fa)" by (simp add: fa_alloc_contig_def)
  ultimately show ?thesis by (rule full)
next
  case (Some s)
  from contig_scan_Some [OF this scan_inv_start [OF assms]]
  have "run_free fa s n" and "\<forall>s' < s. \<not> run_free fa s' n"
    by (auto simp: run_free_def frame_free_def)
  then show ?thesis
    by (rule found) (use assms in \<open>simp add: fa_alloc_contig_def Some PAGE_SHIFT_def\<close>)
qed

section \<open>Frames in circulation\<close>

lemma frame_free_set:
  "frame_free (fa\<lparr>fbitmap := fa_set_bit (fbitmap fa) k, frames_used := u, next_hint := h\<rparr>) i \<longleftrightarrow>
     frame_free fa i \<and> i \<noteq> k"
  by (auto simp: frame_free_def fa_bits)

lemma frame_free_set_run:
  "frame_free (fa\<lparr>fbitmap := fold (\<lambda>j bm. fa_set_bit bm (s + j)) [0..<n] (fbitmap fa),
     frames_used := u, next_hint := h\<rparr>) i \<longleftrightarrow> frame_free fa i \<and> \<not> (s \<le> i \<and> i < s + n)"
  by (auto simp: frame_free_def fa_bits image_plus_upt)

lemma frame_free_free:
  "frame_free (fa_free (k * 4096) fa) i \<longleftrightarrow> frame_free fa i \<or> (i = k \<and> k < MAX_FRAMES)"
  by (auto simp: frame_free_def fa_free_def fa_bits PAGE_SHIFT_def Let_def)

text \<open>
  Runs of the allocator, with the set of frames its clients hold.  A client frees only frames it
  holds (the contract of the \<open>unsafe fn free\<close>); an address of 0 is the failure value.
\<close>

inductive fa_step :: "frame_allocator \<times> nat set \<Rightarrow> frame_allocator \<times> nat set \<Rightarrow> bool" where
  alloc: "fa_alloc fa = (addr, fa') \<Longrightarrow> addr \<noteq> 0 \<Longrightarrow>
    fa_step (fa, held) (fa', insert (addr div 4096) held)"
| alloc_zero: "fa_alloc fa = (0, fa') \<Longrightarrow> fa_step (fa, held) (fa', held)"
| contig: "0 < n \<Longrightarrow> fa_alloc_contig n fa = (addr, fa') \<Longrightarrow> addr \<noteq> 0 \<Longrightarrow>
    fa_step (fa, held) (fa', held \<union> {addr div 4096 ..< addr div 4096 + n})"
| contig_zero: "fa_alloc_contig n fa = (0, fa') \<Longrightarrow> fa_step (fa, held) (fa', held)"
| free: "k \<in> held \<Longrightarrow> fa_step (fa, held) (fa_free (k * 4096) fa, held - {k})"

inductive fa_reachable :: "mem_map \<Rightarrow> frame_allocator \<times> nat set \<Rightarrow> bool" for mm where
  start: "fa_reachable mm (fa_init mm frame_allocator_new, {})"
| step: "fa_reachable mm s \<Longrightarrow> fa_step s t \<Longrightarrow> fa_reachable mm t"

text \<open>The frames that may never be handed out: outside every usable region, or the kernel's own.\<close>

definition reserved_frame :: "mem_map \<Rightarrow> nat \<Rightarrow> bool" where
  "reserved_frame mm i \<longleftrightarrow> kernel_frame i \<or> \<not> (\<exists>r \<in> set (live_regions mm). in_region r i)"

definition fa_inv :: "mem_map \<Rightarrow> frame_allocator \<times> nat set \<Rightarrow> bool" where
  "fa_inv mm s \<longleftrightarrow> (\<forall>i. frame_free (fst s) i \<longrightarrow> i \<notin> snd s \<and> \<not> reserved_frame mm i) \<and>
     (\<forall>i \<in> snd s. i < MAX_FRAMES \<and> \<not> reserved_frame mm i)"

lemma fa_inv_init: "fa_inv mm (fa_init mm fa, {})"
  using fa_init_bits [of _ mm fa]
  by (auto simp: fa_inv_def frame_free_def reserved_frame_def)

lemma fa_inv_take:
  assumes "fa_inv mm (fa, held)" "\<forall>i \<in> S. frame_free fa i"
    "\<And>i. frame_free fa' i \<longleftrightarrow> frame_free fa i \<and> i \<notin> S"
  shows "fa_inv mm (fa', held \<union> S)" "fa_inv mm (fa', held)"
proof -
  have "\<forall>i \<in> S. i < MAX_FRAMES" using assms(2) by (simp add: frame_free_def)
  with assms show "fa_inv mm (fa', held \<union> S)" by (auto simp: fa_inv_def)
  from assms show "fa_inv mm (fa', held)" by (auto simp: fa_inv_def)
qed

lemma fa_inv_alloc:
  assumes "fa_inv mm (fa, held)" "fa_alloc fa = (addr, fa')"
  shows "addr \<noteq> 0 \<Longrightarrow> fa_inv mm (fa', insert (addr div 4096) held)" "fa_inv mm (fa', held)"
proof (atomize (full), cases fa rule: fa_alloc_cases)
  case (found idx)
  with assms(2) have "addr = idx * 4096" and
    "\<And>i. frame_free fa' i \<longleftrightarrow> frame_free fa i \<and> i \<notin> {idx}"
    by (auto simp: frame_free_set)
  then show "(addr \<noteq> 0 \<longrightarrow> fa_inv mm (fa', insert (addr div 4096) held)) \<and> fa_inv mm (fa', held)"
    using fa_inv_take [OF assms(1), of "{idx}" fa'] found(1) by simp
qed (use assms in simp)

lemma fa_inv_contig:
  assumes "fa_inv mm (fa, held)" "fa_alloc_contig n fa = (addr, fa')" "0 < n"
  shows "addr \<noteq> 0 \<Longrightarrow> fa_inv mm (fa', held \<union> {addr div 4096 ..< addr div 4096 + n})"
    "fa_inv mm (fa', held)"
proof (atomize (full), cases fa rule: fa_alloc_contig_cases [OF assms(3)])
  case (1 s)
  with assms(2) have "addr = s * 4096" and
    "\<And>i. frame_free fa' i \<longleftrightarrow> frame_free fa i \<and> i \<notin> {s ..< s + n}"
    by (auto simp: frame_free_set_run)
  then show "(addr \<noteq> 0 \<longrightarrow> fa_inv mm (fa', held \<union> {addr div 4096 ..< addr div 4096 + n})) \<and>
      fa_inv mm (fa', held)"
    using fa_inv_take [OF assms(1), of "{s ..< s + n}" fa'] 1(1) by (simp add: run_free_def)
qed (use assms in simp)

lemma fa_inv_step: "fa_step s t \<Longrightarrow> fa_inv mm s \<Longrightarrow> fa_inv mm t"
proof (induction rule: fa_step.induct)
  case (contig_zero n fa fa' held)
  then show ?case
    using fa_inv_contig(2) [of mm fa held n 0 fa'] by (cases "n = 0") (auto simp: fa_alloc_contig_def)
next
  case (free k held fa)
  then show ?case by (auto simp: fa_inv_def frame_free_free)
qed (use fa_inv_alloc fa_inv_contig in blast)+

lemma fa_reachable_inv: "fa_reachable mm s \<Longrightarrow> fa_inv mm s"
  by (induction rule: fa_reachable.induct) (auto intro: fa_inv_init fa_inv_step)

section \<open>Accounting\<close>

lemma used_frames_set:
  assumes "frame_free fa k"
  shows "used_frames (fa\<lparr>fbitmap := fa_set_bit (fbitmap fa) k, frames_used := u, next_hint := h\<rparr>) =
    used_frames fa + 1"
  using assms bits.used_on_fresh [of k MAX_FRAMES "fbitmap fa"]
  by (simp add: used_frames_def frame_free_def)

lemma used_frames_set_run:
  assumes "run_free fa s n"
  shows "used_frames (fa\<lparr>fbitmap := fold (\<lambda>j bm. fa_set_bit bm (s + j)) [0..<n] (fbitmap fa),
    frames_used := u, next_hint := h\<rparr>) = used_frames fa + n"
  using assms bits.used_fold_on_fresh [of "(+) s" "[0..<n]" MAX_FRAMES "fbitmap fa"]
  by (auto simp: used_frames_def frame_free_def run_free_def)

lemma used_frames_free:
  assumes "addr div 4096 < MAX_FRAMES" "fa_test_bit (fbitmap fa) (addr div 4096)"
  shows "used_frames (fa_free addr fa) + 1 = used_frames fa"
  using assms bits.used_off [of "addr div 4096" MAX_FRAMES "fbitmap fa"]
  by (simp add: used_frames_def fa_free_def PAGE_SHIFT_def Let_def)

lemma used_frames_bound: "used_frames fa \<le> MAX_FRAMES"
  using card_mono [of "{..<MAX_FRAMES}" "{i. i < MAX_FRAMES \<and> fa_test_bit (fbitmap fa) i}"]
  by (auto simp: used_frames_def)

lemma used_plus_free: "used_frames fa + card {i. frame_free fa i} = MAX_FRAMES"
proof -
  have "{..<MAX_FRAMES} = {i. i < MAX_FRAMES \<and> fa_test_bit (fbitmap fa) i} \<union> {i. frame_free fa i}"
    by (auto simp: frame_free_def)
  then have "card {..<MAX_FRAMES} = used_frames fa + card {i. frame_free fa i}"
    by (simp add: used_frames_def card_Un_disjoint frame_free_def disjoint_iff)
  then show ?thesis by simp
qed

text \<open>On the BIOS path the pool is one region; the frames left after the reservation follow.\<close>

lemma frame_free_bios:
  "frame_free (fa_init bios_fallback fa) i \<longleftrightarrow> 4096 \<le> i \<and> i < 16384"
  using fa_init_bits [of i bios_fallback fa]
  by (auto simp: frame_free_def live_bios in_region_def kernel_frame_def KERNEL_BASE_def
      KERNEL_STACK_TOP_def PAGE_SIZE_def MAX_FRAMES_val)

lemma used_frames_bios: "used_frames (fa_init bios_fallback fa) = 53248"
proof -
  have "{i. frame_free (fa_init bios_fallback fa) i} = {4096 ..< 16384}"
    by (auto simp: frame_free_bios)
  with used_plus_free [of "fa_init bios_fallback fa"] show ?thesis
    by (simp add: MAX_FRAMES_val)
qed

lemma frames_used_bios: "frames_used (fa_init bios_fallback frame_allocator_new) = 49664"
  using live_bios
  by (simp add: fa_init_def Let_def live_regions_def fa_add_region_def clear_frames_usable
      PAGE_SIZE_def MAX_FRAMES_val frame_allocator_new_def del: upt_rec_numeral)

text \<open>Every operation moves the counter and the bitmap by the same amount, up to wrap-around.\<close>

definition drift :: "nat \<Rightarrow> frame_allocator \<Rightarrow> bool" where
  "drift d fa \<longleftrightarrow> (frames_used fa + d) mod 2 ^ 64 = used_frames fa"

lemma mod_add_swap: "((a + n) mod m + d) mod m = ((a + d) mod m + n) mod (m :: nat)"
  by (simp add: mod_add_left_eq add.assoc add.commute [of n d])

lemma drift_add:
  assumes "drift d fa" "used_frames fa' = used_frames fa + n" "frames_used fa' = wadd64 (frames_used fa) n"
  shows "drift d fa'"
proof -
  have "(frames_used fa' + d) mod 2 ^ 64 = ((frames_used fa + d) mod 2 ^ 64 + n) mod 2 ^ 64"
    using assms(3) by (simp only: wadd64_def mod_add_swap [of _ n])
  with assms used_frames_bound [of fa'] show ?thesis by (simp add: drift_def MAX_FRAMES_val)
qed

lemma drift_alloc:
  assumes "drift d fa"
  shows "drift d (snd (fa_alloc fa))"
proof (cases fa rule: fa_alloc_cases)
  case (found idx)
  show ?thesis unfolding found(3)
    by (rule drift_add [OF assms used_frames_set [OF found(1)]]) simp
qed (use assms in simp)

lemma drift_contig:
  assumes "drift d fa"
  shows "drift d (snd (fa_alloc_contig n fa))"
proof (cases "n = 0")
  case False
  then have "0 < n" by simp
  then show ?thesis
  proof (cases fa rule: fa_alloc_contig_cases [OF \<open>0 < n\<close>])
    case (1 s)
    show ?thesis unfolding 1(3) snd_conv
      by (rule drift_add [OF assms used_frames_set_run [OF 1(1)]]) simp
  qed (use assms in simp)
qed (use assms in \<open>simp add: fa_alloc_contig_def\<close>)

lemma drift_free:
  assumes "drift d fa"
  shows "drift d (fa_free addr fa)"
proof (cases "addr div 4096 < MAX_FRAMES \<and> fa_test_bit (fbitmap fa) (addr div 4096)")
  case True
  let ?fa' = "fa_free addr fa"
  have used: "used_frames ?fa' + 1 = used_frames fa" using True used_frames_free by blast
  have "frames_used ?fa' = wsub64 (frames_used fa) 1"
    using True by (simp add: fa_free_def PAGE_SHIFT_def Let_def)
  then have "((frames_used ?fa' + d) mod 2 ^ 64 + 1) mod 2 ^ 64 = (frames_used fa + d) mod 2 ^ 64"
    by (simp add: wsub64_def mod_Suc_eq split: if_splits)
  with assms used have "((frames_used ?fa' + d) mod 2 ^ 64 + 1) mod 2 ^ 64 = used_frames ?fa' + 1"
    by (simp add: drift_def)
  then show ?thesis by (simp add: drift_def mod_Suc split: if_splits)
qed (use assms in \<open>auto simp: fa_free_def PAGE_SHIFT_def Let_def\<close>)

lemma drift_step: "fa_step s t \<Longrightarrow> drift d (fst s) \<Longrightarrow> drift d (fst t)"
  by (induction rule: fa_step.induct)
    (metis drift_alloc drift_contig drift_free fst_conv snd_conv)+

lemma drift_reachable: "fa_reachable bios_fallback s \<Longrightarrow> drift 3584 (fst s)"
proof (induction rule: fa_reachable.induct)
  case start
  show ?case by (simp add: drift_def frames_used_bios used_frames_bios)
qed (rule drift_step)

lemma bios_alloc_nonzero: "fst (fa_alloc (fa_init bios_fallback fa)) \<noteq> 0"
proof (cases "fa_init bios_fallback fa" rule: fa_alloc_cases)
  case (found idx)
  then show ?thesis by (simp add: frame_free_bios)
next
  case full
  then have "\<not> frame_free (fa_init bios_fallback fa) 4096" by blast
  then show ?thesis by (simp add: frame_free_bios)
qed

lemma bios_contig:
  assumes "0 < n" "n \<le> 12288"
  shows "fst (fa_alloc_contig n (fa_init bios_fallback fa)) = 0x1000000"
proof -
  let ?fa = "fa_init bios_fallback fa"
  have run: "run_free ?fa s n \<longleftrightarrow> 4096 \<le> s \<and> s + n \<le> 16384" for s
  proof
    assume r: "run_free ?fa s n"
    with assms(1) have "frame_free ?fa s" and "frame_free ?fa (s + n - 1)"
      by (auto simp: run_free_def)
    then show "4096 \<le> s \<and> s + n \<le> 16384" using assms(1) by (auto simp: frame_free_bios)
  qed (auto simp: run_free_def frame_free_bios MAX_FRAMES_val)
  show ?thesis
  proof (cases ?fa rule: fa_alloc_contig_cases [OF assms(1)])
    case (1 s)
    have "\<not> 4096 < s" using 1(2) run [of 4096] assms by auto
    with 1 show ?thesis by (simp add: run)
  next
    case 2
    with assms run [of 4096] show ?thesis by simp
  qed
qed

section \<open>Properties\<close>

text \<open>C1.  \<open>alloc\<close> is correct on every branch: whenever some frame is free it takes one free frame,
  returns its address, marks that frame and no other as used; when no frame is free it returns 0
  and changes nothing.\<close>

theorem fa_alloc_correct:
  "if \<exists>i. frame_free fa i
   then \<exists>k. frame_free fa k \<and> fst (fa_alloc fa) = k * PAGE_SIZE \<and>
     (\<forall>i. frame_free (snd (fa_alloc fa)) i \<longleftrightarrow> frame_free fa i \<and> i \<noteq> k) \<and>
     used_frames (snd (fa_alloc fa)) = used_frames fa + 1
   else fa_alloc fa = (0, fa)"
proof (cases fa rule: fa_alloc_cases)
  case (found idx)
  with used_frames_set [OF found(1)] show ?thesis
    unfolding found(2,3) by (auto simp: frame_free_set PAGE_SIZE_def)
qed simp

text \<open>C2.  \<open>alloc_contig\<close> is first fit: if a run of \<open>n > 0\<close> free frames exists it returns the address of
  the lowest one and marks exactly that run as used; otherwise (also for \<open>n = 0\<close>) it returns 0 and
  changes nothing.\<close>

theorem fa_alloc_contig_first_fit:
  "if n \<noteq> 0 \<and> (\<exists>s. run_free fa s n)
   then \<exists>s. s = (LEAST s. run_free fa s n) \<and> run_free fa s n \<and>
     fst (fa_alloc_contig n fa) = s * PAGE_SIZE \<and>
     (\<forall>i. frame_free (snd (fa_alloc_contig n fa)) i \<longleftrightarrow> frame_free fa i \<and> i \<notin> {s ..< s + n}) \<and>
     used_frames (snd (fa_alloc_contig n fa)) = used_frames fa + n
   else fa_alloc_contig n fa = (0, fa)"
proof (cases "n = 0")
  case False
  then have "0 < n" by simp
  then show ?thesis
  proof (cases fa rule: fa_alloc_contig_cases [OF \<open>0 < n\<close>])
    case (1 s)
    then have "s = (LEAST s. run_free fa s n)"
      by (metis LeastI Least_le le_neq_implies_less)
    with 1(1) used_frames_set_run [OF 1(1)] False show ?thesis
      unfolding 1(3) by (auto simp: frame_free_set_run PAGE_SIZE_def)
  qed simp
qed (simp add: fa_alloc_contig_def)

text \<open>C3.  In every run of the allocator from boot, in which clients free only frames they hold, no
  frame is handed out twice and no reserved frame (outside the usable regions, or belonging to the
  kernel image and stack) is ever handed out, by \<open>alloc\<close> or by \<open>alloc_contig\<close>.\<close>

theorem fa_no_double_handout:
  assumes "fa_reachable mm (fa, held)"
  shows "(fst (fa_alloc fa) \<noteq> 0 \<longrightarrow>
       (let k = fst (fa_alloc fa) div PAGE_SIZE in k \<notin> held \<and> \<not> reserved_frame mm k)) \<and>
     (fst (fa_alloc_contig n fa) \<noteq> 0 \<longrightarrow>
       (\<forall>i < n. let k = fst (fa_alloc_contig n fa) div PAGE_SIZE + i in
          k \<notin> held \<and> \<not> reserved_frame mm k))" (is "?one \<and> ?run")
proof
  have inv: "k \<notin> held \<and> \<not> reserved_frame mm k" if "frame_free fa k" for k
    using fa_reachable_inv [OF assms] that by (simp add: fa_inv_def)
  show ?one
    by (cases fa rule: fa_alloc_cases) (simp_all add: inv PAGE_SIZE_def Let_def)
  show ?run
  proof (cases "0 < n")
    case True
    then show ?thesis
      by (cases fa rule: fa_alloc_contig_cases [OF True])
        (simp_all add: inv PAGE_SIZE_def run_free_def Let_def)
  qed simp
qed

theorem fa_no_double_handout_witness:
  "\<not> reserved_frame bios_fallback (fst (fa_alloc (fa_init bios_fallback frame_allocator_new)) div PAGE_SIZE)
   \<and> \<not> reserved_frame bios_fallback (0x1000000 div PAGE_SIZE + 2047)"
  using fa_no_double_handout [OF fa_reachable.start, of bios_fallback 2048]
  by (auto simp: bios_alloc_nonzero bios_contig Let_def)

text \<open>The usage counter does not count the kernel reservation: on the BIOS path, in every
  reachable state, the bitmap marks 3584 frames more as used than \<open>frames_used\<close> reports (modulo the
  width of the counter).\<close>

theorem fa_counter_drift:
  assumes "fa_reachable bios_fallback (fa, held)"
  shows "(frames_used fa + 3584) mod 2 ^ 64 = used_frames fa"
  using drift_reachable [OF assms] by (simp add: drift_def)

theorem fa_counter_drift_witness:
  "(frames_used (fa_init bios_fallback frame_allocator_new) + 3584) mod 2 ^ 64 =
     used_frames (fa_init bios_fallback frame_allocator_new)"
  by (rule fa_counter_drift [OF fa_reachable.start])

end
