(* ===== verification/Heap.thy ===== *)
theory Heap
  imports Frame_Alloc
begin

text \<open>
  The kernel heap, \<open>kernel/src/mem/heap.rs\<close>: a bump allocator over 2048 contiguous frames, with
  \<open>mark\<close> and \<open>reset_to\<close> to give back everything allocated since a point.  The counters and
  addresses are 64-bit words; physical memory, which \<open>init\<close> clears, is a store from addresses to
  bytes.  A request is a \<open>core::alloc::Layout\<close>, whose documented guarantees are \<open>layout_ok\<close>.
\<close>

section \<open>State and operations\<close>

definition HEAP_PAGES :: nat where "HEAP_PAGES = 2048"
definition HEAP_SIZE :: nat where "HEAP_SIZE = HEAP_PAGES * 4096"

record bump_alloc =
  heap_start :: u64
  heap_end :: u64
  hnext :: u64
  allocs :: u64
  frees :: u64
  bytes_in_use :: u64

definition HEAP :: bump_alloc where
  "HEAP = \<lparr>heap_start = 0, heap_end = 0, hnext = 0, allocs = 0, frees = 0, bytes_in_use = 0\<rparr>"

type_synonym memory = "nat \<Rightarrow> u8"

definition heap_init ::
  "frame_allocator \<Rightarrow> bump_alloc \<Rightarrow> memory \<Rightarrow> frame_allocator \<times> bump_alloc \<times> memory" where
  "heap_init fa h m =
     (let (phys, fa) = fa_alloc_contig HEAP_PAGES fa in
      if phys = 0 then (fa, h, m)
      else (fa,
            h\<lparr>heap_start := of_nat phys, heap_end := of_nat (phys + HEAP_SIZE),
              hnext := of_nat phys\<rparr>,
            \<lambda>a. if phys \<le> a \<and> a < phys + HEAP_SIZE then 0 else m a))"

record layout =
  lsize :: u64
  lalign :: u64

definition heap_alloc :: "layout \<Rightarrow> bump_alloc \<Rightarrow> u64 \<times> bump_alloc" where
  "heap_alloc l h =
     (let start = hnext h;
          aligned = (start + lalign l - 1) AND NOT (lalign l - 1);
          new_next = aligned + lsize l in
      if new_next > heap_end h then (0, h)
      else (aligned, h\<lparr>hnext := new_next, allocs := allocs h + 1,
                       bytes_in_use := bytes_in_use h + lsize l\<rparr>))"

definition heap_dealloc :: "u64 \<Rightarrow> layout \<Rightarrow> bump_alloc \<Rightarrow> bump_alloc" where
  "heap_dealloc ptr l h = h"

definition heap_mark :: "bump_alloc \<Rightarrow> u64" where
  "heap_mark h = hnext h"

definition heap_reset_to :: "u64 \<Rightarrow> bump_alloc \<Rightarrow> bump_alloc" where
  "heap_reset_to m h = (if m < heap_start h \<or> m > heap_end h then h else h\<lparr>hnext := m\<rparr>)"

definition heap_used :: "bump_alloc \<Rightarrow> nat" where
  "heap_used h = unat (hnext h) - unat (heap_start h)"

definition heap_free :: "bump_alloc \<Rightarrow> nat" where
  "heap_free h = unat (heap_end h) - unat (hnext h)"

section \<open>Invariant\<close>

definition heap_wf :: "bump_alloc \<Rightarrow> bool" where
  "heap_wf h \<longleftrightarrow> heap_start h \<le> hnext h \<and> hnext h \<le> heap_end h \<and> unat (heap_end h) < 2 ^ 62"

definition layout_ok :: "layout \<Rightarrow> bool" where
  "layout_ok l \<longleftrightarrow> 0 < unat (lsize l) \<and> (\<exists>k < 63. lalign l = 2 ^ k) \<and>
     unat (lsize l) + unat (lalign l) \<le> 2 ^ 63"

lemma unat_align_down: "unat ((a :: u64) AND NOT (2 ^ k - 1)) = unat a div 2 ^ k * 2 ^ k"
proof -
  have "unat (a AND NOT (mask k)) = push_bit k (drop_bit k (unat a))"
    by (rule bit_eqI) (auto simp: bit_simps dest: bit_imp_le_length)
  then show ?thesis
    by (simp add: mask_eq_exp_minus_1 drop_bit_eq_div push_bit_eq_mult)
qed

lemma round_up_bounds:
  assumes "0 < (d :: nat)"
  shows "n \<le> (n + d - 1) div d * d" "(n + d - 1) div d * d < n + d"
proof -
  have "(n + d - 1) div d * d + (n + d - 1) mod d = n + d - 1" by simp
  moreover have "(n + d - 1) mod d < d" using assms by simp
  ultimately show "n \<le> (n + d - 1) div d * d" "(n + d - 1) div d * d < n + d"
    using assms by linarith+
qed

text \<open>The word arithmetic of \<open>alloc\<close> does not wrap on a well-formed heap and a valid layout.\<close>

lemma heap_alloc_nat:
  assumes "heap_wf h" "layout_ok l"
  defines "a \<equiv> (unat (hnext h) + unat (lalign l) - 1) div unat (lalign l) * unat (lalign l)"
  shows "unat ((hnext h + lalign l - 1) AND NOT (lalign l - 1)) = a"
    and "unat (((hnext h + lalign l - 1) AND NOT (lalign l - 1)) + lsize l) = a + unat (lsize l)"
    and "unat (hnext h) \<le> a" and "0 < unat (lalign l)"
proof -
  from assms(2) obtain k where k: "k < 63" "lalign l = 2 ^ k" by (auto simp: layout_ok_def)
  then have al: "unat (lalign l) = 2 ^ k"
    using unat_of_nat [of "2 ^ k", where ?'a = 64] power_strict_increasing [of k 64 "2 :: nat"] by simp
  have n: "unat (hnext h) < 2 ^ 62"
    using assms(1) by (auto simp: heap_wf_def word_le_nat_alt)
  have sz: "unat (lsize l) + 2 ^ k \<le> 2 ^ 63" using assms(2) al by (simp add: layout_ok_def)
  have sum: "unat (hnext h + lalign l) = unat (hnext h) + 2 ^ k"
    using n sz al by (simp add: unat_word_ariths)
  then have "hnext h + lalign l \<noteq> 0" by (metis al add_is_0 power_not_zero unat_0 zero_neq_numeral)
  then have "unat (hnext h + lalign l - 1) = unat (hnext h) + 2 ^ k - 1"
    using sum by (simp add: unat_minus_one)
  then show 1: "unat ((hnext h + lalign l - 1) AND NOT (lalign l - 1)) = a"
    using unat_align_down [of "hnext h + lalign l - 1" k] by (simp add: k(2) a_def al [unfolded k(2)])
  show "0 < unat (lalign l)" by (simp add: al)
  show "unat (hnext h) \<le> a"
    using round_up_bounds(1) [of "2 ^ k" "unat (hnext h)"] by (simp add: a_def al)
  have "a < unat (hnext h) + 2 ^ k"
    using round_up_bounds(2) [of "2 ^ k" "unat (hnext h)"] by (simp add: a_def al)
  with 1 n sz show
    "unat (((hnext h + lalign l - 1) AND NOT (lalign l - 1)) + lsize l) = a + unat (lsize l)"
    by (simp add: unat_word_ariths)
qed

lemma heap_alloc_cases:
  assumes "heap_wf h" "layout_ok l"
  obtains (oom) "heap_alloc l h = (0, h)"
      "unat (heap_end h) < unat (hnext h) + unat (lalign l) + unat (lsize l)"
  | (ok) p h' where "heap_alloc l h = (p, h')" "unat (lalign l) dvd unat p"
      "unat (hnext h) \<le> unat p" "unat (hnext h') = unat p + unat (lsize l)"
      "hnext h' \<le> heap_end h" "heap_end h' = heap_end h" "heap_start h' = heap_start h"
      "heap_wf h'"
proof -
  note nat = heap_alloc_nat [OF assms]
  let ?p = "(hnext h + lalign l - 1) AND NOT (lalign l - 1)"
  show ?thesis
  proof (cases "?p + lsize l > heap_end h")
    case True
    then have "unat (heap_end h) < unat ?p + unat (lsize l)"
      by (simp only: word_less_nat_alt nat)
    moreover have "unat ?p < unat (hnext h) + unat (lalign l)"
      using round_up_bounds(2) [OF nat(4)] by (simp add: nat)
    ultimately have "unat (heap_end h) < unat (hnext h) + unat (lalign l) + unat (lsize l)" by simp
    with True show ?thesis by (intro oom) (simp_all add: heap_alloc_def Let_def)
  next
    case False
    let ?h = "h\<lparr>hnext := ?p + lsize l, allocs := allocs h + 1, bytes_in_use := bytes_in_use h + lsize l\<rparr>"
    have "heap_alloc l h = (?p, ?h)" using False by (simp add: heap_alloc_def Let_def)
    moreover have "heap_start h \<le> ?p + lsize l"
      using assms(1) nat by (simp add: heap_wf_def word_le_nat_alt)
    ultimately show ?thesis
      using False assms(1) round_up_bounds(1) [OF nat(4), of "unat (hnext h)"]
      by (intro ok [of ?p ?h]) (simp_all add: nat heap_wf_def)
  qed
qed

text \<open>The heap as a bump arena: a successful allocation of a valid layout.\<close>

definition heap_give :: "bump_alloc \<Rightarrow> nat \<Rightarrow> nat \<Rightarrow> bump_alloc \<Rightarrow> bool" where
  "heap_give h a n h' \<longleftrightarrow> heap_wf h \<and>
     (\<exists>l p. layout_ok l \<and> n = unat (lsize l) \<and> a = unat p \<and> p \<noteq> 0 \<and> heap_alloc l h = (p, h'))"

interpretation heap_arena: bump_arena "\<lambda>h. unat (hnext h)" heap_give
proof
  fix h a n h'
  assume "heap_give h a n h'"
  then obtain l p where l: "heap_wf h" "layout_ok l" "n = unat (lsize l)" "a = unat p" "p \<noteq> 0"
    "heap_alloc l h = (p, h')" by (auto simp: heap_give_def)
  then show "unat (hnext h) \<le> a \<and> a + n \<le> unat (hnext h')"
    by (cases rule: heap_alloc_cases [OF l(1,2)]) auto
qed

section \<open>Runs of the heap\<close>

text \<open>
  A run, with the blocks that are live and the marks that have been taken.  \<open>reset_to m\<close> is called
  with a mark that was taken, and gives up the blocks that do not end at or below it.
\<close>

inductive heap_step ::
  "bump_alloc \<times> block list \<times> u64 set \<Rightarrow> bump_alloc \<times> block list \<times> u64 set \<Rightarrow> bool" where
  alloc: "layout_ok l \<Longrightarrow> heap_alloc l h = (p, h') \<Longrightarrow> p \<noteq> 0 \<Longrightarrow>
    heap_step (h, bs, ms) (h', (unat p, unat (lsize l)) # bs, ms)"
| oom: "layout_ok l \<Longrightarrow> heap_alloc l h = (0, h') \<Longrightarrow> heap_step (h, bs, ms) (h', bs, ms)"
| dealloc: "heap_step (h, bs, ms) (heap_dealloc ptr l h, filter (\<lambda>b. fst b \<noteq> unat ptr) bs, ms)"
| mark: "heap_step (h, bs, ms) (h, bs, insert (heap_mark h) ms)"
| reset: "m \<in> ms \<Longrightarrow>
    heap_step (h, bs, ms) (heap_reset_to m h, filter (\<lambda>b. fst b + snd b \<le> unat m) bs,
      {k \<in> ms. k \<le> m})"

inductive heap_reachable :: "bump_alloc \<Rightarrow> bump_alloc \<times> block list \<times> u64 set \<Rightarrow> bool" for h0 where
  start: "heap_reachable h0 (h0, [], {})"
| step: "heap_reachable h0 s \<Longrightarrow> heap_step s t \<Longrightarrow> heap_reachable h0 t"

definition heap_inv :: "bump_alloc \<Rightarrow> bump_alloc \<times> block list \<times> u64 set \<Rightarrow> bool" where
  "heap_inv h0 = (\<lambda>(h, bs, ms). heap_wf h \<and> heap_start h = heap_start h0 \<and> heap_end h = heap_end h0 \<and>
     blocks_below (unat (hnext h)) bs \<and> all_apart bs \<and>
     list_all (\<lambda>b. unat (heap_start h) \<le> fst b) bs \<and>
     (\<forall>m \<in> ms. heap_start h \<le> m \<and> m \<le> hnext h))"

lemma heap_alloc_null:
  assumes "heap_wf h" "layout_ok l" "heap_alloc l h = (0, h')" "heap_start h \<noteq> 0"
  shows "h' = h"
  using assms(3,4)
proof (cases rule: heap_alloc_cases [OF assms(1,2)])
  case (2 p h'')
  with assms show ?thesis by (auto simp: heap_wf_def word_le_nat_alt unat_eq_zero)
qed simp

lemma heap_inv_step:
  assumes "heap_step s t" "heap_inv h0 s" "heap_start h0 \<noteq> 0"
  shows "heap_inv h0 t"
  using assms
proof (induction rule: heap_step.induct)
  case (alloc l h p h' bs ms)
  then have wf: "heap_wf h" by (simp add: heap_inv_def)
  have give: "heap_give h (unat p) (unat (lsize l)) h'"
    using alloc wf by (auto simp: heap_give_def)
  with alloc.prems heap_arena.give_keeps [OF give, of bs]
  have "all_apart ((unat p, unat (lsize l)) # bs)"
    "blocks_below (unat (hnext h')) ((unat p, unat (lsize l)) # bs)" by (auto simp: heap_inv_def)
  moreover have "heap_wf h'" "heap_start h' = heap_start h" "heap_end h' = heap_end h"
    "unat (hnext h) \<le> unat p" "hnext h \<le> hnext h'"
    using alloc(2,3) by (cases rule: heap_alloc_cases [OF wf alloc(1)]; auto simp: word_le_nat_alt)+
  moreover have "unat (heap_start h) \<le> unat (hnext h)"
    using wf by (simp add: heap_wf_def word_le_nat_alt)
  ultimately show ?case using alloc.prems(1) by (auto simp: heap_inv_def)
next
  case (oom l h h' bs ms)
  then have "h' = h" using heap_alloc_null by (auto simp: heap_inv_def)
  with oom show ?case by simp
next
  case (dealloc h bs ms ptr l)
  then show ?case
    by (auto simp: heap_inv_def heap_dealloc_def all_apart_filter blocks_below_def list_all_iff)
next
  case (reset m ms h bs)
  then show ?case
    by (auto simp: heap_inv_def heap_reset_to_def heap_wf_def all_apart_filter blocks_below_def
        list_all_iff not_less)
qed (auto simp: heap_inv_def heap_mark_def heap_wf_def)

lemma heap_reachable_inv:
  assumes "heap_reachable h0 s" "heap_wf h0" "heap_start h0 \<noteq> 0"
  shows "heap_inv h0 s"
  using assms
proof (induction rule: heap_reachable.induct)
  case start
  then show ?case by (simp add: heap_inv_def blocks_below_def all_apart_def)
qed (blast intro: heap_inv_step)

section \<open>Initialisation\<close>

lemma heap_init_wf:
  assumes "heap_init fa h m = (fa', h', m')" "h' \<noteq> h"
  shows "heap_wf h' \<and> heap_start h' \<noteq> 0"
proof -
  have pos: "0 < HEAP_PAGES" by (simp add: HEAP_PAGES_def)
  from assms obtain s where s: "run_free fa s HEAP_PAGES" "s \<noteq> 0"
      "h' = h\<lparr>heap_start := of_nat (s * 4096), heap_end := of_nat (s * 4096 + HEAP_SIZE),
        hnext := of_nat (s * 4096)\<rparr>"
    by (cases fa rule: fa_alloc_contig_cases [OF pos])
      (auto simp: heap_init_def Let_def split: if_splits)
  have "s + 2048 \<le> 65536" using s(1) by (simp add: run_free_def MAX_FRAMES_val HEAP_PAGES_def)
  then have "unat (of_nat (s * 4096) :: u64) = s * 4096"
    "unat (of_nat (s * 4096 + HEAP_SIZE) :: u64) = s * 4096 + HEAP_SIZE"
    by (simp_all only: unat_of_nat, simp_all add: HEAP_SIZE_def HEAP_PAGES_def)
  with s(2,3) \<open>s + 2048 \<le> 65536\<close> show ?thesis
    by (simp add: heap_wf_def word_le_nat_alt unat_eq_zero [symmetric] HEAP_SIZE_def HEAP_PAGES_def
        del: unat_of_nat of_nat_mult of_nat_add)
qed

section \<open>Properties\<close>

text \<open>C4.  In every run of the heap (allocations, failures, deallocations, marks and resets to taken
  marks) the live blocks lie inside the heap and are pairwise disjoint, the bump pointer stays
  inside the heap, and the next allocation of a valid layout is aligned, inside the heap and
  disjoint from every live block, or fails without changing the heap.\<close>

theorem heap_blocks_disjoint:
  assumes "heap_wf h0" "heap_start h0 \<noteq> 0" "heap_reachable h0 (h, bs, ms)" "layout_ok l"
    and "heap_alloc l h = (p, h')"
  shows "all_apart bs \<and>
    list_all (\<lambda>b. unat (heap_start h0) \<le> fst b \<and> fst b + snd b \<le> unat (heap_end h0)) bs \<and>
    (if p = 0 then h' = h
     else unat (lalign l) dvd unat p \<and> unat (heap_start h0) \<le> unat p \<and>
       unat p + unat (lsize l) \<le> unat (heap_end h0) \<and>
       list_all (apart (unat p, unat (lsize l))) bs)"
proof -
  from heap_reachable_inv [OF assms(3,1,2)] have inv: "heap_inv h0 (h, bs, ms)" .
  then have wf: "heap_wf h" and st: "heap_start h = heap_start h0" "heap_end h = heap_end h0"
    by (simp_all add: heap_inv_def)
  have le: "unat (heap_start h) \<le> unat (hnext h)" "unat (hnext h) \<le> unat (heap_end h)"
    using wf by (simp_all add: heap_wf_def word_le_nat_alt)
  have "list_all (\<lambda>b. unat (heap_start h0) \<le> fst b \<and> fst b + snd b \<le> unat (heap_end h0)) bs"
    using inv le st by (fastforce simp: heap_inv_def blocks_below_def list_all_iff)
  moreover have "h' = h" if "p = 0"
    using heap_alloc_null [OF wf assms(4)] assms(2,5) st that by simp
  moreover have "unat (lalign l) dvd unat p \<and> unat (heap_start h0) \<le> unat p \<and>
      unat p + unat (lsize l) \<le> unat (heap_end h0)" if "p \<noteq> 0"
    using assms(5) that le st
    by (cases rule: heap_alloc_cases [OF wf assms(4)]) (auto simp: word_le_nat_alt)
  moreover have "list_all (apart (unat p, unat (lsize l))) bs" if "p \<noteq> 0"
    using heap_arena.give_fresh [of h "unat p" "unat (lsize l)" h' bs] assms(4,5) that wf inv
    by (auto simp: heap_give_def heap_inv_def)
  ultimately show ?thesis using inv by (simp add: heap_inv_def)
qed

definition sample_heap :: bump_alloc where
  "sample_heap = HEAP\<lparr>heap_start := 0x1000000, heap_end := 0x1800000, hnext := 0x1000000\<rparr>"

lemma sample_layout: "layout_ok \<lparr>lsize = 24, lalign = 8\<rparr>"
  unfolding layout_ok_def by (intro conjI exI [of _ "3 :: nat"]) simp_all

theorem heap_blocks_disjoint_witness:
  "list_all (apart (0x1000018, 24)) [(0x1000000, 24)]"
proof -
  let ?l = "\<lparr>lsize = 24, lalign = 8\<rparr>"
  let ?h = "snd (heap_alloc ?l sample_heap)"
  have wf: "heap_wf sample_heap" "heap_start sample_heap \<noteq> 0"
    by (simp_all add: heap_wf_def sample_heap_def HEAP_def)
  have "heap_step (sample_heap, [], {}) (?h, [(unat (0x1000000 :: u64), unat (lsize ?l))], {})"
    by (rule heap_step.alloc [OF sample_layout])
      (simp_all add: heap_alloc_def sample_heap_def HEAP_def)
  from heap_reachable.step [OF heap_reachable.start this]
  have reach: "heap_reachable sample_heap (?h, [(0x1000000, 24)], {})" by simp
  have "heap_alloc ?l ?h = (0x1000018, snd (heap_alloc ?l ?h))"
    by (simp add: heap_alloc_def sample_heap_def HEAP_def)
  from heap_blocks_disjoint [OF wf reach sample_layout this] show ?thesis by simp
qed

lemma heap_allocs_keep:
  assumes "h' = fold (\<lambda>l h. snd (heap_alloc l h)) ls h"
  shows "heap_start h' = heap_start h \<and> heap_end h' = heap_end h"
  using assms by (induction ls arbitrary: h) (auto simp: heap_alloc_def Let_def)

text \<open>A reset to a mark undoes any sequence of allocations made since: the bump pointer is back
  where it was, so every later request is answered as it would have been, while the allocation
  counters keep the values they reached.\<close>

theorem heap_mark_reset:
  assumes "heap_wf h" "h' = fold (\<lambda>l h. snd (heap_alloc l h)) ls h"
  shows "hnext (heap_reset_to (heap_mark h) h') = hnext h \<and>
    heap_free (heap_reset_to (heap_mark h) h') = heap_free h \<and>
    heap_used (heap_reset_to (heap_mark h) h') = heap_used h \<and>
    fst (heap_alloc l (heap_reset_to (heap_mark h) h')) = fst (heap_alloc l h) \<and>
    allocs (heap_reset_to (heap_mark h) h') = allocs h' \<and>
    bytes_in_use (heap_reset_to (heap_mark h) h') = bytes_in_use h'"
proof -
  have "heap_reset_to (heap_mark h) h' = h'\<lparr>hnext := hnext h\<rparr>"
    using assms(1) heap_allocs_keep [OF assms(2)]
    by (auto simp: heap_reset_to_def heap_mark_def heap_wf_def)
  with heap_allocs_keep [OF assms(2)] show ?thesis
    by (simp add: heap_free_def heap_used_def heap_alloc_def Let_def)
qed

theorem heap_mark_reset_witness:
  "bytes_in_use (heap_reset_to (heap_mark sample_heap)
     (snd (heap_alloc \<lparr>lsize = 24, lalign = 8\<rparr> sample_heap))) = 24"
proof -
  have wf: "heap_wf sample_heap" by (simp add: heap_wf_def sample_heap_def HEAP_def)
  have "snd (heap_alloc \<lparr>lsize = 24, lalign = 8\<rparr> sample_heap) =
      fold (\<lambda>l h. snd (heap_alloc l h)) [\<lparr>lsize = 24, lalign = 8\<rparr>] sample_heap" by simp
  from heap_mark_reset [OF wf this] show ?thesis
    by (simp add: heap_alloc_def sample_heap_def HEAP_def)
qed

end
