(* ===== verification/Paging.thy ===== *)
theory Paging
  imports Heap
begin

text \<open>
  The kernel's own page tables, \<open>kernel/src/mem/paging.rs\<close>, and the start-up sequence of the memory
  subsystem, \<open>kernel/src/mem/mod.rs\<close>.  The physical addresses of the two static tables are chosen by
  the linker and are parameters.  The four-level page walk of the processor, for the entries this
  code writes, is the specification the tables are checked against.
\<close>

section \<open>The tables\<close>

definition ENTRY_COUNT :: nat where "ENTRY_COUNT = 512"
definition FLAG_PRESENT :: u64 where "FLAG_PRESENT = push_bit 0 1"
definition FLAG_WRITABLE :: u64 where "FLAG_WRITABLE = push_bit 1 1"
definition FLAG_HUGE_PAGE :: u64 where "FLAG_HUGE_PAGE = push_bit 7 1"

type_synonym page_table = "nat \<Rightarrow> u64"

record paging =
  pml4 :: page_table
  pdpt0 :: page_table
  PML4_PHYS :: u64
  MAP_BYTES :: u64
  cr3 :: u64

definition zero_table :: "page_table \<Rightarrow> page_table" where
  "zero_table t = (\<lambda>i. if i < ENTRY_COUNT then 0 else t i)"

definition paging_remap :: "u64 \<Rightarrow> u64 \<Rightarrow> paging \<Rightarrow> paging" where
  "paging_remap pml4_phys pdpt0_phys p =
     p\<lparr>pml4 := (zero_table (pml4 p))
         (0 := pdpt0_phys OR FLAG_PRESENT OR FLAG_WRITABLE,
          511 := pdpt0_phys OR FLAG_PRESENT OR FLAG_WRITABLE),
       pdpt0 := fold (\<lambda>i t. t(i := push_bit 30 (of_nat i) OR FLAG_PRESENT OR FLAG_WRITABLE OR FLAG_HUGE_PAGE))
         [0..<4] (zero_table (pdpt0 p)),
       PML4_PHYS := pml4_phys,
       cr3 := pml4_phys,
       MAP_BYTES := 4 * 1024 * 1024 * 1024\<rparr>"

section \<open>The page walk\<close>

text \<open>Bits 12 to 51 of an entry are an address; a present entry with the page-size bit at the second
  level maps 1 GiB.\<close>

definition entry_addr :: "u64 \<Rightarrow> u64" where
  "entry_addr e = e AND 0x000FFFFFFFFFF000"

definition walk_1g :: "(u64 \<Rightarrow> page_table option) \<Rightarrow> u64 \<Rightarrow> u64 \<Rightarrow> u64 option" where
  "walk_1g table_at base va =
     (case table_at base of
        None \<Rightarrow> None
      | Some l4 \<Rightarrow>
          let e4 = l4 (unat (drop_bit 39 va AND 511)) in
          if e4 AND 1 = 0 then None
          else case table_at (entry_addr e4) of
            None \<Rightarrow> None
          | Some l3 \<Rightarrow>
              let e3 = l3 (unat (drop_bit 30 va AND 511)) in
              if e3 AND 1 = 0 \<or> e3 AND 0x80 = 0 then None
              else Some ((e3 AND 0x000FFFFFC0000000) OR (va AND 0x3FFFFFFF)))"

definition tables_of :: "u64 \<Rightarrow> u64 \<Rightarrow> paging \<Rightarrow> u64 \<Rightarrow> page_table option" where
  "tables_of pml4_phys pdpt0_phys p a =
     (if a = pml4_phys then Some (pml4 p) else if a = pdpt0_phys then Some (pdpt0 p) else None)"

definition translate :: "u64 \<Rightarrow> u64 \<Rightarrow> paging \<Rightarrow> u64 \<Rightarrow> u64 option" where
  "translate pml4_phys pdpt0_phys p va = walk_1g (tables_of pml4_phys pdpt0_phys p) (cr3 p) va"

definition table_addr :: "u64 \<Rightarrow> bool" where
  "table_addr a \<longleftrightarrow> entry_addr a = a"

lemmas flags = FLAG_PRESENT_def FLAG_WRITABLE_def FLAG_HUGE_PAGE_def

lemma entry_flags:
  assumes "table_addr a"
  shows "entry_addr (a OR FLAG_PRESENT OR FLAG_WRITABLE) = a"
    and "(a OR FLAG_PRESENT OR FLAG_WRITABLE) AND 1 \<noteq> 0"
proof -
  have "entry_addr (a OR FLAG_PRESENT OR FLAG_WRITABLE) = entry_addr a OR entry_addr 3"
    by (simp add: entry_addr_def flags word_bw_assocs bit.conj_disj_distrib2)
  then show "entry_addr (a OR FLAG_PRESENT OR FLAG_WRITABLE) = a"
    using assms by (simp add: table_addr_def entry_addr_def)
  show "(a OR FLAG_PRESENT OR FLAG_WRITABLE) AND 1 \<noteq> 0"
    by (simp add: flags and_one_eq mod_2_eq_odd even_or_iff)
qed

lemma idx_512: "unat ((w :: u64) AND 511) < 512"
proof -
  have "w AND 511 = take_bit 9 w" by (simp add: take_bit_eq_mask mask_eq_exp_minus_1)
  then show ?thesis using take_bit_nat_less_exp [of 9 "unat w"] by (simp add: unsigned_take_bit_eq)
qed

lemma remap_pdpt:
  assumes "i < 512"
  shows "pdpt0 (paging_remap a b p) i =
    (if i < 4 then push_bit 30 (of_nat i) OR 0x83 else 0)"
proof -
  have "[0..<4] = [0, 1, 2, 3 :: nat]" by (simp add: upt_rec)
  moreover have "i = 0 \<or> i = 1 \<or> i = 2 \<or> i = 3 \<or> \<not> i < 4" by arith
  ultimately show ?thesis using assms
    by (auto simp: paging_remap_def zero_table_def ENTRY_COUNT_def flags or.assoc)
qed

lemma remap_pml4:
  assumes "i < 512"
  shows "pml4 (paging_remap a b p) i =
    (if i = 0 \<or> i = 511 then b OR FLAG_PRESENT OR FLAG_WRITABLE else 0)"
  using assms by (simp add: paging_remap_def zero_table_def ENTRY_COUNT_def)

lemma split_at_30:
  assumes "drop_bit 30 va AND 511 = (j :: u64)" "j = 0 \<or> j = 1 \<or> j = 2 \<or> j = 3"
  shows "push_bit 30 j OR (va AND 0x3FFFFFFF) = va AND 0xFFFFFFFF"
proof -
  have "j = j AND 3" using assms(2) by auto
  also have "\<dots> = take_bit 2 (drop_bit 30 va)"
    by (simp add: assms(1) [symmetric] and.assoc take_bit_eq_mask mask_eq_exp_minus_1)
  finally have j: "j = take_bit 2 (drop_bit 30 va)" .
  have "push_bit 30 (take_bit 2 (drop_bit 30 va)) OR take_bit 30 va = take_bit 32 va"
    by (rule bit_word_eqI) (auto simp: bit_simps)
  then show ?thesis by (simp add: j take_bit_eq_mask mask_eq_exp_minus_1)
qed

lemma small_cases:
  assumes "(j :: u64) < 4"
  shows "j = 0 \<or> j = 1 \<or> j = 2 \<or> j = 3"
proof -
  have "unat j < 4" using assms by (simp add: word_less_nat_alt)
  then have "unat j = unat (0 :: u64) \<or> unat j = unat (1 :: u64) \<or> unat j = unat (2 :: u64) \<or>
      unat j = unat (3 :: u64)" by (simp, arith)
  then show ?thesis by (simp only: word_unat_eq_iff)
qed

lemma walk_entry:
  assumes "drop_bit 30 va AND 511 = (j :: u64)"
  shows "(let e3 = pdpt0 (paging_remap a b p) (unat j) in
      if e3 AND 1 = 0 \<or> e3 AND 0x80 = 0 then None
      else Some ((e3 AND 0x000FFFFFC0000000) OR (va AND 0x3FFFFFFF))) =
    (if j < 4 then Some (va AND 0xFFFFFFFF) else None)"
proof (cases "j < 4")
  case True
  from small_cases [OF this] split_at_30 [OF assms] show ?thesis
    by (auto simp: remap_pdpt)
next
  case False
  then have "\<not> unat j < 4" by (simp add: word_less_nat_alt)
  with idx_512 [of "drop_bit 30 va"] False show ?thesis by (simp add: remap_pdpt assms)
qed

section \<open>Start-up of the memory subsystem (mod.rs)\<close>

record mem_state =
  bi :: mem_map
  fa_state :: frame_allocator
  heap_state :: bump_alloc
  page_state :: paging
  phys_mem :: memory
  INITIALIZED :: bool

text \<open>The boot-time self test of the heap allocates on the heap and is not part of the model.\<close>

definition mem_init ::
  "(nat \<Rightarrow> efi_memory_descriptor) \<Rightarrow> u64 \<Rightarrow> u64 \<Rightarrow> boot_info_c option \<Rightarrow> mem_state \<Rightarrow> mem_state" where
  "mem_init rd pml4_phys pdpt0_phys boot_info s =
     (let mm = parse_into rd boot_info (bi s);
          fa = fa_init mm (fa_state s);
          pg = paging_remap pml4_phys pdpt0_phys (page_state s);
          (fa, h, m) = heap_init fa (heap_state s) (phys_mem s)
      in s\<lparr>bi := mm, fa_state := fa, page_state := pg, heap_state := h, phys_mem := m,
           INITIALIZED := True\<rparr>)"

lemma low_va:
  assumes "(va :: u64) < 2 ^ 32"
  shows "drop_bit 39 va AND 511 = 0" "drop_bit 30 va AND 511 < 4" "va AND 0xFFFFFFFF = va"
proof -
  have u: "unat va < 2 ^ 32" using assms by (simp add: word_less_nat_alt)
  have d: "unat (drop_bit n va) = unat va div 2 ^ n" for n
    unfolding unat_drop_bit_eq by (rule drop_bit_eq_div)
  have "unat (drop_bit 39 va) = 0" "unat (drop_bit 30 va) < unat (4 :: u64)"
    using u by (simp_all only: d, simp_all add: less_mult_imp_div_less)
  then have "drop_bit 39 va = 0" "drop_bit 30 va < 4"
    by (simp_all only: unat_eq_zero word_less_nat_alt)
  then show "drop_bit 39 va AND 511 = 0" and "drop_bit 30 va AND 511 < 4"
    using le_less_trans [OF word_and_le2 [of "drop_bit 30 va" 511], of 4] by auto
  have "take_bit 32 (unat va) = unat va" using u by (simp add: take_bit_nat_eq_self)
  then have "take_bit 32 va = va"
    by (metis unsigned_take_bit_eq word_unat_eq_iff)
  then show "va AND 0xFFFFFFFF = va" by (simp add: take_bit_eq_mask mask_eq_exp_minus_1)
qed

lemma heap_init_bios:
  "heap_init (fa_init bios_fallback fa) h m =
     (snd (fa_alloc_contig HEAP_PAGES (fa_init bios_fallback fa)),
      h\<lparr>heap_start := 0x1000000, heap_end := 0x1800000, hnext := 0x1000000\<rparr>,
      \<lambda>a. if 0x1000000 \<le> a \<and> a < 0x1800000 then 0 else m a)"
  using bios_contig [of HEAP_PAGES fa]
  by (simp add: heap_init_def HEAP_PAGES_def HEAP_SIZE_def case_prod_unfold Let_def fun_eq_iff)

lemma heap_frames_used:
  assumes "4096 \<le> i" "i < 6144"
  shows "\<not> frame_free (snd (fa_alloc_contig HEAP_PAGES (fa_init bios_fallback fa))) i"
proof -
  have pos: "0 < HEAP_PAGES" by (simp add: HEAP_PAGES_def)
  show ?thesis
  proof (cases "fa_init bios_fallback fa" rule: fa_alloc_contig_cases [OF pos])
    case (1 s)
    moreover from 1 bios_contig [of HEAP_PAGES fa] have "s = 4096" by (simp add: HEAP_PAGES_def)
    ultimately show ?thesis using assms by (simp add: frame_free_set_run HEAP_PAGES_def)
  next
    case 2
    with bios_contig [of HEAP_PAGES fa] show ?thesis by (simp add: HEAP_PAGES_def)
  qed
qed

lemma remap_translate:
  assumes "table_addr pml4_phys" "table_addr pdpt0_phys" "pml4_phys \<noteq> pdpt0_phys"
  shows "translate pml4_phys pdpt0_phys (paging_remap pml4_phys pdpt0_phys p) va =
      (if drop_bit 39 va AND 511 \<in> {0, 511} \<and> drop_bit 30 va AND 511 < 4
       then Some (va AND 0xFFFFFFFF) else None)"
proof -
  let ?p = "paging_remap pml4_phys pdpt0_phys p" and ?i = "drop_bit 39 va AND 511"
  have cr3: "cr3 ?p = pml4_phys" by (simp add: paging_remap_def)
  have slot: "unat ?i = 0 \<or> unat ?i = 511 \<longleftrightarrow> ?i \<in> {0, 511}"
    using word_unat_eq_iff [of ?i 511] by (simp add: unat_eq_zero)
  show ?thesis
  proof (cases "?i \<in> {0, 511}")
    case True
    then have "pml4 ?p (unat ?i) = pdpt0_phys OR FLAG_PRESENT OR FLAG_WRITABLE"
      using idx_512 slot by (simp add: remap_pml4)
    with True entry_flags [OF assms(2)] assms(3)
      walk_entry [OF refl, where a = pml4_phys and b = pdpt0_phys and p = p and va = va]
    show ?thesis by (simp add: translate_def walk_1g_def cr3 tables_of_def Let_def)
  next
    case False
    then have "pml4 ?p (unat ?i) = 0" using idx_512 slot by (simp add: remap_pml4)
    with False show ?thesis by (simp add: translate_def walk_1g_def cr3 tables_of_def)
  qed
qed

section \<open>Properties\<close>

text \<open>C5.  After \<open>remap\<close> the processor translates exactly the addresses whose 512 GiB slot is the
  first or the last one and whose 1 GiB slot is one of the first four, and translates them to
  their low 32 bits: the first 4 GiB are mapped one to one, the same 4 GiB appear again at the top
  of the address space, and nothing else is mapped.\<close>

theorem remap_identity:
  fixes p :: paging
  assumes "table_addr pml4_phys" "table_addr pdpt0_phys" "pml4_phys \<noteq> pdpt0_phys"
  defines "p' \<equiv> paging_remap pml4_phys pdpt0_phys p"
  shows "translate pml4_phys pdpt0_phys p' va =
      (if drop_bit 39 va AND 511 \<in> {0, 511} \<and> drop_bit 30 va AND 511 < 4
       then Some (va AND 0xFFFFFFFF) else None)
    \<and> (va < 2 ^ 32 \<longrightarrow> translate pml4_phys pdpt0_phys p' va = Some va)"
  using remap_translate [OF assms(1-3)] low_va [of va] by (simp add: p'_def)

theorem remap_identity_witness:
  "translate 0x102000 0x103000 (paging_remap 0x102000 0x103000
     \<lparr>pml4 = (\<lambda>_. 0), pdpt0 = (\<lambda>_. 0), PML4_PHYS = 0, MAP_BYTES = 0, cr3 = 0\<rparr>)
     0xFFFFFF80FEC00000 = Some 0xFEC00000"
  using remap_identity [where pml4_phys = "0x102000" and pdpt0_phys = "0x103000" and
    va = "0xFFFFFF80FEC00000" and
    p = "\<lparr>pml4 = (\<lambda>_. 0), pdpt0 = (\<lambda>_. 0), PML4_PHYS = 0, MAP_BYTES = 0, cr3 = 0\<rparr>"]
  by (simp add: table_addr_def entry_addr_def)

text \<open>Start-up without a boot-info block: the heap is the 8 MiB from 16 MiB on, it is
  well-formed and cleared, every address of it is mapped to itself, and none of its frames is left
  free in the frame allocator.\<close>

theorem mem_init_bios:
  fixes rd :: "nat \<Rightarrow> efi_memory_descriptor"
  assumes "bi s = mem_map_new"
    and "table_addr pml4_phys" "table_addr pdpt0_phys" "pml4_phys \<noteq> pdpt0_phys"
    and "0x1000000 \<le> a" "a < 0x1800000"
  defines "t \<equiv> mem_init rd pml4_phys pdpt0_phys None s"
  shows "INITIALIZED t \<and> heap_wf (heap_state t) \<and>
    heap_start (heap_state t) = 0x1000000 \<and> heap_end (heap_state t) = 0x1800000 \<and>
    heap_used (heap_state t) = 0 \<and> phys_mem t (unat a) = 0 \<and>
    translate pml4_phys pdpt0_phys (page_state t) a = Some a \<and>
    \<not> frame_free (fa_state t) (unat a div PAGE_SIZE)"
proof -
  have bios: "parse_into rd None (bi s) = bios_fallback"
    by (simp add: parse_into_def bios_fallback_def assms(1))
  let ?fa = "fa_init bios_fallback (fa_state s)"
  have t: "t = s\<lparr>bi := bios_fallback, fa_state := snd (fa_alloc_contig HEAP_PAGES ?fa),
      page_state := paging_remap pml4_phys pdpt0_phys (page_state s),
      heap_state := (heap_state s)\<lparr>heap_start := 0x1000000, heap_end := 0x1800000, hnext := 0x1000000\<rparr>,
      phys_mem := \<lambda>a. if 0x1000000 \<le> a \<and> a < 0x1800000 then 0 else phys_mem s a,
      INITIALIZED := True\<rparr>"
    by (simp add: t_def mem_init_def bios heap_init_bios)
  have u: "0x1000000 \<le> unat a" "unat a < 0x1800000"
    using assms(5,6) by (simp_all add: word_le_nat_alt word_less_nat_alt)
  have "a < 2 ^ 32" using assms(6) by (rule less_trans) simp
  then have "translate pml4_phys pdpt0_phys (page_state t) a = Some a"
    using remap_translate [OF assms(2-4)] by (simp add: t low_va)
  moreover have "\<not> frame_free (fa_state t) (unat a div PAGE_SIZE)"
    using u by (simp add: t heap_frames_used PAGE_SIZE_def)
  ultimately show ?thesis using u by (simp add: t heap_wf_def heap_used_def)
qed

theorem mem_init_bios_witness:
  "translate 0x102000 0x103000 (page_state (mem_init (\<lambda>_. undefined) 0x102000 0x103000 None
     \<lparr>bi = mem_map_new, fa_state = frame_allocator_new, heap_state = HEAP,
      page_state = \<lparr>pml4 = (\<lambda>_. 0), pdpt0 = (\<lambda>_. 0), PML4_PHYS = 0, MAP_BYTES = 0, cr3 = 0\<rparr>,
      phys_mem = (\<lambda>_. 0), INITIALIZED = False\<rparr>)) 0x1234567 = Some 0x1234567"
  using mem_init_bios [of "\<lparr>bi = mem_map_new, fa_state = frame_allocator_new, heap_state = HEAP,
      page_state = \<lparr>pml4 = (\<lambda>_. 0), pdpt0 = (\<lambda>_. 0), PML4_PHYS = 0, MAP_BYTES = 0, cr3 = 0\<rparr>,
      phys_mem = (\<lambda>_. 0), INITIALIZED = False\<rparr>" "0x102000" "0x103000" "0x1234567" "\<lambda>_. undefined"]
  by (simp add: table_addr_def entry_addr_def)

end
