(* ===== verification/Proc.thy ===== *)
theory Proc
  imports Heap
begin

text \<open>
  Processes: \<open>kernel/src/proc/process.rs\<close> (control blocks and the process table),
  \<open>scheduler.rs\<close> (round robin), \<open>thread.rs\<close> (spawning kernel threads), \<open>context.rs\<close> (the switch),
  \<open>syscall.rs\<close> (the \<open>int 0x80\<close> dispatcher) and \<open>mod.rs\<close> (start-up).  The statics of these files
  are one record.  The address of the trampoline, a linker constant, is a parameter.  Log lines are
  left out; \<open>serial_out\<close> collects what the write system call sends.
\<close>

section \<open>Control blocks (context.rs, process.rs)\<close>

record cpu_context =
  r15 :: u64  r14 :: u64  r13 :: u64  r12 :: u64  r11 :: u64  r10 :: u64  r9 :: u64  r8 :: u64
  rdi :: u64  rsi :: u64  rbp :: u64  rdx :: u64  rcx :: u64  rbx :: u64  rax :: u64
  rip :: u64  rflags :: u64

definition cpu_context_empty :: cpu_context where
  "cpu_context_empty =
     \<lparr>r15 = 0, r14 = 0, r13 = 0, r12 = 0, r11 = 0, r10 = 0, r9 = 0, r8 = 0, rdi = 0, rsi = 0,
      rbp = 0, rdx = 0, rcx = 0, rbx = 0, rax = 0, rip = 0, rflags = 0\<rparr>"

definition MAX_PROCESSES :: nat where "MAX_PROCESSES = 16"

datatype process_state = Free | Ready | Running | Blocked | Exited

record pcb =
  pid :: u64
  pstate :: process_state
  pname :: bytes
  name_len :: nat
  rsp :: u64
  stack_top :: u64
  pcontext :: cpu_context
  ticks :: u64
  switches :: u64

definition pcb_empty :: pcb where
  "pcb_empty =
     \<lparr>pid = 0, pstate = Free, pname = replicate 16 0, name_len = 0, rsp = 0, stack_top = 0,
      pcontext = cpu_context_empty, ticks = 0, switches = 0\<rparr>"

definition set_name :: "bytes \<Rightarrow> pcb \<Rightarrow> pcb" where
  "set_name nm p =
     (let n = min (length nm) 15 in
      p\<lparr>pname := (put_at 0 (take n nm) (pname p))[n := 0], name_len := n\<rparr>)"

record proc =
  proc_table :: "pcb list"
  NEXT_PID :: u64
  ENABLED :: bool
  CURRENT_SLOT :: nat
  CONTEXT_SWITCHES :: u64
  SYSCALL_COUNT :: u64
  FRAME_ALLOC :: "frame_allocator option"
  pmem :: memory
  serial_out :: bytes
  proc_initialized :: bool

definition alloc_slot :: "proc \<Rightarrow> nat option" where
  "alloc_slot s = first_from (\<lambda>i. pstate (proc_table s ! i) = Free) 0 MAX_PROCESSES"

definition alloc_pid :: "proc \<Rightarrow> u64 \<times> proc" where
  "alloc_pid s = (NEXT_PID s, s\<lparr>NEXT_PID := NEXT_PID s + 1\<rparr>)"

definition create_idle :: "proc \<Rightarrow> proc" where
  "create_idle s =
     s\<lparr>proc_table := (proc_table s)[0 :=
         (set_name (str ''idle'') ((proc_table s ! 0)\<lparr>pid := 0, pstate := Ready\<rparr>))
           \<lparr>ticks := 0, switches := 0\<rparr>]\<rparr>"

definition process_count :: "proc \<Rightarrow> nat" where
  "process_count s = length (filter (\<lambda>p. pstate p \<noteq> Free) (proc_table s))"

section \<open>Scheduling (scheduler.rs)\<close>

definition sched_enable :: "proc \<Rightarrow> proc" where
  "sched_enable s = s\<lparr>ENABLED := True\<rparr>"

definition current_pid :: "proc \<Rightarrow> u64" where
  "current_pid s = pid (proc_table s ! CURRENT_SLOT s)"

definition find_next :: "proc \<Rightarrow> nat \<Rightarrow> nat" where
  "find_next s from_slot =
     (case first_from (\<lambda>i. pstate (proc_table s ! ((from_slot + i) mod MAX_PROCESSES)) = Ready)
             1 (MAX_PROCESSES + 1) of
        Some i \<Rightarrow> (from_slot + i) mod MAX_PROCESSES
      | None \<Rightarrow> 0)"

definition sched_tick :: "proc \<Rightarrow> proc" where
  "sched_tick s =
     (if \<not> ENABLED s then s
      else
        let cur = CURRENT_SLOT s; nxt = find_next s cur in
        if nxt \<noteq> cur then
          let t = proc_table s;
              t = (if pstate (t ! cur) = Running then t[cur := (t ! cur)\<lparr>pstate := Ready\<rparr>] else t);
              t = t[cur := (t ! cur)\<lparr>ticks := ticks (t ! cur) + 1\<rparr>];
              t = t[nxt := (t ! nxt)\<lparr>pstate := Running\<rparr>];
              t = t[nxt := (t ! nxt)\<lparr>switches := switches (t ! nxt) + 1\<rparr>]
          in s\<lparr>proc_table := t, CURRENT_SLOT := nxt, CONTEXT_SWITCHES := CONTEXT_SWITCHES s + 1\<rparr>
        else s)"

definition yield_cpu :: "proc \<Rightarrow> proc" where
  "yield_cpu s = sched_tick s"

section \<open>Threads (thread.rs, context.rs)\<close>

definition write_u64 :: "nat \<Rightarrow> u64 \<Rightarrow> memory \<Rightarrow> memory" where
  "write_u64 a v m = (\<lambda>b. if a \<le> b \<and> b < a + 8 then to_le64 v ! (b - a) else m b)"

definition read_u64 :: "nat \<Rightarrow> memory \<Rightarrow> u64" where
  "read_u64 a m = from_le64 (map m [a ..< a + 8])"

definition alloc_stack :: "nat \<Rightarrow> frame_allocator \<Rightarrow> memory \<Rightarrow> nat \<times> frame_allocator \<times> memory" where
  "alloc_stack npages fa m =
     (let (phys, fa) = fa_alloc_contig npages fa in
      if phys = 0 then (0, fa, m)
      else (phys, fa, \<lambda>a. if phys \<le> a \<and> a < phys + npages * 4096 then 0 else m a))"

definition set_frame_allocator :: "frame_allocator \<Rightarrow> proc \<Rightarrow> proc" where
  "set_frame_allocator fa s = s\<lparr>FRAME_ALLOC := Some fa\<rparr>"

text \<open>The words \<open>spawn\<close> pushes, each 8 bytes below the one before.\<close>

definition initial_frame :: "u64 \<Rightarrow> u64 list" where
  "initial_frame trampoline = [0x202, trampoline, 0, 0, 0, 0, 0, 0]"

definition push_words :: "u64 list \<Rightarrow> nat \<times> memory \<Rightarrow> nat \<times> memory" where
  "push_words ws s = fold (\<lambda>w (sp, m). (sp - 8, write_u64 (sp - 8) w m)) ws s"

definition spawn :: "u64 \<Rightarrow> u64 \<Rightarrow> bytes \<Rightarrow> proc \<Rightarrow> u64 \<times> proc" where
  "spawn trampoline entry nm s =
     (case alloc_slot s of
        None \<Rightarrow> (0, s)
      | Some slot \<Rightarrow>
          case FRAME_ALLOC s of
            None \<Rightarrow> (0, s)
          | Some fa \<Rightarrow>
              let (stack_base, fa, m) = alloc_stack 4 fa (pmem s);
                  s = s\<lparr>FRAME_ALLOC := Some fa, pmem := m\<rparr> in
              if stack_base = 0 then (0, s)
              else
                let top = stack_base + 4 * 4096;
                    (new_pid, s) = alloc_pid s;
                    p = (set_name nm ((proc_table s ! slot)\<lparr>pid := new_pid, pstate := Ready\<rparr>))
                          \<lparr>stack_top := of_nat top, ticks := 0, switches := 0\<rparr>;
                    (sp, m) = push_words (initial_frame trampoline) (top, pmem s)
                in (new_pid, s\<lparr>proc_table := (proc_table s)[slot := p\<lparr>rsp := of_nat sp\<rparr>], pmem := m\<rparr>))"

text \<open>
  What the trampoline does before it calls the entry point it reads from the saved \<open>rdi\<close>: it copies
  the name, marks the thread running, and yields the entry address.
\<close>

definition thread_entry_trampoline :: "nat \<Rightarrow> proc \<Rightarrow> u64 \<times> bytes \<times> proc" where
  "thread_entry_trampoline slot s =
     (let p = proc_table s ! slot in
      (rdi (pcontext p), take (name_len p) (pname p),
       s\<lparr>proc_table := (proc_table s)[slot := p\<lparr>pstate := Running\<rparr>]\<rparr>))"

text \<open>\<open>exit\<close> marks the slot and then yields for ever; this is its state change and one iteration.\<close>

definition thread_exit_mark :: "nat \<Rightarrow> proc \<Rightarrow> proc" where
  "thread_exit_mark slot s =
     s\<lparr>proc_table := (proc_table s)[slot := (proc_table s ! slot)\<lparr>pstate := Exited\<rparr>]\<rparr>"

text \<open>The second half of \<open>context_switch\<close>: load the new stack pointer, pop the callee-saved
  registers and return.  The result is the popped registers, the resume address and the final
  stack pointer.\<close>

definition switch_in :: "nat \<Rightarrow> memory \<Rightarrow> u64 list \<times> u64 \<times> nat" where
  "switch_in sp m =
     (map (\<lambda>i. read_u64 (sp + 8 * i) m) [0..<6], read_u64 (sp + 48) m, sp + 56)"

section \<open>System calls (syscall.rs)\<close>

definition SYS_WRITE :: u64 where "SYS_WRITE = 0"
definition SYS_EXIT :: u64 where "SYS_EXIT = 1"
definition SYS_GETPID :: u64 where "SYS_GETPID = 2"
definition SYS_YIELD :: u64 where "SYS_YIELD = 3"
definition SYS_GETTICKS :: u64 where "SYS_GETTICKS = 4"

record syscall_regs =
  sr_rax :: u64  sr_rbx :: u64  sr_rcx :: u64  sr_rdx :: u64  sr_rsi :: u64  sr_rdi :: u64
  sr_r8 :: u64  sr_r9 :: u64  sr_r10 :: u64  sr_r11 :: u64  sr_r12 :: u64  sr_r13 :: u64
  sr_r14 :: u64  sr_r15 :: u64  sr_rbp :: u64

text \<open>\<open>timer\<close> is the interrupt handler's tick counter.\<close>

definition syscall_handler :: "u64 \<Rightarrow> syscall_regs \<Rightarrow> proc \<Rightarrow> syscall_regs \<times> proc" where
  "syscall_handler timer regs s =
     (let s = s\<lparr>SYSCALL_COUNT := SYSCALL_COUNT s + 1\<rparr>; nr = sr_rax regs in
      if nr = SYS_WRITE then
        let buf = unat (sr_rsi regs); len = unat (sr_rdx regs) in
        (regs\<lparr>sr_rax := of_nat len\<rparr>,
         s\<lparr>serial_out := serial_out s @ map (\<lambda>i. pmem s (buf + i)) [0..<len]\<rparr>)
      else if nr = SYS_EXIT then (regs\<lparr>sr_rax := 0\<rparr>, yield_cpu s)
      else if nr = SYS_GETPID then (regs\<lparr>sr_rax := current_pid s\<rparr>, s)
      else if nr = SYS_YIELD then (regs\<lparr>sr_rax := 0\<rparr>, yield_cpu s)
      else if nr = SYS_GETTICKS then (regs\<lparr>sr_rax := timer\<rparr>, s)
      else (regs\<lparr>sr_rax := - 1\<rparr>, s))"

text \<open>The boot-time test of the dispatcher; the address of its message is a linker constant.\<close>

definition syscall_test :: "u64 \<Rightarrow> u64 \<Rightarrow> proc \<Rightarrow> proc" where
  "syscall_test timer msg s =
     snd (syscall_handler timer
       \<lparr>sr_rax = SYS_WRITE, sr_rbx = 0, sr_rcx = 0, sr_rdx = 19, sr_rsi = msg, sr_rdi = 1, sr_r8 = 0,
        sr_r9 = 0, sr_r10 = 0, sr_r11 = 0, sr_r12 = 0, sr_r13 = 0, sr_r14 = 0, sr_r15 = 0,
        sr_rbp = 0\<rparr> s)"

definition proc_boot :: proc where
  "proc_boot =
     \<lparr>proc_table = replicate MAX_PROCESSES pcb_empty, NEXT_PID = 1, ENABLED = False, CURRENT_SLOT = 0,
      CONTEXT_SWITCHES = 0, SYSCALL_COUNT = 0, FRAME_ALLOC = None, pmem = (\<lambda>_. 0), serial_out = [],
      proc_initialized = False\<rparr>"

definition proc_init ::
  "u64 \<Rightarrow> u64 \<Rightarrow> u64 \<Rightarrow> u64 \<Rightarrow> u64 \<Rightarrow> u64 \<Rightarrow> proc \<Rightarrow> proc" where
  "proc_init timer trampoline thread_a thread_b thread_c msg s =
     (let s = create_idle s;
          s = snd (spawn trampoline thread_a (str ''thread-A'') s);
          s = snd (spawn trampoline thread_b (str ''thread-B'') s);
          s = snd (spawn trampoline thread_c (str ''thread-C'') s);
          s = sched_enable s;
          s = s\<lparr>proc_initialized := True\<rparr>;
          s = (sched_tick ^^ 20) s
      in syscall_test timer msg s)"

section \<open>Runs\<close>

inductive proc_step :: "proc \<Rightarrow> proc \<Rightarrow> bool" where
  spawn: "proc_step s (snd (spawn trampoline entry nm s))"
| enable: "proc_step s (sched_enable s)"
| tick: "proc_step s (sched_tick s)"
| first_run: "proc_step s (snd (snd (thread_entry_trampoline (CURRENT_SLOT s) s)))"
| exit: "CURRENT_SLOT s \<noteq> 0 \<Longrightarrow> proc_step s (thread_exit_mark (CURRENT_SLOT s) s)"
| syscall: "proc_step s (snd (syscall_handler timer regs s))"

inductive proc_reachable :: "proc \<Rightarrow> bool" where
  start: "proc_reachable (create_idle (proc_boot\<lparr>FRAME_ALLOC := fa, pmem := m\<rparr>))"
| step: "proc_reachable s \<Longrightarrow> proc_step s t \<Longrightarrow> proc_reachable t"

definition slot_state :: "proc \<Rightarrow> nat \<Rightarrow> process_state" where
  "slot_state s i = pstate (proc_table s ! i)"

text \<open>
  Slots are filled in order and never given back, so slot \<open>i\<close> holds process \<open>i\<close> and the next
  process number is the number of slots in use.
\<close>

definition proc_inv :: "proc \<Rightarrow> bool" where
  "proc_inv s \<longleftrightarrow> length (proc_table s) = 16 \<and> CURRENT_SLOT s < 16 \<and>
     (\<forall>i < 16. slot_state s i = Running \<longrightarrow> i = CURRENT_SLOT s) \<and>
     slot_state s 0 \<in> {Ready, Running} \<and> slot_state s (CURRENT_SLOT s) \<noteq> Free \<and>
     (\<exists>k \<le> 16. NEXT_PID s = of_nat k \<and>
        (\<forall>i < 16. slot_state s i = Free \<longleftrightarrow> k \<le> i) \<and> (\<forall>i < k. pid (proc_table s ! i) = of_nat i)) \<and>
     (\<forall>i < 16. pcontext (proc_table s ! i) = cpu_context_empty)"

lemma set_name_keeps [simp]:
  "pid (set_name nm p) = pid p" "pstate (set_name nm p) = pstate p"
  "pcontext (set_name nm p) = pcontext p"
  by (simp_all add: set_name_def Let_def)

lemma alloc_slot_Some:
  assumes "alloc_slot s = Some i"
  shows "i < 16 \<and> slot_state s i = Free \<and> (\<forall>j < i. slot_state s j \<noteq> Free)"
  using first_from_SomeD [OF assms [unfolded alloc_slot_def]]
  by (auto simp: MAX_PROCESSES_def slot_state_def)

subsection \<open>The round robin\<close>

lemma find_next_le:
  assumes "d \<in> {1..16}" "slot_state s ((c + d) mod 16) = Ready"
  obtains i where "find_next s c = (c + i) mod 16" "1 \<le> i" "i \<le> d"
    "slot_state s (find_next s c) = Ready"
proof (cases "first_from (\<lambda>i. pstate (proc_table s ! ((c + i) mod 16)) = Ready) 1 17")
  case None
  with assms show ?thesis by (auto simp: first_from_None_iff slot_state_def)
next
  case (Some i)
  from first_from_SomeD [OF Some] have i: "1 \<le> i" "i < 17"
    "slot_state s ((c + i) mod 16) = Ready" "\<forall>j. 1 \<le> j \<and> j < i \<longrightarrow> slot_state s ((c + j) mod 16) \<noteq> Ready"
    by (auto simp: slot_state_def)
  have "i \<le> d" using i(4) assms by (metis atLeastAtMost_iff not_le)
  with i Some show ?thesis by (intro that [of i]) (simp_all add: find_next_def MAX_PROCESSES_def)
qed

lemma find_next_cases:
  obtains (ready) "find_next s c < 16" "slot_state s (find_next s c) = Ready"
  | (none) "find_next s c = 0" "\<forall>j < 16. slot_state s j \<noteq> Ready"
proof (cases "first_from (\<lambda>i. pstate (proc_table s ! ((c + i) mod 16)) = Ready) 1 17")
  case None
  have "slot_state s j \<noteq> Ready" if "j < 16" for j
  proof -
    from mod_reach [OF that, of "c + 1"] obtain i where "i < 16" "(c + (i + 1)) mod 16 = j"
      by (auto simp: ac_simps)
    with None show ?thesis by (auto simp: first_from_None_iff slot_state_def dest: spec [of _ "i + 1"])
  qed
  with None show ?thesis by (intro none) (simp_all add: find_next_def MAX_PROCESSES_def)
next
  case (Some i)
  with first_from_SomeD [OF Some] show ?thesis
    by (intro ready) (simp_all add: find_next_def MAX_PROCESSES_def slot_state_def)
qed

lemma sched_tick_effect:
  assumes "length (proc_table s) = 16" "CURRENT_SLOT s < 16" "ENABLED s"
    and "find_next s (CURRENT_SLOT s) \<noteq> CURRENT_SLOT s" "find_next s (CURRENT_SLOT s) < 16"
  defines "c \<equiv> CURRENT_SLOT s" and "n \<equiv> find_next s (CURRENT_SLOT s)" and "t \<equiv> sched_tick s"
  shows "CURRENT_SLOT t = n" "ENABLED t" "NEXT_PID t = NEXT_PID s" "length (proc_table t) = 16"
    and "i < 16 \<Longrightarrow> slot_state t i = (if i = n then Running
           else if i = c \<and> slot_state s c = Running then Ready else slot_state s i)"
    and "i < 16 \<Longrightarrow> pid (proc_table t ! i) = pid (proc_table s ! i)"
    and "i < 16 \<Longrightarrow> pcontext (proc_table t ! i) = pcontext (proc_table s ! i)"
  using assms(1-5) unfolding c_def n_def t_def
  by (auto simp: sched_tick_def Let_def slot_state_def nth_list_update)

subsection \<open>The invariant\<close>

lemma proc_invD:
  assumes "proc_inv s"
  shows "length (proc_table s) = 16" "CURRENT_SLOT s < 16"
    "i < 16 \<Longrightarrow> slot_state s i = Running \<Longrightarrow> i = CURRENT_SLOT s"
    "slot_state s 0 = Ready \<or> slot_state s 0 = Running"
  using assms by (auto simp: proc_inv_def)

text \<open>An operation that keeps process numbers and the free slots keeps the rest by its effect on
  states alone.\<close>

lemma proc_inv_states:
  assumes "proc_inv s" "length (proc_table t) = 16" "NEXT_PID t = NEXT_PID s" "CURRENT_SLOT t < 16"
    and "\<And>i. i < 16 \<Longrightarrow> pid (proc_table t ! i) = pid (proc_table s ! i)"
    and "\<And>i. i < 16 \<Longrightarrow> pcontext (proc_table t ! i) = pcontext (proc_table s ! i)"
    and "\<And>i. i < 16 \<Longrightarrow> slot_state t i = Free \<longleftrightarrow> slot_state s i = Free"
    and "\<And>i. i < 16 \<Longrightarrow> slot_state t i = Running \<Longrightarrow> i = CURRENT_SLOT t"
    and "slot_state t 0 = Ready \<or> slot_state t 0 = Running" "slot_state t (CURRENT_SLOT t) \<noteq> Free"
  shows "proc_inv t"
proof -
  from assms(1) obtain k where "k \<le> 16" "NEXT_PID s = of_nat k"
    "\<forall>i < 16. slot_state s i = Free \<longleftrightarrow> k \<le> i" "\<forall>i < k. pid (proc_table s ! i) = of_nat i"
    by (auto simp: proc_inv_def)
  then have "k \<le> 16 \<and> NEXT_PID t = of_nat k \<and>
      (\<forall>i < 16. slot_state t i = Free \<longleftrightarrow> k \<le> i) \<and> (\<forall>i < k. pid (proc_table t ! i) = of_nat i)"
    using assms(3,5,7) by auto
  then show ?thesis using assms by (auto simp: proc_inv_def)
qed

lemma find_next_ready:
  assumes "proc_inv s" "find_next s (CURRENT_SLOT s) \<noteq> CURRENT_SLOT s"
  shows "find_next s (CURRENT_SLOT s) < 16 \<and> slot_state s (find_next s (CURRENT_SLOT s)) = Ready"
proof (cases s "CURRENT_SLOT s" rule: find_next_cases)
  case none
  with proc_invD(4) [OF assms(1)] have "slot_state s 0 = Running" by auto
  with proc_invD(3) [OF assms(1), of 0] none assms(2) show ?thesis by simp
qed simp

lemma tick_exited:
  assumes "proc_inv s" "i < 16"
  shows "slot_state (sched_tick s) i = Exited \<longleftrightarrow> slot_state s i = Exited"
proof (cases "ENABLED s \<and> find_next s (CURRENT_SLOT s) \<noteq> CURRENT_SLOT s")
  case True
  with find_next_ready [OF assms(1)] sched_tick_effect(5) [OF proc_invD(1,2) [OF assms(1)]] assms(2)
  show ?thesis by auto
qed (auto simp: sched_tick_def Let_def)

lemma proc_inv_tick:
  assumes inv: "proc_inv s"
  shows "proc_inv (sched_tick s)"
proof (cases "ENABLED s \<and> find_next s (CURRENT_SLOT s) \<noteq> CURRENT_SLOT s")
  case False
  with inv show ?thesis by (auto simp: sched_tick_def Let_def)
next
  case True
  let ?c = "CURRENT_SLOT s"
  let ?n = "find_next s ?c"
  note D = proc_invD [OF inv]
  have rdy: "?n < 16" "slot_state s ?n = Ready" using find_next_ready [OF inv] True by auto
  note eff = sched_tick_effect [OF D(1,2) conjunct1 [OF True] conjunct2 [OF True] rdy(1)]
  show ?thesis
  proof (rule proc_inv_states [OF inv eff(4,3) _ eff(6,7)])
    show "CURRENT_SLOT (sched_tick s) < 16" using rdy(1) by (simp add: eff)
    show "slot_state (sched_tick s) i = Free \<longleftrightarrow> slot_state s i = Free" if "i < 16" for i
      using that rdy(2) by (auto simp: eff(5))
    show "i = CURRENT_SLOT (sched_tick s)" if "i < 16" "slot_state (sched_tick s) i = Running" for i
      using that D(3) [of i] by (auto simp: eff(1,5) split: if_splits)
    show "slot_state (sched_tick s) 0 = Ready \<or> slot_state (sched_tick s) 0 = Running"
      using D(4) by (auto simp: eff(5))
    show "slot_state (sched_tick s) (CURRENT_SLOT (sched_tick s)) \<noteq> Free"
      using rdy(1) by (simp add: eff(1,5))
  qed
qed

lemma proc_inv_frame:
  assumes "proc_inv s" "proc_table t = proc_table s" "CURRENT_SLOT t = CURRENT_SLOT s"
    "NEXT_PID t = NEXT_PID s"
  shows "proc_inv t"
  using assms by (simp add: proc_inv_def slot_state_def)

lemma proc_inv_syscall:
  assumes "proc_inv s"
  shows "proc_inv (snd (syscall_handler timer regs s))"
proof -
  have c: "proc_inv (s\<lparr>SYSCALL_COUNT := SYSCALL_COUNT s + 1\<rparr>)"
    by (rule proc_inv_frame [OF assms]) simp_all
  have "proc_inv (s\<lparr>SYSCALL_COUNT := SYSCALL_COUNT s + 1, serial_out := out\<rparr>)" for out
    by (rule proc_inv_frame [OF assms]) simp_all
  with c proc_inv_tick [OF c] show ?thesis
    by (simp add: syscall_handler_def yield_cpu_def Let_def)
qed

lemma proc_inv_mark:
  assumes inv: "proc_inv s" and x: "x \<noteq> Free" "CURRENT_SLOT s = 0 \<Longrightarrow> x = Ready \<or> x = Running"
  defines "t \<equiv> s\<lparr>proc_table := (proc_table s)[CURRENT_SLOT s := (proc_table s ! CURRENT_SLOT s)\<lparr>pstate := x\<rparr>]\<rparr>"
  shows "proc_inv t"
proof -
  note D = proc_invD [OF inv]
  have cur: "CURRENT_SLOT t = CURRENT_SLOT s" by (simp add: t_def)
  have st: "slot_state t i = (if i = CURRENT_SLOT s then x else slot_state s i)" if "i < 16" for i
    using that D(1,2) by (simp add: slot_state_def t_def nth_list_update)
  have nf: "slot_state s (CURRENT_SLOT s) \<noteq> Free" using inv by (simp add: proc_inv_def)
  show ?thesis
  proof (rule proc_inv_states [OF inv])
    show "pid (proc_table t ! i) = pid (proc_table s ! i)"
      "pcontext (proc_table t ! i) = pcontext (proc_table s ! i)" if "i < 16" for i
      using that D(1,2) by (simp_all add: t_def nth_list_update)
    show "slot_state t i = Free \<longleftrightarrow> slot_state s i = Free" if "i < 16" for i
      using that x(1) nf by (simp add: st)
    show "i = CURRENT_SLOT t" if "i < 16" "slot_state t i = Running" for i
      using that D(3) by (auto simp: st cur split: if_splits)
    show "slot_state t 0 = Ready \<or> slot_state t 0 = Running" using x(2) D(4) by (auto simp: st)
  qed (use D(1,2) x(1) st [OF D(2)] in \<open>simp_all add: t_def\<close>)
qed

lemma proc_inv_new_slot:
  assumes inv: "proc_inv s" and slot: "alloc_slot s = Some i"
    and p: "pid p = NEXT_PID s" "pstate p = Ready" "pcontext p = cpu_context_empty"
    and t: "proc_table t = (proc_table s)[i := p]" "NEXT_PID t = NEXT_PID s + 1"
      "CURRENT_SLOT t = CURRENT_SLOT s"
  shows "proc_inv t"
proof -
  note D = proc_invD [OF inv]
  from inv obtain k where k: "k \<le> 16" "NEXT_PID s = of_nat k"
    "\<forall>i < 16. slot_state s i = Free \<longleftrightarrow> k \<le> i" "\<forall>i < k. pid (proc_table s ! i) = of_nat i"
    by (auto simp: proc_inv_def)
  from alloc_slot_Some [OF slot] k(3) have i: "i < 16" "k \<le> i" "\<forall>j < i. \<not> k \<le> j" by auto
  then have ik: "i = k" by (metis le_neq_implies_less le_refl)
  have nth: "proc_table t ! j = (if j = i then p else proc_table s ! j)" if "j < 16" for j
    using that D(1) by (simp add: t nth_list_update)
  have st: "slot_state t j = (if j = i then Ready else slot_state s j)" if "j < 16" for j
    using that by (simp add: slot_state_def nth p)
  have "i + 1 \<le> 16 \<and> NEXT_PID t = of_nat (i + 1) \<and>
      (\<forall>j < 16. slot_state t j = Free \<longleftrightarrow> i + 1 \<le> j) \<and> (\<forall>j < i + 1. pid (proc_table t ! j) = of_nat j)"
    using i(1) k ik by (auto simp: t(2) st nth p)
  moreover have "slot_state t (CURRENT_SLOT t) \<noteq> Free"
    using inv D(2) by (simp add: st t(3) proc_inv_def)
  moreover have "slot_state t 0 \<in> {Ready, Running}" using D(4) by (auto simp: st)
  moreover have "\<forall>j < 16. slot_state t j = Running \<longrightarrow> j = CURRENT_SLOT t"
    using D(3) by (auto simp: st t(3))
  moreover have "\<forall>j < 16. pcontext (proc_table t ! j) = cpu_context_empty"
    using inv by (auto simp: nth p proc_inv_def)
  ultimately show ?thesis using D(1,2) by (auto simp: proc_inv_def t(1,3) exI [of _ "i + 1"])
qed

text \<open>\<open>spawn\<close> either leaves the process table alone or fills the first free slot.\<close>

lemma spawn_cases:
  obtains (fail) "fst (spawn tr e nm s) = 0" "proc_table (snd (spawn tr e nm s)) = proc_table s"
      "CURRENT_SLOT (snd (spawn tr e nm s)) = CURRENT_SLOT s" "NEXT_PID (snd (spawn tr e nm s)) = NEXT_PID s"
  | (ok) slot fa base fa' p sp m where "alloc_slot s = Some slot" "FRAME_ALLOC s = Some fa"
      "fa_alloc_contig 4 fa = (base, fa')" "base \<noteq> 0" "fst (spawn tr e nm s) = NEXT_PID s"
      "p = (set_name nm ((proc_table s ! slot)\<lparr>pid := NEXT_PID s, pstate := Ready\<rparr>))
             \<lparr>stack_top := of_nat (base + 16384), ticks := 0, switches := 0, rsp := of_nat sp\<rparr>"
      "push_words (initial_frame tr)
         (base + 16384, \<lambda>a. if base \<le> a \<and> a < base + 16384 then 0 else pmem s a) = (sp, m)"
      "snd (spawn tr e nm s) = s\<lparr>FRAME_ALLOC := Some fa', NEXT_PID := NEXT_PID s + 1,
         proc_table := (proc_table s)[slot := p], pmem := m\<rparr>"
proof (cases "alloc_slot s")
  case None
  then show ?thesis by (intro fail) (simp_all add: spawn_def)
next
  case slot: (Some slot)
  show ?thesis
  proof (cases "FRAME_ALLOC s")
    case None
    with slot show ?thesis by (intro fail) (simp_all add: spawn_def)
  next
    case fa: (Some fa)
    obtain base fa' where alloc: "fa_alloc_contig 4 fa = (base, fa')" by fastforce
    obtain sp m where push: "push_words (initial_frame tr)
        (base + 16384, \<lambda>a. if base \<le> a \<and> a < base + 16384 then 0 else pmem s a) = (sp, m)" by fastforce
    show ?thesis
    proof (cases "base = 0")
      case True
      with slot fa alloc show ?thesis
        by (intro fail) (simp_all add: spawn_def alloc_stack_def Let_def)
    next
      case False
      with slot fa alloc push show ?thesis
        by (intro ok [OF slot fa alloc False _ refl push])
          (simp_all add: spawn_def alloc_stack_def Let_def alloc_pid_def)
    qed
  qed
qed

lemma proc_inv_spawn:
  assumes inv: "proc_inv s"
  shows "proc_inv (snd (spawn tr e nm s))"
proof (cases tr e nm s rule: spawn_cases)
  case fail
  then show ?thesis by (intro proc_inv_frame [OF inv]) simp_all
next
  case (ok slot fa base fa' p sp m)
  have "pcontext p = cpu_context_empty"
    using inv alloc_slot_Some [OF ok(1)] ok(6) by (simp add: proc_inv_def)
  with ok(6,8) show ?thesis by (intro proc_inv_new_slot [OF inv ok(1), of p]) simp_all
qed

lemma proc_inv_start: "proc_inv (create_idle (proc_boot\<lparr>FRAME_ALLOC := fa, pmem := m\<rparr>))"
proof -
  let ?s = "create_idle (proc_boot\<lparr>FRAME_ALLOC := fa, pmem := m\<rparr>)"
  have st: "slot_state ?s i = (if i = 0 then Ready else Free)" if "i < 16" for i
    using that by (simp add: slot_state_def create_idle_def proc_boot_def MAX_PROCESSES_def
        nth_list_update pcb_empty_def)
  have "(1 :: nat) \<le> 16 \<and> NEXT_PID ?s = of_nat 1 \<and> (\<forall>i < 16. slot_state ?s i = Free \<longleftrightarrow> 1 \<le> i) \<and>
      (\<forall>i < 1. pid (proc_table ?s ! i) = of_nat i)"
    by (auto simp: st) (simp_all add: create_idle_def proc_boot_def MAX_PROCESSES_def)
  moreover have "\<forall>i < 16. pcontext (proc_table ?s ! i) = cpu_context_empty"
    by (simp add: create_idle_def proc_boot_def MAX_PROCESSES_def nth_list_update pcb_empty_def)
  moreover have "CURRENT_SLOT ?s = 0" "length (proc_table ?s) = 16"
    by (simp_all add: create_idle_def proc_boot_def MAX_PROCESSES_def)
  ultimately show ?thesis unfolding proc_inv_def using st by (auto intro!: exI [of _ 1])
qed

lemma proc_reachable_inv: "proc_reachable s \<Longrightarrow> proc_inv s"
proof (induction rule: proc_reachable.induct)
  case (step s t)
  from step.hyps(2) step.IH show ?case
  proof (induction rule: proc_step.induct)
    case (enable s)
    then show ?case by (rule proc_inv_frame) (simp_all add: sched_enable_def)
  qed (simp_all add: proc_inv_spawn proc_inv_tick proc_inv_syscall proc_inv_mark
      thread_entry_trampoline_def thread_exit_mark_def Let_def)
qed (rule proc_inv_start)

subsection \<open>Progress\<close>

lemma mod16_neq:
  assumes "c < 16" "1 \<le> i" "i \<le> 15"
  shows "(c + i) mod 16 \<noteq> (c :: nat)"
  using assms by (auto simp: mod_if)

lemma tick_reaches:
  assumes "proc_inv s" "ENABLED s" "slot_state s ((CURRENT_SLOT s + d) mod 16) = Ready" "d \<in> {1..15}"
  shows "\<exists>m \<in> {1..d}. CURRENT_SLOT ((sched_tick ^^ m) s) = (CURRENT_SLOT s + d) mod 16 \<and>
    slot_state ((sched_tick ^^ m) s) ((CURRENT_SLOT s + d) mod 16) = Running"
  using assms
proof (induction d arbitrary: s rule: less_induct)
  case (less d s)
  let ?c = "CURRENT_SLOT s" and ?t = "sched_tick s"
  let ?j = "(?c + d) mod 16"
  note D = proc_invD [OF less.prems(1)]
  obtain i where i: "find_next s ?c = (?c + i) mod 16" "1 \<le> i" "i \<le> d"
    "slot_state s (find_next s ?c) = Ready"
    using less.prems find_next_le [of d s ?c] by auto
  have ne: "find_next s ?c \<noteq> ?c" using mod16_neq [OF D(2), of i] i less.prems(4) by simp
  have "find_next s ?c < 16" by (simp add: i(1))
  note eff = sched_tick_effect [OF D(1,2) less.prems(2) ne this]
  show ?case
  proof (cases "i = d")
    case True
    then have "CURRENT_SLOT ?t = ?j" "slot_state ?t ?j = Running" by (simp_all add: eff(1,5) i(1))
    with less.prems(4) show ?thesis by (intro bexI [of _ 1]) auto
  next
    case False
    have j: "(CURRENT_SLOT ?t + (d - i)) mod 16 = ?j"
      using mod_add_left_eq [of "?c + i" 16 "d - i"] i(3) by (simp add: eff(1) i(1))
    have neq: "?j \<noteq> find_next s ?c" "?j \<noteq> ?c"
      using mod16_neq [of "(?c + i) mod 16" "d - i"] mod16_neq [OF D(2), of d] False i j less.prems(4)
      by (auto simp: eff(1))
    have "slot_state ?t ?j = Ready" using neq less.prems(3) by (simp add: eff(5))
    moreover have "d - i < d" "d - i \<in> {1..15}" using False i(2,3) less.prems(4) by auto
    ultimately obtain m where "m \<in> {1..d - i}" "CURRENT_SLOT ((sched_tick ^^ m) ?t) = ?j"
      "slot_state ((sched_tick ^^ m) ?t) ?j = Running"
      using less.IH [of "d - i" ?t] proc_inv_tick [OF less.prems(1)] eff(2) by (auto simp only: j)
    with i(2) False show ?thesis
      by (intro bexI [of _ "Suc m"]) (auto simp: funpow_swap1)
  qed
qed

subsection \<open>Stack frames\<close>

lemma read_write_u64: "read_u64 a (write_u64 a v m) = v"
proof -
  have "map (write_u64 a v m) [a ..< a + 8] = to_le64 v"
    by (rule nth_equalityI) (simp_all add: write_u64_def)
  then show ?thesis by (simp only: read_u64_def from_le64_to_le64)
qed

lemma read_write_u64_other:
  assumes "b + 8 \<le> a \<or> a + 8 \<le> b"
  shows "read_u64 b (write_u64 a v m) = read_u64 b m"
proof -
  have "map (write_u64 a v m) [b ..< b + 8] = map m [b ..< b + 8]"
    using assms by (auto simp: write_u64_def)
  then show ?thesis by (simp only: read_u64_def)
qed

lemma switch_into_frame:
  assumes "push_words (initial_frame tr) (sp + 64, m) = (sp', m')"
  shows "sp' = sp" "switch_in sp m' = ([0, 0, 0, 0, 0, 0], tr, sp + 56)"
    "read_u64 (sp + 56) m' = 0x202"
proof -
  show "sp' = sp" using assms by (auto simp: push_words_def initial_frame_def)
  have m': "m' = write_u64 sp 0 (write_u64 (sp + 8) 0 (write_u64 (sp + 16) 0 (write_u64 (sp + 24) 0
      (write_u64 (sp + 32) 0 (write_u64 (sp + 40) 0 (write_u64 (sp + 48) tr
      (write_u64 (sp + 56) 0x202 m)))))))"
    using assms by (auto simp: push_words_def initial_frame_def add.commute)
  show "switch_in sp m' = ([0, 0, 0, 0, 0, 0], tr, sp + 56)" "read_u64 (sp + 56) m' = 0x202"
    by (simp_all add: m' switch_in_def read_write_u64 read_write_u64_other upt_rec)
qed

section \<open>Properties\<close>

text \<open>C6.  In every run of the process subsystem: only the current slot can be running; the idle
  process is always runnable; slots are filled in order, so that slot \<open>i\<close> holds process \<open>i\<close> and
  process numbers are unique; and no control block ever records an entry point in its saved
  registers, which is where the trampoline reads it from.\<close>

theorem proc_run_invariant:
  assumes "proc_reachable s" "i < MAX_PROCESSES" "j < MAX_PROCESSES"
    and "pstate (proc_table s ! i) \<noteq> Free" "pstate (proc_table s ! j) \<noteq> Free"
  shows "CURRENT_SLOT s < MAX_PROCESSES \<and>
    (pstate (proc_table s ! i) = Running \<longrightarrow> i = CURRENT_SLOT s) \<and>
    pstate (proc_table s ! 0) \<in> {Ready, Running} \<and>
    pid (proc_table s ! i) = of_nat i \<and>
    (pid (proc_table s ! i) = pid (proc_table s ! j) \<longrightarrow> i = j) \<and>
    fst (thread_entry_trampoline i s) = 0"
proof -
  from assms(1) have inv: "proc_inv s" by (rule proc_reachable_inv)
  have ij: "i < 16" "j < 16" using assms(2,3) by (simp_all add: MAX_PROCESSES_def)
  have pid: "pid (proc_table s ! k) = of_nat k" if "k < 16" "pstate (proc_table s ! k) \<noteq> Free" for k
    using inv that by (auto simp: proc_inv_def slot_state_def)
  have "unat (of_nat k :: u64) = k" if "k < 16" for k
    using that by (simp add: unat_of_nat)
  then have "(of_nat i :: u64) = of_nat j \<longrightarrow> i = j" using ij by metis
  with inv pid ij assms(4,5) show ?thesis
    by (simp add: proc_inv_def slot_state_def MAX_PROCESSES_def thread_entry_trampoline_def Let_def
        cpu_context_empty_def)
qed

definition sample_boot :: proc where
  "sample_boot = create_idle (proc_boot
     \<lparr>FRAME_ALLOC := Some (fa_init bios_fallback frame_allocator_new), pmem := (\<lambda>_. 0)\<rparr>)"

lemma sample_reachable: "proc_reachable sample_boot"
  unfolding sample_boot_def by (rule proc_reachable.start)

lemma sample_slots:
  assumes "i < 16"
  shows "pstate (proc_table sample_boot ! i) = (if i = 0 then Ready else Free)"
  using assms by (simp add: sample_boot_def create_idle_def proc_boot_def MAX_PROCESSES_def
      nth_list_update pcb_empty_def)

lemma sample_spawn:
  "fst (spawn tr e nm sample_boot) = 1"
  "pstate (proc_table (snd (spawn tr e nm sample_boot)) ! 1) = Ready"
  "CURRENT_SLOT (snd (spawn tr e nm sample_boot)) = 0"
proof -
  have slot: "alloc_slot sample_boot = Some 1"
    by (simp add: alloc_slot_def MAX_PROCESSES_def first_from_Some_iff sample_slots)
  have fa: "FRAME_ALLOC sample_boot = Some (fa_init bios_fallback frame_allocator_new)"
    and rest: "NEXT_PID sample_boot = 1" "CURRENT_SLOT sample_boot = 0" "length (proc_table sample_boot) = 16"
    by (simp_all add: sample_boot_def create_idle_def proc_boot_def MAX_PROCESSES_def)
  have "fst (spawn tr e nm sample_boot) = 1 \<and>
    pstate (proc_table (snd (spawn tr e nm sample_boot)) ! 1) = Ready \<and>
    CURRENT_SLOT (snd (spawn tr e nm sample_boot)) = 0"
    using slot fa rest bios_contig [of 4 frame_allocator_new]
    by (simp add: spawn_def alloc_stack_def Let_def alloc_pid_def case_prod_unfold)
  then show "fst (spawn tr e nm sample_boot) = 1"
    "pstate (proc_table (snd (spawn tr e nm sample_boot)) ! 1) = Ready"
    "CURRENT_SLOT (snd (spawn tr e nm sample_boot)) = 0" by simp_all
qed

theorem proc_run_invariant_witness: "pid (proc_table sample_boot ! 0) = of_nat 0"
  using proc_run_invariant [OF sample_reachable, of 0 0]
  by (simp add: sample_slots MAX_PROCESSES_def)

text \<open>C7.  The round robin is fair: from every reachable state with the scheduler enabled, a ready
  process that is not the current one is running after at most 15 ticks.\<close>

theorem sched_fair:
  assumes "proc_reachable s" "ENABLED s" "j < MAX_PROCESSES" "j \<noteq> CURRENT_SLOT s"
    and "pstate (proc_table s ! j) = Ready"
  shows "\<exists>m \<in> {1..15}. CURRENT_SLOT ((sched_tick ^^ m) s) = j \<and>
    pstate (proc_table ((sched_tick ^^ m) s) ! j) = Running"
proof -
  from assms(1) have inv: "proc_inv s" by (rule proc_reachable_inv)
  have j: "j < 16" using assms(3) by (simp add: MAX_PROCESSES_def)
  then obtain d where d: "d < 16" "(CURRENT_SLOT s + d) mod 16 = j"
    using mod_reach by blast
  with assms(4) proc_invD(2) [OF inv] have "d \<in> {1..15}" by (cases "d = 0") auto
  with tick_reaches [OF inv assms(2), of d] d assms(5) show ?thesis
    by (force simp: slot_state_def)
qed

theorem sched_fair_witness:
  "\<exists>m \<in> {1..15}. CURRENT_SLOT ((sched_tick ^^ m) (sched_enable (snd (spawn 0x101000 0 [97] sample_boot)))) = 1"
proof -
  let ?s = "sched_enable (snd (spawn 0x101000 0 [97] sample_boot))"
  have "proc_reachable ?s"
    by (rule proc_reachable.step [OF proc_reachable.step [OF sample_reachable proc_step.spawn]
          proc_step.enable])
  moreover have "ENABLED ?s" "1 \<noteq> CURRENT_SLOT ?s" "pstate (proc_table ?s ! 1) = Ready"
    using sample_spawn by (simp_all add: sched_enable_def)
  ultimately show ?thesis using sched_fair [of ?s 1] by (auto simp: MAX_PROCESSES_def)
qed



text \<open>The exit system call does not end the caller: like yield it returns 0 and moves on to the
  next ready process, and the set of exited processes is the same before and after it.\<close>

theorem syscall_exit_yields:
  assumes "proc_reachable s" "sr_rax regs = SYS_EXIT" "i < MAX_PROCESSES"
    and "syscall_handler timer regs s = (regs', t)"
  shows "sr_rax regs' = 0 \<and>
    (pstate (proc_table t ! i) = Exited \<longleftrightarrow> pstate (proc_table s ! i) = Exited)"
proof -
  let ?s = "s\<lparr>SYSCALL_COUNT := SYSCALL_COUNT s + 1\<rparr>"
  have "proc_inv ?s" using proc_inv_frame [OF proc_reachable_inv [OF assms(1)]] by simp
  with tick_exited [of ?s i] assms(2-4) show ?thesis
    by (auto simp: syscall_handler_def Let_def SYS_EXIT_def SYS_WRITE_def yield_cpu_def
        slot_state_def MAX_PROCESSES_def)
qed

theorem syscall_exit_yields_witness:
  "sr_rax (fst (syscall_handler 0 \<lparr>sr_rax = SYS_EXIT, sr_rbx = 0, sr_rcx = 0, sr_rdx = 0, sr_rsi = 0,
      sr_rdi = 7, sr_r8 = 0, sr_r9 = 0, sr_r10 = 0, sr_r11 = 0, sr_r12 = 0, sr_r13 = 0, sr_r14 = 0,
      sr_r15 = 0, sr_rbp = 0\<rparr> sample_boot)) = 0"
  using syscall_exit_yields [OF sample_reachable, of "\<lparr>sr_rax = SYS_EXIT, sr_rbx = 0, sr_rcx = 0,
      sr_rdx = 0, sr_rsi = 0, sr_rdi = 7, sr_r8 = 0, sr_r9 = 0, sr_r10 = 0, sr_r11 = 0, sr_r12 = 0,
      sr_r13 = 0, sr_r14 = 0, sr_r15 = 0, sr_rbp = 0\<rparr>" 0 0]
  by (simp add: MAX_PROCESSES_def prod_eq_iff)

end
