(* ===== verification/Vfs.thy ===== *)
theory Vfs
  imports Prelude
begin

text \<open>
  The virtual file system, \<open>kernel/src/fs/vfs.rs\<close>: a flat table of 64 vnodes with parent links and
  arrays of child ids.  The static variables of \<open>kernel/src/fs\<close> (the vnode table, the account table
  of \<open>perm.rs\<close>, the data pool of \<open>ramfs.rs\<close>, the handles of \<open>file.rs\<close> and the mount of \<open>mod.rs\<close>)
  form one record, because creating a vnode reads the current account.  A \<open>&str\<close> is its bytes.
\<close>

section \<open>State\<close>

datatype vnode_type = File | Dir | Symlink

definition MAX_NAME :: nat where "MAX_NAME = 31"
definition MAX_FILE_SIZE :: nat where "MAX_FILE_SIZE = 65536"
definition MAX_CHILDREN :: nat where "MAX_CHILDREN = 16"
definition MAX_VNODES :: nat where "MAX_VNODES = 64"
definition ROOT_ID :: u64 where "ROOT_ID = 1"

record vnode =
  v_id :: u64
  v_type :: vnode_type
  v_name :: bytes
  v_name_len :: nat
  v_size :: nat
  v_parent :: u64
  v_child_ids :: "u64 list"
  v_child_count :: nat
  v_data_offset :: nat
  v_data_cap :: nat
  v_uid :: u32
  v_gid :: u32
  v_mode :: u16

definition vnode_empty :: vnode where
  "vnode_empty =
     \<lparr>v_id = 0, v_type = File, v_name = replicate (MAX_NAME + 1) 0, v_name_len = 0, v_size = 0,
      v_parent = 0, v_child_ids = replicate MAX_CHILDREN 0, v_child_count = 0, v_data_offset = 0,
      v_data_cap = 0, v_uid = 0, v_gid = 0, v_mode = 0\<rparr>"

record dir_entry =
  de_id :: u64
  de_type :: vnode_type
  de_size :: nat
  de_name :: bytes

record user =
  u_uid :: u32
  u_gid :: u32
  u_name :: bytes
  u_name_len :: nat
  u_home :: bytes
  u_home_len :: nat
  u_shell :: bytes
  u_shell_len :: nat

record file_handle =
  h_vnode_id :: u64
  h_offset :: nat
  h_in_use :: bool

record fs =
  VNODES :: "vnode list"
  NEXT_ID :: u64
  USERS :: "user list"
  USER_COUNT :: nat
  CURRENT_UID :: u32
  DATA_POOL :: "nat \<Rightarrow> u8"
  NEXT_OFFSET :: nat
  FREE :: "(nat \<times> nat) list"
  FREE_COUNT :: nat
  HANDLES :: "file_handle list"
  MOUNT_DRIVE :: int

section \<open>Accounts (perm.rs)\<close>

definition UID_ROOT :: u32 where "UID_ROOT = 0"
definition GID_ROOT :: u32 where "GID_ROOT = 0"
definition MODE_FILE :: u16 where "MODE_FILE = 0x1A4"
definition MODE_EXEC :: u16 where "MODE_EXEC = 0x1ED"
definition MODE_DIR :: u16 where "MODE_DIR = 0x1ED"
definition MODE_RONLY :: u16 where "MODE_RONLY = 0x124"
definition MODE_SECRET :: u16 where "MODE_SECRET = 0x180"

definition user_at :: "nat \<Rightarrow> fs \<Rightarrow> user option" where
  "user_at i s = (if i \<ge> USER_COUNT s then None else Some (USERS s ! i))"

definition user_by_uid :: "u32 \<Rightarrow> fs \<Rightarrow> user option" where
  "user_by_uid uid s =
     (case first_from (\<lambda>i. case user_at i s of None \<Rightarrow> False | Some u \<Rightarrow> u_uid u = uid) 0 (USER_COUNT s) of
        Some i \<Rightarrow> user_at i s
      | None \<Rightarrow> None)"

definition current_ids :: "fs \<Rightarrow> u32 \<times> u32" where
  "current_ids s =
     (let uid = CURRENT_UID s in
      (uid, case user_by_uid uid s of Some u \<Rightarrow> u_gid u | None \<Rightarrow> GID_ROOT))"

section \<open>The vnode table\<close>

definition alloc_id :: "fs \<Rightarrow> u64 \<times> fs" where
  "alloc_id s = (NEXT_ID s, s\<lparr>NEXT_ID := NEXT_ID s + 1\<rparr>)"

definition vfs_alloc_slot :: "fs \<Rightarrow> nat option" where
  "vfs_alloc_slot s = first_from (\<lambda>i. v_id (VNODES s ! i) = 0) 0 MAX_VNODES"

definition find_slot :: "u64 \<Rightarrow> fs \<Rightarrow> nat option" where
  "find_slot vid s =
     (if vid = 0 then None else first_from (\<lambda>i. v_id (VNODES s ! i) = vid) 0 MAX_VNODES)"

definition vfs_exists :: "u64 \<Rightarrow> fs \<Rightarrow> bool" where
  "vfs_exists vid s \<longleftrightarrow> find_slot vid s \<noteq> None"

definition vnode_at :: "nat \<Rightarrow> fs \<Rightarrow> vnode" where
  "vnode_at i s = VNODES s ! i"

definition put_vnode :: "nat \<Rightarrow> vnode \<Rightarrow> fs \<Rightarrow> fs" where
  "put_vnode i v s = s\<lparr>VNODES := (VNODES s)[i := v]\<rparr>"

definition set_name_raw :: "bytes \<Rightarrow> vnode \<Rightarrow> vnode" where
  "set_name_raw nm v =
     (let n = min (length nm) MAX_NAME in
      v\<lparr>v_name := (put_at 0 (take n nm) (v_name v))[n := 0], v_name_len := n\<rparr>)"

text \<open>The part of a name that fits a caller's buffer of \<open>len\<close> bytes.\<close>

definition get_name :: "u64 \<Rightarrow> nat \<Rightarrow> fs \<Rightarrow> bytes" where
  "get_name vid len s =
     (case find_slot vid s of
        None \<Rightarrow> []
      | Some i \<Rightarrow> take (min (v_name_len (vnode_at i s)) len) (v_name (vnode_at i s)))"

record perm =
  p_uid :: u32
  p_gid :: u32
  p_mode :: u16

definition get_perm :: "u64 \<Rightarrow> fs \<Rightarrow> perm option" where
  "get_perm vid s =
     map_option (\<lambda>i. let v = vnode_at i s in \<lparr>p_uid = v_uid v, p_gid = v_gid v, p_mode = v_mode v\<rparr>)
       (find_slot vid s)"

definition set_mode :: "u64 \<Rightarrow> u16 \<Rightarrow> fs \<Rightarrow> bool \<times> fs" where
  "set_mode vid m s =
     (case find_slot vid s of
        Some i \<Rightarrow> (True, put_vnode i ((vnode_at i s)\<lparr>v_mode := m\<rparr>) s)
      | None \<Rightarrow> (False, s))"

definition set_owner :: "u64 \<Rightarrow> u32 \<Rightarrow> u32 \<Rightarrow> fs \<Rightarrow> bool \<times> fs" where
  "set_owner vid uid gid s =
     (case find_slot vid s of
        Some i \<Rightarrow> (True, put_vnode i ((vnode_at i s)\<lparr>v_uid := uid, v_gid := gid\<rparr>) s)
      | None \<Rightarrow> (False, s))"

definition get_type :: "u64 \<Rightarrow> fs \<Rightarrow> vnode_type option" where
  "get_type vid s = map_option (\<lambda>i. v_type (vnode_at i s)) (find_slot vid s)"

definition get_size :: "u64 \<Rightarrow> fs \<Rightarrow> nat" where
  "get_size vid s = (case find_slot vid s of Some i \<Rightarrow> v_size (vnode_at i s) | None \<Rightarrow> 0)"

definition get_data_offset :: "u64 \<Rightarrow> fs \<Rightarrow> nat" where
  "get_data_offset vid s = (case find_slot vid s of Some i \<Rightarrow> v_data_offset (vnode_at i s) | None \<Rightarrow> 0)"

definition get_capacity :: "u64 \<Rightarrow> fs \<Rightarrow> nat" where
  "get_capacity vid s = (case find_slot vid s of Some i \<Rightarrow> v_data_cap (vnode_at i s) | None \<Rightarrow> 0)"

definition get_parent :: "u64 \<Rightarrow> fs \<Rightarrow> u64" where
  "get_parent vid s = (case find_slot vid s of Some i \<Rightarrow> v_parent (vnode_at i s) | None \<Rightarrow> 0)"

definition child_count :: "u64 \<Rightarrow> fs \<Rightarrow> nat" where
  "child_count vid s = (case find_slot vid s of Some i \<Rightarrow> v_child_count (vnode_at i s) | None \<Rightarrow> 0)"

definition set_data :: "u64 \<Rightarrow> nat \<Rightarrow> nat \<Rightarrow> fs \<Rightarrow> fs" where
  "set_data vid offset sz s =
     (case find_slot vid s of
        Some i \<Rightarrow> put_vnode i ((vnode_at i s)\<lparr>v_data_offset := offset, v_size := sz\<rparr>) s
      | None \<Rightarrow> s)"

definition set_data_full :: "u64 \<Rightarrow> nat \<Rightarrow> nat \<Rightarrow> nat \<Rightarrow> fs \<Rightarrow> fs" where
  "set_data_full vid offset sz cap s =
     (case find_slot vid s of
        Some i \<Rightarrow>
          put_vnode i ((vnode_at i s)\<lparr>v_data_offset := offset, v_size := sz, v_data_cap := cap\<rparr>) s
      | None \<Rightarrow> s)"

section \<open>Directory operations\<close>

text \<open>\<open>init\<close> and the second half of \<open>reset\<close>: put the root into the first free slot.\<close>

definition vfs_init :: "fs \<Rightarrow> fs" where
  "vfs_init s =
     (case vfs_alloc_slot s of
        Some i \<Rightarrow>
          put_vnode i
            ((set_name_raw (str ''/'') ((vnode_at i s)\<lparr>v_id := ROOT_ID, v_type := Dir\<rparr>))
               \<lparr>v_parent := 0, v_uid := UID_ROOT, v_gid := GID_ROOT, v_mode := MODE_DIR\<rparr>) s
      | None \<Rightarrow> s)"

definition vfs_reset :: "fs \<Rightarrow> fs" where
  "vfs_reset s = vfs_init (s\<lparr>VNODES := replicate MAX_VNODES vnode_empty, NEXT_ID := 2\<rparr>)"

definition link_child :: "u64 \<Rightarrow> u64 \<Rightarrow> fs \<Rightarrow> fs" where
  "link_child parent child s =
     (case find_slot parent s of
        None \<Rightarrow> s
      | Some i \<Rightarrow>
          let p = vnode_at i s; n = v_child_count p in
          if n < MAX_CHILDREN
          then put_vnode i (p\<lparr>v_child_ids := (v_child_ids p)[n := child], v_child_count := n + 1\<rparr>) s
          else s)"

definition unlink_child :: "u64 \<Rightarrow> u64 \<Rightarrow> fs \<Rightarrow> bool \<times> fs" where
  "unlink_child parent child s =
     (case find_slot parent s of
        None \<Rightarrow> (False, s)
      | Some k \<Rightarrow>
          let p = vnode_at k s; n = v_child_count p in
          case first_from (\<lambda>i. v_child_ids p ! i = child) 0 n of
            None \<Rightarrow> (False, s)
          | Some i \<Rightarrow>
              (True, put_vnode k
                 (p\<lparr>v_child_ids := fold (\<lambda>j cs. cs[j := cs ! (j + 1)]) [i ..< n - 1] (v_child_ids p),
                    v_child_count := n - 1\<rparr>) s))"

text \<open>The comparison in the loop of \<open>lookup\<close>: same length and the same bytes.\<close>

definition name_matches :: "bytes \<Rightarrow> vnode \<Rightarrow> bool" where
  "name_matches nm c \<longleftrightarrow> v_name_len c = length nm \<and>
     first_from (\<lambda>j. v_name c ! j \<noteq> nm ! j) 0 (v_name_len c) = None"

definition vfs_lookup :: "u64 \<Rightarrow> bytes \<Rightarrow> fs \<Rightarrow> u64" where
  "vfs_lookup parent nm s =
     (case find_slot parent s of
        None \<Rightarrow> 0
      | Some k \<Rightarrow>
          let p = vnode_at k s in
          case first_from
                 (\<lambda>i. case find_slot (v_child_ids p ! i) s of
                        None \<Rightarrow> False
                      | Some c \<Rightarrow> name_matches nm (vnode_at c s))
                 0 (v_child_count p) of
            Some i \<Rightarrow> v_child_ids p ! i
          | None \<Rightarrow> 0)"

definition create_node :: "u64 \<Rightarrow> bytes \<Rightarrow> vnode_type \<Rightarrow> fs \<Rightarrow> u64 \<times> fs" where
  "create_node parent nm vt s =
     (if nm = [] \<or> length nm > MAX_NAME then (0, s)
      else if vfs_lookup parent nm s \<noteq> 0 then (0, s)
      else if child_count parent s \<ge> MAX_CHILDREN then (0, s)
      else
        let (vid, s) = alloc_id s in
        case vfs_alloc_slot s of
          None \<Rightarrow> (0, s)
        | Some i \<Rightarrow>
            let (uid, gid) = current_ids s;
                m = (case vt of Dir \<Rightarrow> MODE_DIR | _ \<Rightarrow> MODE_FILE);
                v = (set_name_raw nm (vnode_empty\<lparr>v_id := vid, v_type := vt\<rparr>))
                      \<lparr>v_parent := parent, v_uid := uid, v_gid := gid, v_mode := m\<rparr>
            in (vid, link_child parent vid (put_vnode i v s)))"

definition create_file :: "u64 \<Rightarrow> bytes \<Rightarrow> fs \<Rightarrow> u64 \<times> fs" where
  "create_file parent nm s = create_node parent nm File s"

definition create_dir :: "u64 \<Rightarrow> bytes \<Rightarrow> fs \<Rightarrow> u64 \<times> fs" where
  "create_dir parent nm s = create_node parent nm Dir s"

text \<open>Entries are written to a buffer of \<open>len\<close> records; a child id with no vnode is passed over.\<close>

fun read_dir_loop :: "u64 list \<Rightarrow> nat \<Rightarrow> fs \<Rightarrow> dir_entry list \<Rightarrow> dir_entry list" where
  "read_dir_loop [] len s out = out"
| "read_dir_loop (cid # cids) len s out =
     (if length out \<ge> len then out
      else case find_slot cid s of
        None \<Rightarrow> read_dir_loop cids len s out
      | Some i \<Rightarrow>
          let c = vnode_at i s in
          read_dir_loop cids len s
            (out @ [\<lparr>de_id = v_id c, de_type = v_type c, de_size = v_size c,
                     de_name = take (min (v_name_len c) MAX_NAME) (v_name c)\<rparr>]))"

definition read_dir :: "u64 \<Rightarrow> nat \<Rightarrow> fs \<Rightarrow> dir_entry list" where
  "read_dir vid len s =
     (case find_slot vid s of
        None \<Rightarrow> []
      | Some i \<Rightarrow> let d = vnode_at i s in
          read_dir_loop (take (v_child_count d) (v_child_ids d)) len s [])"

definition vfs_unlink :: "u64 \<Rightarrow> bytes \<Rightarrow> fs \<Rightarrow> bool \<times> fs" where
  "vfs_unlink parent nm s =
     (let vid = vfs_lookup parent nm s in
      if vid = 0 then (False, s)
      else if get_type vid s = Some Dir \<and> child_count vid s > 0 then (False, s)
      else
        let (ok, s') = unlink_child parent vid s in
        if \<not> ok then (False, s')
        else case find_slot vid s' of
          Some i \<Rightarrow> (True, put_vnode i vnode_empty s')
        | None \<Rightarrow> (True, s'))"

definition vfs_rename :: "u64 \<Rightarrow> bytes \<Rightarrow> bytes \<Rightarrow> fs \<Rightarrow> bool \<times> fs" where
  "vfs_rename parent old new s =
     (if new = [] \<or> length new > MAX_NAME then (False, s)
      else
        let vid = vfs_lookup parent old s in
        if vid = 0 then (False, s)
        else
          let other = vfs_lookup parent new s in
          if other \<noteq> 0 \<and> other \<noteq> vid then (False, s)
          else case find_slot vid s of
            Some i \<Rightarrow> (True, put_vnode i (set_name_raw new (vnode_at i s)) s)
          | None \<Rightarrow> (False, s))"

section \<open>Paths\<close>

definition slash :: u8 where "slash = 47"
definition dot :: bytes where "dot = [46]"
definition dotdot :: bytes where "dotdot = [46, 46]"

text \<open>The loop shared by \<open>resolve\<close> and \<open>resolve_from\<close>.\<close>

fun walk :: "bytes list \<Rightarrow> u64 \<Rightarrow> fs \<Rightarrow> u64" where
  "walk [] cur s = cur"
| "walk (part # parts) cur s =
     (if part = [] \<or> part = dot then walk parts cur s
      else if part = dotdot then
        walk parts (let p = get_parent cur s in if p \<noteq> 0 then p else cur) s
      else
        let nxt = vfs_lookup cur part s in
        if nxt = 0 then 0 else walk parts nxt s)"

definition resolve :: "bytes \<Rightarrow> fs \<Rightarrow> u64" where
  "resolve path s = walk (split_on slash path) ROOT_ID s"

definition resolve_from :: "u64 \<Rightarrow> bytes \<Rightarrow> fs \<Rightarrow> u64" where
  "resolve_from cwd path s =
     walk (split_on slash path) (if take 1 path = [slash] then ROOT_ID else cwd) s"

text \<open>The position of the last slash splits a trimmed path.\<close>

definition split_last :: "bytes \<Rightarrow> bytes \<times> bytes" where
  "split_last p =
     (if slash \<in> set p
      then (rev (tl (dropWhile (\<lambda>b. b \<noteq> slash) (rev p))), rev (takeWhile (\<lambda>b. b \<noteq> slash) (rev p)))
      else ([], p))"

definition split_parent :: "u64 \<Rightarrow> bytes \<Rightarrow> fs \<Rightarrow> (u64 \<times> bytes) option" where
  "split_parent cwd path s =
     (let trimmed = rev (dropWhile (\<lambda>b. b = slash) (rev path)) in
      if trimmed = [] then None
      else
        let (dir_part, nm) = split_last trimmed in
        if nm = [] \<or> length nm > MAX_NAME then None
        else
          let parent = (if dir_part = [] then cwd else resolve_from cwd dir_part s) in
          if dir_part \<noteq> [] \<and> parent = 0 then None
          else if get_type parent s \<noteq> Some Dir then None
          else Some (parent, nm))"

text \<open>The ids from a vnode up to the root, at most \<open>fuel\<close> of them (the source's array has 16).\<close>

fun path_chain :: "nat \<Rightarrow> u64 \<Rightarrow> fs \<Rightarrow> u64 list" where
  "path_chain 0 cur s = []"
| "path_chain (Suc fuel) cur s =
     (if cur = 0 \<or> cur = ROOT_ID then [] else cur # path_chain fuel (get_parent cur s) s)"

definition emit :: "nat \<Rightarrow> bytes \<Rightarrow> bytes \<Rightarrow> bytes" where
  "emit len bs out = fold (\<lambda>b out. if length out \<ge> len then out else out @ [b]) bs out"

definition path_of :: "u64 \<Rightarrow> nat \<Rightarrow> fs \<Rightarrow> bytes" where
  "path_of vid len s =
     (let chain = path_chain 16 vid s in
      if chain = [] then emit len [slash] []
      else fold (\<lambda>c out. emit len (slash # get_name c (MAX_NAME + 1) s) out) (rev chain) [])"

section \<open>The table as a map\<close>

definition vview :: "fs \<Rightarrow> u64 \<rightharpoonup> vnode" where
  "vview s = (\<lambda>j. map_option (\<lambda>i. vnode_at i s) (find_slot j s))"

definition table_ok :: "fs \<Rightarrow> bool" where
  "table_ok s \<longleftrightarrow> length (VNODES s) = 64 \<and>
     (\<forall>i < 64. \<forall>j < 64. v_id (VNODES s ! i) \<noteq> 0 \<and> v_id (VNODES s ! i) = v_id (VNODES s ! j) \<longrightarrow> i = j)"

definition kids :: "vnode \<Rightarrow> u64 list" where
  "kids v = take (v_child_count v) (v_child_ids v)"

definition cname :: "vnode \<Rightarrow> bytes" where
  "cname v = take (v_name_len v) (v_name v)"

definition vnode_ok :: "vnode \<Rightarrow> bool" where
  "vnode_ok v \<longleftrightarrow> length (v_name v) = 32 \<and> v_name_len v \<le> 31 \<and>
     length (v_child_ids v) = 16 \<and> v_child_count v \<le> 16"

definition attrs :: "vnode \<Rightarrow> nat \<times> nat \<times> u32 \<times> u32 \<times> u16" where
  "attrs v = (v_size v, v_data_offset v, v_uid v, v_gid v, v_mode v)"

lemmas vfs_consts = MAX_NAME_def MAX_CHILDREN_def MAX_VNODES_def

lemma find_slot_Some:
  assumes "table_ok s"
  shows "find_slot j s = Some i \<longleftrightarrow> j \<noteq> 0 \<and> i < 64 \<and> v_id (VNODES s ! i) = j"
proof
  assume "find_slot j s = Some i"
  then show "j \<noteq> 0 \<and> i < 64 \<and> v_id (VNODES s ! i) = j"
    by (auto simp: find_slot_def MAX_VNODES_def dest: first_from_SomeD split: if_splits)
next
  assume r: "j \<noteq> 0 \<and> i < 64 \<and> v_id (VNODES s ! i) = j"
  then have "\<forall>k. 0 \<le> k \<and> k < i \<longrightarrow> v_id (VNODES s ! k) \<noteq> j"
    using assms unfolding table_ok_def by (metis less_trans less_irrefl)
  with r show "find_slot j s = Some i"
    by (simp add: find_slot_def MAX_VNODES_def first_from_Some_iff)
qed

lemma vview_Some:
  assumes "table_ok s"
  shows "vview s j = Some v \<longleftrightarrow> j \<noteq> 0 \<and> (\<exists>i < 64. VNODES s ! i = v \<and> v_id v = j)"
  by (auto simp: vview_def find_slot_Some [OF assms] vnode_at_def)

lemma vview_slot: "find_slot j s = Some i \<Longrightarrow> vview s j = Some (vnode_at i s)"
  by (simp add: vview_def)

lemma vview_zero [simp]: "vview s 0 = None"
  by (simp add: vview_def find_slot_def)

lemma vview_None: "find_slot j s = None \<longleftrightarrow> vview s j = None"
  by (simp add: vview_def)

text \<open>Replacing a vnode by one of the same id, adding one, and clearing one.\<close>

lemma find_slot_cong:
  assumes "\<And>k. k < 64 \<Longrightarrow> v_id (VNODES t ! k) = v_id (VNODES s ! k)"
  shows "find_slot j t = find_slot j s"
  using assms by (auto simp: find_slot_def MAX_VNODES_def intro!: first_from_cong)

lemma view_replace:
  assumes "table_ok s" "find_slot j s = Some i" "v_id v = j"
  shows "table_ok (put_vnode i v s)" "vview (put_vnode i v s) = (vview s)(j \<mapsto> v)"
proof -
  from assms(2) have i: "j \<noteq> 0" "i < 64" "v_id (VNODES s ! i) = j"
    by (simp_all add: find_slot_Some [OF assms(1)])
  have len: "length (VNODES s) = 64" using assms(1) by (simp add: table_ok_def)
  have ids: "v_id (VNODES (put_vnode i v s) ! k) = v_id (VNODES s ! k)" if "k < 64" for k
    using i assms(3) len that by (auto simp: put_vnode_def nth_list_update)
  show "table_ok (put_vnode i v s)"
    using assms(1) by (auto simp: table_ok_def ids) (simp add: put_vnode_def)
  have at: "vnode_at k (put_vnode i v s) = (if k = i then v else vnode_at k s)" for k
    using i(2) len by (simp add: put_vnode_def vnode_at_def nth_list_update)
  have same: "find_slot k (put_vnode i v s) = find_slot k s" for k
    by (rule find_slot_cong) (rule ids)
  have "find_slot k s \<noteq> Some i" if "k \<noteq> j" for k
    using i that by (auto simp: find_slot_Some [OF assms(1)])
  then have "vview (put_vnode i v s) k = ((vview s)(j \<mapsto> v)) k" for k
    using assms(2) by (cases "find_slot k s") (auto simp: vview_def at same)
  then show "vview (put_vnode i v s) = (vview s)(j \<mapsto> v)" by blast
qed

lemma view_add:
  assumes "table_ok s" "vfs_alloc_slot s = Some i" "v_id v = j" "j \<noteq> 0" "vview s j = None"
  shows "table_ok (put_vnode i v s)" "vview (put_vnode i v s) = (vview s)(j \<mapsto> v)"
proof -
  from first_from_SomeD [OF assms(2) [unfolded vfs_alloc_slot_def]]
  have i: "i < 64" "v_id (VNODES s ! i) = 0" by (simp_all add: MAX_VNODES_def)
  have len: "length (VNODES s) = 64" using assms(1) by (simp add: table_ok_def)
  have nth: "VNODES (put_vnode i v s) ! k = (if k = i then v else VNODES s ! k)" for k
    using i(1) len by (simp add: put_vnode_def nth_list_update)
  have new: "\<forall>k < 64. v_id (VNODES s ! k) \<noteq> j"
    using assms(4,5) vview_Some [OF assms(1), of j] by auto
  show ok: "table_ok (put_vnode i v s)"
    unfolding table_ok_def nth
    using assms(1,3) new len by (auto simp: table_ok_def put_vnode_def)
  have "find_slot k (put_vnode i v s) = (if k = j then Some i else find_slot k s)" for k
    by (rule option_eqI_Some)
      (use i assms(3,4) new in \<open>auto simp: find_slot_Some [OF ok] find_slot_Some [OF assms(1)] nth\<close>)
  moreover have "find_slot k s \<noteq> Some i" for k using i by (auto simp: find_slot_Some [OF assms(1)])
  ultimately have "vview (put_vnode i v s) k = ((vview s)(j \<mapsto> v)) k" for k
    by (cases "find_slot k s") (auto simp: vview_def vnode_at_def nth)
  then show "vview (put_vnode i v s) = (vview s)(j \<mapsto> v)" by blast
qed

lemma view_clear:
  assumes "table_ok s" "find_slot j s = Some i"
  shows "table_ok (put_vnode i vnode_empty s)" "vview (put_vnode i vnode_empty s) = (vview s)(j := None)"
proof -
  from assms(2) have i: "j \<noteq> 0" "i < 64" "v_id (VNODES s ! i) = j"
    by (simp_all add: find_slot_Some [OF assms(1)])
  have len: "length (VNODES s) = 64" using assms(1) by (simp add: table_ok_def)
  have nth: "VNODES (put_vnode i vnode_empty s) ! k = (if k = i then vnode_empty else VNODES s ! k)" for k
    using i(2) len by (simp add: put_vnode_def nth_list_update)
  have only: "\<forall>k < 64. k \<noteq> i \<longrightarrow> v_id (VNODES s ! k) \<noteq> j"
    using assms(1) i by (metis table_ok_def)
  show ok: "table_ok (put_vnode i vnode_empty s)"
    unfolding table_ok_def nth using assms(1) len by (auto simp: table_ok_def put_vnode_def vnode_empty_def)
  have iff: "find_slot k (put_vnode i vnode_empty s) = Some x \<longleftrightarrow> k \<noteq> j \<and> find_slot k s = Some x" for k x
    unfolding find_slot_Some [OF ok] find_slot_Some [OF assms(1)] nth
    using i only by (cases "x = i") (auto simp: vnode_empty_def)
  have "vview (put_vnode i vnode_empty s) k = ((vview s)(j := None)) k" for k
  proof (cases "find_slot k (put_vnode i vnode_empty s)")
    case None
    with iff [of k] have "k = j \<or> find_slot k s = None" by (cases "find_slot k s") auto
    with None show ?thesis by (auto simp: vview_def)
  next
    case (Some x)
    with iff [of k x] have "k \<noteq> j" "find_slot k s = Some x" by simp_all
    moreover from this i have "x \<noteq> i" by (auto simp: find_slot_Some [OF assms(1)])
    ultimately show ?thesis using Some by (simp add: vview_def vnode_at_def nth)
  qed
  then show "vview (put_vnode i vnode_empty s) = (vview s)(j := None)" by blast
qed

lemma get_view:
  "get_type j s = map_option v_type (vview s j)"
  "get_size j s = (case vview s j of Some v \<Rightarrow> v_size v | None \<Rightarrow> 0)"
  "get_data_offset j s = (case vview s j of Some v \<Rightarrow> v_data_offset v | None \<Rightarrow> 0)"
  "get_capacity j s = (case vview s j of Some v \<Rightarrow> v_data_cap v | None \<Rightarrow> 0)"
  "get_parent j s = (case vview s j of Some v \<Rightarrow> v_parent v | None \<Rightarrow> 0)"
  "child_count j s = (case vview s j of Some v \<Rightarrow> v_child_count v | None \<Rightarrow> 0)"
  "get_name j len s = (case vview s j of Some v \<Rightarrow> take (min (v_name_len v) len) (v_name v) | None \<Rightarrow> [])"
  by (simp_all add: get_type_def get_size_def get_data_offset_def get_capacity_def get_parent_def
      child_count_def get_name_def vview_def option.map_comp comp_def split: option.splits)

section \<open>Well-formed trees\<close>

text \<open>
  A map of vnodes is a well-formed tree: ids are below the next fresh one, the root is a directory,
  only directories have children, every child list is free of duplicates and agrees with the parent
  links, and names are unique within a directory.
\<close>

definition view_wf :: "(u64 \<rightharpoonup> vnode) \<Rightarrow> u64 \<Rightarrow> bool" where
  "view_wf m nxt \<longleftrightarrow>
     (\<forall>j v. m j = Some v \<longrightarrow> v_id v = j \<and> vnode_ok v \<and> j \<noteq> 0 \<and> j < nxt) \<and>
     (\<exists>r. m ROOT_ID = Some r \<and> v_type r = Dir \<and> v_parent r = 0) \<and>
     (\<forall>p v. m p = Some v \<longrightarrow> distinct (kids v) \<and> (kids v \<noteq> [] \<longrightarrow> v_type v = Dir) \<and>
        (\<forall>c \<in> set (kids v). \<exists>w. m c = Some w \<and> v_parent w = p)) \<and>
     (\<forall>p v c d w x. m p = Some v \<and> c \<in> set (kids v) \<and> d \<in> set (kids v) \<and> m c = Some w \<and>
        m d = Some x \<and> cname w = cname x \<longrightarrow> c = d) \<and>
     (\<forall>c w. m c = Some w \<and> c \<noteq> ROOT_ID \<longrightarrow> (\<exists>v. m (v_parent w) = Some v \<and> c \<in> set (kids v)))"

definition vfs_wf :: "fs \<Rightarrow> bool" where
  "vfs_wf s \<longleftrightarrow> table_ok s \<and> view_wf (vview s) (NEXT_ID s)"

lemma view_wfD:
  assumes "view_wf m nxt"
  shows "m j = Some v \<Longrightarrow> v_id v = j \<and> vnode_ok v \<and> j \<noteq> 0 \<and> j < nxt"
    and "m p = Some v \<Longrightarrow> distinct (kids v)"
    and "m p = Some v \<Longrightarrow> c \<in> set (kids v) \<Longrightarrow> \<exists>w. m c = Some w \<and> v_parent w = p"
    and "m p = Some v \<Longrightarrow> c \<in> set (kids v) \<Longrightarrow> d \<in> set (kids v) \<Longrightarrow> m c = Some w \<Longrightarrow> m d = Some x \<Longrightarrow>
      cname w = cname x \<Longrightarrow> c = d"
    and "m c = Some w \<Longrightarrow> c \<noteq> ROOT_ID \<Longrightarrow> \<exists>v. m (v_parent w) = Some v \<and> c \<in> set (kids v)"
    and "\<exists>r. m ROOT_ID = Some r \<and> v_type r = Dir \<and> v_parent r = 0"
    and "m p = Some v \<Longrightarrow> kids v \<noteq> [] \<Longrightarrow> v_type v = Dir"
  using assms unfolding view_wf_def by blast+

lemma view_wfI:
  assumes "\<And>j v. m j = Some v \<Longrightarrow> v_id v = j \<and> vnode_ok v \<and> j \<noteq> 0 \<and> j < nxt"
    and "\<exists>r. m ROOT_ID = Some r \<and> v_type r = Dir \<and> v_parent r = 0"
    and "\<And>p v. m p = Some v \<Longrightarrow> distinct (kids v) \<and> (kids v \<noteq> [] \<longrightarrow> v_type v = Dir) \<and>
      (\<forall>c \<in> set (kids v). \<exists>w. m c = Some w \<and> v_parent w = p)"
    and "\<And>p v c d w x. m p = Some v \<Longrightarrow> c \<in> set (kids v) \<Longrightarrow> d \<in> set (kids v) \<Longrightarrow> m c = Some w \<Longrightarrow>
      m d = Some x \<Longrightarrow> cname w = cname x \<Longrightarrow> c = d"
    and "\<And>c w. m c = Some w \<Longrightarrow> c \<noteq> ROOT_ID \<Longrightarrow> \<exists>v. m (v_parent w) = Some v \<and> c \<in> set (kids v)"
  shows "view_wf m nxt"
  unfolding view_wf_def
  apply (intro conjI)
  subgoal using assms(1) by simp
  subgoal using assms(2) .
  subgoal using assms(3) by blast
  subgoal using assms(4) by metis
  subgoal using assms(5) by blast
  done

lemma view_wf_mono:
  assumes "view_wf m n" "n \<le> n'"
  shows "view_wf m n'"
proof -
  note D = view_wfD [OF assms(1)]
  show ?thesis
  proof (rule view_wfI)
    show "v_id v = j \<and> vnode_ok v \<and> j \<noteq> 0 \<and> j < n'" if "m j = Some v" for j v
      using D(1) [OF that] assms(2) by auto
    show "distinct (kids v) \<and> (kids v \<noteq> [] \<longrightarrow> v_type v = Dir) \<and>
        (\<forall>c \<in> set (kids v). \<exists>w. m c = Some w \<and> v_parent w = p)" if "m p = Some v" for p v
      using D(2,3,7) [OF that] by blast
  qed (fact D(6), fact D(4), fact D(5))
qed

lemma name_matches_iff:
  assumes "vnode_ok c"
  shows "name_matches nm c \<longleftrightarrow> cname c = nm"
proof -
  have "v_name_len c \<le> length (v_name c)" using assms by (simp add: vnode_ok_def)
  then show ?thesis
    by (auto simp: name_matches_def cname_def first_from_None_iff list_eq_iff_nth_eq)
qed

text \<open>\<open>lookup\<close> as a search of the child list.\<close>

definition view_find :: "(u64 \<rightharpoonup> vnode) \<Rightarrow> u64 \<Rightarrow> bytes \<Rightarrow> u64 option" where
  "view_find m p nm =
     (case m p of None \<Rightarrow> None
      | Some v \<Rightarrow> find (\<lambda>c. case m c of None \<Rightarrow> False | Some w \<Rightarrow> cname w = nm) (kids v))"

lemma vfs_lookup_view:
  assumes "view_wf (vview s) nxt"
  shows "vfs_lookup p nm s = (case view_find (vview s) p nm of None \<Rightarrow> 0 | Some c \<Rightarrow> c)"
proof (cases "find_slot p s")
  case None
  then show ?thesis by (simp add: vfs_lookup_def view_find_def vview_def)
next
  case (Some k)
  let ?p = "vnode_at k s"
  have m: "vview s p = Some ?p" using Some by (simp add: vview_def)
  with view_wfD(1) [OF assms] have ok: "v_child_count ?p \<le> length (v_child_ids ?p)"
    by (auto simp: vnode_ok_def)
  let ?Q = "\<lambda>c. case vview s c of None \<Rightarrow> False | Some w \<Rightarrow> cname w = nm"
  have Q: "(case find_slot c s of None \<Rightarrow> False | Some i \<Rightarrow> name_matches nm (vnode_at i s)) = ?Q c" for c
    using view_wfD(1) [OF assms, of c]
    by (cases "find_slot c s") (simp_all add: vview_def name_matches_iff)
  from find_first_from [OF ok, of ?Q] show ?thesis
    unfolding vfs_lookup_def Some Q view_find_def m kids_def
    by (auto simp: Let_def split: option.splits)
qed

lemma view_find_iff:
  assumes "view_wf m nxt"
  shows "view_find m p nm = Some c \<longleftrightarrow>
    (\<exists>v w. m p = Some v \<and> c \<in> set (kids v) \<and> m c = Some w \<and> cname w = nm)"
proof
  assume "view_find m p nm = Some c"
  then show "\<exists>v w. m p = Some v \<and> c \<in> set (kids v) \<and> m c = Some w \<and> cname w = nm"
    by (auto simp: view_find_def find_Some_iff split: option.splits)
next
  assume "\<exists>v w. m p = Some v \<and> c \<in> set (kids v) \<and> m c = Some w \<and> cname w = nm"
  then obtain v w where c: "m p = Some v" "c \<in> set (kids v)" "m c = Some w" "cname w = nm" by blast
  let ?Q = "\<lambda>c. case m c of None \<Rightarrow> False | Some w \<Rightarrow> cname w = nm"
  from c have "find ?Q (kids v) \<noteq> None" by (auto simp: find_None_iff)
  then obtain d where d: "find ?Q (kids v) = Some d" by blast
  then have "d \<in> set (kids v)" "?Q d" by (auto simp: find_Some_iff)
  then obtain x where "m d = Some x" "cname x = nm" by (auto split: option.splits)
  with c \<open>d \<in> set (kids v)\<close> view_wfD(4) [OF assms] have "d = c" by metis
  with c(1) d show "view_find m p nm = Some c" by (simp add: view_find_def)
qed

lemma vfs_lookup_iff:
  assumes "vfs_wf s" "c \<noteq> 0"
  shows "vfs_lookup p nm s = c \<longleftrightarrow> view_find (vview s) p nm = Some c"
proof -
  have wf: "view_wf (vview s) (NEXT_ID s)" using assms(1) by (simp add: vfs_wf_def)
  show ?thesis using assms(2) by (auto simp: vfs_lookup_view [OF wf] split: option.splits)
qed

lemma vfs_lookup_zero:
  assumes "vfs_wf s"
  shows "vfs_lookup p nm s = 0 \<longleftrightarrow> view_find (vview s) p nm = None"
proof -
  have wf: "view_wf (vview s) (NEXT_ID s)" using assms by (simp add: vfs_wf_def)
  have "c \<noteq> 0" if "view_find (vview s) p nm = Some c" for c
    using that view_wfD(1) [OF wf] by (auto simp: view_find_iff [OF wf])
  then show ?thesis by (auto simp: vfs_lookup_view [OF wf] split: option.splits)
qed

lemma child_count_kids:
  assumes "vfs_wf s" "vview s j = Some w"
  shows "child_count j s = length (kids w)"
  using assms view_wfD(1) [of "vview s" "NEXT_ID s" j w]
  by (auto simp: vfs_wf_def get_view kids_def vnode_ok_def)

subsection \<open>Adding a child\<close>

lemma view_wf_add:
  assumes wf: "view_wf m c" and p: "m p = Some pv" "v_type pv = Dir" and fresh: "view_find m p nm = None"
    and c: "c < c'" "c \<noteq> 0"
    and new: "v_id v = c" "vnode_ok v" "kids v = []" "cname v = nm" "v_parent v = p"
    and pv': "kids pv' = kids pv @ [c]" "v_id pv' = p" "vnode_ok pv'" "cname pv' = cname pv"
      "v_parent pv' = v_parent pv" "v_type pv' = v_type pv"
  shows "view_wf (m(c \<mapsto> v, p \<mapsto> pv')) c'"
proof -
  let ?m = "m(c \<mapsto> v, p \<mapsto> pv')"
  note D = view_wfD [OF wf]
  have mc: "m c = None" using D(1) [of c] by (cases "m c") auto
  have cp: "c \<noteq> p" using mc p by auto
  have nk: "c \<notin> set (kids w)" if "m q = Some w" for q w using D(3) [OF that, of c] mc by auto
  have unnamed: "cname w \<noteq> nm" if "d \<in> set (kids pv)" "m d = Some w" for d w
    using fresh p that view_find_iff [OF wf, of p nm d] by auto
  have lift: "\<exists>w'. ?m d = Some w' \<and> cname w' = cname w \<and> v_parent w' = v_parent w"
    if "m d = Some w" for d w using that mc p pv' by auto
  have name: "cname w' = cname w" if "m d = Some w" "?m d = Some w'" for d w w'
    using that mc p pv'(4) by (auto split: if_splits)
  have W1: "v_id w = j \<and> vnode_ok w \<and> j \<noteq> 0 \<and> j < c'" if "?m j = Some w" for j w
    using that D(1) [of j w] D(1) [OF p(1)] c new pv' less_trans by (auto split: if_splits)
  obtain r where r: "m ROOT_ID = Some r" "v_type r = Dir" "v_parent r = 0" using D(6) by blast
  have W2: "\<exists>r. ?m ROOT_ID = Some r \<and> v_type r = Dir \<and> v_parent r = 0"
    using r mc p pv' by auto
  have W3: "distinct (kids w) \<and> (kids w \<noteq> [] \<longrightarrow> v_type w = Dir) \<and> (\<forall>d \<in> set (kids w). \<exists>x. ?m d = Some x \<and> v_parent x = q)"
    if "?m q = Some w" for q w
  proof (cases "q = p")
    case True
    with that have w: "w = pv'" by simp
    have "\<exists>x. ?m d = Some x \<and> v_parent x = p" if "d \<in> set (kids pv)" for d
      using D(3) [OF p(1) that] lift by fastforce
    moreover have "\<exists>x. ?m c = Some x \<and> v_parent x = p" using cp new(5) by simp
    ultimately show ?thesis using D(2) [OF p(1)] nk [OF p(1)] True p(2) by (auto simp: w pv'(1,6))
  next
    case False
    with that have "(q = c \<and> w = v) \<or> (q \<noteq> c \<and> m q = Some w)" by (auto split: if_splits)
    then show ?thesis using D(2,3,7) [of q w] lift new(3) by fastforce
  qed
  have W4: "d = e" if "?m q = Some w" "d \<in> set (kids w)" "e \<in> set (kids w)"
      "?m d = Some x" "?m e = Some y" "cname x = cname y" for q w d e x y
  proof (cases "q = p")
    case True
    with that(1) have w: "kids w = kids pv @ [c]" using pv'(1) by simp
    have cn: "cname x = nm" if "d = c" "?m d = Some x" for d x using that cp new(4) by simp
    have old: "\<exists>x'. m d = Some x' \<and> cname x' = cname x" if "d \<in> set (kids pv)" "?m d = Some x" for d x
      using D(3) [OF p(1) that(1)] name that(2) by fastforce
    have other: "cname x \<noteq> nm" if "d \<in> set (kids pv)" "?m d = Some x" for d x
      using old [OF that] unnamed [OF that(1)] by auto
    have "d \<in> set (kids pv) \<or> d = c" "e \<in> set (kids pv) \<or> e = c" using that(2,3) by (auto simp: w)
    then consider "d = e" | "d \<in> set (kids pv)" "e \<in> set (kids pv)"
      | "d = c" "e \<in> set (kids pv)" | "d \<in> set (kids pv)" "e = c" by blast
    then show ?thesis
    proof cases
      case 2
      from old [OF 2(1) that(4)] old [OF 2(2) that(5)] that(6) D(4) [OF p(1) 2] show ?thesis by auto
    next
      case 3
      with cn [OF 3(1) that(4)] other [OF 3(2) that(5)] that(6) show ?thesis by simp
    next
      case 4
      with cn [OF 4(2) that(5)] other [OF 4(1) that(4)] that(6) show ?thesis by simp
    qed
  next
    case False
    with that(1,2) new(3) have q: "m q = Some w" by (auto split: if_splits)
    from D(3) [OF q that(2)] D(3) [OF q that(3)] obtain x0 y0 where "m d = Some x0" "m e = Some y0"
      by blast
    moreover from this that(4-6) have "cname x0 = cname y0" using name by metis
    ultimately show ?thesis using D(4) [OF q that(2,3)] by blast
  qed
  have W5: "\<exists>w. ?m (v_parent x) = Some w \<and> d \<in> set (kids w)" if dx: "?m d = Some x" "d \<noteq> ROOT_ID" for d x
  proof (cases "d = c")
    case True
    with dx(1) cp new(5) show ?thesis by (simp add: pv'(1))
  next
    case False
    then obtain x0 where x0: "m d = Some x0" "v_parent x0 = v_parent x"
      using dx(1) p pv'(5) by (cases "d = p") auto
    from D(5) [OF x0(1) dx(2)] obtain w where "m (v_parent x) = Some w" "d \<in> set (kids w)"
      by (auto simp: x0(2))
    then show ?thesis using mc p pv'(1) by auto
  qed
  show ?thesis by (rule view_wfI [OF W1 W2 W3 W4 W5])
qed

lemma view_find_add:
  assumes wf: "view_wf m c" and wf': "view_wf (m(c \<mapsto> v, p \<mapsto> pv')) c'" and p: "m p = Some pv"
    and fresh: "view_find m p nm = None"
    and new: "kids v = []" "cname v = nm" and pv': "kids pv' = kids pv @ [c]" "cname pv' = cname pv"
  shows "view_find (m(c \<mapsto> v, p \<mapsto> pv')) q nm' = (if q = p \<and> nm' = nm then Some c else view_find m q nm')"
proof -
  note D = view_wfD [OF wf]
  have mc: "m c = None" using D(1) [of c] by (cases "m c") auto
  have nk: "c \<notin> set (kids w)" if "m q = Some w" for q w using D(3) [OF that, of c] mc by auto
  have "view_find (m(c \<mapsto> v, p \<mapsto> pv')) q nm' = Some d \<longleftrightarrow>
      (if q = p \<and> d = c then nm' = nm else view_find m q nm' = Some d)" for d
    unfolding view_find_iff [OF wf] view_find_iff [OF wf']
    using mc p new pv' nk [of q] by (cases "q = p"; cases "d = c"; cases "d = p") auto
  moreover have "view_find m p nm' \<noteq> Some c"
    using nk by (auto simp: view_find_iff [OF wf])
  ultimately show ?thesis using fresh by (intro option_eqI_Some) auto
qed

lemma set_name_raw_keeps [simp]:
  "v_id (set_name_raw nm v) = v_id v" "v_type (set_name_raw nm v) = v_type v"
  "v_parent (set_name_raw nm v) = v_parent v" "kids (set_name_raw nm v) = kids v"
  by (simp_all add: set_name_raw_def Let_def kids_def)

lemma set_name_ok:
  assumes "vnode_ok v" "length nm \<le> 31"
  shows "vnode_ok (set_name_raw nm v)" "cname (set_name_raw nm v) = nm"
  using assms by (simp_all add: set_name_raw_def Let_def vnode_ok_def cname_def put_at_def MAX_NAME_def)

lemma vnode_empty_ok [simp]: "vnode_ok vnode_empty" "kids vnode_empty = []"
  by (simp_all add: vnode_ok_def vnode_empty_def kids_def vfs_consts)

lemma upd_kids_cname [simp]:
  "kids (v\<lparr>v_parent := a\<rparr>) = kids v" "kids (v\<lparr>v_uid := b\<rparr>) = kids v" "kids (v\<lparr>v_gid := b\<rparr>) = kids v"
  "kids (v\<lparr>v_mode := d\<rparr>) = kids v" "kids (v\<lparr>v_id := a\<rparr>) = kids v" "kids (v\<lparr>v_type := t\<rparr>) = kids v"
  "kids (v\<lparr>v_data_offset := n\<rparr>) = kids v" "kids (v\<lparr>v_size := n\<rparr>) = kids v"
  "kids (v\<lparr>v_data_cap := n\<rparr>) = kids v"
  "cname (v\<lparr>v_parent := a\<rparr>) = cname v" "cname (v\<lparr>v_uid := b\<rparr>) = cname v"
  "cname (v\<lparr>v_gid := b\<rparr>) = cname v" "cname (v\<lparr>v_mode := d\<rparr>) = cname v"
  "cname (v\<lparr>v_data_offset := n\<rparr>) = cname v" "cname (v\<lparr>v_size := n\<rparr>) = cname v"
  "cname (v\<lparr>v_data_cap := n\<rparr>) = cname v"
  "cname (v\<lparr>v_child_ids := cs\<rparr>) = cname v" "cname (v\<lparr>v_child_count := n\<rparr>) = cname v"
  "vnode_ok (v\<lparr>v_parent := a\<rparr>) = vnode_ok v" "vnode_ok (v\<lparr>v_uid := b\<rparr>) = vnode_ok v"
  "vnode_ok (v\<lparr>v_gid := b\<rparr>) = vnode_ok v" "vnode_ok (v\<lparr>v_mode := d\<rparr>) = vnode_ok v"
  "vnode_ok (v\<lparr>v_id := a\<rparr>) = vnode_ok v" "vnode_ok (v\<lparr>v_type := t\<rparr>) = vnode_ok v"
  "vnode_ok (v\<lparr>v_data_offset := n\<rparr>) = vnode_ok v" "vnode_ok (v\<lparr>v_size := n\<rparr>) = vnode_ok v"
  "vnode_ok (v\<lparr>v_data_cap := n\<rparr>) = vnode_ok v"
  by (simp_all add: kids_def cname_def vnode_ok_def)

lemma link_child_view:
  assumes "table_ok s" "vview s p = Some pv" "vnode_ok pv" "v_id pv = p" "v_child_count pv < 16"
  obtains pv' where "table_ok (link_child p c s)" "vview (link_child p c s) = (vview s)(p \<mapsto> pv')"
    "NEXT_ID (link_child p c s) = NEXT_ID s" "kids pv' = kids pv @ [c]" "v_id pv' = p" "vnode_ok pv'"
    "cname pv' = cname pv" "v_parent pv' = v_parent pv" "v_type pv' = v_type pv" "attrs pv' = attrs pv"
proof -
  obtain i where i: "find_slot p s = Some i" "vnode_at i s = pv"
    using assms(2) by (auto simp: vview_def)
  let ?n = "v_child_count pv"
  let ?pv = "pv\<lparr>v_child_ids := (v_child_ids pv)[?n := c], v_child_count := ?n + 1\<rparr>"
  have link: "link_child p c s = put_vnode i ?pv s"
    using i assms(5) by (simp add: link_child_def Let_def MAX_CHILDREN_def)
  have "kids ?pv = kids pv @ [c]" "vnode_ok ?pv"
    using assms(3,5) by (simp_all add: kids_def vnode_ok_def take_Suc_conv_app_nth)
  moreover have "NEXT_ID (put_vnode i ?pv s) = NEXT_ID s" by (simp add: put_vnode_def)
  ultimately show ?thesis using that [of ?pv] view_replace [OF assms(1) i(1), of ?pv] assms(4)
    by (simp add: link attrs_def)
qed

lemma view_frame:
  assumes "VNODES t = VNODES s"
  shows "vview t = vview s" "table_ok t = table_ok s" "vfs_alloc_slot t = vfs_alloc_slot s"
  by (simp_all only: vview_def find_slot_def vnode_at_def table_ok_def vfs_alloc_slot_def assms)

lemma create_node_cases:
  assumes wf: "vfs_wf s" and p: "vview s p = Some pv" "v_type pv = Dir" and nxt: "NEXT_ID s < NEXT_ID s + 1"
  obtains (fail) "fst (create_node p nm vt s) = 0" "VNODES (snd (create_node p nm vt s)) = VNODES s"
      "vfs_wf (snd (create_node p nm vt s))"
      "nm = [] \<or> length nm > MAX_NAME \<or> vfs_lookup p nm s \<noteq> 0 \<or> length (kids pv) = MAX_CHILDREN \<or>
       vfs_alloc_slot s = None"
  | (ok) v pv' where "fst (create_node p nm vt s) = NEXT_ID s" "NEXT_ID s \<noteq> 0"
      "vfs_wf (snd (create_node p nm vt s))" "vfs_lookup p nm s = 0"
      "vview (snd (create_node p nm vt s)) = (vview s)(NEXT_ID s \<mapsto> v, p \<mapsto> pv')"
      "NEXT_ID (snd (create_node p nm vt s)) = NEXT_ID s + 1"
      "kids v = []" "cname v = nm" "v_type v = vt" "v_parent v = p"
      "kids pv' = kids pv @ [NEXT_ID s]" "cname pv' = cname pv"
      "nm \<noteq> []" "length nm \<le> MAX_NAME" "length (kids pv) < MAX_CHILDREN" "vfs_alloc_slot s \<noteq> None"
      "attrs pv' = attrs pv"
proof -
  have tab: "table_ok s" and vw: "view_wf (vview s) (NEXT_ID s)" using wf by (simp_all add: vfs_wf_def)
  have pv: "vnode_ok pv" "v_id pv = p" using view_wfD(1) [OF vw p(1)] by simp_all
  have cc: "child_count p s = length (kids pv)" by (rule child_count_kids [OF wf p(1)])
  have c0: "NEXT_ID s \<noteq> 0" using view_wfD(1,6) [OF vw] by (metis word_not_simps(1))
  have mc: "vview s (NEXT_ID s) = None"
    using view_wfD(1) [OF vw, of "NEXT_ID s"] by (cases "vview s (NEXT_ID s)") auto
  let ?s1 = "s\<lparr>NEXT_ID := NEXT_ID s + 1\<rparr>"
  have view1: "vview ?s1 = vview s" "table_ok ?s1" "vfs_alloc_slot ?s1 = vfs_alloc_slot s"
    using tab view_frame [of ?s1 s] by simp_all
  consider (bad) "nm = [] \<or> length nm > MAX_NAME \<or> vfs_lookup p nm s \<noteq> 0 \<or> child_count p s \<ge> MAX_CHILDREN"
    | (full) "\<not> (nm = [] \<or> length nm > MAX_NAME \<or> vfs_lookup p nm s \<noteq> 0 \<or> child_count p s \<ge> MAX_CHILDREN)"
        "vfs_alloc_slot s = None"
    | (good) i where "nm \<noteq> []" "length nm \<le> 31" "vfs_lookup p nm s = 0" "length (kids pv) < 16"
        "vfs_alloc_slot s = Some i"
    by (cases "vfs_alloc_slot s") (force simp: cc vfs_consts)+
  then show ?thesis
  proof cases
    case bad
    then have "create_node p nm vt s = (0, s)" by (auto simp: create_node_def)
    moreover have "length (kids pv) \<le> MAX_CHILDREN" using pv by (simp add: kids_def vnode_ok_def MAX_CHILDREN_def)
    ultimately show ?thesis using bad wf by (intro fail) (auto simp: cc)
  next
    case full
    then have "create_node p nm vt s = (0, ?s1)"
      by (simp add: create_node_def alloc_id_def Let_def view1(3))
    moreover have "view_wf (vview s) (NEXT_ID s + 1)"
      by (rule view_wf_mono [OF vw]) (use nxt in simp)
    ultimately show ?thesis using full view1 by (intro fail) (simp_all add: vfs_wf_def)
  next
    case (good i)
    obtain uid gid where ids: "current_ids ?s1 = (uid, gid)" by fastforce
    let ?m = "case vt of Dir \<Rightarrow> MODE_DIR | _ \<Rightarrow> MODE_FILE"
    let ?v = "(set_name_raw nm (vnode_empty\<lparr>v_id := NEXT_ID s, v_type := vt\<rparr>))
                \<lparr>v_parent := p, v_uid := uid, v_gid := gid, v_mode := ?m\<rparr>"
    let ?s2 = "put_vnode i ?v ?s1"
    have cr: "create_node p nm vt s = (NEXT_ID s, link_child p (NEXT_ID s) ?s2)"
      using good by (simp add: create_node_def alloc_id_def Let_def view1(3) ids cc vfs_consts)
    have v: "v_id ?v = NEXT_ID s" "vnode_ok ?v" "kids ?v = []" "cname ?v = nm" "v_parent ?v = p" "v_type ?v = vt"
      using set_name_ok [of "vnode_empty\<lparr>v_id := NEXT_ID s, v_type := vt\<rparr>" nm] good(2) by simp_all
    have add: "table_ok ?s2" "vview ?s2 = (vview s)(NEXT_ID s \<mapsto> ?v)"
      using view_add [OF view1(2), of i ?v "NEXT_ID s"] good(5) v(1) c0 mc by (simp_all add: view1)
    have "NEXT_ID s \<noteq> p" using mc p by auto
    then have "vview ?s2 p = Some pv" using p by (simp add: add(2))
    moreover have "v_child_count pv < 16" using good(4) pv(1) by (simp add: kids_def vnode_ok_def)
    ultimately obtain pv' where l: "table_ok (link_child p (NEXT_ID s) ?s2)"
      "vview (link_child p (NEXT_ID s) ?s2) = (vview ?s2)(p \<mapsto> pv')"
      "NEXT_ID (link_child p (NEXT_ID s) ?s2) = NEXT_ID ?s2" "kids pv' = kids pv @ [NEXT_ID s]" "v_id pv' = p"
      "vnode_ok pv'" "cname pv' = cname pv" "v_parent pv' = v_parent pv" "v_type pv' = v_type pv"
      "attrs pv' = attrs pv"
      using link_child_view [OF add(1) _ pv, of "NEXT_ID s"] by metis
    have n2: "NEXT_ID ?s2 = NEXT_ID s + 1" by (simp add: put_vnode_def)
    have "view_find (vview s) p nm = None" using good(3) vfs_lookup_zero [OF wf] by blast
    then have "view_wf ((vview s)(NEXT_ID s \<mapsto> ?v, p \<mapsto> pv')) (NEXT_ID s + 1)"
      using view_wf_add [OF vw p _ nxt c0 v(1-5) l(4,5,6,7,8,9)] by simp
    then have "vfs_wf (snd (create_node p nm vt s))" using l(1,2,3) n2 add(2) by (simp add: vfs_wf_def cr)
    then show ?thesis using good c0 v l n2 add(2)
      by (intro ok [of ?v pv']) (simp_all add: cr vfs_consts)
  qed
qed

subsection \<open>Changing a vnode in place\<close>

text \<open>A vnode may change everything but its id, parent, type and children, provided its name stays
  unique among its siblings.\<close>

lemma view_wf_update:
  assumes wf: "view_wf m nxt" and c: "m c = Some w"
    and w': "v_id w' = c" "vnode_ok w'" "kids w' = kids w" "v_parent w' = v_parent w" "v_type w' = v_type w"
    and uniq: "\<And>p v d x. m p = Some v \<Longrightarrow> c \<in> set (kids v) \<Longrightarrow> d \<in> set (kids v) \<Longrightarrow> d \<noteq> c \<Longrightarrow>
      m d = Some x \<Longrightarrow> cname x \<noteq> cname w'"
  shows "view_wf (m(c \<mapsto> w')) nxt"
proof -
  note D = view_wfD [OF wf]
  have old: "\<exists>x0. m d = Some x0 \<and> kids x = kids x0 \<and> v_parent x = v_parent x0 \<and> v_type x = v_type x0 \<and>
      (d \<noteq> c \<longrightarrow> x = x0)" if "(m(c \<mapsto> w')) d = Some x" for d x
    using that c w' by (cases "d = c") auto
  have new: "\<exists>x. (m(c \<mapsto> w')) d = Some x \<and> kids x = kids x0 \<and> v_parent x = v_parent x0 \<and> v_type x = v_type x0"
    if "m d = Some x0" for d x0 using that c w' by (cases "d = c") auto
  show ?thesis
  proof (rule view_wfI)
    show "v_id v = j \<and> vnode_ok v \<and> j \<noteq> 0 \<and> j < nxt" if "(m(c \<mapsto> w')) j = Some v" for j v
      using that D(1) [of j v] D(1) [OF c] w' by (cases "j = c") auto
    show "\<exists>r. (m(c \<mapsto> w')) ROOT_ID = Some r \<and> v_type r = Dir \<and> v_parent r = 0"
      using D(6) new by fastforce
    show "distinct (kids v) \<and> (kids v \<noteq> [] \<longrightarrow> v_type v = Dir) \<and>
        (\<forall>d \<in> set (kids v). \<exists>x. (m(c \<mapsto> w')) d = Some x \<and> v_parent x = p)"
      if "(m(c \<mapsto> w')) p = Some v" for p v
      using old [OF that] D(2,3,7) [of p] new by fastforce
    show "d = e" if pv: "(m(c \<mapsto> w')) p = Some v" "d \<in> set (kids v)" "e \<in> set (kids v)"
        "(m(c \<mapsto> w')) d = Some x" "(m(c \<mapsto> w')) e = Some y" "cname x = cname y" for p v d e x y
    proof -
      from old [OF pv(1)] obtain v0 where v0: "m p = Some v0" "kids v = kids v0" by auto
      note k = pv(2,3) [unfolded v0(2)]
      from D(3) [OF v0(1) k(1)] D(3) [OF v0(1) k(2)] obtain x0 y0 where "m d = Some x0" "m e = Some y0"
        by blast
      with pv(4-6) show ?thesis
        using D(4) [OF v0(1) k] uniq [OF v0(1), of d] uniq [OF v0(1), of e] k
        by (cases "d = c"; cases "e = c") auto
    qed
    show "\<exists>v. (m(c \<mapsto> w')) (v_parent x) = Some v \<and> d \<in> set (kids v)"
      if "(m(c \<mapsto> w')) d = Some x" "d \<noteq> ROOT_ID" for d x
      using old [OF that(1)] D(5) [of d] new that(2) by fastforce
  qed
qed

lemma view_find_update:
  assumes wf: "view_wf m nxt" and wf': "view_wf (m(c \<mapsto> w')) nxt" and c: "m c = Some w"
    and w': "kids w' = kids w"
  shows "view_find (m(c \<mapsto> w')) q nm = Some d \<longleftrightarrow>
    (if d = c then (\<exists>v. m q = Some v \<and> c \<in> set (kids v)) \<and> cname w' = nm else view_find m q nm = Some d)"
  unfolding view_find_iff [OF wf] view_find_iff [OF wf'] using c w' by (cases "q = c") auto

subsection \<open>Removing a child\<close>

lemma view_wf_remove:
  assumes wf: "view_wf m nxt" and p: "m p = Some pv" and c: "c \<in> set (kids pv)" "m c = Some w" "kids w = []"
    and pv': "kids pv' = remove1 c (kids pv)" "v_id pv' = p" "vnode_ok pv'" "cname pv' = cname pv"
      "v_parent pv' = v_parent pv" "v_type pv' = v_type pv"
  shows "view_wf (m(p \<mapsto> pv', c := None)) nxt"
proof -
  note D = view_wfD [OF wf]
  let ?m = "m(p \<mapsto> pv', c := None)"
  have cp: "c \<noteq> p" using p c by auto
  have wp: "v_parent w = p" using D(3) [OF p c(1)] c(2) by auto
  have p0: "p \<noteq> 0" using D(1) [OF p] by simp
  have nr: "c \<noteq> ROOT_ID" using D(6) c(2) wp p0 by auto
  have ks: "set (kids pv') = set (kids pv) - {c}" "distinct (kids pv')"
    using D(2) [OF p] by (simp_all add: pv'(1))
  have only: "c \<notin> set (kids v)" if "m q = Some v" "q \<noteq> p" for q v
    using D(3) [OF that(1), of c] c(2) wp that(2) by auto
  have old: "d \<noteq> c \<and> (\<exists>x0. m d = Some x0 \<and> set (kids x) = set (kids x0) - {c} \<and> distinct (kids x) \<and>
      v_parent x = v_parent x0 \<and> v_type x = v_type x0 \<and> cname x = cname x0 \<and> v_id x = d \<and> vnode_ok x)"
    if dx: "?m d = Some x" for d x
  proof (cases "d = p")
    case True
    with dx cp have "x = pv'" by simp
    with True cp p pv' ks show ?thesis by simp
  next
    case False
    with dx have "d \<noteq> c" "m d = Some x" by (simp_all split: if_splits)
    with only [of d x] D(1,2) [of d x] False show ?thesis by simp
  qed
  have new: "\<exists>x. ?m d = Some x \<and> set (kids x) = set (kids x0) - {c} \<and> v_parent x = v_parent x0 \<and> v_type x = v_type x0"
    if "m d = Some x0" "d \<noteq> c" for d x0
    using that p pv' ks only [of d x0] by (cases "d = p") auto
  show ?thesis
  proof (rule view_wfI)
    show "v_id v = j \<and> vnode_ok v \<and> j \<noteq> 0 \<and> j < nxt" if "?m j = Some v" for j v
      using old [OF that] D(1) [of j] by blast
    show "\<exists>r. ?m ROOT_ID = Some r \<and> v_type r = Dir \<and> v_parent r = 0"
      using D(6) new [of ROOT_ID] nr by fastforce
    show "distinct (kids v) \<and> (kids v \<noteq> [] \<longrightarrow> v_type v = Dir) \<and>
        (\<forall>d \<in> set (kids v). \<exists>x. ?m d = Some x \<and> v_parent x = q)" if "?m q = Some v" for q v
    proof -
      from old [OF that] obtain v0 where v0: "m q = Some v0" "set (kids v) = set (kids v0) - {c}"
        "distinct (kids v)" "v_type v = v_type v0" by blast
      have "\<exists>x. ?m d = Some x \<and> v_parent x = q" if "d \<in> set (kids v)" for d
        using D(3) [OF v0(1), of d] new [of d] that v0(2) by fastforce
      moreover have "kids v = []" if "kids v0 = []" using that v0(2) by simp
      then have "kids v \<noteq> [] \<longrightarrow> v_type v = Dir" using D(7) [OF v0(1)] v0(4) by metis
      ultimately show ?thesis using v0(3) by blast
    qed
    show "d = e" if pv: "?m q = Some v" "d \<in> set (kids v)" "e \<in> set (kids v)" "?m d = Some x"
        "?m e = Some y" "cname x = cname y" for q v d e x y
    proof -
      from old [OF pv(1)] pv(2,3) obtain v0 where v0: "m q = Some v0" "d \<in> set (kids v0)" "e \<in> set (kids v0)"
        by auto
      from old [OF pv(4)] old [OF pv(5)] pv(6) obtain x0 y0 where
        "m d = Some x0" "m e = Some y0" "cname x0 = cname y0" by auto
      then show ?thesis by (rule D(4) [OF v0])
    qed
    show "\<exists>v. ?m (v_parent x) = Some v \<and> d \<in> set (kids v)" if "?m d = Some x" "d \<noteq> ROOT_ID" for d x
    proof -
      from old [OF that(1)] obtain x0 where x0: "d \<noteq> c" "m d = Some x0" "v_parent x = v_parent x0" by blast
      from D(5) [OF x0(2) that(2)] obtain v where v: "m (v_parent x) = Some v" "d \<in> set (kids v)"
        by (auto simp: x0(3))
      with c(2,3) have "v_parent x \<noteq> c" by auto
      from new [OF v(1) this] obtain v1 where "?m (v_parent x) = Some v1" "set (kids v1) = set (kids v) - {c}"
        by blast
      with v(2) x0(1) show ?thesis by (intro exI [of _ v1]) simp
    qed
  qed
qed

text \<open>The shifting loop of \<open>unlink_child\<close> removes one element.\<close>

lemma length_shift [simp]: "length (fold (\<lambda>j cs. cs[j := cs ! Suc j]) js cs) = length cs"
  by (induction js arbitrary: cs) simp_all

lemma shift_nth:
  assumes "i \<le> k" "k < length cs" "j < length cs"
  shows "fold (\<lambda>j cs. cs[j := cs ! (j + 1)]) [i..<k] cs ! j = (if i \<le> j \<and> j < k then cs ! (j + 1) else cs ! j)"
  using assms
proof (induction k arbitrary: j)
  case (Suc k)
  show ?case
  proof (cases "i = Suc k")
    case False
    then have "[i..<Suc k] = [i..<k] @ [k]" using Suc.prems by simp
    with Suc False show ?thesis by (auto simp: nth_list_update less_Suc_eq)
  qed auto
qed simp

lemma shift_take:
  assumes "i < n" "n \<le> length cs"
  shows "take (n - 1) (fold (\<lambda>j cs. cs[j := cs ! (j + 1)]) [i..<n - 1] cs) = take i cs @ drop (Suc i) (take n cs)"
proof (rule nth_equalityI)
  fix j
  assume "j < length (take (n - 1) (fold (\<lambda>j cs. cs[j := cs ! (j + 1)]) [i..<n - 1] cs))"
  with assms have "j < n - 1" "j < length cs" "n - 1 < length cs" "i \<le> n - 1" by auto
  with assms shift_nth [of i "n - 1" cs j] show
    "take (n - 1) (fold (\<lambda>j cs. cs[j := cs ! (j + 1)]) [i..<n - 1] cs) ! j = (take i cs @ drop (Suc i) (take n cs)) ! j"
    by (auto simp: nth_append)
qed (use assms in auto)

lemma remove1_first:
  assumes "i < length xs" "xs ! i = c" "\<forall>j < i. xs ! j \<noteq> c"
  shows "remove1 c xs = take i xs @ drop (Suc i) xs"
proof -
  have "c \<notin> set (take i xs)" using assms by (auto simp: in_set_conv_nth)
  moreover have "xs = take i xs @ c # drop (Suc i) xs" using assms id_take_nth_drop [of i xs] by simp
  ultimately show ?thesis by (metis remove1.simps(2) remove1_append)
qed

lemma unlink_child_view:
  assumes "table_ok s" "vview s p = Some pv" "vnode_ok pv" "v_id pv = p" "c \<in> set (kids pv)"
  obtains pv' where "fst (unlink_child p c s)" "table_ok (snd (unlink_child p c s))"
    "vview (snd (unlink_child p c s)) = (vview s)(p \<mapsto> pv')" "NEXT_ID (snd (unlink_child p c s)) = NEXT_ID s"
    "kids pv' = remove1 c (kids pv)" "v_id pv' = p" "vnode_ok pv'"
    "cname pv' = cname pv" "v_parent pv' = v_parent pv" "v_type pv' = v_type pv"
proof -
  obtain k where k: "find_slot p s = Some k" "vnode_at k s = pv" using assms(2) by (auto simp: vview_def)
  let ?n = "v_child_count pv" and ?cs = "v_child_ids pv"
  have len: "?n \<le> length ?cs" "length ?cs = 16" using assms(3) by (simp_all add: vnode_ok_def)
  have "\<exists>i < ?n. ?cs ! i = c" using assms(5) len by (auto simp: kids_def in_set_conv_nth)
  then obtain i where i: "first_from (\<lambda>i. ?cs ! i = c) 0 ?n = Some i"
    by (cases "first_from (\<lambda>i. ?cs ! i = c) 0 ?n") (auto simp: first_from_None_iff)
  note iD = first_from_SomeD [OF this]
  let ?pv = "pv\<lparr>v_child_ids := fold (\<lambda>j cs. cs[j := cs ! (j + 1)]) [i ..< ?n - 1] ?cs, v_child_count := ?n - 1\<rparr>"
  have un: "unlink_child p c s = (True, put_vnode k ?pv s)"
    using k i by (simp add: unlink_child_def Let_def)
  have "kids ?pv = take i ?cs @ drop (Suc i) (take ?n ?cs)"
    using shift_take [of i ?n ?cs] iD len by (simp add: kids_def)
  also have "\<dots> = remove1 c (kids pv)"
    using remove1_first [of i "kids pv" c] iD len by (simp add: kids_def)
  finally have "kids ?pv = remove1 c (kids pv)" .
  moreover have "vnode_ok ?pv" using assms(3) by (auto simp: vnode_ok_def)
  moreover have "NEXT_ID (put_vnode k ?pv s) = NEXT_ID s" by (simp add: put_vnode_def)
  ultimately show ?thesis using that [of ?pv] view_replace [OF assms(1) k(1), of ?pv] assms(4)
    by (simp add: un)
qed

lemma vfs_unlink_cases:
  assumes wf: "vfs_wf s"
  obtains (fail) "vfs_unlink p nm s = (False, s)"
      "vfs_lookup p nm s = 0 \<or> (\<exists>w. vview s (vfs_lookup p nm s) = Some w \<and> kids w \<noteq> [])"
  | (ok) pv c pv' w where "fst (vfs_unlink p nm s)" "vfs_wf (snd (vfs_unlink p nm s))"
      "vfs_lookup p nm s = c" "c \<noteq> 0" "vview s p = Some pv" "c \<in> set (kids pv)" "vview s c = Some w" "kids w = []"
      "cname w = nm" "vview (snd (vfs_unlink p nm s)) = (vview s)(p \<mapsto> pv', c := None)"
      "NEXT_ID (snd (vfs_unlink p nm s)) = NEXT_ID s"
      "kids pv' = remove1 c (kids pv)" "cname pv' = cname pv"
proof (cases "vfs_lookup p nm s = 0")
  case True
  then show ?thesis by (intro fail) (simp_all add: vfs_unlink_def)
next
  case nz: False
  let ?c = "vfs_lookup p nm s"
  have tab: "table_ok s" and vw: "view_wf (vview s) (NEXT_ID s)" using wf by (simp_all add: vfs_wf_def)
  note D = view_wfD [OF vw]
  from vfs_lookup_iff [OF wf nz] have "view_find (vview s) p nm = Some ?c" by blast
  then obtain pv w where pv: "vview s p = Some pv" "?c \<in> set (kids pv)" "vview s ?c = Some w" "cname w = nm"
    by (auto simp: view_find_iff [OF vw])
  have vok: "vnode_ok pv" "v_id pv = p" "vnode_ok w" using D(1) pv by simp_all
  have cc: "child_count ?c s = length (kids w)" by (rule child_count_kids [OF wf pv(3)])
  show ?thesis
  proof (cases "kids w = []")
    case False
    then have "get_type ?c s = Some Dir" "0 < child_count ?c s"
      using D(7) [OF pv(3)] pv(3) cc by (simp_all add: get_view)
    then have "vfs_unlink p nm s = (False, s)" using nz by (simp add: vfs_unlink_def)
    with False pv(3) show ?thesis by (intro fail) simp_all
  next
    case True
    from unlink_child_view [OF tab pv(1) vok(1,2) pv(2)] obtain pv' where
      u: "fst (unlink_child p ?c s)" "table_ok (snd (unlink_child p ?c s))"
        "vview (snd (unlink_child p ?c s)) = (vview s)(p \<mapsto> pv')" "NEXT_ID (snd (unlink_child p ?c s)) = NEXT_ID s"
        "kids pv' = remove1 ?c (kids pv)" "v_id pv' = p" "vnode_ok pv'"
        "cname pv' = cname pv" "v_parent pv' = v_parent pv" "v_type pv' = v_type pv" by blast
    let ?s1 = "snd (unlink_child p ?c s)"
    have "?c \<noteq> p" using pv True by auto
    then obtain i where i: "find_slot ?c ?s1 = Some i"
      using u(3) pv(3) by (cases "find_slot ?c ?s1") (auto simp: vview_None)
    have un: "vfs_unlink p nm s = (True, put_vnode i vnode_empty ?s1)"
      using nz True u(1) i cc by (simp add: vfs_unlink_def Let_def case_prod_unfold)
    note cl = view_clear [OF u(2) i]
    have nid: "NEXT_ID (put_vnode i vnode_empty ?s1) = NEXT_ID s" using u(4) by (simp add: put_vnode_def)
    have "vfs_wf (put_vnode i vnode_empty ?s1)"
      using view_wf_remove [OF vw pv(1,2,3) True u(5-10)] cl nid by (simp add: vfs_wf_def u(3))
    then show ?thesis using nz pv True u(3,5,8) nid cl
      by (intro ok [of ?c pv w pv']) (simp_all add: un)
  qed
qed

lemma view_find_remove:
  assumes wf: "view_wf m nxt" and wf': "view_wf (m(p \<mapsto> pv', c := None)) nxt"
    and p: "m p = Some pv" and c: "c \<in> set (kids pv)" "m c = Some w" "kids w = []"
    and pv': "kids pv' = remove1 c (kids pv)" "cname pv' = cname pv"
  shows "view_find (m(p \<mapsto> pv', c := None)) q nm =
    (if q = p \<and> nm = cname w then None else view_find m q nm)"
proof -
  note D = view_wfD [OF wf]
  have cp: "c \<noteq> p" using p c by auto
  have wp: "v_parent w = p" using D(3) [OF p c(1)] c(2) by auto
  have ks: "set (kids pv') = set (kids pv) - {c}" using D(2) [OF p] by (simp add: pv'(1))
  have only: "c \<notin> set (kids v)" if "m q = Some v" "q \<noteq> p" for v
    using D(3) [OF that(1), of c] c(2) wp that(2) by auto
  have iff: "view_find (m(p \<mapsto> pv', c := None)) q nm = Some d \<longleftrightarrow> d \<noteq> c \<and> view_find m q nm = Some d" for d
    unfolding view_find_iff [OF wf] view_find_iff [OF wf']
    using cp p c ks pv'(2) only by (cases "q = p"; cases "q = c"; cases "d = p") auto
  have c_only: "view_find m q nm = Some c \<longleftrightarrow> q = p \<and> nm = cname w"
    unfolding view_find_iff [OF wf] using p c only by auto
  show ?thesis
  proof (cases "view_find m q nm = Some c")
    case True
    then show ?thesis using iff c_only by (cases "view_find (m(p \<mapsto> pv', c := None)) q nm") auto
  next
    case False
    then show ?thesis using iff c_only by (intro option_eqI_Some) auto
  qed
qed

subsection \<open>Renaming\<close>

lemma vfs_rename_cases:
  assumes wf: "vfs_wf s"
  obtains (fail) "vfs_rename p old new s = (False, s)"
      "new = [] \<or> length new > MAX_NAME \<or> vfs_lookup p old s = 0 \<or>
       (vfs_lookup p new s \<noteq> 0 \<and> vfs_lookup p new s \<noteq> vfs_lookup p old s)"
  | (ok) c pv w w' where "fst (vfs_rename p old new s)" "vfs_wf (snd (vfs_rename p old new s))"
      "vfs_lookup p old s = c" "c \<noteq> 0" "vview s p = Some pv" "c \<in> set (kids pv)" "vview s c = Some w" "cname w = old"
      "vview (snd (vfs_rename p old new s)) = (vview s)(c \<mapsto> w')" "kids w' = kids w" "cname w' = new"
      "NEXT_ID (snd (vfs_rename p old new s)) = NEXT_ID s"
      "vfs_lookup p new s = 0 \<or> vfs_lookup p new s = c" "new \<noteq> []" "length new \<le> MAX_NAME"
proof (cases "new = [] \<or> length new > MAX_NAME \<or> vfs_lookup p old s = 0 \<or>
       (vfs_lookup p new s \<noteq> 0 \<and> vfs_lookup p new s \<noteq> vfs_lookup p old s)")
  case True
  then show ?thesis by (intro fail) (auto simp: vfs_rename_def Let_def)
next
  case F: False
  let ?c = "vfs_lookup p old s"
  have nz: "?c \<noteq> 0" using F by simp
  have tab: "table_ok s" and vw: "view_wf (vview s) (NEXT_ID s)" using wf by (simp_all add: vfs_wf_def)
  note D = view_wfD [OF vw]
  from vfs_lookup_iff [OF wf nz] have "view_find (vview s) p old = Some ?c" by blast
  then obtain pv w where pv: "vview s p = Some pv" "?c \<in> set (kids pv)" "vview s ?c = Some w" "cname w = old"
    by (auto simp: view_find_iff [OF vw])
  then obtain i where i: "find_slot ?c s = Some i" "vnode_at i s = w" by (auto simp: vview_def)
  let ?w = "set_name_raw new w"
  have w: "vnode_ok w" "v_id w = ?c" using D(1) [OF pv(3)] by simp_all
  have w': "vnode_ok ?w" "cname ?w = new" using set_name_ok [OF w(1), of new] F by (simp_all add: MAX_NAME_def)
  have rn: "vfs_rename p old new s = (True, put_vnode i ?w s)"
    using F i by (auto simp: vfs_rename_def Let_def)
  have rep: "table_ok (put_vnode i ?w s)" "vview (put_vnode i ?w s) = (vview s)(?c \<mapsto> ?w)"
    using view_replace [OF tab i(1), of ?w] w(2) by simp_all
  have uniq: "cname x \<noteq> cname ?w" if "vview s q = Some v" "?c \<in> set (kids v)" "d \<in> set (kids v)" "d \<noteq> ?c"
      "vview s d = Some x" for q v d x
  proof
    assume "cname x = cname ?w"
    moreover have "q = p" using D(3) [OF that(1,2)] D(3) [OF pv(1,2)] pv(3) by auto
    ultimately have "view_find (vview s) p new = Some d"
      using that w'(2) by (auto simp: view_find_iff [OF vw])
    moreover have "d \<noteq> 0" using D(1) [OF that(5)] by simp
    ultimately have "vfs_lookup p new s = d" using vfs_lookup_iff [OF wf] by blast
    with F that(4) \<open>d \<noteq> 0\<close> show False by simp
  qed
  have nid: "NEXT_ID (put_vnode i ?w s) = NEXT_ID s" by (simp add: put_vnode_def)
  have "view_wf ((vview s)(?c \<mapsto> ?w)) (NEXT_ID s)"
    by (rule view_wf_update [OF vw pv(3) _ w'(1) _ _ _ uniq]) (simp_all add: w(2))
  then have "vfs_wf (put_vnode i ?w s)" using rep nid by (simp add: vfs_wf_def)
  then show ?thesis using nz pv w' rep(2) nid F by (intro ok [of ?c pv w ?w]) (auto simp: rn)
qed

section \<open>The empty tree\<close>

definition root_vnode :: vnode where
  "root_vnode =
     (set_name_raw (str ''/'') (vnode_empty\<lparr>v_id := ROOT_ID, v_type := Dir\<rparr>))
       \<lparr>v_parent := 0, v_uid := UID_ROOT, v_gid := GID_ROOT, v_mode := MODE_DIR\<rparr>"

lemma root_vnode_fields [simp]:
  "v_id root_vnode = 1" "v_type root_vnode = Dir" "v_parent root_vnode = 0" "kids root_vnode = []"
  "vnode_ok root_vnode" "v_child_count root_vnode = 0"
proof -
  show "vnode_ok root_vnode"
    using set_name_ok(1) [of "vnode_empty\<lparr>v_id := ROOT_ID, v_type := Dir\<rparr>" "str ''/''"]
    by (simp add: root_vnode_def)
qed (simp_all add: root_vnode_def ROOT_ID_def set_name_raw_def Let_def vnode_empty_def kids_def)

lemma vfs_reset_eq:
  "vfs_reset s = s\<lparr>VNODES := root_vnode # replicate 63 vnode_empty, NEXT_ID := 2\<rparr>"
proof -
  let ?s = "s\<lparr>VNODES := replicate MAX_VNODES vnode_empty, NEXT_ID := 2\<rparr>"
  have "vfs_alloc_slot ?s = Some 0"
    by (simp add: vfs_alloc_slot_def first_from_Some_iff MAX_VNODES_def vnode_empty_def)
  moreover have "replicate 64 vnode_empty = vnode_empty # replicate 63 vnode_empty"
    by (simp add: numeral_eq_Suc)
  ultimately show ?thesis
    by (simp add: vfs_reset_def vfs_init_def put_vnode_def vnode_at_def root_vnode_def MAX_VNODES_def)
qed

lemma nth_reset: "i < 64 \<Longrightarrow> VNODES (vfs_reset s) ! i = (if i = 0 then root_vnode else vnode_empty)"
  by (cases i) (simp_all add: vfs_reset_eq)

lemma table_ok_reset: "table_ok (vfs_reset s)"
proof -
  have "length (VNODES (vfs_reset s)) = 64" by (simp add: vfs_reset_eq)
  moreover have "v_id vnode_empty = 0" by (simp add: vnode_empty_def)
  ultimately show ?thesis by (simp add: table_ok_def nth_reset)
qed

lemma vview_reset: "vview (vfs_reset s) = [ROOT_ID \<mapsto> root_vnode]"
proof
  fix j
  have "v_id vnode_empty = 0" by (simp add: vnode_empty_def)
  then have "find_slot j (vfs_reset s) = (if j = 1 then Some 0 else None)"
    by (intro option_eqI_Some) (auto simp: find_slot_Some [OF table_ok_reset] nth_reset split: if_splits)
  then show "vview (vfs_reset s) j = [ROOT_ID \<mapsto> root_vnode] j"
    by (simp add: vview_def vnode_at_def nth_reset ROOT_ID_def)
qed

lemma vfs_wf_reset: "vfs_wf (vfs_reset s)"
proof -
  have "view_wf [ROOT_ID \<mapsto> root_vnode] 2"
    by (rule view_wfI) (auto simp: ROOT_ID_def split: if_splits)
  then show ?thesis using table_ok_reset by (simp add: vfs_wf_def vview_reset) (simp add: vfs_reset_eq)
qed

section \<open>Properties\<close>

lemma create_node_effect:
  assumes wf: "vfs_wf s" and dir: "get_type p s = Some Dir" and nxt: "NEXT_ID s < NEXT_ID s + 1"
    and cr: "create_node p nm vt s = (c, t)"
  shows "vfs_wf t" "c \<noteq> 0 \<longleftrightarrow> nm \<noteq> [] \<and> length nm \<le> MAX_NAME \<and> vfs_lookup p nm s = 0 \<and>
      child_count p s < MAX_CHILDREN \<and> vfs_alloc_slot s \<noteq> None"
    and "c \<noteq> 0 \<Longrightarrow> vfs_lookup q nm' t = (if q = p \<and> nm' = nm then c else vfs_lookup q nm' s)"
    and "c \<noteq> 0 \<Longrightarrow> get_type c t = Some vt \<and> get_parent c t = p \<and> child_count c t = 0"
    and "c = 0 \<Longrightarrow> vfs_lookup q nm' t = vfs_lookup q nm' s"
proof -
  from dir obtain pv where p: "vview s p = Some pv" "v_type pv = Dir" by (auto simp: get_view)
  have vw: "view_wf (vview s) (NEXT_ID s)" using wf by (simp add: vfs_wf_def)
  have cc: "child_count p s = length (kids pv)" by (rule child_count_kids [OF wf p(1)])
  have "vfs_wf t \<and> (c \<noteq> 0 \<longleftrightarrow> nm \<noteq> [] \<and> length nm \<le> MAX_NAME \<and> vfs_lookup p nm s = 0 \<and>
      child_count p s < MAX_CHILDREN \<and> vfs_alloc_slot s \<noteq> None) \<and>
    (c \<noteq> 0 \<longrightarrow> vfs_lookup q nm' t = (if q = p \<and> nm' = nm then c else vfs_lookup q nm' s)) \<and>
    (c \<noteq> 0 \<longrightarrow> get_type c t = Some vt \<and> get_parent c t = p \<and> child_count c t = 0) \<and>
    (c = 0 \<longrightarrow> vfs_lookup q nm' t = vfs_lookup q nm' s)"
  proof (cases rule: create_node_cases [OF wf p nxt, of nm vt])
    case 1
    then have "vfs_lookup q nm' t = vfs_lookup q nm' s"
      using view_frame(1) [of t s] cr vw vfs_lookup_view [OF vw, of q nm']
        vfs_lookup_view [of t "NEXT_ID s" q nm'] by simp
    with 1 cr cc show ?thesis by auto
  next
    case (2 v pv')
    have c: "c = NEXT_ID s" "vview t = (vview s)(c \<mapsto> v, p \<mapsto> pv')" "vfs_wf t" using 2 cr by simp_all
    have wt: "view_wf ((vview s)(NEXT_ID s \<mapsto> v, p \<mapsto> pv')) (NEXT_ID s + 1)"
      using 2(3,5,6) by (simp add: vfs_wf_def)
    have fresh: "view_find (vview s) p nm = None" using 2(4) vfs_lookup_zero [OF wf] by blast
    have "vfs_lookup q nm' t = (if q = p \<and> nm' = nm then c else vfs_lookup q nm' s)"
      using view_find_add [OF vw wt p(1) fresh 2(7,8) 2(11,12)] vfs_lookup_view [OF vw]
        vfs_lookup_view [of t "NEXT_ID s + 1"] wt c by simp
    moreover have "NEXT_ID s \<noteq> p" using view_wfD(1) [OF vw p(1)] by auto
    moreover from this have "child_count c t = 0"
      using child_count_kids [OF c(3), of c v] c 2(7) by simp
    ultimately show ?thesis using c 2 by (auto simp: get_view(1,5) cc)
  qed
  then show "vfs_wf t" "c \<noteq> 0 \<longleftrightarrow> nm \<noteq> [] \<and> length nm \<le> MAX_NAME \<and> vfs_lookup p nm s = 0 \<and>
      child_count p s < MAX_CHILDREN \<and> vfs_alloc_slot s \<noteq> None"
    and "c \<noteq> 0 \<Longrightarrow> vfs_lookup q nm' t = (if q = p \<and> nm' = nm then c else vfs_lookup q nm' s)"
    and "c \<noteq> 0 \<Longrightarrow> get_type c t = Some vt \<and> get_parent c t = p \<and> child_count c t = 0"
    and "c = 0 \<Longrightarrow> vfs_lookup q nm' t = vfs_lookup q nm' s" by blast+
qed

text \<open>C9.  Creating a file or directory in a directory: it succeeds exactly when the name fits, is not
  taken, the directory has room and a vnode is free.  On success the new name, and only it, resolves
  differently afterwards: it gives the new vnode, which has the requested type and parent.  On
  failure every name resolves as before.  In both cases the tree stays well-formed.\<close>

theorem create_lookup:
  assumes "vfs_wf s" "get_type p s = Some Dir" "NEXT_ID s < NEXT_ID s + 1"
    and "create_node p nm vt s = (c, t)"
  shows "vfs_wf t \<and>
    (c \<noteq> 0 \<longleftrightarrow> nm \<noteq> [] \<and> length nm \<le> MAX_NAME \<and> vfs_lookup p nm s = 0 \<and>
       child_count p s < MAX_CHILDREN \<and> vfs_alloc_slot s \<noteq> None) \<and>
    (if c = 0 then vfs_lookup q nm' t = vfs_lookup q nm' s
     else vfs_lookup q nm' t = (if q = p \<and> nm' = nm then c else vfs_lookup q nm' s) \<and>
       get_type c t = Some vt \<and> get_parent c t = p \<and> child_count c t = 0)"
  using create_node_effect [OF assms] by simp

definition sample_fs :: fs where
  "sample_fs = vfs_reset
     \<lparr>VNODES = [], NEXT_ID = 0, USERS = [], USER_COUNT = 0, CURRENT_UID = 0, DATA_POOL = (\<lambda>_. 0),
      NEXT_OFFSET = 1, FREE = replicate 32 (0, 0), FREE_COUNT = 0, HANDLES = [], MOUNT_DRIVE = - 1\<rparr>"

lemma sample_fs_facts:
  "vfs_wf sample_fs" "get_type ROOT_ID sample_fs = Some Dir" "NEXT_ID sample_fs = 2"
  "vfs_lookup ROOT_ID nm sample_fs = 0" "child_count ROOT_ID sample_fs = 0" "vfs_alloc_slot sample_fs = Some 1"
proof -
  show wf: "vfs_wf sample_fs" by (simp add: sample_fs_def vfs_wf_reset)
  show "get_type ROOT_ID sample_fs = Some Dir" "child_count ROOT_ID sample_fs = 0"
    by (simp_all add: get_view sample_fs_def vview_reset)
  show "NEXT_ID sample_fs = 2" by (simp add: sample_fs_def vfs_reset_eq)
  show "vfs_lookup ROOT_ID nm sample_fs = 0"
    unfolding vfs_lookup_zero [OF wf] by (simp add: view_find_def sample_fs_def vview_reset)
  show "vfs_alloc_slot sample_fs = Some 1"
    by (simp add: vfs_alloc_slot_def first_from_Some_iff MAX_VNODES_def sample_fs_def nth_reset ROOT_ID_def)
      (simp add: vnode_empty_def)
qed

theorem create_lookup_witness:
  "fst (create_node ROOT_ID [97] File sample_fs) \<noteq> 0 \<and>
   vfs_lookup ROOT_ID [97] (snd (create_node ROOT_ID [97] File sample_fs)) =
     fst (create_node ROOT_ID [97] File sample_fs)"
  using create_lookup [of sample_fs ROOT_ID "[97]" File "fst (create_node ROOT_ID [97] File sample_fs)"
    "snd (create_node ROOT_ID [97] File sample_fs)" ROOT_ID "[97]"]
  by (simp add: sample_fs_facts vfs_consts)

definition sample_fs2 :: fs where
  "sample_fs2 = snd (create_node ROOT_ID [97] File sample_fs)"

lemma sample_fs2_facts:
  "vfs_wf sample_fs2" "vfs_lookup ROOT_ID [97] sample_fs2 \<noteq> 0" "vfs_lookup ROOT_ID [98] sample_fs2 = 0"
  "child_count (vfs_lookup ROOT_ID [97] sample_fs2) sample_fs2 = 0"
  using create_node_effect [of sample_fs ROOT_ID "[97]" File "fst (create_node ROOT_ID [97] File sample_fs)" sample_fs2]
  by (simp_all add: sample_fs_facts vfs_consts sample_fs2_def)

text \<open>C10.  Unlinking succeeds exactly when the name exists and does not denote a non-empty directory.
  Afterwards the name is gone, every other name resolves as before and the tree stays well-formed;
  a failed unlink changes nothing.\<close>

theorem unlink_lookup:
  assumes "vfs_wf s" "vfs_unlink p nm s = (ok, t)"
  shows "vfs_wf t \<and>
    (ok \<longleftrightarrow> vfs_lookup p nm s \<noteq> 0 \<and> child_count (vfs_lookup p nm s) s = 0) \<and>
    (if ok then vfs_lookup q nm' t = (if q = p \<and> nm' = nm then 0 else vfs_lookup q nm' s) else t = s)"
proof -
  have vw: "view_wf (vview s) (NEXT_ID s)" using assms(1) by (simp add: vfs_wf_def)
  note cc = child_count_kids [OF assms(1)]
  show ?thesis
  proof (cases rule: vfs_unlink_cases [OF assms(1), of p nm])
    case 1
    with assms cc show ?thesis by auto
  next
    case (2 pv c pv' w)
    then have t: "t = snd (vfs_unlink p nm s)" "ok" using assms(2) by simp_all
    have wt: "view_wf ((vview s)(p \<mapsto> pv', c := None)) (NEXT_ID s)"
      using 2(2,10,11) by (simp add: vfs_wf_def)
    have "view_find (vview t) q nm' = (if q = p \<and> nm' = nm then None else view_find (vview s) q nm')"
      using view_find_remove [OF vw wt 2(5,6,7,8,12,13)] 2(9,10) t by simp
    then have "vfs_lookup q nm' t = (if q = p \<and> nm' = nm then 0 else vfs_lookup q nm' s)"
      using vfs_lookup_view [OF vw] vfs_lookup_view [of t "NEXT_ID s"] wt 2(10) t by simp
    with 2 t cc [OF 2(7)] show ?thesis by simp
  qed
qed

theorem unlink_lookup_witness:
  "vfs_lookup ROOT_ID [97] (snd (vfs_unlink ROOT_ID [97] sample_fs2)) = 0"
  using unlink_lookup [of sample_fs2 ROOT_ID "[97]" "fst (vfs_unlink ROOT_ID [97] sample_fs2)"
    "snd (vfs_unlink ROOT_ID [97] sample_fs2)" ROOT_ID "[97]"] sample_fs2_facts
  by (auto split: if_splits)

text \<open>C11.  Renaming succeeds exactly when the new name fits, the old name exists and the new one is free or
  is the same entry.  Afterwards the new name gives the renamed vnode, the old name (if different)
  is gone, and every other name resolves as before; a failed rename changes nothing.\<close>

theorem rename_lookup:
  assumes "vfs_wf s" "vfs_rename p old new s = (ok, t)"
  defines "c \<equiv> vfs_lookup p old s"
  shows "vfs_wf t \<and>
    (ok \<longleftrightarrow> new \<noteq> [] \<and> length new \<le> MAX_NAME \<and> c \<noteq> 0 \<and> vfs_lookup p new s \<in> {0, c}) \<and>
    (if ok then vfs_lookup q nm t =
       (if q = p \<and> nm = new then c else if q = p \<and> nm = old then 0 else vfs_lookup q nm s)
     else t = s)"
proof -
  have vw: "view_wf (vview s) (NEXT_ID s)" using assms(1) by (simp add: vfs_wf_def)
  show ?thesis
  proof (cases rule: vfs_rename_cases [OF assms(1), of p old new])
    case 1
    with assms show ?thesis by auto
  next
    case (2 c' pv w w')
    then have t: "t = snd (vfs_rename p old new s)" "ok" "c = c'" using assms(2) by (simp_all add: c_def)
    have wt: "view_wf ((vview s)(c' \<mapsto> w')) (NEXT_ID s)" using 2(2,9,12) by (simp add: vfs_wf_def)
    have only: "c' \<notin> set (kids v)" if "vview s q' = Some v" "q' \<noteq> p" for q' v
      using view_wfD(3) [OF vw that(1), of c'] view_wfD(3) [OF vw 2(5,6)] 2(7) that(2) by auto
    have f: "view_find (vview t) q nm = Some d \<longleftrightarrow>
        (if d = c' then q = p \<and> nm = new else view_find (vview s) q nm = Some d)" for d
      using view_find_update [OF vw wt 2(7,10), of q nm d] 2(5,6,9,11) t only by auto
    have old: "view_find (vview s) q nm = Some c' \<longleftrightarrow> q = p \<and> nm = old"
      unfolding view_find_iff [OF vw] using 2(5,6,7,8) only by auto
    have new: "view_find (vview s) p new = None \<or> view_find (vview s) p new = Some c'"
      using 2(4,13) vfs_lookup_zero [OF assms(1)] vfs_lookup_iff [OF assms(1)] by blast
    have "view_find (vview t) q nm = (if q = p \<and> nm = new then Some c'
        else if q = p \<and> nm = old then None else view_find (vview s) q nm)"
      by (rule option_eqI_Some) (use f old new in \<open>auto split: if_splits\<close>)
    then have "vfs_lookup q nm t = (if q = p \<and> nm = new then c else if q = p \<and> nm = old then 0 else vfs_lookup q nm s)"
      using vfs_lookup_view [OF vw] vfs_lookup_view [of t "NEXT_ID s"] wt 2(9) t by simp
    with 2 t show ?thesis by auto
  qed
qed

theorem rename_lookup_witness:
  "vfs_lookup ROOT_ID [98] (snd (vfs_rename ROOT_ID [97] [98] sample_fs2)) = vfs_lookup ROOT_ID [97] sample_fs2"
  using rename_lookup [of sample_fs2 ROOT_ID "[97]" "[98]" "fst (vfs_rename ROOT_ID [97] [98] sample_fs2)"
    "snd (vfs_rename ROOT_ID [97] [98] sample_fs2)" ROOT_ID "[98]"] sample_fs2_facts
  by (auto simp: vfs_consts split: if_splits)

end
