(* ===== verification/Vfs_Paths.thy ===== *)
theory Vfs_Paths
  imports Vfs
begin

text \<open>
  Paths: the walk that resolves a path against the vnode tree and the inverse, \<open>path_of\<close>, that
  prints the absolute path of a vnode (both in \<open>kernel/src/fs/vfs.rs\<close>).
\<close>

lemma emit_eq:
  assumes "length out \<le> len"
  shows "emit len bs out = take len (out @ bs)"
  using assms
proof (induction bs arbitrary: out)
  case (Cons b bs)
  then show ?case by (cases "length out = len") (auto simp: emit_def take_Cons')
qed (simp add: emit_def)

text \<open>The names a path can carry as a component.  \<open>create_node\<close> checks no name, so a vnode can have
  another one.\<close>

definition component_ok :: "bytes \<Rightarrow> bool" where
  "component_ok nm \<longleftrightarrow> slash \<notin> set nm \<and> nm \<noteq> [] \<and> nm \<noteq> dot \<and> nm \<noteq> dotdot"

abbreviation name_of :: "fs \<Rightarrow> u64 \<Rightarrow> bytes" where
  "name_of s c \<equiv> get_name c (Suc MAX_NAME) s"

lemma get_name_cname:
  assumes "vfs_wf s" "vview s c = Some v"
  shows "name_of s c = cname v"
  using assms view_wfD(1) [of "vview s" "NEXT_ID s" c v]
  by (auto simp: vfs_wf_def get_view cname_def vnode_ok_def MAX_NAME_def min_def)

lemma walk_zero: "walk ys 0 s = 0"
  by (induction ys) (simp_all add: get_view(5) vfs_lookup_def find_slot_def)

lemma walk_append: "walk (xs @ ys) cur s = walk ys (walk xs cur s) s"
  by (induction xs arbitrary: cur) (simp_all add: Let_def walk_zero)

lemma lookup_own_name:
  assumes wf: "vfs_wf s" and c: "vview s c = Some v" "c \<noteq> ROOT_ID"
  shows "vfs_lookup (v_parent v) (cname v) s = c"
proof -
  have vw: "view_wf (vview s) (NEXT_ID s)" using wf by (simp add: vfs_wf_def)
  from view_wfD(5) [OF vw c] obtain pv where "vview s (v_parent v) = Some pv" "c \<in> set (kids pv)" by blast
  then have "view_find (vview s) (v_parent v) (cname v) = Some c"
    using c by (auto simp: view_find_iff [OF vw])
  moreover have "c \<noteq> 0" using view_wfD(1) [OF vw c(1)] by simp
  ultimately show ?thesis using vfs_lookup_iff [OF wf] by blast
qed

text \<open>Walking the names of a chain that reaches the root leads back to where the chain started.\<close>

lemma walk_chain:
  assumes wf: "vfs_wf s" and "\<forall>d \<in> set (path_chain f c s). component_ok (name_of s d)"
    and "vview s c = Some v" "length (path_chain (Suc f) c s) \<le> f"
  shows "walk (map (name_of s) (rev (path_chain f c s))) ROOT_ID s = c"
  using assms(2-)
proof (induction f arbitrary: c v)
  case 0
  then show ?case by (auto split: if_splits)
next
  case (Suc f)
  have vw: "view_wf (vview s) (NEXT_ID s)" using wf by (simp add: vfs_wf_def)
  have c0: "c \<noteq> 0" using view_wfD(1) [OF vw Suc.prems(2)] by simp
  show ?case
  proof (cases "c = ROOT_ID")
    case False
    let ?p = "v_parent v"
    have par: "get_parent c s = ?p" using Suc.prems(2) by (simp add: get_view)
    from view_wfD(5) [OF vw Suc.prems(2) False] obtain pv where "vview s ?p = Some pv" by blast
    with Suc.IH [of ?p pv] Suc.prems(1,3) False c0
    have IH: "walk (map (name_of s) (rev (path_chain f ?p s))) ROOT_ID s = ?p"
      by (simp add: par)
    have nm: "name_of s c = cname v" by (rule get_name_cname [OF wf Suc.prems(2)])
    have "component_ok (cname v)" using Suc.prems(1) False c0 by (simp flip: nm)
    then have "walk [name_of s c] ?p s = c"
      using lookup_own_name [OF wf Suc.prems(2) False] c0 by (simp add: nm Let_def component_ok_def)
    with IH False c0 show ?thesis by (simp add: par walk_append del: walk.simps)
  qed (simp add: ROOT_ID_def)
qed

text \<open>The absolute path of a vnode: its ancestors' names and its own, a slash before each.\<close>

definition path_text :: "bytes list \<Rightarrow> bytes" where
  "path_text ns = (if ns = [] then [slash] else concat (map ((#) slash) ns))"

abbreviation abs_path :: "fs \<Rightarrow> u64 \<Rightarrow> bytes" where
  "abs_path s c \<equiv> path_text (map (name_of s) (rev (path_chain 16 c s)))"

lemma split_on_path:
  assumes "\<forall>n \<in> set ns. slash \<notin> set n"
  shows "split_on slash (concat (map ((#) slash) ns)) = [] # ns"
  using assms
proof (induction ns)
  case (Cons n ns)
  show ?case
  proof (cases ns)
    case Nil
    with Cons show ?thesis by (simp add: split_on_piece)
  next
    case (Cons m ms)
    then have c: "concat (map ((#) slash) ns) = slash # (m @ concat (map ((#) slash) ms))" by simp
    from Cons.IH Cons.prems have "split_on slash (m @ concat (map ((#) slash) ms)) = ns"
      by (simp add: c)
    with Cons.prems c show ?thesis using split_on_append [of slash n] by simp
  qed
qed simp

lemma path_of_concat:
  assumes "length out \<le> len"
  shows "fold (\<lambda>c out. emit len (slash # name_of s c) out) cs out =
    take len (out @ concat (map ((#) slash) (map (name_of s) cs)))"
  using assms
proof (induction cs arbitrary: out)
  case (Cons c cs)
  let ?o = "take len (out @ slash # name_of s c)"
  have "take len (?o @ ys) = take len (out @ slash # name_of s c @ ys)" for ys
    by (simp add: take_append min_def) (auto simp: take_Cons')
  with Cons.IH [of ?o] Cons.prems show ?case by (simp add: emit_eq del: take_append)
qed simp

lemma path_of_text: "path_of c len s = take len (abs_path s c)"
  using path_of_concat [of "[]" len s "rev (path_chain 16 c s)"]
  by (simp add: path_of_def path_text_def Let_def emit_eq)

lemma path_text_length:
  assumes "\<forall>n \<in> set ns. length n \<le> MAX_NAME"
  shows "length (path_text ns) \<le> max 1 (32 * length ns)"
proof -
  have "length (concat (map ((#) slash) ns)) \<le> 32 * length ns"
    using assms by (induction ns) (auto simp: MAX_NAME_def)
  then show ?thesis by (auto simp: path_text_def)
qed

lemma resolve_path_text:
  assumes "\<forall>n \<in> set ns. slash \<notin> set n"
  shows "resolve (path_text ns) s = walk ns ROOT_ID s"
  using split_on_path [OF assms] by (simp add: resolve_def path_text_def)

lemma chain_exists:
  assumes "vfs_wf s" "vfs_exists c s" "d \<in> set (path_chain f c s)"
  shows "\<exists>v. vview s d = Some v"
  using assms(2,3)
proof (induction f arbitrary: c)
  case (Suc f)
  then obtain v where v: "vview s c = Some v" by (auto simp: vfs_exists_def vview_def)
  show ?case
  proof (cases "d = c")
    case False
    with Suc.prems(2) have d: "c \<noteq> ROOT_ID" "d \<in> set (path_chain f (v_parent v) s)"
      using v by (auto simp: get_view split: if_splits)
    from view_wfD(5) [of "vview s" "NEXT_ID s", OF _ v d(1)] assms(1) have "vfs_exists (v_parent v) s"
      by (auto simp: vfs_wf_def vfs_exists_def vview_def split: option.splits if_splits)
    from Suc.IH [OF this d(2)] show ?thesis .
  qed (use v in simp)
qed simp

text \<open>C12.  Printing a path and resolving it.  On a well-formed tree and for an existing vnode,
  \<open>path_of\<close> writes into a buffer of any size the first bytes, as many as fit, of the vnode's absolute
  path: the names on the way from the root, the last 16 of them when there are more, with a slash
  before each, or a single slash for the root.  That text takes at most 32 bytes per level, so the 96
  bytes the shell and the file manager pass hold every path of three levels.  When the vnode is at
  most 16 levels deep, the whole text fits, and no name on the way is empty, \<open>.\<close>, \<open>..\<close> or contains a
  slash, then resolving the written path gives the vnode back.\<close>

theorem path_round_trip:
  assumes "vfs_wf s" "vfs_exists c s"
  shows "path_of c len s = take len (abs_path s c) \<and>
    length (abs_path s c) \<le> max 1 (32 * length (path_chain 16 c s)) \<and>
    (length (path_chain 17 c s) \<le> 16 \<and> length (abs_path s c) \<le> len \<and>
       (\<forall>d \<in> set (path_chain 16 c s). component_ok (name_of s d)) \<longrightarrow>
     resolve (path_of c len s) s = c)"
proof (intro conjI impI)
  obtain v where v: "vview s c = Some v"
    using assms(2) by (auto simp: vfs_exists_def vview_def)
  have vw: "view_wf (vview s) (NEXT_ID s)" using assms(1) by (simp add: vfs_wf_def)
  have "length (name_of s d) \<le> MAX_NAME" if ch: "d \<in> set (path_chain 16 c s)" for d
  proof -
    obtain w where w: "vview s d = Some w" using chain_exists [OF assms ch] by blast
    have "length (cname w) \<le> MAX_NAME"
      using view_wfD(1) [OF vw w] by (simp add: cname_def vnode_ok_def MAX_NAME_def)
    then show ?thesis by (simp add: get_name_cname [OF assms(1) w])
  qed
  then show "length (abs_path s c) \<le> max 1 (32 * length (path_chain 16 c s))"
    using path_text_length [of "map (name_of s) (rev (path_chain 16 c s))"] by simp
  assume *: "length (path_chain 17 c s) \<le> 16 \<and> length (abs_path s c) \<le> len \<and>
    (\<forall>d \<in> set (path_chain 16 c s). component_ok (name_of s d))"
  then have "walk (map (name_of s) (rev (path_chain 16 c s))) ROOT_ID s = c"
    using walk_chain [OF assms(1) _ v, of 16] by simp
  then show "resolve (path_of c len s) s = c"
    using * by (simp add: path_of_text resolve_path_text component_ok_def)
qed (rule path_of_text)

lemma sample_fs2_view:
  obtains v pv where "vview sample_fs2 = [2 \<mapsto> v, ROOT_ID \<mapsto> pv]" "cname v = [97]" "v_parent v = ROOT_ID"
proof -
  have "vview sample_fs ROOT_ID = Some root_vnode" "v_type root_vnode = Dir" "NEXT_ID sample_fs < NEXT_ID sample_fs + 1"
    by (simp_all add: sample_fs_facts(3)) (simp add: sample_fs_def vview_reset)
  from create_node_cases [OF sample_fs_facts(1) this, of "[97]" File] show ?thesis
  proof cases
    case 1
    then show ?thesis using sample_fs_facts by (auto simp: vfs_consts)
  next
    case (2 v pv')
    with that [of v pv'] show ?thesis
      by (simp add: sample_fs2_def sample_fs_facts(3)) (simp add: sample_fs_def vview_reset fun_upd_twist ROOT_ID_def)
  qed
qed

theorem path_round_trip_witness:
  "path_of 2 96 sample_fs2 = [slash, 97] \<and> path_of 2 1 sample_fs2 = [slash] \<and>
   resolve (path_of 2 96 sample_fs2) sample_fs2 = 2"
proof -
  obtain v pv where v: "vview sample_fs2 = [2 \<mapsto> v, ROOT_ID \<mapsto> pv]" "cname v = [97]" "v_parent v = ROOT_ID"
    by (rule sample_fs2_view)
  then have view: "vview sample_fs2 2 = Some v" by (simp add: ROOT_ID_def)
  have nm: "name_of sample_fs2 2 = [97]" using get_name_cname [OF sample_fs2_facts(1) view] v(2) by simp
  have ex: "vfs_exists 2 sample_fs2" using view by (auto simp: vfs_exists_def vview_def)
  have ch: "path_chain 17 2 sample_fs2 = [2]" "path_chain 16 2 sample_fs2 = [2]"
    using view v(3) by (simp_all add: numeral_eq_Suc get_view ROOT_ID_def)
  have ab: "abs_path sample_fs2 2 = [slash, 97]" by (simp add: ch nm path_text_def)
  have "component_ok [97]" by (simp add: component_ok_def slash_def dot_def dotdot_def)
  with path_round_trip [OF sample_fs2_facts(1) ex, of 96] path_round_trip [OF sample_fs2_facts(1) ex, of 1]
  show ?thesis unfolding ab by (simp add: ch nm) metis
qed

text \<open>\<open>split_parent\<close> does not honour a leading slash before a single component: \<open>/name\<close> is split into
  the current directory and the name, although \<open>resolve_from\<close> resolves the same path from the
  root.\<close>

theorem split_parent_absolute:
  assumes "nm \<noteq> []" "slash \<notin> set nm" "length nm \<le> MAX_NAME" "nm \<noteq> dot" "nm \<noteq> dotdot"
    and "get_type cwd s = Some Dir"
  shows "split_parent cwd (slash # nm) s = Some (cwd, nm) \<and>
    resolve_from cwd (slash # nm) s = vfs_lookup ROOT_ID nm s"
proof -
  have "last nm \<noteq> slash" using assms(1,2) by (metis last_in_set)
  then have trim: "dropWhile (\<lambda>b. b = slash) (rev (slash # nm)) = rev (slash # nm)"
    using assms(1) by (cases nm rule: rev_cases) auto
  have "dropWhile (\<lambda>b. b \<noteq> slash) (rev nm @ [slash]) = [slash]"
    "takeWhile (\<lambda>b. b \<noteq> slash) (rev nm @ [slash]) = rev nm"
    using assms(2) by (subst dropWhile_append2 takeWhile_append2; auto)+
  then have "split_last (slash # nm) = ([], nm)" by (simp add: split_last_def)
  with trim assms have "split_parent cwd (slash # nm) s = Some (cwd, nm)"
    by (simp add: split_parent_def Let_def)
  moreover have "split_on slash (slash # nm) = [[], nm]" using assms(2) by (simp add: split_on_piece)
  then have "resolve_from cwd (slash # nm) s = vfs_lookup ROOT_ID nm s"
    using assms(1,4,5) by (simp add: resolve_from_def Let_def)
  ultimately show ?thesis by blast
qed

definition sample_dir :: fs where
  "sample_dir = snd (create_node ROOT_ID [100] Dir sample_fs)"

theorem split_parent_absolute_witness:
  "split_parent 2 [47, 120] sample_dir = Some (2, [120]) \<and> resolve_from 2 [47, 120] sample_dir = 0"
proof -
  have c: "create_node ROOT_ID [100] Dir sample_fs = (2, sample_dir)"
    by (simp add: create_node_def alloc_id_def sample_fs_facts sample_dir_def vfs_consts Let_def
        view_frame(3) [of "sample_fs\<lparr>NEXT_ID := 3\<rparr>" sample_fs] case_prod_unfold)
  have "get_type 2 sample_dir = Some Dir" "vfs_lookup ROOT_ID [120] sample_dir = 0"
    using create_node_effect [OF sample_fs_facts(1,2) _ c] by (simp_all add: sample_fs_facts)
  with split_parent_absolute [of "[120]" 2 sample_dir] show ?thesis
    by (simp add: slash_def dot_def dotdot_def MAX_NAME_def)
qed

end
