(* ===== verification/Ramfs.thy ===== *)
theory Ramfs
  imports Vfs_Paths "HOL-Library.Multiset"
begin

text \<open>
  The RAM file system, \<open>kernel/src/fs/ramfs.rs\<close>: one pool of bytes, a bump pointer and a first-fit
  free list of at most 32 blocks.  A vnode records the offset, the size and the reserved capacity of
  its data.  The embedded test program is a parameter of the sample tree.
\<close>

section \<open>Operations\<close>

definition DATA_POOL_SIZE :: nat where "DATA_POOL_SIZE = 256 * 1024"
definition FREE_MAX :: nat where "FREE_MAX = 32"

definition bytes_used :: "fs \<Rightarrow> nat" where
  "bytes_used s = NEXT_OFFSET s"

definition bytes_free :: "fs \<Rightarrow> nat" where
  "bytes_free s =
     fold (\<lambda>b total. wadd64 total (snd b)) (take (FREE_COUNT s) (FREE s))
       (wsub64 DATA_POOL_SIZE (NEXT_OFFSET s))"

definition alloc_data :: "nat \<Rightarrow> fs \<Rightarrow> nat \<times> fs" where
  "alloc_data n s =
     (if n = 0 then (0, s)
      else
        let cnt = FREE_COUNT s in
        case first_from (\<lambda>i. snd (FREE s ! i) \<ge> n) 0 cnt of
          Some i \<Rightarrow>
            let (off, sz) = FREE s ! i in
            if sz > n then (off, s\<lparr>FREE := (FREE s)[i := (off + n, sz - n)]\<rparr>)
            else (off, s\<lparr>FREE := (FREE s)[i := FREE s ! (cnt - 1)], FREE_COUNT := cnt - 1\<rparr>)
        | None \<Rightarrow>
            let off = NEXT_OFFSET s; s = s\<lparr>NEXT_OFFSET := wadd64 off n\<rparr> in
            if wadd64 off n > DATA_POOL_SIZE then (0, s) else (off, s))"

definition free_data :: "nat \<Rightarrow> nat \<Rightarrow> fs \<Rightarrow> fs" where
  "free_data off sz s =
     (if off = 0 \<or> sz = 0 then s
      else
        let cnt = FREE_COUNT s in
        if cnt \<ge> FREE_MAX then s
        else s\<lparr>FREE := (FREE s)[cnt := (off, sz)], FREE_COUNT := cnt + 1\<rparr>)"

definition pool_write :: "nat \<Rightarrow> bytes \<Rightarrow> fs \<Rightarrow> fs" where
  "pool_write off data s =
     s\<lparr>DATA_POOL := (\<lambda>a. if off \<le> a \<and> a < off + length data then data ! (a - off) else DATA_POOL s a)\<rparr>"

definition write_file :: "u64 \<Rightarrow> bytes \<Rightarrow> fs \<Rightarrow> nat \<times> fs" where
  "write_file vid data s =
     (if find_slot vid s = None then (0, s)
      else
        let len = min (length data) MAX_FILE_SIZE;
            old_off = get_data_offset vid s; old_cap = get_capacity vid s in
        if len = 0 then
          let s = (if old_cap > 0 then free_data old_off old_cap s else s) in
          (0, set_data_full vid 0 0 0 s)
        else if old_cap \<ge> len then
          (len, pool_write old_off (take len data) (set_data vid old_off len s))
        else
          let (off, s) = alloc_data len s in
          if off = 0 then (0, s)
          else
            let s = (if old_cap > 0 then free_data old_off old_cap s else s) in
            (len, pool_write off (take len data) (set_data_full vid off len len s)))"

definition read_file :: "u64 \<Rightarrow> nat \<Rightarrow> fs \<Rightarrow> bytes" where
  "read_file vid len s =
     (let sz = get_size vid s; offset = get_data_offset vid s in
      if sz = 0 \<or> offset = 0 then []
      else map (\<lambda>i. DATA_POOL s (offset + i)) [0..<min sz len])"

definition read_file_at :: "u64 \<Rightarrow> nat \<Rightarrow> nat \<Rightarrow> fs \<Rightarrow> bytes" where
  "read_file_at vid offset len s =
     (let sz = get_size vid s; base = get_data_offset vid s in
      if base = 0 \<or> offset \<ge> sz then []
      else map (\<lambda>i. DATA_POOL s (base + offset + i)) [0..<min (sz - offset) len])"

definition ramfs_create_file :: "bytes \<Rightarrow> fs \<Rightarrow> u64 \<times> fs" where
  "ramfs_create_file nm s = create_file ROOT_ID nm s"

definition create_file_in :: "u64 \<Rightarrow> bytes \<Rightarrow> fs \<Rightarrow> u64 \<times> fs" where
  "create_file_in parent nm s = create_file parent nm s"

definition create_dir_in :: "u64 \<Rightarrow> bytes \<Rightarrow> fs \<Rightarrow> u64 \<times> fs" where
  "create_dir_in parent nm s = create_dir parent nm s"

definition create_file_with_content_in :: "u64 \<Rightarrow> bytes \<Rightarrow> bytes \<Rightarrow> fs \<Rightarrow> u64 \<times> fs" where
  "create_file_with_content_in parent nm content s =
     (let (vid, s) = create_file_in parent nm s in
      if vid = 0 then (0, s) else (vid, snd (write_file vid content s)))"

definition create_file_with_content :: "bytes \<Rightarrow> bytes \<Rightarrow> fs \<Rightarrow> u64 \<times> fs" where
  "create_file_with_content nm content s =
     (let (vid, s) = ramfs_create_file nm s in
      if vid = 0 then (0, s) else (vid, snd (write_file vid content s)))"

definition ramfs_unlink :: "u64 \<Rightarrow> bytes \<Rightarrow> fs \<Rightarrow> bool \<times> fs" where
  "ramfs_unlink parent nm s =
     (let vid = vfs_lookup parent nm s in
      if vid = 0 then (False, s)
      else
        let cap = get_capacity vid s; off = get_data_offset vid s;
            (ok, s) = vfs_unlink parent nm s in
        if \<not> ok then (False, s)
        else (True, if cap > 0 then free_data off cap s else s))"

definition ramfs_rename :: "u64 \<Rightarrow> bytes \<Rightarrow> bytes \<Rightarrow> fs \<Rightarrow> bool \<times> fs" where
  "ramfs_rename parent old new s = vfs_rename parent old new s"

definition create_test_files :: "bytes \<Rightarrow> fs \<Rightarrow> fs" where
  "create_test_files TEST_EXE s =
     (let s = snd (create_file_with_content (str ''motd'') (str ''barryOS v0.12\<newline>self-developed x86_64 kernel\<newline>'') s);
          s = snd (create_file_with_content (str ''hello'') (str ''echo hello world from barryOS\<newline>'') s);
          s = snd (create_file_with_content (str ''version'')
                (str ''barryOS 0.12.0\<newline>Booted on real UEFI/BIOS hardware\<newline>'') s);
          s = snd (create_file_with_content (str ''hostname'') (str ''barryos\<newline>'') s);
          (docs, s) = create_dir ROOT_ID (str ''docs'') s;
          s = (if docs \<noteq> 0 then
                 let s = snd (create_file_with_content_in docs (str ''readme'')
                       (str ''barryOS notes\<newline>\<newline>Use the file manager to browse,\<newline>and the editor to change a file.\<newline>'') s)
                 in snd (create_file_with_content_in docs (str ''todo'')
                       (str ''- more drivers\<newline>- network stack\<newline>- ring 3\<newline>'') s)
               else s);
          (home, s) = create_dir ROOT_ID (str ''home'') s;
          s = (if home \<noteq> 0 then snd (create_file_with_content_in home (str ''notes'') (str ''hello\<newline>'') s) else s);
          (bin, s) = create_dir ROOT_ID (str ''bin'') s;
          s = (if bin \<noteq> 0 then
                 let (vid, s) = create_file_with_content_in bin (str ''hello'')
                       (str ''#!/bin/barryOS\<newline>echo hello from an executable script\<newline>pwd\<newline>ls\<newline>'') s;
                     s = snd (set_mode vid MODE_EXEC s);
                     (exe, s) = create_file_in bin (str ''hello.exe'') s
                 in if exe \<noteq> 0 then snd (set_mode exe MODE_EXEC (snd (write_file exe TEST_EXE s))) else s
               else s);
          (ro, s) = create_file_with_content (str ''readonly'')
            (str ''This file is read-only.\<newline>Try: edit /readonly   (should be refused)\<newline>     chmod 644 /readonly   (root only)\<newline>'') s
      in snd (set_mode ro MODE_RONLY s))"

section \<open>Block multisets\<close>

definition apart_all :: "block multiset \<Rightarrow> bool" where
  "apart_all M \<longleftrightarrow> (\<forall>b N. M = add_mset b N \<longrightarrow> (\<forall>c \<in># N. apart b c))"

lemma apart_all_empty [simp]: "apart_all {#}"
  by (simp add: apart_all_def)

lemma apart_all_add [simp]:
  "apart_all (add_mset b M) \<longleftrightarrow> apart_all M \<and> (\<forall>c \<in># M. apart b c)"
proof
  assume all: "apart_all (add_mset b M)"
  have "apart_all M"
    unfolding apart_all_def
  proof (intro allI impI ballI)
    fix d N c
    assume "M = add_mset d N" "c \<in># N"
    then have "add_mset b M = add_mset d (add_mset b N)" "c \<in># add_mset b N" by auto
    with all show "apart d c" unfolding apart_all_def by blast
  qed
  moreover have "\<forall>c \<in># M. apart b c" using all unfolding apart_all_def by blast
  ultimately show "apart_all M \<and> (\<forall>c \<in># M. apart b c)" ..
next
  assume r: "apart_all M \<and> (\<forall>c \<in># M. apart b c)"
  show "apart_all (add_mset b M)"
    unfolding apart_all_def
  proof (intro allI impI ballI)
    fix d N c
    assume eq: "add_mset b M = add_mset d N" and c: "c \<in># N"
    show "apart d c"
    proof (cases "b = d")
      case True
      with eq c r show ?thesis by simp
    next
      case False
      with eq obtain K where K: "M = add_mset d K" "N = add_mset b K" by (auto simp: add_eq_conv_ex)
      from r K(1) have "apart b d" by simp
      moreover have "\<forall>c \<in># K. apart d c" using r K(1) unfolding apart_all_def by blast
      ultimately show ?thesis using c K(2) by (auto simp: apart_commute)
    qed
  qed
qed

lemma apart_all_sub: "apart_all (M + N) \<Longrightarrow> apart_all M"
  by (induction N) simp_all

lemma apart_split:
  assumes "\<forall>c \<in># M. apart (off, sz) c" "n \<le> sz"
  shows "\<forall>c \<in># M. apart (off, n) c" "\<forall>c \<in># M. apart (off + n, sz - n) c" "apart (off, n) (off + n, sz - n)"
  using assms by (auto simp: apart_def)

section \<open>The pool\<close>

definition data_block :: "vnode \<Rightarrow> block" where
  "data_block v = (v_data_offset v, v_data_cap v)"

definition file_blocks :: "fs \<Rightarrow> block multiset" where
  "file_blocks s = image_mset data_block {#v \<in># mset (VNODES s). 0 < v_data_cap v#}"

definition free_blocks :: "fs \<Rightarrow> block multiset" where
  "free_blocks s = mset (take (FREE_COUNT s) (FREE s))"

definition block_ok :: "nat \<Rightarrow> block \<Rightarrow> bool" where
  "block_ok lim b \<longleftrightarrow> 1 \<le> fst b \<and> 0 < snd b \<and> fst b + snd b \<le> lim \<and> fst b + snd b \<le> DATA_POOL_SIZE"

text \<open>
  The blocks on the free list and those reserved by vnodes are pairwise disjoint and lie in the
  part of the pool that the bump pointer has passed.
\<close>

definition pool_ok :: "fs \<Rightarrow> bool" where
  "pool_ok s \<longleftrightarrow> length (FREE s) = 32 \<and> FREE_COUNT s \<le> 32 \<and> 1 \<le> NEXT_OFFSET s \<and>
     apart_all (free_blocks s + file_blocks s) \<and>
     (\<forall>b \<in># free_blocks s + file_blocks s. block_ok (NEXT_OFFSET s) b) \<and>
     (\<forall>v \<in> set (VNODES s). v_size v \<le> v_data_cap v)"

lemma block_ok_mono: "block_ok t b \<Longrightarrow> t \<le> u \<Longrightarrow> block_ok u b"
  by (simp add: block_ok_def)

lemma mset_take_swap:
  assumes "i < n" "n \<le> length xs"
  shows "mset (take (n - 1) (xs[i := xs ! (n - 1)])) = mset (take n xs) - {#xs ! i#}"
proof -
  have n: "take n xs = take (n - 1) xs @ [xs ! (n - 1)]"
    using assms take_Suc_conv_app_nth [of "n - 1" xs] by simp
  show ?thesis
  proof (cases "i = n - 1")
    case True
    with n show ?thesis by simp
  next
    case False
    with assms have i: "i < n - 1" by simp
    have "take (n - 1) (xs[i := xs ! (n - 1)]) = (take (n - 1) xs)[i := xs ! (n - 1)]"
      by (simp add: take_update_swap)
    moreover have "xs ! i \<in># mset (take (n - 1) xs)" using i assms by (auto simp: in_set_conv_nth)
    then obtain K where "mset (take (n - 1) xs) = add_mset (xs ! i) K" by (meson mset_add)
    ultimately show ?thesis using i assms n by (simp add: mset_update)
  qed
qed

text \<open>What \<open>alloc_data\<close> does to the pool: the new block joins the others and everything stays apart.\<close>

lemma alloc_data_frame:
  assumes "alloc_data n s = (off, t)"
  shows "VNODES t = VNODES s" "DATA_POOL t = DATA_POOL s" "NEXT_ID t = NEXT_ID s" "NEXT_OFFSET t \<le> NEXT_OFFSET s + n"
  using assms
  by (auto simp: alloc_data_def Let_def wadd64_def split: if_splits option.splits prod.splits)

lemma alloc_data_blocks:
  assumes ok: "pool_ok s" and fit: "NEXT_OFFSET s + n < 2 ^ 64" and al: "alloc_data n s = (off, t)" and n: "0 < n"
  shows "length (FREE t) = 32 \<and> FREE_COUNT t \<le> 32 \<and> NEXT_OFFSET s \<le> NEXT_OFFSET t \<and>
    (off = 0 \<longrightarrow> free_blocks t = free_blocks s) \<and>
    (off \<noteq> 0 \<longrightarrow> apart_all (add_mset (off, n) (free_blocks t + file_blocks s)) \<and>
       (\<forall>b \<in># add_mset (off, n) (free_blocks t + file_blocks s). block_ok (NEXT_OFFSET t) b))"
proof (cases "first_from (\<lambda>i. snd (FREE s ! i) \<ge> n) 0 (FREE_COUNT s)")
  case None
  let ?o = "NEXT_OFFSET s"
  have w: "wadd64 ?o n = ?o + n" using fit by simp
  have t: "t = s\<lparr>NEXT_OFFSET := ?o + n\<rparr>" "off = (if ?o + n > DATA_POOL_SIZE then 0 else ?o)"
    using al n None w by (auto simp: alloc_data_def Let_def split: if_splits)
  have fb: "free_blocks t = free_blocks s" by (simp add: t(1) free_blocks_def)
  have "apart (?o, n) b" if "b \<in># free_blocks s + file_blocks s" for b
    using ok that by (auto simp: pool_ok_def block_ok_def apart_def)
  moreover have "block_ok (?o + n) b" if "b \<in># free_blocks s + file_blocks s" for b
    using ok that block_ok_mono [of ?o b "?o + n"] by (auto simp: pool_ok_def)
  moreover have "block_ok (?o + n) (?o, n)" if "\<not> ?o + n > DATA_POOL_SIZE"
    using ok n that by (simp add: block_ok_def pool_ok_def)
  ultimately show ?thesis using ok fb by (auto simp: t pool_ok_def)
next
  case (Some i)
  note i = first_from_SomeD [OF Some]
  obtain o' sz where b: "FREE s ! i = (o', sz)" by fastforce
  with i have "n \<le> sz" by simp
  let ?c = "FREE_COUNT s"
  have len: "length (FREE s) = 32" "?c \<le> 32" using ok by (simp_all add: pool_ok_def)
  have mem: "(o', sz) \<in># free_blocks s"
    using i len b by (auto simp: free_blocks_def in_set_conv_nth intro!: exI [of _ i])
  then obtain F where F: "free_blocks s = add_mset (o', sz) F" by (meson mset_add)
  have rest: "free_blocks s - {#(o', sz)#} = F" by (simp add: F)
  have apart: "apart_all (F + file_blocks s)" "\<forall>c \<in># F + file_blocks s. apart (o', sz) c"
    "\<forall>b \<in># F + file_blocks s. block_ok (NEXT_OFFSET s) b" "block_ok (NEXT_OFFSET s) (o', sz)"
    using ok by (auto simp: pool_ok_def F)
  note sp = apart_split [OF apart(2) \<open>n \<le> sz\<close>]
  show ?thesis
  proof (cases "sz > n")
    case True
    then have t: "off = o'" "t = s\<lparr>FREE := (FREE s)[i := (o' + n, sz - n)]\<rparr>"
      using al n Some b by (auto simp: alloc_data_def Let_def)
    have "free_blocks t = add_mset (o' + n, sz - n) F"
      using i len b rest by (simp add: t(2) free_blocks_def take_update_swap mset_update)
    moreover have "o' \<noteq> 0" using apart(4) by (simp add: block_ok_def)
    ultimately show ?thesis using apart sp True n len by (auto simp: t block_ok_def)
  next
    case False
    then have sz: "sz = n" using \<open>n \<le> sz\<close> by simp
    then have t: "off = o'" "t = s\<lparr>FREE := (FREE s)[i := FREE s ! (?c - 1)], FREE_COUNT := ?c - 1\<rparr>"
      using al n Some b by (auto simp: alloc_data_def Let_def)
    have "free_blocks t = F"
      using mset_take_swap [of i ?c "FREE s"] i len b rest by (simp add: t(2) free_blocks_def)
    moreover have "o' \<noteq> 0" using apart(4) by (simp add: block_ok_def)
    ultimately show ?thesis using apart sz len by (auto simp: t)
  qed
qed

lemma apart_all_subset:
  assumes "N \<subseteq># M" "apart_all M"
  shows "apart_all N"
  using assms apart_all_sub [of N "M - N"] by (simp add: subset_mset.add_diff_inverse)

lemma free_data_blocks:
  assumes "length (FREE s) = 32" "FREE_COUNT s \<le> 32"
  shows "free_blocks (free_data off sz s) \<subseteq># add_mset (off, sz) (free_blocks s)"
    "length (FREE (free_data off sz s)) = 32" "FREE_COUNT (free_data off sz s) \<le> 32"
  using assms
  by (auto simp: free_data_def Let_def free_blocks_def FREE_MAX_def take_Suc_conv_app_nth)

lemma free_data_frame [simp]:
  "VNODES (free_data off sz s) = VNODES s" "DATA_POOL (free_data off sz s) = DATA_POOL s"
  "NEXT_ID (free_data off sz s) = NEXT_ID s" "NEXT_OFFSET (free_data off sz s) = NEXT_OFFSET s"
  by (simp_all add: free_data_def Let_def)

definition own_block :: "vnode \<Rightarrow> block multiset" where
  "own_block v = (if 0 < v_data_cap v then {#data_block v#} else {#})"

lemma put_vnode_blocks:
  assumes "i < length (VNODES s)"
  shows "file_blocks (put_vnode i v s) + own_block (VNODES s ! i) = file_blocks s + own_block v"
proof -
  obtain R where "mset (VNODES s) = add_mset (VNODES s ! i) R"
    using assms by (metis mset_add nth_mem_mset)
  with assms show ?thesis
    by (simp add: file_blocks_def put_vnode_def mset_update own_block_def)
qed

lemma put_vnode_frame [simp]:
  "FREE (put_vnode i v s) = FREE s" "FREE_COUNT (put_vnode i v s) = FREE_COUNT s"
  "DATA_POOL (put_vnode i v s) = DATA_POOL s" "NEXT_OFFSET (put_vnode i v s) = NEXT_OFFSET s"
  "NEXT_ID (put_vnode i v s) = NEXT_ID s" "free_blocks (put_vnode i v s) = free_blocks s"
  by (simp_all add: put_vnode_def free_blocks_def)

lemma set_put_vnode: "set (VNODES (put_vnode i v s)) \<subseteq> insert v (set (VNODES s))"
  by (simp add: put_vnode_def set_update_subset_insert)

text \<open>Two different vnodes never share pool bytes.\<close>

lemma slots_apart:
  assumes "pool_ok s" "i < length (VNODES s)" "k < length (VNODES s)" "i \<noteq> k"
    and "0 < v_data_cap (VNODES s ! i)" "0 < v_data_cap (VNODES s ! k)"
  shows "apart (data_block (VNODES s ! i)) (data_block (VNODES s ! k))"
proof -
  let ?xs = "VNODES s" and ?R = "take i (VNODES s) @ drop (Suc i) (VNODES s)"
  have "mset ?xs = add_mset (?xs ! i) (mset ?R)"
    using id_take_nth_drop [OF assms(2)] by (metis mset_append mset.simps(2) union_mset_add_mset_right)
  then have f: "file_blocks s = add_mset (data_block (?xs ! i)) (image_mset data_block {#v \<in># mset ?R. 0 < v_data_cap v#})"
    using assms(5) by (simp add: file_blocks_def)
  have "?xs ! k \<in> set ?R"
  proof (cases "k < i")
    case True
    with assms(3) show ?thesis by (auto simp: in_set_conv_nth intro!: exI [of _ k])
  next
    case False
    with assms(2-4) have "drop (Suc i) ?xs ! (k - Suc i) = ?xs ! k" "k - Suc i < length (drop (Suc i) ?xs)" by auto
    then show ?thesis by (metis UnCI nth_mem set_append)
  qed
  then have "data_block (?xs ! k) \<in># image_mset data_block {#v \<in># mset ?R. 0 < v_data_cap v#}"
    using assms(6) by auto
  moreover have "apart_all (file_blocks s)"
    using assms(1) apart_all_sub [of "file_blocks s" "free_blocks s"] by (simp add: pool_ok_def union_commute)
  ultimately show ?thesis unfolding f by auto
qed

lemma put_pool_ok:
  assumes i: "i < length (VNODES s)" and same: "VNODES s' = VNODES s"
    and apart: "apart_all (F + file_blocks s + own_block v')"
    and blocks: "\<forall>b \<in># F + file_blocks s + own_block v'. block_ok (NEXT_OFFSET s') b"
    and free: "free_blocks s' \<subseteq># F + own_block (VNODES s ! i)"
    and len: "length (FREE s') = 32" "FREE_COUNT s' \<le> 32" "1 \<le> NEXT_OFFSET s'"
    and sizes: "\<forall>v \<in> set (VNODES s). v_size v \<le> v_data_cap v" "v_size v' \<le> v_data_cap v'"
  shows "pool_ok (put_vnode i v' s')"
proof -
  let ?t = "put_vnode i v' s'"
  have "file_blocks s' = file_blocks s" by (simp add: file_blocks_def same)
  with put_vnode_blocks [of i s' v'] i have X: "file_blocks ?t + own_block (VNODES s ! i) = file_blocks s + own_block v'"
    by (simp add: same)
  have "free_blocks s' + file_blocks ?t \<subseteq># F + own_block (VNODES s ! i) + file_blocks ?t"
    using free by simp
  also have "F + own_block (VNODES s ! i) + file_blocks ?t = F + file_blocks s + own_block v'"
    using X by (simp add: ac_simps)
  finally have sub: "free_blocks ?t + file_blocks ?t \<subseteq># F + file_blocks s + own_block v'" by simp
  have "v_size w \<le> v_data_cap w" if "w \<in> set (VNODES ?t)" for w
    using set_put_vnode [of i v' s'] that sizes by (auto simp: same)
  moreover have "block_ok (NEXT_OFFSET s') b" if "b \<in># free_blocks ?t + file_blocks ?t" for b
    using blocks mset_subset_eqD [OF sub that] by blast
  ultimately show ?thesis using apart_all_subset [OF sub apart] len by (auto simp: pool_ok_def)
qed

lemma set_data_slot:
  assumes "find_slot vid s = Some i" "VNODES t = VNODES s"
  shows "set_data vid off sz t = put_vnode i ((vnode_at i s)\<lparr>v_data_offset := off, v_size := sz\<rparr>) t"
    "set_data_full vid off sz cap t =
       put_vnode i ((vnode_at i s)\<lparr>v_data_offset := off, v_size := sz, v_data_cap := cap\<rparr>) t"
proof -
  have "find_slot vid t = Some i" "vnode_at i t = vnode_at i s"
    using assms(1) by (simp_all only: find_slot_def vnode_at_def assms(2))
  then show "set_data vid off sz t = put_vnode i ((vnode_at i s)\<lparr>v_data_offset := off, v_size := sz\<rparr>) t"
    "set_data_full vid off sz cap t =
       put_vnode i ((vnode_at i s)\<lparr>v_data_offset := off, v_size := sz, v_data_cap := cap\<rparr>) t"
    by (simp_all add: set_data_def set_data_full_def)
qed

text \<open>The four outcomes of a write: the new vnode and the pool it leaves.\<close>

lemma write_file_cases:
  assumes tab: "table_ok s" and ok: "pool_ok s" and slot: "find_slot vid s = Some i"
    and fit: "NEXT_OFFSET s + length data < 2 ^ 64" and len: "length data \<le> MAX_FILE_SIZE"
  obtains (full) "data \<noteq> []" "fst (write_file vid data s) = 0" "VNODES (snd (write_file vid data s)) = VNODES s"
      "DATA_POOL (snd (write_file vid data s)) = DATA_POOL s" "pool_ok (snd (write_file vid data s))"
      "fst (alloc_data (length data) s) = 0"
  | (stored) v' s' where "fst (write_file vid data s) = length data"
      "snd (write_file vid data s) = pool_write (v_data_offset v') data (put_vnode i v' s')"
      "VNODES s' = VNODES s" "DATA_POOL s' = DATA_POOL s" "pool_ok (put_vnode i v' s')"
      "v' = (vnode_at i s)\<lparr>v_data_offset := v_data_offset v', v_size := length data, v_data_cap := v_data_cap v'\<rparr>"
      "data \<noteq> [] \<longrightarrow> v_data_offset v' \<noteq> 0"
proof -
  let ?v = "vnode_at i s"
  have i: "i < length (VNODES s)" and v: "VNODES s ! i = ?v"
    using slot tab by (auto simp: find_slot_Some table_ok_def vnode_at_def)
  have vi: "?v \<in> set (VNODES s)" using i v by (metis nth_mem)
  have get: "get_data_offset vid s = v_data_offset ?v" "get_capacity vid s = v_data_cap ?v"
    using slot by (simp_all add: get_data_offset_def get_capacity_def)
  have P: "length (FREE s) = 32" "FREE_COUNT s \<le> 32" "1 \<le> NEXT_OFFSET s" "apart_all (free_blocks s + file_blocks s)"
    "\<forall>b \<in># free_blocks s + file_blocks s. block_ok (NEXT_OFFSET s) b" "\<forall>v \<in> set (VNODES s). v_size v \<le> v_data_cap v"
    using ok by (simp_all add: pool_ok_def)
  have own: "own_block ?v \<subseteq># file_blocks s"
    using vi by (auto simp: own_block_def file_blocks_def)
  show ?thesis
  proof (cases "data = []")
    case True
    let ?s' = "if v_data_cap ?v > 0 then free_data (v_data_offset ?v) (v_data_cap ?v) s else s"
    let ?v' = "?v\<lparr>v_data_offset := 0, v_size := 0, v_data_cap := 0\<rparr>"
    have w: "write_file vid data s = (0, put_vnode i ?v' ?s')"
      using slot True set_data_slot(2) [OF slot, of ?s'] by (simp add: write_file_def Let_def get)
    have "free_blocks ?s' \<subseteq># free_blocks s + own_block (VNODES s ! i)"
      using free_data_blocks(1) [OF P(1,2)] by (simp add: own_block_def data_block_def v)
    then have "pool_ok (put_vnode i ?v' ?s')"
      using P free_data_blocks(2,3) [OF P(1,2)]
      by (intro put_pool_ok [OF i, of _ "free_blocks s"]) (simp_all add: own_block_def)
    then show ?thesis using w True
      by (intro stored [of ?v' ?s']) (simp_all add: pool_write_def)
  next
    case ne: False
    let ?n = "length data"
    have n: "0 < ?n" "min ?n MAX_FILE_SIZE = ?n" "take ?n data = data" using ne len by simp_all
    show ?thesis
    proof (cases "v_data_cap ?v \<ge> ?n")
      case True
      let ?v' = "?v\<lparr>v_data_offset := v_data_offset ?v, v_size := ?n\<rparr>"
      have w: "write_file vid data s = (?n, pool_write (v_data_offset ?v) data (put_vnode i ?v' s))"
        using slot ne True n set_data_slot(1) [OF slot refl] by (simp add: write_file_def Let_def get)
      have ob: "own_block ?v' = own_block ?v" by (simp add: own_block_def data_block_def)
      have "file_blocks (put_vnode i ?v' s) = file_blocks s"
        using put_vnode_blocks [OF i, of ?v'] ob by (simp add: v)
      moreover have "v_size w \<le> v_data_cap w" if "w \<in> set (VNODES (put_vnode i ?v' s))" for w
        using set_put_vnode [of i ?v' s] that P(6) True by auto
      ultimately have "pool_ok (put_vnode i ?v' s)" using P by (auto simp: pool_ok_def)
      moreover have "0 < v_data_cap ?v" using n(1) True by linarith
      then have "data_block ?v \<in># free_blocks s + file_blocks s" using own by (simp add: own_block_def)
      from bspec [OF P(5) this] have "v_data_offset ?v \<noteq> 0" by (simp add: data_block_def block_ok_def)
      ultimately show ?thesis using w by (intro stored [of ?v' s]) simp_all
    next
      case False
      obtain off s1 where al: "alloc_data ?n s = (off, s1)" by fastforce
      note fr = alloc_data_frame [OF al] and bl = alloc_data_blocks [OF ok fit al n(1)]
      show ?thesis
      proof (cases "off = 0")
        case True
        then have w: "write_file vid data s = (0, s1)"
          using slot ne False n al by (simp add: write_file_def Let_def get)
        have "file_blocks s1 = file_blocks s" by (simp add: file_blocks_def fr)
        moreover have "\<forall>b \<in># free_blocks s + file_blocks s. block_ok (NEXT_OFFSET s1) b"
          using P(5) bl block_ok_mono by blast
        ultimately have "pool_ok s1" using True bl P fr(1) by (simp add: pool_ok_def)
        then show ?thesis using ne fr w al True by (intro full) simp_all
      next
        case nz: False
        let ?s' = "if v_data_cap ?v > 0 then free_data (v_data_offset ?v) (v_data_cap ?v) s1 else s1"
        let ?v' = "?v\<lparr>v_data_offset := off, v_size := ?n, v_data_cap := ?n\<rparr>"
        have w: "write_file vid data s = (?n, pool_write off data (put_vnode i ?v' ?s'))"
          using slot ne False nz n al set_data_slot(2) [OF slot, of ?s'] fr(1)
          by (simp add: write_file_def Let_def get)
        have len1: "length (FREE s1) = 32" "FREE_COUNT s1 \<le> 32" "NEXT_OFFSET s \<le> NEXT_OFFSET s1" using bl by simp_all
        have "free_blocks ?s' \<subseteq># free_blocks s1 + own_block (VNODES s ! i)"
          using free_data_blocks(1) [OF len1(1,2)] by (simp add: own_block_def data_block_def v)
        then have "pool_ok (put_vnode i ?v' ?s')"
          using P bl nz n fr(1) len1 free_data_blocks(2,3) [OF len1(1,2)]
          by (intro put_pool_ok [OF i, of _ "free_blocks s1"]) (simp_all add: own_block_def data_block_def)
        then show ?thesis using w nz fr by (intro stored [of ?v' ?s']) simp_all
      qed
    qed
  qed
qed


section \<open>Reading and writing\<close>

lemma read_file_view:
  "read_file j len s =
     (case vview s j of
        None \<Rightarrow> []
      | Some v \<Rightarrow> if v_size v = 0 \<or> v_data_offset v = 0 then []
          else map (\<lambda>i. DATA_POOL s (v_data_offset v + i)) [0..<min (v_size v) len])"
  by (simp add: read_file_def get_view split: option.splits)

lemma read_file_frame:
  assumes "VNODES t = VNODES s" "DATA_POOL t = DATA_POOL s"
  shows "read_file j len t = read_file j len s"
  by (simp only: read_file_view view_frame [OF assms(1)] assms(2))

lemma pool_write_frame [simp]:
  "VNODES (pool_write off data s) = VNODES s" "FREE (pool_write off data s) = FREE s"
  "FREE_COUNT (pool_write off data s) = FREE_COUNT s" "NEXT_OFFSET (pool_write off data s) = NEXT_OFFSET s"
  "NEXT_ID (pool_write off data s) = NEXT_ID s"
  by (simp_all add: pool_write_def)

lemma pool_ok_frame:
  assumes "VNODES t = VNODES s" "FREE t = FREE s" "FREE_COUNT t = FREE_COUNT s" "NEXT_OFFSET t = NEXT_OFFSET s"
  shows "pool_ok t = pool_ok s"
  by (simp only: pool_ok_def free_blocks_def file_blocks_def assms)

lemma pool_write_same:
  "map (\<lambda>i. DATA_POOL (pool_write off data s) (off + i)) [0..<length data] = data"
  by (rule nth_equalityI) (simp_all add: pool_write_def)

text \<open>A write into one block leaves the bytes of every block apart from it alone.\<close>

lemma pool_write_apart:
  assumes "apart (off, cap) (o', cap')" "length data \<le> cap" "n \<le> cap'"
  shows "map (\<lambda>i. DATA_POOL (pool_write off data s) (o' + i)) [0..<n] = map (\<lambda>i. DATA_POOL s (o' + i)) [0..<n]"
  using assms by (auto simp: pool_write_def apart_def)

lemma stored_reads:
  assumes tab: "table_ok s" and slot: "find_slot vid s = Some i"
    and same: "VNODES s' = VNODES s" "DATA_POOL s' = DATA_POOL s" and ok: "pool_ok (put_vnode i v' s')"
    and v': "v_id v' = vid" "v_size v' = length data" "data \<noteq> [] \<longrightarrow> v_data_offset v' \<noteq> 0"
    and t: "t = pool_write (v_data_offset v') data (put_vnode i v' s')"
  shows "pool_ok t" "vview t = (vview s)(vid \<mapsto> v')" "table_ok t"
    "read_file vid len t = take len data" "w \<noteq> vid \<Longrightarrow> read_file w len t = read_file w len s"
proof -
  let ?p = "put_vnode i v' s'"
  have "find_slot vid s' = Some i" using slot find_slot_cong [of s' s] by (simp add: same(1))
  then have tab': "table_ok s'" "vview s' = vview s" "find_slot vid s' = Some i"
    using tab view_frame [OF same(1)] by simp_all
  note rep = view_replace [OF tab'(1,3) v'(1)]
  show pt: "pool_ok t" using ok pool_ok_frame [of t ?p] by (simp add: t)
  show view: "vview t = (vview s)(vid \<mapsto> v')" "table_ok t"
    using rep view_frame [of t ?p] tab' by (simp_all add: t)
  have "take len (map (\<lambda>i. DATA_POOL t (v_data_offset v' + i)) [0..<length data]) = take len data"
    by (simp only: t pool_write_same)
  moreover have "take len [0..<length data] = [0..<min (length data) len]" by (rule nth_equalityI) simp_all
  ultimately show "read_file vid len t = take len data"
    using v'(2,3) by (cases "data = []") (simp_all add: read_file_view view take_map del: take_upt)
  show "read_file w len t = read_file w len s" if "w \<noteq> vid"
  proof (cases "vview s w")
    case None
    with that show ?thesis by (simp add: read_file_view view)
  next
    case (Some u)
    with that have ut: "vview t w = Some u" by (simp add: view)
    then obtain k where k: "k < 64" "VNODES t ! k = u" "v_id u = w" using vview_Some [OF view(2)] by blast
    have it: "i < 64" "VNODES t ! i = v'" "length (VNODES t) = 64"
      using slot tab same(1) view(2) by (auto simp: find_slot_Some t put_vnode_def table_ok_def)
    have ki: "i \<noteq> k" using k it that v'(1) by auto
    have sizes: "v_size u \<le> v_data_cap u" "length data \<le> v_data_cap v'"
      using pt k it v'(2) by (auto simp: pool_ok_def) (metis nth_mem)+
    have "map (\<lambda>i. DATA_POOL t (v_data_offset u + i)) [0..<min (v_size u) len] =
        map (\<lambda>i. DATA_POOL ?p (v_data_offset u + i)) [0..<min (v_size u) len]"
    proof (cases "0 < v_data_cap u \<and> 0 < v_data_cap v'")
      case True
      with slots_apart [OF pt, of i k] k it ki have "apart (data_block v') (data_block u)" by simp
      then show ?thesis unfolding t data_block_def by (rule pool_write_apart) (use sizes in simp_all)
    next
      case False
      with sizes show ?thesis by (auto simp: t pool_write_def)
    qed
    then show ?thesis using Some ut same(2) by (simp add: read_file_view)
  qed
qed

text \<open>C13.  Writing at most 64 KiB to an existing file either stores all of it, after which the file
  reads back as exactly those bytes, or reports 0 because the pool is exhausted, after which the file
  reads as before.  No other file changes, and the pool invariant survives.\<close>

theorem write_read:
  assumes "table_ok s" "pool_ok s" "find_slot vid s = Some i"
    and "NEXT_OFFSET s + length data < 2 ^ 64" "length data \<le> MAX_FILE_SIZE"
    and "write_file vid data s = (n, t)"
  shows "pool_ok t \<and> table_ok t \<and> (n = length data \<or> n = 0) \<and>
    (n = length data \<longrightarrow> read_file vid len t = take len data) \<and>
    (n \<noteq> length data \<longrightarrow> fst (alloc_data (length data) s) = 0 \<and> read_file vid len t = read_file vid len s) \<and>
    (w \<noteq> vid \<longrightarrow> read_file w len t = read_file w len s)"
  using assms(1-5)
proof (cases rule: write_file_cases)
  case full
  with assms(6) have "VNODES t = VNODES s" "DATA_POOL t = DATA_POOL s" "n = 0" "pool_ok t" by simp_all
  then show ?thesis using assms(1) view_frame [of t s] full(1,6) read_file_frame [of t s] by simp
next
  case (stored v' s')
  have v: "v_id v' = vid" "v_size v' = length data"
    using arg_cong [OF stored(6), of v_id] arg_cong [OF stored(6), of v_size] assms(1,3)
    by (simp_all add: find_slot_Some vnode_at_def)
  have t: "t = pool_write (v_data_offset v') data (put_vnode i v' s')" "n = length data" using stored(1,2) assms(6) by simp_all
  note R = stored_reads [OF assms(1,3) stored(3,4,5) v stored(7) t(1)]
  show ?thesis using R t(2) by simp
qed


lemma pool_ok_reset:
  assumes "length (FREE s) = 32" "FREE_COUNT s = 0" "NEXT_OFFSET s = 1"
  shows "pool_ok (vfs_reset s)"
proof -
  have caps: "\<forall>v \<in> set (VNODES (vfs_reset s)). v_data_cap v = 0 \<and> v_size v = 0"
    by (auto simp: vfs_reset_eq root_vnode_def vnode_empty_def set_name_raw_def Let_def)
  then have "file_blocks (vfs_reset s) = {#}" by (auto simp: file_blocks_def filter_mset_eq_mempty_iff)
  moreover have "free_blocks (vfs_reset s) = {#}" using assms by (simp add: free_blocks_def vfs_reset_eq)
  ultimately show ?thesis using assms caps by (simp add: pool_ok_def) (simp add: vfs_reset_eq)
qed

section \<open>Sequences of operations\<close>

lemma put_pool_keep:
  assumes ok: "pool_ok s" and i: "i < length (VNODES s)"
    and v: "own_block v' \<subseteq># own_block (VNODES s ! i)" "v_size v' \<le> v_data_cap v'"
  shows "pool_ok (put_vnode i v' s)"
proof -
  have "file_blocks (put_vnode i v' s) + own_block (VNODES s ! i) \<subseteq># file_blocks s + own_block (VNODES s ! i)"
    using put_vnode_blocks [OF i, of v'] v(1) by simp
  then have sub: "free_blocks s + file_blocks (put_vnode i v' s) \<subseteq># free_blocks s + file_blocks s" by simp
  have "v_size w \<le> v_data_cap w" if "w \<in> set (VNODES (put_vnode i v' s))" for w
    using set_put_vnode [of i v' s] that v(2) ok by (auto simp: pool_ok_def)
  moreover have "block_ok (NEXT_OFFSET s) b" if "b \<in># free_blocks s + file_blocks (put_vnode i v' s)" for b
    using ok mset_subset_eqD [OF sub that] unfolding pool_ok_def by blast
  ultimately show ?thesis
    using ok apart_all_subset [OF sub] by (simp add: pool_ok_def)
qed

lemma pool_ok_size: "pool_ok s \<Longrightarrow> i < length (VNODES s) \<Longrightarrow> v_size (VNODES s ! i) \<le> v_data_cap (VNODES s ! i)"
  by (simp add: pool_ok_def)

lemma find_slot_less: "find_slot j s = Some i \<Longrightarrow> i < 64"
  by (auto simp: find_slot_def MAX_VNODES_def dest: first_from_SomeD split: if_splits)

lemma put_pool_data:
  assumes "pool_ok s" "length (VNODES s) = 64" "find_slot j s = Some i"
    and "v_data_offset v = v_data_offset (vnode_at i s)" "v_data_cap v = v_data_cap (vnode_at i s)"
      "v_size v = v_size (vnode_at i s)"
  shows "pool_ok (put_vnode i v s)"
  using assms pool_ok_size [OF assms(1), of i] find_slot_less [OF assms(3)]
  by (intro put_pool_keep) (simp_all add: own_block_def data_block_def vnode_at_def)

lemma link_child_pool: "pool_ok s \<Longrightarrow> length (VNODES s) = 64 \<Longrightarrow> pool_ok (link_child p c s)"
  by (auto simp: link_child_def Let_def intro: put_pool_data split: option.splits)

lemma create_node_pool:
  assumes "pool_ok s" "length (VNODES s) = 64"
  shows "pool_ok (snd (create_node p nm vt s))"
proof -
  let ?s1 = "s\<lparr>NEXT_ID := NEXT_ID s + 1\<rparr>"
  have s1: "pool_ok ?s1" using assms(1) pool_ok_frame [of ?s1 s] by simp
  have "pool_ok (link_child p c (put_vnode i v ?s1))"
    if "vfs_alloc_slot ?s1 = Some i" "v_data_cap v = 0" "v_size v = 0" for c i v
    using that s1 assms(2) first_from_SomeD [OF that(1) [unfolded vfs_alloc_slot_def]]
    by (intro link_child_pool put_pool_keep) (simp_all add: own_block_def MAX_VNODES_def, simp add: put_vnode_def)
  then show ?thesis using assms(1) s1
    by (auto simp: create_node_def alloc_id_def Let_def case_prod_unfold vnode_empty_def set_name_raw_def
        split: option.splits)
qed

lemma vfs_rename_pool: "pool_ok s \<Longrightarrow> length (VNODES s) = 64 \<Longrightarrow> pool_ok (snd (vfs_rename p old new s))"
  by (auto simp: vfs_rename_def Let_def set_name_raw_def intro: put_pool_data split: option.splits)

lemma unlink_child_pool:
  assumes "pool_ok s" "length (VNODES s) = 64"
  shows "pool_ok (snd (unlink_child p c s)) \<and> length (VNODES (snd (unlink_child p c s))) = 64 \<and>
    (\<forall>j. find_slot j (snd (unlink_child p c s)) = find_slot j s) \<and>
    (\<forall>k < 64. data_block (VNODES (snd (unlink_child p c s)) ! k) = data_block (VNODES s ! k))"
proof -
  have "pool_ok (put_vnode k v s) \<and> length (VNODES (put_vnode k v s)) = 64 \<and>
      (\<forall>j. find_slot j (put_vnode k v s) = find_slot j s) \<and>
      (\<forall>j < 64. data_block (VNODES (put_vnode k v s) ! j) = data_block (VNODES s ! j))"
    if k: "k < 64" "data_block v = data_block (VNODES s ! k)" "v_size v = v_size (VNODES s ! k)"
      "v_id v = v_id (VNODES s ! k)" for k v
  proof (intro conjI allI impI)
    show "pool_ok (put_vnode k v s)"
      using assms that pool_ok_size [OF assms(1), of k]
      by (intro put_pool_keep) (simp_all add: own_block_def data_block_def)
    show "length (VNODES (put_vnode k v s)) = 64" by (simp add: put_vnode_def assms(2))
    show "find_slot j (put_vnode k v s) = find_slot j s" for j
      by (rule find_slot_cong) (use that in \<open>auto simp: put_vnode_def nth_list_update assms(2)\<close>)
    show "data_block (VNODES (put_vnode k v s) ! j) = data_block (VNODES s ! j)" if "j < 64" for j
      using k that by (auto simp: put_vnode_def nth_list_update assms(2))
  qed
  note put = this
  show ?thesis
  proof (cases "find_slot p s")
    case None
    with assms show ?thesis by (simp add: unlink_child_def)
  next
    case (Some k)
    then show ?thesis using assms put [OF find_slot_less [OF Some]]
      by (simp add: unlink_child_def Let_def vnode_at_def data_block_def split: option.splits)
  qed
qed

lemma free_data_put: "free_data off sz (put_vnode i v s) = put_vnode i v (free_data off sz s)"
  by (simp add: free_data_def put_vnode_def Let_def)

text \<open>Deleting a file puts its block on the free list, or leaks it when the list is full.\<close>

lemma ramfs_unlink_pool:
  assumes ok: "pool_ok s" and len: "length (VNODES s) = 64"
  shows "pool_ok (snd (ramfs_unlink p nm s))"
proof -
  let ?c = "vfs_lookup p nm s"
  let ?s1 = "snd (unlink_child p ?c s)"
  note U = unlink_child_pool [OF ok len, of p ?c]
  have failed: "\<not> fst (unlink_child p ?c s) \<Longrightarrow> ?s1 = s"
    by (auto simp: unlink_child_def Let_def split: option.splits)
  show ?thesis
  proof (cases "?c = 0 \<or> get_type ?c s = Some Dir \<and> child_count ?c s > 0 \<or> \<not> fst (unlink_child p ?c s)")
    case True
    then show ?thesis using ok failed
      by (auto simp: ramfs_unlink_def vfs_unlink_def Let_def case_prod_unfold)
  next
    case removed: False
    show ?thesis
    proof (cases "find_slot ?c s")
      case None
      then have "ramfs_unlink p nm s = (True, ?s1)"
        using removed U by (auto simp: ramfs_unlink_def vfs_unlink_def Let_def case_prod_unfold get_capacity_def)
      then show ?thesis using U by simp
    next
      case (Some i)
      let ?v = "VNODES s ! i"
      let ?s2 = "if v_data_cap ?v > 0 then free_data (v_data_offset ?v) (v_data_cap ?v) ?s1 else ?s1"
      have r: "ramfs_unlink p nm s = (True, put_vnode i vnode_empty ?s2)"
        using removed U Some
        by (auto simp: ramfs_unlink_def vfs_unlink_def Let_def case_prod_unfold get_capacity_def
            get_data_offset_def vnode_at_def free_data_put)
      have i: "i < length (VNODES ?s1)" using U find_slot_less [OF Some] by simp
      have own: "own_block (VNODES ?s1 ! i) = own_block ?v"
        using U find_slot_less [OF Some] by (auto simp: own_block_def data_block_def)
      have P: "length (FREE ?s1) = 32" "FREE_COUNT ?s1 \<le> 32" using U by (simp_all add: pool_ok_def)
      have "free_blocks ?s2 \<subseteq># free_blocks ?s1 + own_block (VNODES ?s1 ! i)"
        unfolding own using free_data_blocks(1) [OF P] by (simp add: own_block_def data_block_def)
      then have "pool_ok (put_vnode i vnode_empty ?s2)"
        using U P free_data_blocks(2,3) [OF P]
        by (intro put_pool_ok [OF i, of _ "free_blocks ?s1"])
          (simp_all add: own_block_def vnode_empty_def pool_ok_def)
      then show ?thesis by (simp add: r)
    qed
  qed
qed


lemma write_file_take: "write_file vid (take MAX_FILE_SIZE data) s = write_file vid data s"
proof -
  have "min (length (take MAX_FILE_SIZE data)) MAX_FILE_SIZE = min (length data) MAX_FILE_SIZE"
    "take (min (length data) MAX_FILE_SIZE) (take MAX_FILE_SIZE data) = take (min (length data) MAX_FILE_SIZE) data"
    by simp_all
  then show ?thesis by (simp only: write_file_def Let_def)
qed

lemma write_file_NEXT_ID: "NEXT_ID (snd (write_file vid data s)) = NEXT_ID s"
proof -
  have al: "NEXT_ID (snd (alloc_data n s)) = NEXT_ID s" for n
    using alloc_data_frame(3) [of n s] by (metis prod.collapse)
  have set: "NEXT_ID (set_data j a b u) = NEXT_ID u" "NEXT_ID (set_data_full j a b c u) = NEXT_ID u" for j a b c u
    by (simp_all add: set_data_def set_data_full_def split: option.splits)
  show ?thesis by (simp add: write_file_def Let_def case_prod_unfold set al)
qed

lemma write_file_wf:
  assumes wf: "vfs_wf s" and ok: "pool_ok s" and fit: "NEXT_OFFSET s + MAX_FILE_SIZE < 2 ^ 64"
  shows "vfs_wf (snd (write_file vid data s))" "pool_ok (snd (write_file vid data s))"
proof -
  let ?d = "take MAX_FILE_SIZE data" and ?t = "snd (write_file vid data s)"
  have tab: "table_ok s" and vw: "view_wf (vview s) (NEXT_ID s)" using wf by (simp_all add: vfs_wf_def)
  have "vfs_wf ?t \<and> pool_ok ?t"
  proof (cases "find_slot vid s")
    case None
    with wf ok show ?thesis by (simp add: write_file_def)
  next
    case (Some i)
    have "NEXT_OFFSET s + length ?d < 2 ^ 64" "length ?d \<le> MAX_FILE_SIZE" using fit by simp_all
    with tab ok Some show ?thesis
    proof (cases rule: write_file_cases)
      case full
      then show ?thesis using wf view_frame [of ?t s]
        by (simp add: write_file_take vfs_wf_def write_file_NEXT_ID)
    next
      case (stored v' s')
      let ?v = "vnode_at i s"
      have v: "v_id v' = vid" "v_size v' = length ?d"
        using arg_cong [OF stored(6), of v_id] arg_cong [OF stored(6), of v_size] tab Some
        by (simp_all add: find_slot_Some vnode_at_def)
      have keep: "kids v' = kids ?v" "cname v' = cname ?v" "v_parent v' = v_parent ?v" "v_type v' = v_type ?v"
          "vnode_ok v' = vnode_ok ?v"
        by (subst stored(6), simp)+
      note R = stored_reads [OF tab Some stored(3,4,5) v stored(7) stored(2)]
      have m: "vview s vid = Some ?v" by (rule vview_slot [OF Some])
      have "vnode_ok v'" using view_wfD(1) [OF vw m] keep by simp
      moreover have "cname x \<noteq> cname v'"
        if "vview s p = Some u" "vid \<in> set (kids u)" "d \<in> set (kids u)" "d \<noteq> vid" "vview s d = Some x" for p u d x
        using view_wfD(4) [OF vw that(1,2,3) m that(5)] that(4) keep(2) by auto
      ultimately have "view_wf ((vview s)(vid \<mapsto> v')) (NEXT_ID s)"
        by (intro view_wf_update [OF vw m v(1) _ keep(1,3,4)])
      then show ?thesis using R by (simp add: write_file_take vfs_wf_def write_file_NEXT_ID)
    qed
  qed
  then show "vfs_wf ?t" "pool_ok ?t" by simp_all
qed

text \<open>The operations a user of the file system performs, in any order.\<close>

inductive ram_step :: "fs \<Rightarrow> fs \<Rightarrow> bool" where
  r_create: "get_type p s = Some Dir \<Longrightarrow> NEXT_ID s < NEXT_ID s + 1 \<Longrightarrow> ram_step s (snd (create_node p nm vt s))"
| r_write: "NEXT_OFFSET s + MAX_FILE_SIZE < 2 ^ 64 \<Longrightarrow> ram_step s (snd (write_file vid data s))"
| r_unlink: "ram_step s (snd (ramfs_unlink p nm s))"
| r_rename: "ram_step s (snd (ramfs_rename p old new s))"

lemma ramfs_unlink_view:
  "VNODES (snd (ramfs_unlink p nm s)) = VNODES (snd (vfs_unlink p nm s))"
  "NEXT_ID (snd (ramfs_unlink p nm s)) = NEXT_ID (snd (vfs_unlink p nm s))"
  by (simp_all add: ramfs_unlink_def vfs_unlink_def Let_def case_prod_unfold)

lemma ram_step_invariant:
  assumes "ram_step s t" "vfs_wf s" "pool_ok s"
  shows "vfs_wf t \<and> pool_ok t"
  using assms(1)
proof cases
  case (r_create p nm vt)
  have len: "length (VNODES s) = 64" using assms(2) by (simp add: vfs_wf_def table_ok_def)
  from r_create(2) obtain pv where "vview s p = Some pv" "v_type pv = Dir" by (auto simp: get_view)
  from assms(2) this r_create(3) have "vfs_wf (snd (create_node p nm vt s))"
    by (cases rule: create_node_cases [where nm = nm and vt = vt]) simp_all
  then show ?thesis using r_create(1) create_node_pool [OF assms(3) len] by simp
next
  case (r_write vid data)
  then show ?thesis using write_file_wf [OF assms(2,3)] by simp
next
  case (r_unlink p nm)
  have "vfs_wf (snd (vfs_unlink p nm s))"
    using assms(2) by (cases rule: vfs_unlink_cases [where p = p and nm = nm]) (use assms(2) in simp_all)
  then have "vfs_wf t" using view_frame [OF ramfs_unlink_view(1) [of p nm s]] ramfs_unlink_view(2) [of p nm s]
    by (simp add: r_unlink vfs_wf_def)
  moreover have "length (VNODES s) = 64" using assms(2) by (simp add: vfs_wf_def table_ok_def)
  ultimately show ?thesis using r_unlink ramfs_unlink_pool [OF assms(3)] by simp
next
  case (r_rename p old new)
  have "vfs_wf (snd (vfs_rename p old new s))"
    using assms(2) by (cases rule: vfs_rename_cases [where p = p and old = old and new = new]) (use assms(2) in simp_all)
  moreover have "length (VNODES s) = 64" using assms(2) by (simp add: vfs_wf_def table_ok_def)
  ultimately show ?thesis using r_rename vfs_rename_pool [OF assms(3)] by (simp add: ramfs_rename_def)
qed

lemma vview_slots:
  assumes "table_ok s" "vview s a = Some u" "vview s b = Some w" "a \<noteq> b"
  obtains i k where "i < 64" "k < 64" "i \<noteq> k" "VNODES s ! i = u" "VNODES s ! k = w"
  using assms(2-4) by (auto simp: vview_Some [OF assms(1)])

text \<open>C14.  After any sequence of creations, writes, deletions and renames on a freshly reset file
  system the directory tree is well-formed, every file fits its reservation inside the pool, and two
  different files never share a byte of it.\<close>

theorem ram_run_invariant:
  assumes "ram_step\<^sup>*\<^sup>* (vfs_reset s0) s" "length (FREE s0) = 32" "FREE_COUNT s0 = 0" "NEXT_OFFSET s0 = 1"
  shows "vfs_wf s \<and> pool_ok s \<and>
    (\<forall>a b u w. vview s a = Some u \<and> vview s b = Some w \<and> a \<noteq> b \<and> 0 < v_size u \<longrightarrow>
       v_data_offset u + v_size u \<le> DATA_POOL_SIZE \<and>
       (0 < v_size w \<longrightarrow> apart (v_data_offset u, v_size u) (v_data_offset w, v_size w)))"
proof (intro conjI allI impI)
  have inv: "vfs_wf s \<and> pool_ok s"
    using assms(1)
  proof (induction rule: rtranclp_induct)
    case base
    show ?case using vfs_wf_reset pool_ok_reset assms(2-4) by simp
  next
    case (step s t)
    then show ?case using ram_step_invariant by blast
  qed
  then show "vfs_wf s" and ok: "pool_ok s" by simp_all
  fix a b u w
  assume v: "vview s a = Some u \<and> vview s b = Some w \<and> a \<noteq> b \<and> 0 < v_size u"
  have tab: "table_ok s" using inv by (simp add: vfs_wf_def)
  from v obtain i k where ik: "i < 64" "k < 64" "i \<noteq> k" "VNODES s ! i = u" "VNODES s ! k = w"
    using vview_slots [OF tab] by metis
  have len: "length (VNODES s) = 64" using tab by (simp add: table_ok_def)
  have size: "v_size u \<le> v_data_cap u" "v_size w \<le> v_data_cap w"
    using pool_ok_size [OF ok, of i] pool_ok_size [OF ok, of k] ik len by simp_all
  have "u \<in> set (VNODES s)" using ik len by auto
  then have "data_block u \<in># free_blocks s + file_blocks s" using v size by (auto simp: file_blocks_def)
  with ok have "block_ok (NEXT_OFFSET s) (data_block u)" unfolding pool_ok_def by blast
  with size show "v_data_offset u + v_size u \<le> DATA_POOL_SIZE" by (simp add: block_ok_def data_block_def)
  assume "0 < v_size w"
  with v size ik have "apart (data_block u) (data_block w)" using slots_apart [OF ok, of i k] by (simp add: len)
  with size show "apart (v_data_offset u, v_size u) (v_data_offset w, v_size w)"
    by (auto simp: apart_def data_block_def)
qed

section \<open>A run\<close>

lemma sample_pool: "pool_ok sample_fs" "length (VNODES sample_fs) = 64" "NEXT_OFFSET sample_fs = 1"
    "FREE_COUNT sample_fs = 0" "length (FREE sample_fs) = 32"
  by (simp add: sample_fs_def pool_ok_reset) (simp_all add: sample_fs_def vfs_reset_eq)

lemma create_node_frame [simp]:
  "NEXT_OFFSET (snd (create_node p nm vt s)) = NEXT_OFFSET s"
  "FREE_COUNT (snd (create_node p nm vt s)) = FREE_COUNT s"
  by (simp_all add: create_node_def alloc_id_def link_child_def Let_def case_prod_unfold split: option.splits)

lemma sample_fs2_pool:
  "pool_ok sample_fs2" "NEXT_OFFSET sample_fs2 = 1" "FREE_COUNT sample_fs2 = 0" "table_ok sample_fs2"
  "find_slot (vfs_lookup ROOT_ID [97] sample_fs2) sample_fs2 =
     Some (the (find_slot (vfs_lookup ROOT_ID [97] sample_fs2) sample_fs2))"
proof -
  show "pool_ok sample_fs2" "NEXT_OFFSET sample_fs2 = 1" "FREE_COUNT sample_fs2 = 0" "table_ok sample_fs2"
    using create_node_pool [OF sample_pool(1,2)] sample_pool(3,4) sample_fs2_facts(1)
    by (simp_all add: sample_fs2_def vfs_wf_def)
  let ?c = "vfs_lookup ROOT_ID [97] sample_fs2"
  have "view_find (vview sample_fs2) ROOT_ID [97] = Some ?c"
    using vfs_lookup_iff [OF sample_fs2_facts(1,2)] by blast
  then have "vview sample_fs2 ?c \<noteq> None"
    using sample_fs2_facts(1) view_find_iff [of "vview sample_fs2" "NEXT_ID sample_fs2" ROOT_ID "[97]" ?c]
    by (auto simp: vfs_wf_def)
  then show "find_slot ?c sample_fs2 = Some (the (find_slot ?c sample_fs2))" by (auto simp: vview_def)
qed

lemma sample_write:
  "write_file (vfs_lookup ROOT_ID [97] sample_fs2) [1, 2, 3] sample_fs2 =
     (3, snd (write_file (vfs_lookup ROOT_ID [97] sample_fs2) [1, 2, 3] sample_fs2))"
proof -
  have "find_slot (vfs_lookup ROOT_ID [97] sample_fs2) sample_fs2 \<noteq> None"
    using sample_fs2_pool(5) by (metis option.distinct(1))
  then have "fst (write_file (vfs_lookup ROOT_ID [97] sample_fs2) [1, 2, 3] sample_fs2) = 3"
    using sample_fs2_pool(2,3)
    by (simp add: write_file_def Let_def MAX_FILE_SIZE_def alloc_data_def first_from_end DATA_POOL_SIZE_def
        wadd64_def case_prod_unfold)
  then show ?thesis by (metis prod.collapse)
qed

theorem write_read_witness:
  "let v = vfs_lookup ROOT_ID [97] sample_fs2; r = write_file v [1, 2, 3] sample_fs2 in
     pool_ok (snd r) \<and> fst r = 3 \<and> read_file v 10 (snd r) = [1, 2, 3]"
  using write_read [OF sample_fs2_pool(4,1,5) _ _ sample_write, of 10 0] arg_cong [OF sample_write, of fst]
  by (simp add: sample_fs2_pool(2) MAX_FILE_SIZE_def Let_def)

theorem ram_run_invariant_witness:
  "vfs_wf sample_fs2 \<and> pool_ok sample_fs2"
proof -
  let ?s0 = "\<lparr>VNODES = [], NEXT_ID = 0, USERS = [], USER_COUNT = 0, CURRENT_UID = 0, DATA_POOL = (\<lambda>_. 0),
      NEXT_OFFSET = 1, FREE = replicate 32 (0, 0), FREE_COUNT = 0, HANDLES = [], MOUNT_DRIVE = - 1\<rparr>"
  have "ram_step sample_fs sample_fs2"
    unfolding sample_fs2_def by (rule r_create) (simp_all add: sample_fs_facts)
  then have "ram_step\<^sup>*\<^sup>* (vfs_reset ?s0) sample_fs2" by (simp add: sample_fs_def)
  from ram_run_invariant [OF this] show ?thesis by simp
qed

end
