(* ===== verification/Hash_Stream.thy ===== *)
theory Hash_Stream
  imports Prelude
begin

text \<open>
  What the two streaming hashes (\<open>kernel/src/sha256.rs\<close>, \<open>kernel/src/crypto/sha512.rs\<close>) have in
  common.  \<open>absorb\<close> is the reference: it consumes whole blocks and keeps the tail.  A streaming state
  shows its chaining value, the bytes it has buffered and its length counter; the interface
  \<open>stream_hash\<close> says that feeding bytes to the state is absorbing them, and its lemmas are the
  independence of the result from the way the message is cut into pieces.
\<close>

function absorb :: "nat \<Rightarrow> ('h \<Rightarrow> bytes \<Rightarrow> 'h) \<Rightarrow> 'h \<Rightarrow> bytes \<Rightarrow> 'h \<times> bytes" where
  "absorb B cf h xs =
     (if 0 < B \<and> B \<le> length xs then absorb B cf (cf h (take B xs)) (drop B xs) else (h, xs))"
  by pat_completeness auto
termination
  by (relation "measure (\<lambda>(B, cf, h, xs). length xs)") auto

declare absorb.simps [simp del]

lemma absorb_short: "length xs < B \<Longrightarrow> absorb B cf h xs = (h, xs)"
  by (simp add: absorb.simps)

lemma absorb_block:
  assumes "0 < B" "length xs = B"
  shows "absorb B cf h (xs @ ys) = absorb B cf (cf h xs) ys"
  using assms by (simp add: absorb.simps [of B cf h])

lemma absorb_tail: "0 < B \<Longrightarrow> length (snd (absorb B cf h xs)) < B"
proof (induction B cf h xs rule: absorb.induct)
  case (1 B cf h xs)
  then show ?case by (subst absorb.simps) (auto simp: not_le)
qed

lemma absorb_tail_length: "0 < B \<Longrightarrow> length (snd (absorb B cf h xs)) = length xs mod B"
proof (induction B cf h xs rule: absorb.induct)
  case (1 B cf h xs)
  then show ?case by (subst absorb.simps) (auto simp: not_le le_mod_geq)
qed

lemma absorb_append:
  assumes "0 < B"
  shows "absorb B cf h (xs @ ys) = absorb B cf (fst (absorb B cf h xs)) (snd (absorb B cf h xs) @ ys)"
  using assms
proof (induction B cf h xs rule: absorb.induct)
  case (1 B cf h xs)
  show ?case
  proof (cases "B \<le> length xs")
    case True
    have "absorb B cf h (xs @ ys) = absorb B cf (cf h (take B xs)) (drop B xs @ ys)"
      using absorb_block [OF "1.prems", of "take B xs" cf h "drop B xs @ ys"] True
      by (simp flip: append_assoc)
    then show ?thesis using 1 True by (simp add: absorb.simps [of B cf h xs])
  next
    case False
    then show ?thesis by (simp add: absorb_short)
  qed
qed

text \<open>The filled part of a block buffer after a store.\<close>

lemma take_put_at: "n \<le> length buf \<Longrightarrow> take (n + length xs) (put_at n xs buf) = take n buf @ xs"
  by (simp add: put_at_def)

locale stream_hash =
  fixes B :: nat
    and cf :: "'h \<Rightarrow> bytes \<Rightarrow> 'h"
    and cnt :: "nat \<Rightarrow> 'n::comm_monoid_add"
    and ok :: "'s \<Rightarrow> bool"
    and view :: "'s \<Rightarrow> ('h \<times> bytes) \<times> 'n"
    and upd :: "bytes \<Rightarrow> 's \<Rightarrow> 's"
  assumes block_pos: "0 < B"
    and cnt_add: "cnt (m + n) = cnt m + cnt n"
    and cnt_zero: "cnt 0 = 0"
    and rest_short: "ok s \<Longrightarrow> length (snd (fst (view s))) < B"
    and upd_ok: "ok s \<Longrightarrow> ok (upd d s)"
    and upd_view: "ok s \<Longrightarrow>
      view (upd d s) = (absorb B cf (fst (fst (view s))) (snd (fst (view s)) @ d), snd (view s) + cnt (length d))"
begin

lemma chunks_ok: "ok s \<Longrightarrow> ok (fold upd ds s)"
  by (induction ds arbitrary: s) (simp_all add: upd_ok)

text \<open>Feeding the pieces one after the other is feeding the whole message.\<close>

lemma chunks_view:
  assumes "ok s"
  shows "view (fold upd ds s) =
    (absorb B cf (fst (fst (view s))) (snd (fst (view s)) @ concat ds), snd (view s) + cnt (length (concat ds)))"
  using assms
proof (induction ds arbitrary: s)
  case Nil
  then show ?case using rest_short [OF Nil] by (simp add: absorb_short cnt_zero prod_eq_iff)
next
  case (Cons d ds)
  note v = upd_view [OF Cons.prems, of d]
  from Cons.IH [OF upd_ok [OF Cons.prems, of d]] show ?case
    by (simp add: v cnt_add add.assoc absorb_append [OF block_pos, of cf _ "_ @ d", simplified, symmetric])
qed

lemma chunks_once: "ok s \<Longrightarrow> view (fold upd ds s) = view (upd (concat ds) s)"
  by (simp add: chunks_view upd_view)

lemma from_empty:
  assumes "ok s" "view s = ((h, []), 0)"
  shows "view (fold upd ds s) = (absorb B cf h (concat ds), cnt (length (concat ds)))"
  using chunks_view [OF assms(1)] assms(2) by simp

end

section \<open>Rotation\<close>

definition rotate_right :: "nat \<Rightarrow> 'a::len word \<Rightarrow> 'a word" where
  "rotate_right n w = drop_bit n w OR push_bit (LENGTH('a) - n) w"

lemma bit_rotate_right:
  fixes w :: "'a::len word"
  assumes "n \<le> LENGTH('a)" "i < LENGTH('a)"
  shows "bit (rotate_right n w) i \<longleftrightarrow> bit w ((i + n) mod LENGTH('a))"
proof (cases "i + n < LENGTH('a)")
  case True
  then show ?thesis using assms by (auto simp: rotate_right_def bit_simps ac_simps)
next
  case False
  then have "(i + n) mod LENGTH('a) = i - (LENGTH('a) - n)"
    using assms by (simp add: mod_if [of "i + n"])
  then show ?thesis using assms False
    by (auto simp: rotate_right_def bit_simps dest: bit_imp_le_length)
qed

end
