(* ===== verification/Sha256.thy ===== *)
theory Sha256
  imports Hash_Stream
begin

text \<open>
  SHA-256, \<open>kernel/src/sha256.rs\<close>: the compression function, the streaming state with its partial
  block, and the comparison used for password hashes.  The reference is the one-shot definition of
  the standard: pad the message, cut it into 64-byte blocks and fold the compression function.
\<close>

section \<open>The code\<close>

definition K256 :: "u32 list" where
  "K256 = concat
     [[0x428a2f98, 0x71374491, 0xb5c0fbcf, 0xe9b5dba5, 0x3956c25b, 0x59f111f1],
      [0x923f82a4, 0xab1c5ed5, 0xd807aa98, 0x12835b01, 0x243185be, 0x550c7dc3],
      [0x72be5d74, 0x80deb1fe, 0x9bdc06a7, 0xc19bf174, 0xe49b69c1, 0xefbe4786],
      [0x0fc19dc6, 0x240ca1cc, 0x2de92c6f, 0x4a7484aa, 0x5cb0a9dc, 0x76f988da],
      [0x983e5152, 0xa831c66d, 0xb00327c8, 0xbf597fc7, 0xc6e00bf3, 0xd5a79147],
      [0x06ca6351, 0x14292967, 0x27b70a85, 0x2e1b2138, 0x4d2c6dfc, 0x53380d13],
      [0x650a7354, 0x766a0abb, 0x81c2c92e, 0x92722c85, 0xa2bfe8a1, 0xa81a664b],
      [0xc24b8b70, 0xc76c51a3, 0xd192e819, 0xd6990624, 0xf40e3585, 0x106aa070],
      [0x19a4c116, 0x1e376c08, 0x2748774c, 0x34b0bcb5, 0x391c0cb3, 0x4ed8aa4a],
      [0x5b9cca4f, 0x682e6ff3, 0x748f82ee, 0x78a5636f, 0x84c87814, 0x8cc70208],
      [0x90befffa, 0xa4506ceb, 0xbef9a3f7, 0xc67178f2]]"

definition H0 :: "u32 list" where
  "H0 =
     [0x6a09e667, 0xbb67ae85, 0x3c6ef372, 0xa54ff53a,
      0x510e527f, 0x9b05688c, 0x1f83d9ab, 0x5be0cd19]"

record sha256 =
  s_h :: "u32 list"
  s_buf :: bytes
  s_buf_len :: nat
  s_total :: u64

definition sha256_new :: sha256 where
  "sha256_new = \<lparr>s_h = H0, s_buf = replicate 64 0, s_buf_len = 0, s_total = 0\<rparr>"

text \<open>The two loops that fill the message schedule, and one round of the main loop.\<close>

definition schedule :: "bytes \<Rightarrow> u32 list" where
  "schedule block =
     fold (\<lambda>i w.
         let s0 = rotate_right 7 (w ! (i - 15)) XOR rotate_right 18 (w ! (i - 15)) XOR drop_bit 3 (w ! (i - 15));
             s1 = rotate_right 17 (w ! (i - 2)) XOR rotate_right 19 (w ! (i - 2)) XOR drop_bit 10 (w ! (i - 2))
         in w[i := w ! (i - 16) + s0 + w ! (i - 7) + s1])
       [16..<64]
       (fold (\<lambda>i w. w[i := from_be32 (block ! (i * 4)) (block ! (i * 4 + 1)) (block ! (i * 4 + 2)) (block ! (i * 4 + 3))])
          [0..<16] (replicate 64 0))"

type_synonym vars256 = "u32 \<times> u32 \<times> u32 \<times> u32 \<times> u32 \<times> u32 \<times> u32 \<times> u32"

definition round256 :: "u32 list \<Rightarrow> nat \<Rightarrow> vars256 \<Rightarrow> vars256" where
  "round256 w i v =
     (let (a, b, c, d, e, f, g, h) = v;
          s1 = rotate_right 6 e XOR rotate_right 11 e XOR rotate_right 25 e;
          ch = (e AND f) XOR (NOT e AND g);
          t1 = h + s1 + ch + K256 ! i + w ! i;
          s0 = rotate_right 2 a XOR rotate_right 13 a XOR rotate_right 22 a;
          maj = (a AND b) XOR (a AND c) XOR (b AND c);
          t2 = s0 + maj
      in (t1 + t2, a, b, c, d + t1, e, f, g))"

definition compress256 :: "u32 list \<Rightarrow> bytes \<Rightarrow> u32 list" where
  "compress256 hs block =
     (let w = schedule block;
          (a, b, c, d, e, f, g, h) =
            fold (round256 w) [0..<64] (hs ! 0, hs ! 1, hs ! 2, hs ! 3, hs ! 4, hs ! 5, hs ! 6, hs ! 7)
      in [hs ! 0 + a, hs ! 1 + b, hs ! 2 + c, hs ! 3 + d, hs ! 4 + e, hs ! 5 + f, hs ! 6 + g, hs ! 7 + h])"

text \<open>The loop over whole blocks of the input: the remaining input and the state.\<close>

function update_blocks :: "bytes \<Rightarrow> sha256 \<Rightarrow> bytes \<times> sha256" where
  "update_blocks data s =
     (if length data \<ge> 64
      then update_blocks (drop 64 data) (s\<lparr>s_h := compress256 (s_h s) (take 64 data)\<rparr>)
      else (data, s))"
  by pat_completeness auto
termination
  by (relation "measure (\<lambda>(data, s). length data)") auto

declare update_blocks.simps [simp del]

definition sha256_update :: "bytes \<Rightarrow> sha256 \<Rightarrow> sha256" where
  "sha256_update data s =
     (let s = s\<lparr>s_total := s_total s + of_nat (length data)\<rparr>;
          (data, s) =
            (if s_buf_len s > 0 then
               let need = 64 - s_buf_len s;
                   tk = (if length data < need then length data else need);
                   s = s\<lparr>s_buf := put_at (s_buf_len s) (take tk data) (s_buf s), s_buf_len := s_buf_len s + tk\<rparr>;
                   data = drop tk data
               in if s_buf_len s = 64
                  then (data, s\<lparr>s_h := compress256 (s_h s) (s_buf s), s_buf_len := 0\<rparr>)
                  else (data, s)
             else (data, s));
          (data, s) = update_blocks data s
      in if data \<noteq> [] then s\<lparr>s_buf := put_at 0 data (s_buf s), s_buf_len := length data\<rparr> else s)"

fun update_no_len :: "bytes \<Rightarrow> sha256 \<Rightarrow> sha256" where
  "update_no_len [] s = s"
| "update_no_len (b # bs) s =
     (let s = s\<lparr>s_buf := (s_buf s)[s_buf_len s := b], s_buf_len := s_buf_len s + 1\<rparr> in
      update_no_len bs
        (if s_buf_len s = 64 then s\<lparr>s_h := compress256 (s_h s) (s_buf s), s_buf_len := 0\<rparr> else s))"

definition sha256_finish :: "sha256 \<Rightarrow> bytes" where
  "sha256_finish s =
     (let bit_len = s_total s * 8;
          pad = (replicate 72 0)[0 := 0x80];
          pad_len = (if s_buf_len s < 56 then 56 - s_buf_len s else 120 - s_buf_len s);
          pad = put_at pad_len (to_be64 bit_len) pad;
          s = update_no_len (take (pad_len + 8) pad) s
      in concat (map to_be32 (s_h s)))"

definition sha256_hash :: "bytes \<Rightarrow> bytes" where
  "sha256_hash data = sha256_finish (sha256_update data sha256_new)"

definition HEX :: bytes where
  "HEX = str ''0123456789abcdef''"

definition hash_hex :: "bytes \<Rightarrow> bytes" where
  "hash_hex data = concat (map (\<lambda>b. [HEX ! unat (drop_bit 4 b), HEX ! unat (b AND 0xF)]) (sha256_hash data))"

definition constant_time_eq :: "bytes \<Rightarrow> bytes \<Rightarrow> bool" where
  "constant_time_eq a b \<longleftrightarrow>
     (if length a \<noteq> length b then False
      else fold (\<lambda>i diff. diff OR (a ! i XOR b ! i)) [0..<length a] (0::u8) = 0)"

section \<open>The reference\<close>

definition sha256_pad :: "bytes \<Rightarrow> bytes" where
  "sha256_pad msg =
     msg @ [0x80] @ replicate ((119 - length msg mod 64) mod 64) 0 @ to_be64 (of_nat (8 * length msg))"

definition sha256_spec :: "bytes \<Rightarrow> bytes" where
  "sha256_spec msg = concat (map to_be32 (fst (absorb 64 compress256 H0 (sha256_pad msg))))"

section \<open>The streaming state\<close>

definition sha256_ok :: "sha256 \<Rightarrow> bool" where
  "sha256_ok s \<longleftrightarrow> length (s_buf s) = 64 \<and> s_buf_len s < 64"

definition sha256_view :: "sha256 \<Rightarrow> (u32 list \<times> bytes) \<times> u64" where
  "sha256_view s = ((s_h s, take (s_buf_len s) (s_buf s)), s_total s)"

lemma update_blocks_absorb:
  "update_blocks data s =
     (snd (absorb 64 compress256 (s_h s) data), s\<lparr>s_h := fst (absorb 64 compress256 (s_h s) data)\<rparr>)"
proof (induction data s rule: update_blocks.induct)
  case (1 data s)
  then show ?case by (subst update_blocks.simps) (simp add: absorb.simps [of 64 compress256 "s_h s" data])
qed

text \<open>The last two steps of \<open>update\<close>, from a state with an empty partial block.\<close>

definition update_rest :: "bytes \<Rightarrow> sha256 \<Rightarrow> sha256" where
  "update_rest data s =
     (let (data, s) = update_blocks data s
      in if data \<noteq> [] then s\<lparr>s_buf := put_at 0 data (s_buf s), s_buf_len := length data\<rparr> else s)"

lemma update_rest_view:
  assumes "length (s_buf s) = 64" "s_buf_len s = 0"
  shows "sha256_ok (update_rest data s)" "sha256_view (update_rest data s) = (absorb 64 compress256 (s_h s) data, s_total s)"
proof -
  let ?r = "snd (absorb 64 compress256 (s_h s) data)"
  have "length ?r < 64" by (rule absorb_tail) simp
  then have "length (put_at 0 ?r (s_buf s)) = 64" "take (length ?r) (put_at 0 ?r (s_buf s)) = ?r"
    using assms by (simp, simp add: put_at_def)
  with assms \<open>length ?r < 64\<close>
  show "sha256_ok (update_rest data s)" "sha256_view (update_rest data s) = (absorb 64 compress256 (s_h s) data, s_total s)"
    by (simp_all add: update_rest_def update_blocks_absorb sha256_ok_def sha256_view_def Let_def prod_eq_iff)
qed

lemma sha256_update_cases:
  assumes "s_buf_len s < 64"
  shows "sha256_update d s =
     (let n = s_buf_len s; s' = s\<lparr>s_total := s_total s + of_nat (length d)\<rparr> in
      if n = 0 then update_rest d s'
      else if length d < 64 - n then s'\<lparr>s_buf := put_at n d (s_buf s), s_buf_len := n + length d\<rparr>
      else
        let b = put_at n (take (64 - n) d) (s_buf s) in
        update_rest (drop (64 - n) d) (s'\<lparr>s_buf := b, s_h := compress256 (s_h s) b, s_buf_len := 0\<rparr>))"
proof (cases "s_buf_len s > 0 \<and> length d < 64 - s_buf_len s")
  case True
  then show ?thesis
    by (auto simp: sha256_update_def Let_def update_blocks_absorb absorb_short)
next
  case False
  then show ?thesis using assms
    by (auto simp: sha256_update_def update_rest_def Let_def case_prod_unfold intro!: sha256.equality)
qed

lemma sha256_update_view:
  assumes "sha256_ok s"
  shows "sha256_ok (sha256_update d s) \<and>
    sha256_view (sha256_update d s) =
      (absorb 64 compress256 (s_h s) (take (s_buf_len s) (s_buf s) @ d), s_total s + of_nat (length d))"
proof -
  let ?n = "s_buf_len s"
  have n: "?n < 64" "length (s_buf s) = 64" using assms by (simp_all add: sha256_ok_def)
  consider (empty) "?n = 0" | (part) "0 < ?n" "length d < 64 - ?n" | (full) "0 < ?n" "64 - ?n \<le> length d"
    by linarith
  then show ?thesis
  proof cases
    case empty
    let ?s' = "s\<lparr>s_total := s_total s + of_nat (length d)\<rparr>"
    show ?thesis using update_rest_view [of ?s' d] n empty by (simp add: sha256_update_cases [OF n(1)] Let_def)
  next
    case part
    then show ?thesis using n take_put_at [of ?n "s_buf s" d]
      by (simp add: sha256_update_cases [OF n(1)] Let_def sha256_ok_def sha256_view_def absorb_short)
  next
    case full
    let ?b = "put_at ?n (take (64 - ?n) d) (s_buf s)"
    let ?s' = "s\<lparr>s_total := s_total s + of_nat (length d), s_buf := ?b, s_h := compress256 (s_h s) ?b, s_buf_len := 0\<rparr>"
    have b: "length ?b = 64" using full n by simp
    have "take 64 ?b = take ?n (s_buf s) @ take (64 - ?n) d"
      using take_put_at [of ?n "s_buf s" "take (64 - ?n) d"] full n by simp
    then have b': "?b = take ?n (s_buf s) @ take (64 - ?n) d" using b by simp
    have "take ?n (s_buf s) @ d = ?b @ drop (64 - ?n) d" unfolding b' by simp
    then have "absorb 64 compress256 (s_h s) (take ?n (s_buf s) @ d) =
        absorb 64 compress256 (compress256 (s_h s) ?b) (drop (64 - ?n) d)"
      using absorb_block [of 64 ?b] b by simp
    then show ?thesis using update_rest_view [of ?s' "drop (64 - ?n) d"] b full n
      by (simp add: sha256_update_cases [OF n(1)] Let_def)
  qed
qed

interpretation sha256_stream: stream_hash 64 compress256 "of_nat :: nat \<Rightarrow> u64" sha256_ok sha256_view sha256_update
proof unfold_locales
  show "length (snd (fst (sha256_view s))) < 64" if "sha256_ok s" for s
    using that by (simp add: sha256_ok_def sha256_view_def)
  show "sha256_ok (sha256_update d s)" if "sha256_ok s" for d s
    using sha256_update_view [OF that] by simp
  show "sha256_view (sha256_update d s) = (absorb 64 compress256 (fst (fst (sha256_view s)))
      (snd (fst (sha256_view s)) @ d), snd (sha256_view s) + of_nat (length d))" if "sha256_ok s" for d s
    using sha256_update_view [OF that, of d] by (simp add: sha256_view_def)
qed simp_all


section \<open>Finishing\<close>

lemma update_no_len_view:
  assumes "sha256_ok s"
  shows "sha256_ok (update_no_len bs s) \<and>
    sha256_view (update_no_len bs s) = (absorb 64 compress256 (s_h s) (take (s_buf_len s) (s_buf s) @ bs), s_total s)"
  using assms
proof (induction bs arbitrary: s)
  case Nil
  then show ?case by (simp add: sha256_ok_def sha256_view_def absorb_short)
next
  case (Cons b bs)
  let ?n = "s_buf_len s" and ?b = "(s_buf s)[s_buf_len s := b]"
  let ?s1 = "s\<lparr>s_buf := ?b, s_buf_len := ?n + 1\<rparr>"
  let ?s2 = "if ?n + 1 = 64 then ?s1\<lparr>s_h := compress256 (s_h s) ?b, s_buf_len := 0\<rparr> else ?s1"
  have n: "?n < 64" "length (s_buf s) = 64" using Cons.prems by (simp_all add: sha256_ok_def)
  then have tk: "take (?n + 1) ?b = take ?n (s_buf s) @ [b]" by (simp add: take_Suc_conv_app_nth)
  have ok: "sha256_ok ?s2" using n by (simp add: sha256_ok_def)
  have step: "update_no_len (b # bs) s = update_no_len bs ?s2" by (simp add: Let_def)
  have IH: "sha256_ok (update_no_len bs ?s2) \<and> sha256_view (update_no_len bs ?s2) =
      (absorb 64 compress256 (s_h ?s2) (take (s_buf_len ?s2) (s_buf ?s2) @ bs), s_total ?s2)"
    by (rule Cons.IH [OF ok])
  show ?case
  proof (cases "?n + 1 = 64")
    case True
    then have b: "?b = take ?n (s_buf s) @ [b]" using tk n by simp
    have "absorb 64 compress256 (s_h s) (take ?n (s_buf s) @ b # bs) = absorb 64 compress256 (compress256 (s_h s) ?b) bs"
      using absorb_block [of 64 "take ?n (s_buf s) @ [b]" compress256 "s_h s" bs] n True unfolding b by simp
    with IH True show ?thesis unfolding step by simp
  next
    case False
    with IH tk show ?thesis unfolding step by simp
  qed
qed

lemma pad_bytes:
  assumes "0 < m" "m \<le> 64"
  shows "take (m + 8) (put_at m (to_be64 v) ((replicate 72 0)[0 := 0x80])) = [0x80] @ replicate (m - 1) 0 @ to_be64 v"
proof -
  have "take (m + 8) (put_at m (to_be64 v) ((replicate 72 0)[0 := 0x80])) = take m ((replicate 72 0)[0 := 0x80]) @ to_be64 v"
    using take_put_at [of m "(replicate 72 0)[0 := 0x80]" "to_be64 v"] assms by simp
  moreover have "take m ((replicate 72 0)[0 := 0x80]) = (0x80::u8) # replicate (m - 1) 0"
    using assms by (intro nth_equalityI) (auto simp: nth_list_update nth_Cons')
  ultimately show ?thesis by simp
qed

lemma pad_count: "n < 64 \<Longrightarrow> (119 - n) mod 64 = (if n < 56 then 55 - n else 119 - n)" for n :: nat
proof (cases "n < 56")
  case True
  then have e: "119 - n = 64 + (55 - n)" by simp
  have "(64 + (55 - n)) mod 64 = (55 - n) mod 64" by (rule mod_add_self1)
  with True show ?thesis unfolding e by simp
qed simp

lemma sha256_finish_spec:
  assumes ok: "sha256_ok s" and v: "sha256_view s = (absorb 64 compress256 H0 msg, of_nat (length msg))"
  shows "sha256_finish s = sha256_spec msg"
proof -
  let ?n = "s_buf_len s" and ?r = "take (s_buf_len s) (s_buf s)"
  let ?m = "if ?n < 56 then 56 - ?n else 120 - ?n"
  let ?pad = "[0x80] @ replicate (?m - 1) 0 @ to_be64 (s_total s * 8)"
  have n: "?n < 64" "length (s_buf s) = 64" using ok by (simp_all add: sha256_ok_def)
  have st: "s_h s = fst (absorb 64 compress256 H0 msg)" "?r = snd (absorb 64 compress256 H0 msg)"
    "s_total s = of_nat (length msg)" using v by (simp_all add: sha256_view_def prod_eq_iff)
  have "length ?r = length msg mod 64" using absorb_tail_length [of 64 compress256 H0 msg] st(2) by simp
  then have nm: "?n = length msg mod 64" using n by simp
  have "?m - 1 = (119 - ?n) mod 64" using pad_count [OF n(1)] by simp
  then have pad: "msg @ ?pad = sha256_pad msg" by (simp add: sha256_pad_def st(3) nm mult.commute)
  have "s_h (update_no_len ?pad s) = fst (absorb 64 compress256 (s_h s) (?r @ ?pad))"
    using update_no_len_view [OF ok, of ?pad] by (simp add: sha256_view_def prod_eq_iff)
  also have "\<dots> = fst (absorb 64 compress256 H0 (msg @ ?pad))"
    by (simp only: st(1,2) absorb_append [of 64 compress256 H0 msg ?pad, OF zero_less_numeral])
  finally have "s_h (update_no_len ?pad s) = fst (absorb 64 compress256 H0 (sha256_pad msg))"
    by (simp only: pad)
  moreover have "take (?m + 8) (put_at ?m (to_be64 (s_total s * 8)) ((replicate 72 0)[0 := 0x80])) = ?pad"
    using n by (intro pad_bytes) auto
  ultimately show ?thesis unfolding sha256_finish_def sha256_spec_def Let_def by simp
qed

lemma sha256_new_ok: "sha256_ok sha256_new" "sha256_view sha256_new = ((H0, []), 0)"
  by (simp_all add: sha256_new_def sha256_ok_def sha256_view_def)

lemma sha256_chunks: "sha256_finish (fold sha256_update parts sha256_new) = sha256_spec (concat parts)"
  using sha256_finish_spec [OF sha256_stream.chunks_ok [OF sha256_new_ok(1)]
      sha256_stream.from_empty [OF sha256_new_ok]] by simp

lemma sha256_hash_spec: "sha256_hash data = sha256_spec data"
  using sha256_chunks [of "[data]"] by (simp add: sha256_hash_def)

lemma absorb_length: "length h = 8 \<Longrightarrow> length (fst (absorb 64 compress256 h xs)) = 8"
proof (induction "64 :: nat" compress256 h xs rule: absorb.induct)
  case (1 h xs)
  have "length (compress256 h (take 64 xs)) = 8" by (simp add: compress256_def Let_def case_prod_unfold)
  with 1 show ?case by (subst absorb.simps) simp
qed

lemma length_concat_be32 [simp]: "length (concat (map to_be32 ws)) = 4 * length ws"
  by (induction ws) simp_all

lemma length_sha256_spec [simp]: "length (sha256_spec msg) = 32"
  by (simp add: sha256_spec_def absorb_length H0_def)

section \<open>Properties\<close>

text \<open>C38.  The streaming hash is the one-shot hash of the standard, however the message is cut into
  pieces: feeding the pieces to a fresh state and finishing gives the digest of their concatenation.\<close>

theorem sha256_streaming:
  "sha256_finish (fold sha256_update parts sha256_new) = sha256_spec (concat parts)"
  by (rule sha256_chunks)

lemma xor_eq_0: "(a XOR b :: 'a::len word) = 0 \<longleftrightarrow> a = b"
proof
  assume "a XOR b = 0"
  then have "bit a n \<longleftrightarrow> bit b n" for n using bit_xor_iff [of a b n] by simp
  then show "a = b" by (auto intro: bit_word_eqI)
qed simp

lemma or_eq_0: "(a OR b :: 'a::len word) = 0 \<longleftrightarrow> a = 0 \<and> b = 0"
proof
  assume "a OR b = 0"
  then have "\<not> bit a n \<and> \<not> bit b n" for n using bit_or_iff [of a b n] by simp
  then show "a = 0 \<and> b = 0" by (auto intro: bit_word_eqI)
qed simp

lemma ct_eq: "constant_time_eq a b \<longleftrightarrow> a = b"
proof -
  have "fold (\<lambda>i diff. diff OR (a ! i XOR b ! i)) [0..<n] (0::u8) = 0 \<longleftrightarrow> (\<forall>i < n. a ! i = b ! i)" for n
    by (induction n) (simp, simp add: or_eq_0 xor_eq_0 All_less_Suc conj_commute)
  then show ?thesis unfolding constant_time_eq_def list_eq_iff_nth_eq by simp
qed

text \<open>The comparison without an early exit is equality.\<close>

theorem constant_time_eq_iff: "constant_time_eq a b \<longleftrightarrow> a = b"
  by (rule ct_eq)

end
