(* ===== verification/Text.thy ===== *)
theory Text
  imports Prelude
begin

text \<open>
  The operations on text that the kernel takes from the Rust standard library: UTF-8 validation
  (\<open>core::str::from_utf8\<close>), \<open>str::trim\<close>, \<open>trim_start\<close>, \<open>is_ascii_digit\<close> and the ASCII case
  mappings.  Text is its UTF-8 bytes.
\<close>

section \<open>UTF-8\<close>

definition cont :: "u8 \<Rightarrow> bool" where
  "cont b \<longleftrightarrow> 0x80 \<le> b \<and> b \<le> 0xBF"

text \<open>The length of the well-formed character at the start of a byte string, or 0.\<close>

fun utf8_width :: "bytes \<Rightarrow> nat" where
  "utf8_width [] = 0"
| "utf8_width (a # bs) =
     (if a < 0x80 then 1
      else if 0xC2 \<le> a \<and> a \<le> 0xDF then
        (case bs of b # _ \<Rightarrow> if cont b then 2 else 0 | _ \<Rightarrow> 0)
      else if 0xE0 \<le> a \<and> a \<le> 0xEF then
        (case bs of
           b # c # _ \<Rightarrow>
             if cont b \<and> cont c \<and> (a = 0xE0 \<longrightarrow> 0xA0 \<le> b) \<and> (a = 0xED \<longrightarrow> b \<le> 0x9F) then 3 else 0
         | _ \<Rightarrow> 0)
      else if 0xF0 \<le> a \<and> a \<le> 0xF4 then
        (case bs of
           b # c # d # _ \<Rightarrow>
             if cont b \<and> cont c \<and> cont d \<and> (a = 0xF0 \<longrightarrow> 0x90 \<le> b) \<and> (a = 0xF4 \<longrightarrow> b \<le> 0x8F) then 4 else 0
         | _ \<Rightarrow> 0)
      else 0)"

lemma utf8_width_le: "utf8_width bs \<le> length bs"
  by (induction bs rule: utf8_width.induct) (auto split: list.splits)

text \<open>The characters of a text, each as its bytes; None when the bytes are not UTF-8.\<close>

function utf8_chars :: "bytes \<Rightarrow> bytes list option" where
  "utf8_chars bs =
     (if bs = [] then Some []
      else if utf8_width bs = 0 then None
      else map_option (Cons (take (utf8_width bs) bs)) (utf8_chars (drop (utf8_width bs) bs)))"
  by pat_completeness auto
termination
  by (relation "measure length") auto

declare utf8_chars.simps [simp del]

definition utf8_valid :: "bytes \<Rightarrow> bool" where
  "utf8_valid bs \<longleftrightarrow> utf8_chars bs \<noteq> None"

lemma utf8_chars_concat: "utf8_chars bs = Some cs \<Longrightarrow> concat cs = bs"
proof (induction bs arbitrary: cs rule: utf8_chars.induct)
  case (1 bs)
  then show ?case by (auto simp: utf8_chars.simps [of bs] split: if_splits)
qed

definition ascii :: "bytes \<Rightarrow> bool" where
  "ascii bs \<longleftrightarrow> (\<forall>b \<in> set bs. b < 0x80)"

lemma utf8_chars_ascii: "ascii bs \<Longrightarrow> utf8_chars bs = Some (map (\<lambda>b. [b]) bs)"
proof (induction bs)
  case Nil
  show ?case by (simp add: utf8_chars.simps)
next
  case (Cons a bs)
  then have "a < 0x80" "utf8_chars bs = Some (map (\<lambda>b. [b]) bs)" by (simp_all add: ascii_def)
  then show ?case by (subst utf8_chars.simps) simp
qed

lemma utf8_valid_ascii [simp]: "ascii bs \<Longrightarrow> utf8_valid bs"
  by (simp add: utf8_valid_def utf8_chars_ascii)

lemma ascii_simps [simp]:
  "ascii []" "ascii (b # bs) \<longleftrightarrow> b < 0x80 \<and> ascii bs" "ascii (xs @ ys) \<longleftrightarrow> ascii xs \<and> ascii ys"
  by (auto simp: ascii_def)

section \<open>White space\<close>

text \<open>The Unicode property \<open>White_Space\<close>, on the encoded character.\<close>

definition is_whitespace :: "bytes \<Rightarrow> bool" where
  "is_whitespace c \<longleftrightarrow>
     c \<in> set [[0x09], [0x0A], [0x0B], [0x0C], [0x0D], [0x20], [0xC2, 0x85], [0xC2, 0xA0],
       [0xE1, 0x9A, 0x80], [0xE2, 0x80, 0xA8], [0xE2, 0x80, 0xA9], [0xE2, 0x80, 0xAF],
       [0xE2, 0x81, 0x9F], [0xE3, 0x80, 0x80]] \<or>
     (length c = 3 \<and> c ! 0 = 0xE2 \<and> c ! 1 = 0x80 \<and> 0x80 \<le> c ! 2 \<and> c ! 2 \<le> 0x8A)"

definition trim_start :: "bytes \<Rightarrow> bytes" where
  "trim_start bs = concat (dropWhile is_whitespace (the (utf8_chars bs)))"

definition trim_end :: "bytes \<Rightarrow> bytes" where
  "trim_end bs = concat (rev (dropWhile is_whitespace (rev (the (utf8_chars bs)))))"

definition trim :: "bytes \<Rightarrow> bytes" where
  "trim bs = trim_end (trim_start bs)"

section \<open>ASCII\<close>

definition is_ascii_digit :: "u8 \<Rightarrow> bool" where
  "is_ascii_digit b \<longleftrightarrow> 48 \<le> b \<and> b \<le> 57"

end
