(* ===== verification/Perm.thy ===== *)
theory Perm
  imports Ramfs Sha256 Text
begin

text \<open>
  Accounts, passwords and permission checks, \<open>kernel/src/fs/perm.rs\<close>, and open files,
  \<open>kernel/src/fs/file.rs\<close>.  The account table and the handle table are fields of the file system
  state of \<open>Vfs\<close>.
\<close>

section \<open>Accounts\<close>

definition perm_R :: u16 where "perm_R = 4"
definition perm_W :: u16 where "perm_W = 2"
definition perm_X :: u16 where "perm_X = 1"
definition MAX_USERS :: nat where "MAX_USERS = 8"

definition user_blank :: user where
  "user_blank =
     \<lparr>u_uid = 0, u_gid = 0, u_name = replicate 16 0, u_name_len = 0, u_home = replicate 24 0, u_home_len = 0,
      u_shell = replicate 16 0, u_shell_len = 0\<rparr>"

definition text_or :: "bytes \<Rightarrow> bytes \<Rightarrow> bytes" where
  "text_or d bs = (if utf8_valid bs then bs else d)"

definition name_str :: "user \<Rightarrow> bytes" where
  "name_str u = text_or (str ''?'') (take (u_name_len u) (u_name u))"

definition home_str :: "user \<Rightarrow> bytes" where
  "home_str u = text_or (str ''/'') (take (u_home_len u) (u_home u))"

definition shell_str :: "user \<Rightarrow> bytes" where
  "shell_str u = text_or (str ''/bin/sh'') (take (u_shell_len u) (u_shell u))"

definition user_by_name :: "bytes \<Rightarrow> fs \<Rightarrow> user option" where
  "user_by_name nm s =
     (case first_from (\<lambda>i. case user_at i s of None \<Rightarrow> False | Some u \<Rightarrow> name_str u = nm) 0 (USER_COUNT s) of
        Some i \<Rightarrow> user_at i s
      | None \<Rightarrow> None)"

definition user_name_into :: "u32 \<Rightarrow> nat \<Rightarrow> fs \<Rightarrow> bytes" where
  "user_name_into uid len s =
     (case user_by_uid uid s of
        Some u \<Rightarrow> take (min (length (name_str u)) len) (name_str u)
      | None \<Rightarrow> if len \<noteq> 0 then str ''?'' else [])"

definition current_gid :: "fs \<Rightarrow> u32" where
  "current_gid s = (case user_by_uid (CURRENT_UID s) s of Some u \<Rightarrow> u_gid u | None \<Rightarrow> GID_ROOT)"

definition set_current_uid :: "u32 \<Rightarrow> fs \<Rightarrow> bool \<times> fs" where
  "set_current_uid uid s =
     (if user_by_uid uid s = None then (False, s) else (True, s\<lparr>CURRENT_UID := uid\<rparr>))"

definition is_root :: "fs \<Rightarrow> bool" where
  "is_root s \<longleftrightarrow> CURRENT_UID s = UID_ROOT"

section \<open>Numbers and hexadecimal text\<close>

fun parse_u32_loop :: "nat \<Rightarrow> bytes \<Rightarrow> nat option" where
  "parse_u32_loop v [] = Some v"
| "parse_u32_loop v (ch # bs) =
     (if \<not> is_ascii_digit ch then None
      else if v * 10 \<ge> 2 ^ 32 then None
      else if v * 10 + unat (ch - 48) \<ge> 2 ^ 32 then None
      else parse_u32_loop (v * 10 + unat (ch - 48)) bs)"

definition parse_u32 :: "bytes \<Rightarrow> nat option" where
  "parse_u32 bs = (if bs = [] then None else parse_u32_loop 0 bs)"

text \<open>The digits that \<open>u32_to_dec\<close> writes backwards from the end of its scratch buffer.\<close>

function dec_digits :: "nat \<Rightarrow> bytes \<Rightarrow> bytes" where
  "dec_digits v acc = (if v = 0 then acc else dec_digits (v div 10) ((48 + of_nat (v mod 10)) # acc))"
  by pat_completeness auto
termination
  by (relation "measure fst") auto

declare dec_digits.simps [simp del]

definition u32_to_dec :: "nat \<Rightarrow> nat \<Rightarrow> bytes" where
  "u32_to_dec v len =
     (let tmp = (if v = 0 then [48] else dec_digits v []) in take (min (length tmp) len) tmp)"

text \<open>\<open>to_hex\<close> fills a caller's buffer and returns its new contents.\<close>

fun to_hex_loop :: "nat \<Rightarrow> nat \<Rightarrow> bytes \<Rightarrow> bytes \<Rightarrow> bytes" where
  "to_hex_loop i n [] out = out"
| "to_hex_loop i n (b # src) out =
     (if i * 2 + 1 \<ge> n then out
      else to_hex_loop (i + 1) n src (out[i * 2 := HEX ! unat (drop_bit 4 b), i * 2 + 1 := HEX ! unat (b AND 0xF)]))"

definition to_hex :: "bytes \<Rightarrow> bytes \<Rightarrow> bytes \<times> nat" where
  "to_hex src out = (let n = min (length src * 2) (length out) in (to_hex_loop 0 n src out, n))"

definition hex_val :: "u8 \<Rightarrow> u8 option" where
  "hex_val c =
     (if 48 \<le> c \<and> c \<le> 57 then Some (c - 48)
      else if 97 \<le> c \<and> c \<le> 102 then Some (c - 97 + 10)
      else if 65 \<le> c \<and> c \<le> 70 then Some (c - 65 + 10)
      else None)"

function from_hex_loop :: "nat \<Rightarrow> nat \<Rightarrow> bytes \<Rightarrow> bytes \<Rightarrow> bytes \<times> nat" where
  "from_hex_loop i n b out =
     (if i < n then
        case (hex_val (b ! (i * 2)), hex_val (b ! (i * 2 + 1))) of
          (Some h, Some l) \<Rightarrow> from_hex_loop (i + 1) n b (out[i := push_bit 4 h OR l])
        | _ \<Rightarrow> (out, i)
      else (out, n))"
  by pat_completeness auto
termination
  by (relation "measure (\<lambda>(i, n, b, out). n - i)") auto

declare from_hex_loop.simps [simp del]

definition from_hex :: "bytes \<Rightarrow> bytes \<Rightarrow> bytes \<times> nat" where
  "from_hex b out = from_hex_loop 0 (min (length b div 2) (length out)) b out"

section \<open>The account files\<close>

definition copy_into :: "bytes \<Rightarrow> bytes \<Rightarrow> bytes \<times> nat" where
  "copy_into dst bs = (let n = min (length bs) (length dst) in (put_at 0 (take n bs) dst, n))"

definition nth_or :: "'a \<Rightarrow> nat \<Rightarrow> 'a list \<Rightarrow> 'a" where
  "nth_or d i xs = (if i < length xs then xs ! i else d)"

definition passwd_user :: "bytes list \<Rightarrow> user" where
  "passwd_user f =
     (let u = user_blank;
          (nb, nl) = copy_into (u_name u) (nth_or [] 0 f);
          (hb, hl) = copy_into (u_home u) (nth_or (str ''/'') 5 f);
          (sb, sl) = copy_into (u_shell u) (nth_or (str ''/bin/sh'') 6 f)
      in u\<lparr>u_name := nb, u_name_len := nl, u_home := hb, u_home_len := hl, u_shell := sb, u_shell_len := sl,
           u_uid := of_nat (case parse_u32 (nth_or (str ''0'') 2 f) of Some v \<Rightarrow> v | None \<Rightarrow> 0),
           u_gid := of_nat (case parse_u32 (nth_or (str ''0'') 3 f) of Some v \<Rightarrow> v | None \<Rightarrow> 0)\<rparr>)"

fun passwd_lines :: "bytes list \<Rightarrow> nat \<Rightarrow> user list \<Rightarrow> nat \<times> user list" where
  "passwd_lines [] cnt us = (cnt, us)"
| "passwd_lines (line # lines) cnt us =
     (let line = trim line in
      if line = [] \<or> take 1 line = str ''#'' then passwd_lines lines cnt us
      else if cnt \<ge> MAX_USERS then (cnt, us)
      else
        let f = split_on 58 line in
        if nth_or [] 0 f = [] then passwd_lines lines cnt us
        else passwd_lines lines (cnt + 1) (us[cnt := passwd_user f]))"

definition load_from_passwd :: "fs \<Rightarrow> nat \<times> fs" where
  "load_from_passwd s =
     (let vid = resolve (str ''/etc/passwd'') s in
      if vid = 0 then (0, s\<lparr>USER_COUNT := 0\<rparr>)
      else
        let text = read_file vid 1024 s in
        if \<not> utf8_valid text then (0, s)
        else
          let (cnt, us) = passwd_lines (split_on 10 text) 0 (USERS s) in
          (cnt, s\<lparr>USERS := us, USER_COUNT := cnt\<rparr>))"

definition HASH_ROUNDS :: nat where "HASH_ROUNDS = 1000"

definition derive :: "bytes \<Rightarrow> bytes \<Rightarrow> nat \<Rightarrow> bytes" where
  "derive password salt rounds =
     ((\<lambda>h. sha256_finish (sha256_update salt (sha256_update h sha256_new))) ^^ (rounds - 1))
       (sha256_finish (sha256_update password (sha256_update salt sha256_new)))"

text \<open>The closure \<open>push\<close> of \<open>shadow_line\<close>: append until 160 bytes are in use.\<close>

definition push_bytes :: "bytes \<Rightarrow> bytes \<Rightarrow> bytes" where
  "push_bytes bs out = out @ take (160 - length out) bs"

definition shadow_line :: "bytes \<Rightarrow> bytes \<Rightarrow> bytes" where
  "shadow_line nm password =
     (let salt = take 8 (sha256_hash nm);
          digest = derive password salt HASH_ROUNDS;
          salt_hex = fst (to_hex salt (replicate 16 0));
          hash_hex = fst (to_hex digest (replicate 64 0))
      in fold push_bytes
           [nm, str '':$sha256$'', u32_to_dec HASH_ROUNDS 10, str ''$'', salt_hex, str ''$'', hash_hex,
            str '':0:0:99999:7:::\<newline>'']
           [])"

fun verify_lines :: "bytes list \<Rightarrow> bytes \<Rightarrow> bytes \<Rightarrow> bool" where
  "verify_lines [] nm password = False"
| "verify_lines (line # lines) nm password =
     (let it = split_on 58 line in
      if nth_or [] 0 it \<noteq> nm then verify_lines lines nm password
      else
        let parts = split_on 36 (nth_or [] 1 it) in
        if nth_or [0] 0 parts \<noteq> [] then False
        else if length parts < 2 \<or> parts ! 1 \<noteq> str ''sha256'' then False
        else
          let rounds = (case parse_u32 (nth_or [] 2 parts) of Some v \<Rightarrow> v | None \<Rightarrow> 0) in
          if length parts < 4 then False
          else if length parts < 5 then False
          else if rounds = 0 then False
          else
            let (salt, sn) = from_hex (parts ! 3) (replicate 8 0) in
            if sn \<noteq> 8 then False
            else
              let (want, wn) = from_hex (parts ! 4) (replicate 32 0) in
              if wn \<noteq> 32 then False
              else constant_time_eq (derive password salt rounds) want)"

definition verify_password :: "bytes \<Rightarrow> bytes \<Rightarrow> fs \<Rightarrow> bool" where
  "verify_password nm password s =
     (let vid = resolve (str ''/etc/shadow'') s in
      if vid = 0 then False
      else
        let text = read_file vid 1024 s in
        if \<not> utf8_valid text then False
        else verify_lines (split_on 10 text) nm password)"

definition write_new :: "u64 \<Rightarrow> bytes \<Rightarrow> bytes \<Rightarrow> fs \<Rightarrow> u64 \<times> fs" where
  "write_new parent nm data s =
     (let old = vfs_lookup parent nm s;
          (vid, s) = (if old = 0 then create_file parent nm s else (old, s))
      in if vid = 0 then (0, s) else (vid, snd (write_file vid data s)))"

definition default_passwd :: bytes where
  "default_passwd =
     str ''root:x:0:0:root:/:/bin/sh\<newline>user:x:1000:1000:user:/home:/bin/sh\<newline>guest:x:1001:1001:guest:/home:/bin/sh\<newline>''"

definition default_accounts :: "(bytes \<times> bytes) list" where
  "default_accounts =
     [(str ''root'', str ''root''), (str ''user'', str ''user''), (str ''guest'', str ''guest'')]"

definition install_defaults :: "fs \<Rightarrow> bool \<times> fs" where
  "install_defaults s =
     (let old = vfs_lookup ROOT_ID (str ''etc'') s;
          (etc, s) = (if old \<noteq> 0 then (old, s) else create_dir ROOT_ID (str ''etc'') s)
      in if etc = 0 then (False, s)
         else
           let shadow = concat (map (\<lambda>(nm, pw). shadow_line nm pw) default_accounts);
               (pid, s) = write_new etc (str ''passwd'') default_passwd s;
               (sid, s) = write_new etc (str ''shadow'') shadow s
           in if pid = 0 \<or> sid = 0 then (False, s)
              else
                let s = snd (set_mode sid MODE_SECRET s);
                    s = snd (set_owner sid UID_ROOT GID_ROOT s);
                    s = snd (set_mode pid MODE_FILE s)
                in (True, s))"

section \<open>Permission checks\<close>

definition class_bits :: "perm \<Rightarrow> u32 \<Rightarrow> u32 \<Rightarrow> u16" where
  "class_bits p uid gid =
     (if uid = p_uid p then drop_bit 6 (p_mode p) AND 7
      else if gid = p_gid p then drop_bit 3 (p_mode p) AND 7
      else p_mode p AND 7)"

definition allowed :: "u64 \<Rightarrow> u16 \<Rightarrow> fs \<Rightarrow> bool" where
  "allowed vid want s \<longleftrightarrow>
     (if is_root s then True
      else case get_perm vid s of
        None \<Rightarrow> False
      | Some p \<Rightarrow> let (uid, gid) = current_ids s in class_bits p uid gid AND want = want)"

definition may_modify_dir :: "u64 \<Rightarrow> fs \<Rightarrow> bool" where
  "may_modify_dir dir s \<longleftrightarrow> allowed dir (perm_W OR perm_X) s"

definition format_mode :: "vnode_type \<Rightarrow> u16 \<Rightarrow> bytes" where
  "format_mode vt m =
     (case vt of Dir \<Rightarrow> str ''d'' | Symlink \<Rightarrow> str ''l'' | File \<Rightarrow> str ''-'') @
     concat (map (\<lambda>group.
       let bits = drop_bit (6 - group * 3) m AND 7 in
       map (\<lambda>k. if bits AND drop_bit k 4 \<noteq> 0 then str ''rwx'' ! k else 45) [0..<3]) [0..<3])"

section \<open>Open files (file.rs)\<close>

definition MAX_HANDLES :: nat where "MAX_HANDLES = 16"

definition file_open :: "bytes \<Rightarrow> fs \<Rightarrow> int \<times> fs" where
  "file_open path s =
     (let nm = (if take 1 path = str ''/'' then drop 1 path else path);
          vid = vfs_lookup ROOT_ID nm s
      in if vid = 0 then (- 1, s)
         else case first_from (\<lambda>i. \<not> h_in_use (HANDLES s ! i)) 0 MAX_HANDLES of
           Some i \<Rightarrow> (int i, s\<lparr>HANDLES := (HANDLES s)[i := \<lparr>h_vnode_id = vid, h_offset = 0, h_in_use = True\<rparr>]\<rparr>)
         | None \<Rightarrow> (- 1, s))"

text \<open>\<open>fd as usize\<close> of a negative descriptor is at least \<open>2 ^ 63\<close>, hence out of range.\<close>

definition fd_index :: "int \<Rightarrow> nat" where
  "fd_index fd = nat (fd mod 2 ^ 64)"

definition file_read :: "int \<Rightarrow> nat \<Rightarrow> fs \<Rightarrow> bytes \<times> fs" where
  "file_read fd len s =
     (let idx = fd_index fd in
      if idx \<ge> MAX_HANDLES then ([], s)
      else if \<not> h_in_use (HANDLES s ! idx) then ([], s)
      else
        let h = HANDLES s ! idx; data = read_file (h_vnode_id h) len s in
        (data, s\<lparr>HANDLES := (HANDLES s)[idx := h\<lparr>h_offset := wadd64 (h_offset h) (length data)\<rparr>]\<rparr>))"

definition file_close :: "int \<Rightarrow> fs \<Rightarrow> fs" where
  "file_close fd s =
     (let idx = fd_index fd in
      if idx < MAX_HANDLES
      then s\<lparr>HANDLES := (HANDLES s)[idx := (HANDLES s ! idx)\<lparr>h_in_use := False, h_offset := 0\<rparr>]\<rparr>
      else s)"

end
