(* ===== verification/Perm_Text.thy ===== *)
theory Perm_Text
  imports Perm
begin

text \<open>
  The text formats of the account files: decimal numbers and hexadecimal strings are read back as
  written, a shadow line is parsed back into its fields, and the printed mode of a file says what
  the permission check allows.
\<close>

section \<open>Decimal numbers\<close>

lemma digit_val:
  assumes "d < 10"
  shows "is_ascii_digit (48 + of_nat d)" "unat ((48 + of_nat d :: u8) - 48) = d"
proof -
  have d: "unat (of_nat d :: u8) = d" using assms by (simp add: unat_of_nat)
  then show "unat ((48 + of_nat d :: u8) - 48) = d" by simp
  have "unat (48 + of_nat d :: u8) = 48 + d" using assms d by (simp add: unat_word_ariths)
  then show "is_ascii_digit (48 + of_nat d)"
    using assms by (simp add: is_ascii_digit_def word_le_nat_alt)
qed

lemma parse_dec_digits:
  assumes "v < 2 ^ 32"
  shows "parse_u32_loop 0 (dec_digits v acc) = parse_u32_loop v acc"
  using assms
proof (induction v acc rule: dec_digits.induct)
  case (1 v acc)
  show ?case
  proof (cases "v = 0")
    case False
    then have "parse_u32_loop 0 (dec_digits v acc) = parse_u32_loop (v div 10) ((48 + of_nat (v mod 10)) # acc)"
      using 1 by (subst dec_digits.simps) simp
    also have "\<dots> = parse_u32_loop v acc"
    proof -
      have b: "\<not> v div 10 * 10 \<ge> 2 ^ 32" "v div 10 * 10 + v mod 10 = v" using 1(2) by (linarith, simp)
      show ?thesis using digit_val [of "v mod 10"] 1(2) b by (simp del: power_numeral) linarith
    qed
    finally show ?thesis .
  qed (simp add: dec_digits.simps)
qed

lemma dec_digits_length:
  assumes "v < 10 ^ k"
  shows "length (dec_digits v acc) \<le> length acc + k"
  using assms
proof (induction k arbitrary: v acc)
  case 0
  then show ?case by (simp add: dec_digits.simps)
next
  case (Suc k)
  show ?case
  proof (cases "v = 0")
    case False
    have "v div 10 < 10 ^ k" using Suc.prems by (simp add: less_mult_imp_div_less mult.commute)
    from Suc.IH [OF this] False show ?thesis by (subst dec_digits.simps) (fastforce intro: order.trans)
  qed (simp add: dec_digits.simps)
qed

lemma u32_to_dec_whole: "v < 2 ^ 32 \<Longrightarrow> u32_to_dec v 10 = (if v = 0 then [48] else dec_digits v [])"
  using dec_digits_length [of v 10 "[]"] by (simp add: u32_to_dec_def Let_def min_absorb1)

lemma dec_digits_nonempty: "v \<noteq> 0 \<or> acc \<noteq> [] \<Longrightarrow> dec_digits v acc \<noteq> []"
proof (induction v acc rule: dec_digits.induct)
  case (1 v acc)
  then show ?case by (cases "v = 0") (simp_all add: dec_digits.simps [of v] dec_digits.simps [of 0])
qed

text \<open>A number printed in decimal is read back, for every 32-bit value.\<close>

theorem dec_round_trip: "v < 2 ^ 32 \<Longrightarrow> parse_u32 (u32_to_dec v 10) = Some v"
  using parse_dec_digits [of v "[]"] dec_digits_nonempty [of v "[]"]
  by (auto simp: u32_to_dec_whole parse_u32_def is_ascii_digit_def)

theorem dec_round_trip_witness: "parse_u32 (u32_to_dec 4294967295 10) = Some 4294967295"
  using dec_round_trip [of 4294967295] by simp

section \<open>Hexadecimal strings\<close>

definition hex2 :: "u8 \<Rightarrow> bytes" where
  "hex2 b = [HEX ! unat (drop_bit 4 b), HEX ! unat (b AND 0xF)]"

lemma length_concat_hex2 [simp]: "length (concat (map hex2 bs)) = 2 * length bs"
  by (induction bs) (simp_all add: hex2_def)

lemma to_hex_loop_concat:
  assumes "length out = 2 * (i + length src)"
  shows "to_hex_loop i (length out) src out = take (2 * i) out @ concat (map hex2 src)"
  using assms
proof (induction src arbitrary: i out)
  case Nil
  then show ?case by simp
next
  case (Cons b src)
  let ?h = "HEX ! unat (drop_bit 4 b)" and ?l = "HEX ! unat (b AND 0xF)"
  let ?out = "out[i * 2 := ?h, i * 2 + 1 := ?l]"
  have "to_hex_loop i (length out) (b # src) out = to_hex_loop (i + 1) (length ?out) src ?out"
    using Cons.prems by simp
  also have "\<dots> = take (2 * (i + 1)) ?out @ concat (map hex2 src)"
    using Cons.prems by (intro Cons.IH) simp
  also have "take (2 * (i + 1)) ?out = take (2 * i) out @ [?h, ?l]"
    using Cons.prems by (simp add: take_Suc_conv_app_nth mult.commute [of i])
  finally show ?case by (simp add: hex2_def)
qed

lemma to_hex_concat:
  assumes "length out = 2 * length bs"
  shows "to_hex bs out = (concat (map hex2 bs), 2 * length bs)"
  using to_hex_loop_concat [of out 0 bs] assms by (simp add: to_hex_def Let_def mult.commute)

lemma hex_val_HEX: "k < 16 \<Longrightarrow> hex_val (HEX ! k) = Some (of_nat k)"
proof -
  have "list_all (\<lambda>k. hex_val (HEX ! k) = Some (of_nat k)) [0..<16]" by code_simp
  then show "k < 16 \<Longrightarrow> hex_val (HEX ! k) = Some (of_nat k)" by (simp add: list_all_iff)
qed

lemma nibbles:
  fixes b :: u8
  shows "unat (drop_bit 4 b) < 16" "unat (b AND 0xF) < 16" "push_bit 4 (drop_bit 4 b) OR (b AND 0xF) = b"
proof -
  show "unat (drop_bit 4 b) < 16"
    unfolding unat_drop_bit_eq using unsigned_less [of b, where ?'a = nat] by (simp add: drop_bit_eq_div)
  have "b AND 0xF = take_bit 4 b" by (simp add: take_bit_eq_mask mask_numeral)
  then show "unat (b AND 0xF) < 16" using take_bit_nat_less_exp [of 4 "unat b"] by (simp add: unsigned_take_bit_eq)
  show "push_bit 4 (drop_bit 4 b) OR (b AND 0xF) = b"
    unfolding \<open>b AND 0xF = take_bit 4 b\<close> by (rule bit_word_eqI) (auto simp: bit_simps)
qed

lemma hex_val_nibbles:
  "hex_val (HEX ! unat (drop_bit 4 b)) = Some (drop_bit 4 b)" "hex_val (HEX ! unat (b AND 0xF)) = Some (b AND 0xF)"
  for b :: u8
  using hex_val_HEX [OF nibbles(1) [of b]] hex_val_HEX [OF nibbles(2) [of b]] by simp_all

lemma nth_concat_hex2:
  assumes "i < length bs"
  shows "concat (map hex2 bs) ! (i * 2) = hex2 (bs ! i) ! 0" "concat (map hex2 bs) ! (i * 2 + 1) = hex2 (bs ! i) ! 1"
  using assms
proof (induction bs arbitrary: i)
  case (Cons b bs)
  { case 1
    then show ?case using Cons.IH(1) [of "i - 1"] by (cases i) (simp_all add: hex2_def)
  next
    case 2
    then show ?case using Cons.IH(2) [of "i - 1"] by (cases i) (simp_all add: hex2_def) }
qed simp_all

lemma from_hex_loop_concat:
  assumes "i \<le> n" "n = length bs" "length out = n"
  shows "from_hex_loop i n (concat (map hex2 bs)) out = (take i out @ drop i bs, n)"
  using assms
proof (induction i n "concat (map hex2 bs)" out rule: from_hex_loop.induct)
  case (1 i n out)
  show ?case
  proof (cases "i < n")
    case True
    let ?out = "out[i := bs ! i]"
    have h: "hex_val (concat (map hex2 bs) ! (i * 2)) = Some (drop_bit 4 (bs ! i))"
      "hex_val (concat (map hex2 bs) ! (i * 2 + 1)) = Some (bs ! i AND 0xF)"
      using nth_concat_hex2 [of i bs] True "1.prems"(2) by (simp_all add: hex2_def hex_val_nibbles)
    have "from_hex_loop i n (concat (map hex2 bs)) out = from_hex_loop (i + 1) n (concat (map hex2 bs)) ?out"
      using True h by (subst from_hex_loop.simps) (simp add: nibbles(3))
    also have "\<dots> = (take (i + 1) ?out @ drop (i + 1) bs, n)"
      using "1.hyps" [OF True _ h] "1.prems" True by (simp add: nibbles(3))
    also have "take (i + 1) ?out @ drop (i + 1) bs = take i out @ drop i bs"
      using True "1.prems" by (simp add: take_Suc_conv_app_nth Cons_nth_drop_Suc)
    finally show ?thesis .
  next
    case False
    with "1.prems" show ?thesis by (subst from_hex_loop.simps) simp
  qed
qed

text \<open>Bytes written in hexadecimal into a buffer of exactly the right size are read back.\<close>

theorem hex_round_trip:
  assumes "length out = 2 * length bs" "length out' = length bs"
  shows "to_hex bs out = (fst (to_hex bs out), 2 * length bs) \<and> from_hex (fst (to_hex bs out)) out' = (bs, length bs)"
  using assms from_hex_loop_concat [of 0 "length bs" bs out']
  by (simp add: to_hex_concat from_hex_def)

theorem hex_round_trip_witness: "from_hex (fst (to_hex [0xDE, 0xAD] [0, 0, 0, 0])) [0, 0] = ([0xDE, 0xAD], 2)"
  using hex_round_trip [of "[0, 0, 0, 0]" "[0xDE, 0xAD]" "[0, 0]"] by simp

section \<open>Shadow lines\<close>

lemma sha256_two: "sha256_finish (sha256_update b (sha256_update a sha256_new)) = sha256_spec (a @ b)"
  using sha256_chunks [of "[a, b]"] by simp

lemma length_derive [simp]: "length (derive pw salt n) = 32"
proof (cases "n - 1")
  case 0
  then show ?thesis by (simp add: derive_def sha256_two)
next
  case (Suc m)
  then show ?thesis by (simp add: derive_def sha256_two)
qed

definition account_salt :: "bytes \<Rightarrow> bytes" where
  "account_salt nm = take 8 (sha256_hash nm)"

lemma length_account_salt [simp]: "length (account_salt nm) = 8"
  by (simp add: account_salt_def sha256_hash_spec)

lemma fold_push: "length acc + length (concat xs) \<le> 160 \<Longrightarrow> fold push_bytes xs acc = acc @ concat xs"
  by (induction xs arbitrary: acc) (simp_all add: push_bytes_def)

lemma rounds_dec: "u32_to_dec HASH_ROUNDS 10 = str ''1000''"
  by (simp add: HASH_ROUNDS_def u32_to_dec_whole dec_digits.simps)

definition shadow_field :: "bytes \<Rightarrow> bytes \<Rightarrow> bytes" where
  "shadow_field nm pw =
     str ''$sha256$1000$'' @ concat (map hex2 (account_salt nm)) @ str ''$'' @
     concat (map hex2 (derive pw (account_salt nm) HASH_ROUNDS))"

definition shadow_text :: "bytes \<Rightarrow> bytes \<Rightarrow> bytes" where
  "shadow_text nm pw = nm @ [58] @ shadow_field nm pw @ [58] @ str ''0:0:99999:7:::''"

lemma shadow_line_text:
  assumes "length nm \<le> 49"
  shows "shadow_line nm pw = shadow_text nm pw @ [10]"
proof -
  have "fst (to_hex (account_salt nm) (replicate 16 0)) = concat (map hex2 (account_salt nm))"
    "fst (to_hex (derive pw (account_salt nm) HASH_ROUNDS) (replicate 64 0)) =
       concat (map hex2 (derive pw (account_salt nm) HASH_ROUNDS))"
    by (simp_all add: to_hex_concat)
  then show ?thesis
    unfolding shadow_line_def account_salt_def [symmetric] Let_def
    by (subst fold_push) (use assms in \<open>simp_all add: rounds_dec shadow_text_def shadow_field_def\<close>)
qed

lemma hex2_chars: "c \<in> set (concat (map hex2 bs)) \<Longrightarrow> c \<in> set HEX"
proof -
  have len: "length HEX = 16" by (simp add: HEX_def)
  show "c \<in> set (concat (map hex2 bs)) \<Longrightarrow> c \<in> set HEX"
    using nibbles by (auto simp: hex2_def len intro!: nth_mem)
qed

lemma HEX_chars: "c \<in> set HEX \<Longrightarrow> c \<noteq> 58 \<and> c \<noteq> 36 \<and> c \<noteq> 10 \<and> c < 0x80"
  by (auto simp: HEX_def)

lemma hex2_clean: "58 \<notin> set (concat (map hex2 bs))" "36 \<notin> set (concat (map hex2 bs))"
    "10 \<notin> set (concat (map hex2 bs))" "ascii (concat (map hex2 bs))"
  using hex2_chars [of _ bs] HEX_chars by (auto simp: ascii_def simp del: set_concat set_map)

lemma hex2_no [simp]: "58 \<notin> set (hex2 b)" "36 \<notin> set (hex2 b)" "10 \<notin> set (hex2 b)"
  using hex2_clean [of "[b]"] by simp_all

lemma split_shadow_field:
  "split_on 36 (shadow_field nm pw) =
     [[], str ''sha256'', str ''1000'', concat (map hex2 (account_salt nm)),
      concat (map hex2 (derive pw (account_salt nm) HASH_ROUNDS))]"
proof -
  have "shadow_field nm pw = [] @ 36 # str ''sha256'' @ 36 # str ''1000'' @ 36 #
      concat (map hex2 (account_salt nm)) @ 36 # concat (map hex2 (derive pw (account_salt nm) HASH_ROUNDS))"
    by (simp add: shadow_field_def)
  then show ?thesis
    by (simp add: split_on_append split_on_piece)
qed

lemma split_shadow_text:
  assumes "58 \<notin> set nm"
  shows "\<exists>fs. split_on 58 (shadow_text nm pw) = nm # shadow_field nm pw # fs"
proof -
  have "58 \<notin> set (shadow_field nm pw)" using hex2_clean(1) by (auto simp: shadow_field_def simp del: set_concat set_map)
  with assms show ?thesis by (simp add: shadow_text_def split_on_append)
qed

lemma verify_shadow_text:
  assumes "58 \<notin> set nm"
  shows "verify_lines (shadow_text nm pw0 # ls) nm' pw \<longleftrightarrow>
    (if nm = nm' then derive pw (account_salt nm) HASH_ROUNDS = derive pw0 (account_salt nm) HASH_ROUNDS
     else verify_lines ls nm' pw)"
proof -
  obtain fs where f: "split_on 58 (shadow_text nm pw0) = nm # shadow_field nm pw0 # fs"
    using split_shadow_text [OF assms] by blast
  have fh: "from_hex (concat (map hex2 bs)) out = (bs, length bs)" if "length out = length bs" for bs out
    using from_hex_loop_concat [of 0 "length bs" bs out] that by (simp add: from_hex_def)
  have r: "parse_u32 [49, 48, 48, 48] = Some 1000"
    by (simp add: parse_u32_def is_ascii_digit_def)
  show ?thesis
    by (simp add: f nth_or_def split_shadow_field r fh ct_eq HASH_ROUNDS_def)
qed

text \<open>Looking an account up in a file of shadow lines.\<close>

lemma verify_shadow_file:
  assumes "\<forall>(nm, pw0) \<in> set accts. 58 \<notin> set nm \<and> 10 \<notin> set nm \<and> length nm \<le> 49"
  shows "verify_lines (split_on 10 (concat (map (\<lambda>(nm, pw). shadow_line nm pw) accts))) nm pw \<longleftrightarrow>
    (\<exists>pw0. map_of accts nm = Some pw0 \<and>
       derive pw (account_salt nm) HASH_ROUNDS = derive pw0 (account_salt nm) HASH_ROUNDS)"
  using assms
proof (induction accts)
  case Nil
  show ?case by (simp add: nth_or_def)
next
  case (Cons a accts)
  obtain n p where a: "a = (n, p)" by fastforce
  have n: "58 \<notin> set n" "10 \<notin> set n" "length n \<le> 49" using Cons.prems a by simp_all
  have "10 \<notin> set (shadow_text n p)"
    using n(2) hex2_clean(3) by (auto simp: shadow_text_def shadow_field_def simp del: set_concat set_map)
  then have "split_on 10 (concat (map (\<lambda>(nm, pw). shadow_line nm pw) (a # accts))) =
      shadow_text n p # split_on 10 (concat (map (\<lambda>(nm, pw). shadow_line nm pw) accts))"
    using n(3) by (simp add: a shadow_line_text split_on_append)
  then show ?case using Cons n(1) by (auto simp: a verify_shadow_text simp del: verify_lines.simps)
qed

end
