(* ===== verification/Login.thy ===== *)
theory Login
  imports Perm_Text
begin

text \<open>
  The account files across components: what the installer writes through the virtual file system and
  the RAM file system is what the password check reads back, and the permission check keeps the
  hashes from ordinary users.  Also the behaviour of open files.
\<close>

section \<open>Operations that keep the shape of the tree\<close>

lemma get_perm_view:
  "get_perm j s = map_option (\<lambda>v. \<lparr>p_uid = v_uid v, p_gid = v_gid v, p_mode = v_mode v\<rparr>) (vview s j)"
  by (simp add: get_perm_def vview_def option.map_comp comp_def Let_def)

lemma same_shape:
  assumes wf: "vfs_wf s" and c: "vview s c = Some w" and t: "vview t = (vview s)(c \<mapsto> w')" "table_ok t" "NEXT_ID t = NEXT_ID s"
    and w': "v_id w' = v_id w" "vnode_ok w'" "kids w' = kids w" "cname w' = cname w" "v_parent w' = v_parent w" "v_type w' = v_type w"
  shows "vfs_wf t" "vfs_lookup q nm t = vfs_lookup q nm s" "get_type j t = get_type j s"
proof -
  have vw: "view_wf (vview s) (NEXT_ID s)" using wf by (simp add: vfs_wf_def)
  have "cname x \<noteq> cname w'"
    if "vview s p = Some u" "c \<in> set (kids u)" "d \<in> set (kids u)" "d \<noteq> c" "vview s d = Some x" for p u d x
    using view_wfD(4) [OF vw that(1,2,3) c that(5)] that(4) w'(4) by auto
  then have vw': "view_wf ((vview s)(c \<mapsto> w')) (NEXT_ID s)"
    using view_wf_update [OF vw c _ w'(2,3,5,6)] view_wfD(1) [OF vw c] w'(1) by metis
  then show "vfs_wf t" using t by (simp add: vfs_wf_def)
  have "view_find ((vview s)(c \<mapsto> w')) q nm = Some d \<longleftrightarrow> view_find (vview s) q nm = Some d" for d
    using view_find_update [OF vw vw' c w'(3), of q nm d] view_find_iff [OF vw, of q nm d] c w'(4) by auto
  then have "view_find (vview t) q nm = view_find (vview s) q nm" by (auto simp: t(1) intro: option_eqI_Some)
  then show "vfs_lookup q nm t = vfs_lookup q nm s"
    using vfs_lookup_view [OF vw] vfs_lookup_view [of t "NEXT_ID s" q nm] vw' t(1) by simp
  show "get_type j t = get_type j s" using c w'(6) by (simp add: get_view t(1))
qed

lemma put_same_shape:
  assumes wf: "vfs_wf s" and slot: "find_slot c s = Some i"
    and w': "v_id w' = v_id (vnode_at i s)" "vnode_ok w' = vnode_ok (vnode_at i s)" "kids w' = kids (vnode_at i s)"
      "cname w' = cname (vnode_at i s)" "v_parent w' = v_parent (vnode_at i s)" "v_type w' = v_type (vnode_at i s)"
  shows "vfs_wf (put_vnode i w' s)" "vfs_lookup q nm (put_vnode i w' s) = vfs_lookup q nm s"
    "get_type j (put_vnode i w' s) = get_type j s" "vview (put_vnode i w' s) = (vview s)(c \<mapsto> w')"
proof -
  have tab: "table_ok s" and vw: "view_wf (vview s) (NEXT_ID s)" using wf by (simp_all add: vfs_wf_def)
  have c: "vview s c = Some (vnode_at i s)" by (rule vview_slot [OF slot])
  note D = view_wfD(1) [OF vw c]
  then have "v_id w' = c" using w'(1) by simp
  note rep = view_replace [OF tab slot this]
  show "vview (put_vnode i w' s) = (vview s)(c \<mapsto> w')" by (rule rep(2))
  have ok: "vnode_ok w'" using D w'(2) by simp
  have nid: "NEXT_ID (put_vnode i w' s) = NEXT_ID s" by simp
  note R = same_shape [OF wf c rep(2,1) nid w'(1) ok w'(3-6)]
  show "vfs_wf (put_vnode i w' s)" "vfs_lookup q nm (put_vnode i w' s) = vfs_lookup q nm s"
    "get_type j (put_vnode i w' s) = get_type j s" by (rule R)+
qed

lemma set_mode_effect:
  assumes "vfs_wf s" "vview s c = Some w" "t = snd (set_mode c m s)"
  shows "vfs_wf t" "vfs_lookup q nm t = vfs_lookup q nm s" "get_type j t = get_type j s"
    "vview t = (vview s)(c \<mapsto> w\<lparr>v_mode := m\<rparr>)" "DATA_POOL t = DATA_POOL s"
proof -
  obtain i where i: "find_slot c s = Some i" "vnode_at i s = w" using assms(2) by (auto simp: vview_def)
  have t: "t = put_vnode i (w\<lparr>v_mode := m\<rparr>) s" using i assms(3) by (simp add: set_mode_def)
  note P = put_same_shape [OF assms(1) i(1), of "w\<lparr>v_mode := m\<rparr>"]
  show "vfs_wf t" "vfs_lookup q nm t = vfs_lookup q nm s" "get_type j t = get_type j s"
    "vview t = (vview s)(c \<mapsto> w\<lparr>v_mode := m\<rparr>)" "DATA_POOL t = DATA_POOL s"
    unfolding t by (rule P; simp add: i(2))+ (simp)
qed

lemma set_owner_effect:
  assumes "vfs_wf s" "vview s c = Some w" "t = snd (set_owner c u g s)"
  shows "vfs_wf t" "vfs_lookup q nm t = vfs_lookup q nm s" "get_type j t = get_type j s"
    "vview t = (vview s)(c \<mapsto> w\<lparr>v_uid := u, v_gid := g\<rparr>)" "DATA_POOL t = DATA_POOL s"
proof -
  obtain i where i: "find_slot c s = Some i" "vnode_at i s = w" using assms(2) by (auto simp: vview_def)
  have t: "t = put_vnode i (w\<lparr>v_uid := u, v_gid := g\<rparr>) s" using i assms(3) by (simp add: set_owner_def)
  note P = put_same_shape [OF assms(1) i(1), of "w\<lparr>v_uid := u, v_gid := g\<rparr>"]
  show "vfs_wf t" "vfs_lookup q nm t = vfs_lookup q nm s" "get_type j t = get_type j s"
    "vview t = (vview s)(c \<mapsto> w\<lparr>v_uid := u, v_gid := g\<rparr>)" "DATA_POOL t = DATA_POOL s"
    unfolding t by (rule P; simp add: i(2))+ (simp)
qed

text \<open>Changing only the owner and the mode of a vnode does not change what any file reads as.\<close>

lemma read_file_meta:
  assumes "vview t = (vview s)(c \<mapsto> w')" "vview s c = Some w" "DATA_POOL t = DATA_POOL s"
    and "v_size w' = v_size w" "v_data_offset w' = v_data_offset w"
  shows "read_file j len t = read_file j len s"
  unfolding read_file_view assms(3) by (cases "j = c") (simp_all add: assms)

section \<open>Writing and creating\<close>

lemma alloc_data_room:
  assumes ok: "pool_ok s" and room: "NEXT_OFFSET s + n \<le> DATA_POOL_SIZE" and n: "0 < n"
  shows "fst (alloc_data n s) \<noteq> 0"
proof (cases "first_from (\<lambda>i. snd (FREE s ! i) \<ge> n) 0 (FREE_COUNT s)")
  case None
  have w: "wadd64 (NEXT_OFFSET s) n = NEXT_OFFSET s + n" using room by (simp add: wadd64_def DATA_POOL_SIZE_def)
  show ?thesis using ok None n w room by (simp add: alloc_data_def Let_def pool_ok_def)
next
  case (Some i)
  then have i: "i < FREE_COUNT s" by (auto dest: first_from_SomeD)
  then have "FREE s ! i \<in># free_blocks s" using ok
    by (auto simp: free_blocks_def pool_ok_def in_set_conv_nth intro!: exI [of _ i])
  then have "block_ok (NEXT_OFFSET s) (FREE s ! i)" using ok by (auto simp: pool_ok_def)
  then show ?thesis using Some n by (auto simp: alloc_data_def Let_def block_ok_def split: prod.splits)
qed

lemma write_file_effect:
  assumes wf: "vfs_wf s" and ok: "pool_ok s" and room: "NEXT_OFFSET s + length data \<le> DATA_POOL_SIZE"
    and c: "vview s c = Some w" and len: "length data \<le> MAX_FILE_SIZE" and t: "t = snd (write_file c data s)"
  shows "vfs_wf t" "pool_ok t" "vfs_lookup q nm t = vfs_lookup q nm s" "get_type j t = get_type j s"
    "read_file c n t = take n data" "d \<noteq> c \<Longrightarrow> read_file d n t = read_file d n s"
    "get_perm j t = get_perm j s" "(vview t j = None) = (vview s j = None)"
    "NEXT_OFFSET t \<le> NEXT_OFFSET s + length data" "NEXT_ID t = NEXT_ID s" "child_count j t = child_count j s"
proof -
  have tab: "table_ok s" and vw: "view_wf (vview s) (NEXT_ID s)" using wf by (simp_all add: vfs_wf_def)
  obtain i where i: "find_slot c s = Some i" "vnode_at i s = w" using c by (auto simp: vview_def)
  have fit: "NEXT_OFFSET s + length data < 2 ^ 64" using room by (simp add: DATA_POOL_SIZE_def)
  show nid: "NEXT_ID t = NEXT_ID s" by (simp add: t write_file_NEXT_ID)
  have al: "NEXT_OFFSET (snd (alloc_data m s)) \<le> NEXT_OFFSET s + m" for m
    using alloc_data_frame(4) [of m s] by (metis prod.collapse)
  have no: "NEXT_OFFSET (set_data c x y u) = NEXT_OFFSET u" "NEXT_OFFSET (set_data_full c x y z u) = NEXT_OFFSET u" for x y z u
    by (simp_all add: set_data_def set_data_full_def split: option.splits)
  show "NEXT_OFFSET t \<le> NEXT_OFFSET s + length data"
    using al [of "length data"] len by (simp add: t write_file_def Let_def case_prod_unfold no min_absorb1)
  have "vfs_wf t \<and> pool_ok t \<and> vfs_lookup q nm t = vfs_lookup q nm s \<and> get_type j t = get_type j s \<and>
    read_file c n t = take n data \<and> (d \<noteq> c \<longrightarrow> read_file d n t = read_file d n s) \<and>
    get_perm j t = get_perm j s \<and> (vview t j = None) = (vview s j = None) \<and> child_count j t = child_count j s"
    using tab ok i(1) fit len
  proof (cases rule: write_file_cases)
    case full
    with alloc_data_room [OF ok room] have False by simp
    then show ?thesis ..
  next
    case (stored v' s')
    have v: "v_id v' = c" "v_size v' = length data"
      using arg_cong [OF stored(6), of v_id] arg_cong [OF stored(6), of v_size] tab i(1)
      by (simp_all add: find_slot_Some vnode_at_def)
    have keep: "kids v' = kids w" "cname v' = cname w" "v_parent v' = v_parent w" "v_type v' = v_type w"
        "vnode_ok v' = vnode_ok w" "v_id v' = v_id w" "v_uid v' = v_uid w" "v_gid v' = v_gid w" "v_mode v' = v_mode w"
      by (subst stored(6), simp add: i(2))+
    note R = stored_reads [OF tab i(1) stored(3,4,5) v stored(7), of t]
    have tt: "t = pool_write (v_data_offset v') data (put_vnode i v' s')" using stored(2) t by simp
    have ok': "vnode_ok v'" using keep(5) view_wfD(1) [OF vw c] by simp
    note S = same_shape [OF wf c R(2) [OF tt] R(3) [OF tt] nid keep(6) ok' keep(1-4)]
    have "get_perm j t = get_perm j s" "(vview t j = None) = (vview s j = None)"
      using c keep(7-9) by (auto simp: get_perm_view R(2) [OF tt])
    moreover have "child_count j t = child_count j s"
      using child_count_kids [OF S(1), of c v'] child_count_kids [OF wf c] keep(1)
      by (cases "j = c") (simp_all add: R(2) [OF tt] get_view(6))
    ultimately show ?thesis using S R(1) [OF tt] R(4) [OF tt, of n] R(5) [OF tt, of d n] by blast
  qed
  then show "vfs_wf t" "pool_ok t" "vfs_lookup q nm t = vfs_lookup q nm s" "get_type j t = get_type j s"
    "read_file c n t = take n data" "d \<noteq> c \<Longrightarrow> read_file d n t = read_file d n s"
    "get_perm j t = get_perm j s" "(vview t j = None) = (vview s j = None)" "child_count j t = child_count j s" by blast+
qed

lemma create_node_pool_frame:
  "DATA_POOL (snd (create_node p nm vt s)) = DATA_POOL s"
  "USERS (snd (create_node p nm vt s)) = USERS s" "USER_COUNT (snd (create_node p nm vt s)) = USER_COUNT s"
  "CURRENT_UID (snd (create_node p nm vt s)) = CURRENT_UID s"
  by (simp_all add: create_node_def alloc_id_def link_child_def put_vnode_def Let_def case_prod_unfold split: option.splits)

lemma create_node_reads:
  assumes wf: "vfs_wf s" and dir: "get_type p s = Some Dir" and nxt: "NEXT_ID s < NEXT_ID s + 1"
    and t: "t = snd (create_node p nm vt s)" and j: "vview s j = Some w"
  shows "vview t j \<noteq> None" "read_file j n t = read_file j n s" "get_type j t = get_type j s" "get_perm j t = get_perm j s"
proof -
  from dir obtain pv where p: "vview s p = Some pv" "v_type pv = Dir" by (auto simp: get_view)
  have vw: "view_wf (vview s) (NEXT_ID s)" using wf by (simp add: vfs_wf_def)
  have pool: "DATA_POOL t = DATA_POOL s" by (simp add: t create_node_pool_frame)
  have "\<exists>w'. vview t j = Some w' \<and> attrs w' = attrs w \<and> v_type w' = v_type w"
  proof (cases rule: create_node_cases [OF wf p nxt, of nm vt])
    case 1
    then show ?thesis using view_frame(1) [of t s] j t by simp
  next
    case (2 v pv')
    have "NEXT_ID s \<noteq> j" using view_wfD(1) [OF vw j] by auto
    moreover have "v_type pv' = v_type pv"
    proof -
      have "view_wf (vview t) (NEXT_ID t)" using 2(3) t by (simp add: vfs_wf_def)
      moreover have "vview t p = Some pv'" using 2(5) t by simp
      moreover have "kids pv' \<noteq> []" using 2(11) by simp
      ultimately show ?thesis using view_wfD(7) p(2) by metis
    qed
    ultimately show ?thesis using 2(5,17) j p t by (cases "j = p") simp_all
  qed
  then obtain w' where "vview t j = Some w'" "attrs w' = attrs w" "v_type w' = v_type w" by blast
  with j pool show "vview t j \<noteq> None" "read_file j n t = read_file j n s" "get_type j t = get_type j s"
    "get_perm j t = get_perm j s"
    by (simp_all add: read_file_view get_view(1) get_perm_view attrs_def)
qed

text \<open>A state in which the file system can take \<open>k\<close> more vnodes and \<open>n\<close> more bytes.\<close>

definition roomy :: "nat \<Rightarrow> nat \<Rightarrow> fs \<Rightarrow> bool" where
  "roomy k n s \<longleftrightarrow> vfs_wf s \<and> pool_ok s \<and> unat (NEXT_ID s) + k < 2 ^ 64 \<and> NEXT_OFFSET s + n \<le> DATA_POOL_SIZE"

lemma roomy_next: "roomy (Suc k) n s \<Longrightarrow> NEXT_ID s < NEXT_ID s + 1 \<and> unat (NEXT_ID s + 1) = unat (NEXT_ID s) + 1"
  by (auto simp: roomy_def word_less_nat_alt unat_word_ariths)

lemma create_node_NEXT_ID:
  "NEXT_ID (snd (create_node p nm vt s)) = NEXT_ID s \<or> NEXT_ID (snd (create_node p nm vt s)) = NEXT_ID s + 1"
  by (simp add: create_node_def alloc_id_def link_child_def put_vnode_def Let_def case_prod_unfold split: option.splits)

lemma create_roomy:
  assumes "roomy (Suc k) n s" "get_type p s = Some Dir"
  shows "roomy k n (snd (create_node p nm vt s))"
proof -
  note N = roomy_next [OF assms(1)]
  have s: "vfs_wf s" "pool_ok s" using assms(1) by (simp_all add: roomy_def)
  then have s3: "length (VNODES s) = 64" by (simp add: vfs_wf_def table_ok_def)
  have "vfs_wf (snd (create_node p nm vt s))"
    using create_node_effect(1) [OF s(1) assms(2), of nm vt] N by (metis prod.collapse)
  with create_node_pool [OF s(2) s3] create_node_NEXT_ID [of p nm vt s] N assms(1) show ?thesis
    by (auto simp: roomy_def)
qed

lemma write_roomy:
  assumes "roomy k (length data + n) s" "vview s c = Some w" "length data \<le> MAX_FILE_SIZE"
  shows "roomy k n (snd (write_file c data s))"
  using assms write_file_effect(1,2,9,10) [of s data c w] by (simp add: roomy_def)

text \<open>\<open>write_new\<close>: the name denotes the new contents, everything else is as before.\<close>

lemma write_new_effect:
  assumes room: "roomy (Suc k) (length data + n) s" and dir: "get_type p s = Some Dir"
    and len: "length data \<le> MAX_FILE_SIZE" and c: "write_new p nm data s = (c, t)" "c \<noteq> 0"
  shows "roomy k n t \<and> vfs_lookup q nm' t = (if q = p \<and> nm' = nm then c else vfs_lookup q nm' s) \<and>
    vview t c \<noteq> None \<and> read_file c m t = take m data \<and>
    (vview s d \<noteq> None \<longrightarrow> vview t d \<noteq> None \<and> get_type d t = get_type d s \<and>
       (d \<noteq> c \<longrightarrow> read_file d m t = read_file d m s))"
proof -
  have s: "vfs_wf s" "pool_ok s" "NEXT_ID s < NEXT_ID s + 1" using room roomy_next [OF room] by (simp_all add: roomy_def)
  define s1 where "s1 = (if vfs_lookup p nm s = 0 then snd (create_node p nm File s) else s)"
  have t: "t = snd (write_file c data s1)" "c = (if vfs_lookup p nm s = 0 then fst (create_node p nm File s) else vfs_lookup p nm s)"
    using c by (auto simp: write_new_def Let_def s1_def create_file_def case_prod_unfold split: if_splits)
  have "roomy k (length data + n) s1 \<and> vfs_lookup q nm' s1 = (if q = p \<and> nm' = nm then c else vfs_lookup q nm' s) \<and>
      vview s1 c \<noteq> None \<and> (vview s d \<noteq> None \<longrightarrow> vview s1 d \<noteq> None \<and> get_type d s1 = get_type d s \<and>
        read_file d m s1 = read_file d m s)"
  proof (cases "vfs_lookup p nm s = 0")
    case True
    then have cr: "create_node p nm File s = (c, s1)" using t by (simp add: s1_def prod_eq_iff)
    note E = create_node_effect [OF s(1) dir s(3) cr]
    have "vview s1 c \<noteq> None" using E(4) c(2) by (auto simp: get_view)
    moreover have "roomy k (length data + n) s1" using create_roomy [OF room dir, of nm File] cr by simp
    moreover have "vview s d \<noteq> None \<longrightarrow> vview s1 d \<noteq> None \<and> get_type d s1 = get_type d s \<and> read_file d m s1 = read_file d m s"
      using create_node_reads [OF s(1) dir s(3), of s1 nm File d] cr by auto
    ultimately show ?thesis using E(3) [OF c(2)] by blast
  next
    case False
    then have "vfs_lookup p nm s = c" "s1 = s" using t by (simp_all add: s1_def)
    moreover from this have "view_find (vview s) p nm = Some c" using vfs_lookup_iff [OF s(1) c(2)] by blast
    then have "vview s c \<noteq> None"
      using s(1) view_find_iff [of "vview s" "NEXT_ID s" p nm c] by (auto simp: vfs_wf_def)
    moreover have "roomy k (length data + n) s" using room by (simp add: roomy_def)
    ultimately show ?thesis by auto
  qed
  note S1 = this
  then obtain w where w: "vview s1 c = Some w" by blast
  have r1: "vfs_wf s1" "pool_ok s1" "NEXT_OFFSET s1 + length data \<le> DATA_POOL_SIZE" using S1 by (simp_all add: roomy_def)
  note W = write_file_effect [OF r1 w len t(1)]
  have "roomy k n t" using write_roomy [OF _ w len] S1 t(1) by blast
  moreover have "vview t c \<noteq> None" using W(8) [of c] w by simp
  ultimately show ?thesis using S1 W(3,4) W(5) [of m] W(6) [of d m] W(8) [of d] by auto
qed

section \<open>The installed account files\<close>

definition default_shadow :: bytes where
  "default_shadow = concat (map (\<lambda>(nm, pw). shadow_line nm pw) default_accounts)"

lemma shadow_text_props:
  "length (shadow_text nm pw) = length nm + 110" "ascii nm \<Longrightarrow> ascii (shadow_text nm pw)"
  using hex2_clean(4) [of "account_salt nm"] hex2_clean(4) [of "derive pw (account_salt nm) HASH_ROUNDS"]
  by (simp_all add: shadow_text_def shadow_field_def)

lemma default_shadow_props: "length default_shadow = 346" "ascii default_shadow"
  by (simp_all add: default_shadow_def default_accounts_def shadow_line_text shadow_text_props)

lemma length_default_passwd: "length default_passwd = 100"
  by (simp add: default_passwd_def)

lemma lookup_name:
  assumes "vfs_wf s" "vfs_lookup p nm s = c" "c \<noteq> 0"
  obtains w where "vview s c = Some w" "cname w = nm"
  using assms vfs_lookup_iff [OF assms(1,3), of p nm] view_find_iff [of "vview s" "NEXT_ID s" p nm c]
  by (auto simp: vfs_wf_def)

lemma root_dir: "vfs_wf s \<Longrightarrow> get_type ROOT_ID s = Some Dir \<and> get_parent ROOT_ID s = 0 \<and> vview s ROOT_ID \<noteq> None"
  using view_wfD(6) [of "vview s" "NEXT_ID s"] by (auto simp: vfs_wf_def get_view)

lemma resolve_etc:
  assumes "vfs_lookup ROOT_ID (str ''etc'') s = e" "e \<noteq> 0" "vfs_lookup e nm s = c" "c \<noteq> 0"
    and "nm \<noteq> []" "nm \<noteq> dot" "nm \<noteq> dotdot" "slash \<notin> set nm"
  shows "resolve (str ''/etc/'' @ nm) s = c"
proof -
  have "split_on slash (str ''/etc/'' @ nm) = [[], str ''etc'', nm]"
    using assms(8) by (simp add: slash_def split_on_piece)
  then show ?thesis using assms by (simp add: resolve_def dot_def dotdot_def)
qed

lemma install_effect:
  assumes room: "roomy 3 1024 s" and fresh: "vfs_lookup ROOT_ID (str ''etc'') s = 0"
    and inst: "install_defaults s = (True, t)"
  obtains etc sid pid where "vfs_wf t" "etc \<noteq> 0" "sid \<noteq> 0" "pid \<noteq> 0" "vfs_lookup ROOT_ID (str ''etc'') t = etc"
    "vfs_lookup etc (str ''shadow'') t = sid" "vfs_lookup etc (str ''passwd'') t = pid"
    "read_file sid 1024 t = default_shadow" "read_file pid 1024 t = default_passwd"
    "get_perm sid t = Some \<lparr>p_uid = UID_ROOT, p_gid = GID_ROOT, p_mode = MODE_SECRET\<rparr>"
proof -
  obtain etc s1 where cd: "create_dir ROOT_ID (str ''etc'') s = (etc, s1)" by fastforce
  obtain pid s2 where wp: "write_new etc (str ''passwd'') default_passwd s1 = (pid, s2)" by fastforce
  obtain sid s3 where ws: "write_new etc (str ''shadow'') default_shadow s2 = (sid, s3)" by fastforce
  let ?s4 = "snd (set_mode sid MODE_SECRET s3)"
  let ?s5 = "snd (set_owner sid UID_ROOT GID_ROOT ?s4)"
  have nz: "etc \<noteq> 0" "pid \<noteq> 0" "sid \<noteq> 0" and t: "t = snd (set_mode pid MODE_FILE ?s5)"
    using inst fresh cd wp ws
    by (auto simp: install_defaults_def Let_def default_shadow_def [symmetric] split: if_splits)
  have wf: "vfs_wf s" and nxt: "NEXT_ID s < NEXT_ID s + 1"
    using room roomy_next [of 2 1024 s] by (simp_all add: roomy_def numeral_3_eq_3 [symmetric])
  note cr = cd [unfolded create_dir_def]
  note E = create_node_effect [OF wf root_dir [OF wf, THEN conjunct1] nxt cr]
  have r1: "roomy (Suc 1) (length default_passwd + 924) s1"
    using create_roomy [of 2 1024 s ROOT_ID "str ''etc''" Dir] room root_dir [OF wf] cr
    by (simp add: length_default_passwd eval_nat_numeral)
  have l1: "vfs_lookup ROOT_ID (str ''etc'') s1 = etc" "get_type etc s1 = Some Dir"
    using E(3,4) [OF nz(1)] by simp_all
  then have v1: "vview s1 etc \<noteq> None" by (auto simp: get_view)
  have small: "length default_passwd \<le> MAX_FILE_SIZE" "length default_shadow \<le> MAX_FILE_SIZE"
    by (simp_all add: length_default_passwd default_shadow_props MAX_FILE_SIZE_def)
  note W2 = write_new_effect [OF r1 l1(2) small(1) wp nz(2)]
  have er: "etc \<noteq> ROOT_ID"
  proof
    assume "etc = ROOT_ID"
    with E(4) [OF nz(1)] root_dir [OF E(1)] show False by (simp add: ROOT_ID_def)
  qed
  have l2: "vfs_lookup ROOT_ID (str ''etc'') s2 = etc" "vfs_lookup etc (str ''passwd'') s2 = pid" "get_type etc s2 = Some Dir"
    using W2 l1 v1 er by auto
  have r2: "roomy (Suc 0) (length default_shadow + 578) s2" using W2 by (simp add: default_shadow_props)
  note W3 = write_new_effect [OF r2 l2(3) small(2) ws nz(3)]
  have l3: "vfs_lookup ROOT_ID (str ''etc'') s3 = etc" "vfs_lookup etc (str ''passwd'') s3 = pid"
      "vfs_lookup etc (str ''shadow'') s3 = sid"
    using W3 l2 er by auto
  have wf3: "vfs_wf s3" using W3 by (simp add: roomy_def)
  obtain wp' where p3: "vview s3 pid = Some wp'" "cname wp' = str ''passwd''" using lookup_name [OF wf3 l3(2) nz(2)] .
  obtain ws' where q3: "vview s3 sid = Some ws'" "cname ws' = str ''shadow''" using lookup_name [OF wf3 l3(3) nz(3)] .
  have ne: "pid \<noteq> sid" using p3 q3 by auto
  have rd3: "read_file sid 1024 s3 = default_shadow" "read_file pid 1024 s3 = default_passwd"
    using W3 W2 ne by (simp_all add: default_shadow_props length_default_passwd)
  note M4 = set_mode_effect [OF wf3 q3(1) refl, where m = MODE_SECRET]
  have q4: "vview ?s4 sid = Some (ws'\<lparr>v_mode := MODE_SECRET\<rparr>)" by (simp add: M4(4))
  note M5 = set_owner_effect [OF M4(1) q4 refl, where u = UID_ROOT and g = GID_ROOT]
  have p5: "vview ?s5 pid = Some wp'" using p3 ne by (simp add: M5(4) M4(4))
  note M6 = set_mode_effect [OF M5(1) p5 t]
  have rd: "read_file j 1024 t = read_file j 1024 s3" for j
    using read_file_meta [OF M4(4) q3(1) M4(5)] read_file_meta [OF M5(4) q4 M5(5)] read_file_meta [OF M6(4) p5 M6(5)]
    by simp
  have "get_perm sid t = Some \<lparr>p_uid = UID_ROOT, p_gid = GID_ROOT, p_mode = MODE_SECRET\<rparr>"
    using ne by (simp add: get_perm_view M6(4) M5(4))
  then show ?thesis using that [OF M6(1) nz(1,3,2)] l3 rd3 by (simp add: M6(2) M5(2) M4(2) rd)
qed

section \<open>Properties\<close>

text \<open>Free slots and child counts, to see that the installation succeeds on an empty tree.\<close>

definition free_from :: "nat \<Rightarrow> fs \<Rightarrow> bool" where
  "free_from k s \<longleftrightarrow> length (VNODES s) = 64 \<and> (\<forall>i. k \<le> i \<and> i < 64 \<longrightarrow> v_id (VNODES s ! i) = 0)"

lemma free_from_slot:
  assumes "free_from k s" "k < 64"
  obtains i where "vfs_alloc_slot s = Some i" "i \<le> k"
proof (cases "vfs_alloc_slot s")
  case None
  with assms show ?thesis by (auto simp: vfs_alloc_slot_def first_from_None_iff free_from_def MAX_VNODES_def)
next
  case (Some i)
  from Some [unfolded vfs_alloc_slot_def, THEN first_from_SomeD] assms have "i \<le> k"
    by (metis free_from_def le0 linorder_not_le order_refl)
  with Some that show ?thesis by blast
qed

lemma free_from_create:
  assumes "free_from k s" "k < 64"
  shows "free_from (Suc k) (snd (create_node p nm vt s))"
proof -
  obtain i where i: "vfs_alloc_slot s = Some i" "i \<le> k" using free_from_slot [OF assms] .
  have put: "free_from (Suc k) (put_vnode i v u)" if "free_from k u" for v u
    using that i(2) by (auto simp: free_from_def put_vnode_def nth_list_update)
  have keep: "free_from (Suc k) (put_vnode j v u)" if "free_from (Suc k) u" "v_id v = v_id (VNODES u ! j)" for j v u
    using that by (cases "j < 64") (auto simp: free_from_def put_vnode_def nth_list_update list_update_beyond)
  have link: "free_from (Suc k) (link_child p c u)" if "free_from (Suc k) u" for c u
    using that keep by (simp add: link_child_def Let_def vnode_at_def split: option.splits)
  have "free_from k (s\<lparr>NEXT_ID := NEXT_ID s + 1\<rparr>)" "free_from (Suc k) (s\<lparr>NEXT_ID := NEXT_ID s + 1\<rparr>)" "free_from (Suc k) s"
    using assms(1) by (simp_all add: free_from_def)
  moreover have "vfs_alloc_slot (s\<lparr>NEXT_ID := NEXT_ID s + 1\<rparr>) = Some i" using i(1) by (simp add: vfs_alloc_slot_def)
  ultimately show ?thesis using put link by (simp add: create_node_def alloc_id_def Let_def case_prod_unfold)
qed

lemma free_from_write:
  assumes "free_from k s"
  shows "free_from k (snd (write_file c data s))"
proof -
  have put: "free_from k (put_vnode j v u)" if "free_from k u" "v_id v = v_id (VNODES u ! j)" for j v u
    using that by (cases "j < 64") (auto simp: free_from_def put_vnode_def nth_list_update list_update_beyond)
  have set: "free_from k (set_data j a b u)" "free_from k (set_data_full j a b d u)" if "free_from k u" for j a b d u
    using that put by (simp_all add: set_data_def set_data_full_def vnode_at_def split: option.splits)
  have fr: "free_from k (free_data a b u)" "free_from k (pool_write a bs u)" if "free_from k u" for a b bs u
    using that by (simp_all add: free_from_def)
  have al: "free_from k (snd (alloc_data m s))" for m
    using assms alloc_data_frame(1) [of m s] by (metis free_from_def prod.collapse)
  show ?thesis using assms set fr al by (simp add: write_file_def Let_def case_prod_unfold)
qed

lemma create_node_count:
  assumes "vfs_wf s" "get_type p s = Some Dir" "NEXT_ID s < NEXT_ID s + 1" "create_node p nm vt s = (c, t)"
  shows "child_count p t \<le> Suc (child_count p s)"
proof -
  from assms(2) obtain pv where p: "vview s p = Some pv" "v_type pv = Dir" by (auto simp: get_view)
  show ?thesis
  proof (cases rule: create_node_cases [OF assms(1) p assms(3), of nm vt])
    case 1
    then have "vview t = vview s" using view_frame(1) [of t s] assms(4) by simp
    then show ?thesis by (simp add: get_view)
  next
    case (2 v pv')
    then have "vfs_wf t" "vview t p = Some pv'" using assms(4) by simp_all
    then show ?thesis using child_count_kids [of t p pv'] child_count_kids [OF assms(1) p(1)] 2(11) by simp
  qed
qed

lemma write_new_ok:
  assumes room: "roomy (Suc k) (length data + n) s" and dir: "get_type p s = Some Dir" and len: "length data \<le> MAX_FILE_SIZE"
    and nm: "nm \<noteq> []" "length nm \<le> MAX_NAME" "vfs_lookup p nm s = 0" and free: "child_count p s < MAX_CHILDREN" "free_from j s" "j < 64"
  shows "fst (write_new p nm data s) \<noteq> 0 \<and> free_from (Suc j) (snd (write_new p nm data s)) \<and>
    child_count p (snd (write_new p nm data s)) \<le> Suc (child_count p s)"
proof -
  have s: "vfs_wf s" "NEXT_ID s < NEXT_ID s + 1" using room roomy_next [OF room] by (simp_all add: roomy_def)
  obtain c s1 where cr: "create_node p nm File s = (c, s1)" by fastforce
  have "vfs_alloc_slot s \<noteq> None" using free_from_slot [OF free(2,3)] by auto
  then have c: "c \<noteq> 0" using create_node_effect(2) [OF s(1) dir s(2) cr] nm free(1) by blast
  then have w: "write_new p nm data s = (c, snd (write_file c data s1))"
    using nm(3) cr by (simp add: write_new_def create_file_def)
  have f1: "free_from (Suc j) s1" using free_from_create [OF free(2,3), of p nm File] cr by simp
  have r1: "roomy k (length data + n) s1" using create_roomy [OF room dir, of nm File] cr by simp
  obtain v where v: "vview s1 c = Some v" using create_node_effect(4) [OF s(1) dir s(2) cr c] by (auto simp: get_view)
  have "child_count p (snd (write_file c data s1)) = child_count p s1"
    using write_file_effect(11) [of s1 data c v] v r1 len by (simp add: roomy_def)
  then show ?thesis using w c free_from_write [OF f1] create_node_count [OF s(1) dir s(2) cr] by simp
qed

lemma sample_install: "roomy 3 1024 sample_fs" "install_defaults sample_fs = (True, snd (install_defaults sample_fs))"
    "vfs_lookup q nm sample_fs = 0"
proof -
  show room: "roomy 3 1024 sample_fs"
    using sample_pool sample_fs_facts by (simp add: roomy_def DATA_POOL_SIZE_def)
  have wf: "vfs_wf sample_fs" by (rule sample_fs_facts)
  show none: "vfs_lookup q nm sample_fs = 0" for q nm
    unfolding vfs_lookup_zero [OF wf] by (simp add: view_find_def sample_fs_def vview_reset)
  have ff: "free_from 1 sample_fs"
    by (simp add: free_from_def sample_pool(2)) (simp add: sample_fs_def nth_reset vnode_empty_def)
  obtain etc s1 where cr: "create_node ROOT_ID (str ''etc'') Dir sample_fs = (etc, s1)" by fastforce
  have nxt: "NEXT_ID sample_fs < NEXT_ID sample_fs + 1" by (simp add: sample_fs_facts)
  note E = create_node_effect [OF wf sample_fs_facts(2) nxt cr]
  have etc: "etc \<noteq> 0" using E(2) sample_fs_facts none by (simp add: vfs_consts)
  have r1: "roomy (Suc 1) (length default_passwd + 924) s1"
    using create_roomy [of 2 1024 sample_fs ROOT_ID "str ''etc''" Dir] room sample_fs_facts(2) cr
    by (simp add: length_default_passwd eval_nat_numeral)
  have f1: "free_from 2 s1" using free_from_create [OF ff, of ROOT_ID "str ''etc''" Dir] cr by (simp add: eval_nat_numeral)
  have e1: "get_type etc s1 = Some Dir" "child_count etc s1 = 0" using E(4) [OF etc] by simp_all
  have small: "length default_passwd \<le> MAX_FILE_SIZE" "length default_shadow \<le> MAX_FILE_SIZE"
    by (simp_all add: length_default_passwd default_shadow_props MAX_FILE_SIZE_def)
  have ne: "\<not> (etc = ROOT_ID)" using E(4) [OF etc] root_dir [OF E(1)] by (auto simp: ROOT_ID_def)
  obtain pid s2 where w2: "write_new etc (str ''passwd'') default_passwd s1 = (pid, s2)" by fastforce
  have o2: "pid \<noteq> 0" "free_from 3 s2" "child_count etc s2 \<le> 1"
    using write_new_ok [OF r1 e1(1) small(1), of "str ''passwd''" 2] e1(2) f1 E(3) [OF etc] none w2
    by (simp_all add: vfs_consts eval_nat_numeral)
  note W2 = write_new_effect [OF r1 e1(1) small(1) w2 o2(1)]
  have r2: "roomy (Suc 0) (length default_shadow + 578) s2" using W2 by (simp add: default_shadow_props)
  have "vview s1 etc \<noteq> None" using e1(1) by (auto simp: get_view)
  then have e2: "get_type etc s2 = Some Dir" using W2 e1(1) by simp
  have l2: "vfs_lookup etc (str ''shadow'') s2 = 0" using W2 E(3) [OF etc] none by simp
  obtain sid s3 where w3: "write_new etc (str ''shadow'') default_shadow s2 = (sid, s3)" by fastforce
  have "sid \<noteq> 0"
    using write_new_ok [OF r2 e2 small(2), of "str ''shadow''" 3] l2 o2 w3 by (simp add: vfs_consts)
  then have "fst (install_defaults sample_fs)"
    using none [of ROOT_ID "str ''etc''"] cr etc o2(1) w2 w3
    by (simp add: install_defaults_def create_dir_def Let_def default_shadow_def [symmetric])
  then show "install_defaults sample_fs = (True, snd (install_defaults sample_fs))" by (simp add: prod_eq_iff)
qed

text \<open>C36.  On a freshly set up file system with room for the account files, the password check accepts
  a password for an account exactly when it derives the same hash as the default password of that
  account, and it rejects unknown accounts: what the installer writes through the file system is
  what the check reads back and parses.\<close>

theorem install_login:
  assumes "roomy 3 1024 s" "vfs_lookup ROOT_ID (str ''etc'') s = 0" "install_defaults s = (True, t)"
  shows "verify_password nm pw t \<longleftrightarrow>
    (\<exists>pw0. map_of default_accounts nm = Some pw0 \<and>
       derive pw (account_salt nm) HASH_ROUNDS = derive pw0 (account_salt nm) HASH_ROUNDS)"
proof (rule install_effect [OF assms])
  fix etc sid pid
  assume I: "etc \<noteq> 0" "sid \<noteq> 0" "vfs_lookup ROOT_ID (str ''etc'') t = etc" "vfs_lookup etc (str ''shadow'') t = sid"
    "read_file sid 1024 t = default_shadow"
  have "resolve (str ''/etc/'' @ str ''shadow'') t = sid"
    using I by (intro resolve_etc [of t etc]) (simp_all add: dot_def dotdot_def slash_def)
  then have "resolve (str ''/etc/shadow'') t = sid" by simp
  then have "verify_password nm pw t = verify_lines (split_on 10 default_shadow) nm pw"
    using I by (simp add: verify_password_def Let_def default_shadow_props)
  also have "\<dots> \<longleftrightarrow> (\<exists>pw0. map_of default_accounts nm = Some pw0 \<and>
      derive pw (account_salt nm) HASH_ROUNDS = derive pw0 (account_salt nm) HASH_ROUNDS)"
    unfolding default_shadow_def by (rule verify_shadow_file) (simp add: default_accounts_def)
  finally show ?thesis .
qed

text \<open>C37.  The file of password hashes is kept from ordinary users: whatever the account table and the
  current user are afterwards, a user other than root may neither read, write nor execute it.\<close>

theorem shadow_protected:
  assumes "roomy 3 1024 s" "vfs_lookup ROOT_ID (str ''etc'') s = 0" "install_defaults s = (True, t)"
    and "t' = t\<lparr>USERS := us, USER_COUNT := k, CURRENT_UID := u\<rparr>" "u \<noteq> UID_ROOT"
  shows "resolve (str ''/etc/shadow'') t' \<noteq> 0 \<and>
    \<not> allowed (resolve (str ''/etc/shadow'') t') perm_R t' \<and>
    \<not> allowed (resolve (str ''/etc/shadow'') t') perm_W t' \<and>
    \<not> allowed (resolve (str ''/etc/shadow'') t') perm_X t'"
proof (rule install_effect [OF assms(1-3)])
  fix etc sid pid
  assume I: "etc \<noteq> 0" "sid \<noteq> 0" "vfs_lookup ROOT_ID (str ''etc'') t = etc" "vfs_lookup etc (str ''shadow'') t = sid"
    "get_perm sid t = Some \<lparr>p_uid = UID_ROOT, p_gid = GID_ROOT, p_mode = MODE_SECRET\<rparr>" "vfs_wf t"
  have vv: "vview t' = vview t" using view_frame [of t' t] assms(4) by simp
  have "vfs_lookup q nm t' = vfs_lookup q nm t" for q nm
    using vfs_lookup_view [of t "NEXT_ID t" q nm] vfs_lookup_view [of t' "NEXT_ID t" q nm] I(6) vv by (simp add: vfs_wf_def)
  then have "resolve (str ''/etc/'' @ str ''shadow'') t' = sid"
    using I by (intro resolve_etc [of t' etc]) (simp_all add: dot_def dotdot_def slash_def)
  then have r: "resolve (str ''/etc/shadow'') t' = sid" by simp
  have p: "get_perm sid t' = Some \<lparr>p_uid = UID_ROOT, p_gid = GID_ROOT, p_mode = MODE_SECRET\<rparr>"
    using I(5) by (simp add: get_perm_view vv)
  have "\<not> allowed sid want t'" if "want \<in> {perm_R, perm_W, perm_X}" for want
    using that p assms(4,5)
    by (auto simp: allowed_def is_root_def class_bits_def current_ids_def Let_def MODE_SECRET_def perm_R_def perm_W_def perm_X_def)
  then show ?thesis using r I(2) by simp
qed

theorem install_login_witness:
  "verify_password (str ''guest'') (str ''guest'') (snd (install_defaults sample_fs)) \<and>
   \<not> verify_password (str ''nobody'') (str ''guest'') (snd (install_defaults sample_fs))"
  using install_login [OF sample_install(1) sample_install(3) sample_install(2), of "str ''guest''" "str ''guest''"]
    install_login [OF sample_install(1) sample_install(3) sample_install(2), of "str ''nobody''" "str ''guest''"]
  by (simp add: default_accounts_def)

theorem shadow_protected_witness:
  "\<not> allowed (resolve (str ''/etc/shadow'') ((snd (install_defaults sample_fs))\<lparr>USERS := [], USER_COUNT := 0, CURRENT_UID := 1000\<rparr>))
     perm_R ((snd (install_defaults sample_fs))\<lparr>USERS := [], USER_COUNT := 0, CURRENT_UID := 1000\<rparr>)"
  using shadow_protected [OF sample_install(1) sample_install(3) sample_install(2) refl, where us = "[]" and k = 0 and u = 1000]
  by (simp add: UID_ROOT_def)

section \<open>Modes and open files\<close>

lemma mode_bits:
  fixes m :: u16
  assumes "k < 3" "g < 3"
  shows "(drop_bit (6 - g * 3) m AND 7) AND drop_bit k 4 \<noteq> 0 \<longleftrightarrow>
    (drop_bit (6 - g * 3) m AND 7) AND drop_bit k 4 = drop_bit k 4"
proof -
  have one: "w AND 2 ^ n \<noteq> 0 \<longleftrightarrow> w AND 2 ^ n = 2 ^ n" if "n < 16" for w :: u16 and n
  proof (cases "bit w n")
    case True
    then have "w AND 2 ^ n = 2 ^ n" by (intro bit_word_eqI) (auto simp: bit_simps)
    with that show ?thesis by simp
  next
    case False
    then have "w AND 2 ^ n = 0" by (simp add: and_exp_eq_0_iff_not_bit)
    with that show ?thesis by simp
  qed
  from assms(1) consider "k = 0" | "k = 1" | "k = 2" by linarith
  then show ?thesis using one [of 2] one [of 1] one [of 0] by cases simp_all
qed

text \<open>The mode string shown to the user and the permission check agree: for a user other than root,
  the letter in the column of that user's class and of the requested right is shown exactly when the
  check allows that right.\<close>

theorem format_mode_allowed:
  assumes "\<not> is_root s" "get_perm vid s = Some p" "current_ids s = (uid, gid)" "k < 3"
    and "g = (if uid = p_uid p then 0 else if gid = p_gid p then 1 else 2)"
  shows "format_mode vt (p_mode p) ! (1 + 3 * g + k) \<noteq> 45 \<longleftrightarrow> allowed vid (drop_bit k perm_R) s"
proof -
  have g: "g < 3" using assms(5) by simp
  have bits: "class_bits p uid gid = drop_bit (6 - g * 3) (p_mode p) AND 7"
    by (simp add: class_bits_def assms(5))
  let ?row = "\<lambda>g. map (\<lambda>k. if (drop_bit (6 - g * 3) (p_mode p) AND 7) AND drop_bit k 4 \<noteq> 0 then str ''rwx'' ! k else 45) [0..<3]"
  from assms(4) consider "k = 0" | "k = 1" | "k = 2" by linarith
  note k = this
  from g consider "g = 0" | "g = 1" | "g = 2" by linarith
  note g3 = this
  have c: "str ''rwx'' ! k \<noteq> 45" using k by cases simp_all
  have "format_mode vt (p_mode p) ! (1 + 3 * g + k) = ?row g ! k"
    by (rule k; rule g3; cases vt; simp add: format_mode_def Let_def upt_conv_Cons)
  also have "\<dots> = (if (drop_bit (6 - g * 3) (p_mode p) AND 7) AND drop_bit k 4 \<noteq> 0 then str ''rwx'' ! k else 45)"
    using assms(4) by simp
  finally have "format_mode vt (p_mode p) ! (1 + 3 * g + k) \<noteq> 45 \<longleftrightarrow> class_bits p uid gid AND drop_bit k 4 = drop_bit k 4"
    using c mode_bits [OF assms(4) g] by (simp add: bits)
  then show ?thesis using assms(1-3) by (simp add: allowed_def perm_R_def)
qed

lemma sample_other:
  "get_perm ROOT_ID (sample_fs\<lparr>CURRENT_UID := 7\<rparr>) = Some \<lparr>p_uid = 0, p_gid = 0, p_mode = MODE_DIR\<rparr>"
  "current_ids (sample_fs\<lparr>CURRENT_UID := 7\<rparr>) = (7, 0)" "\<not> is_root (sample_fs\<lparr>CURRENT_UID := 7\<rparr>)"
proof -
  have "vview (sample_fs\<lparr>CURRENT_UID := 7\<rparr>) = vview sample_fs" by (rule view_frame) simp
  then show "get_perm ROOT_ID (sample_fs\<lparr>CURRENT_UID := 7\<rparr>) = Some \<lparr>p_uid = 0, p_gid = 0, p_mode = MODE_DIR\<rparr>"
    by (simp add: get_perm_view sample_fs_def vview_reset root_vnode_def UID_ROOT_def GID_ROOT_def)
  show "current_ids (sample_fs\<lparr>CURRENT_UID := 7\<rparr>) = (7, 0)" "\<not> is_root (sample_fs\<lparr>CURRENT_UID := 7\<rparr>)"
    by (simp_all add: current_ids_def Let_def user_by_uid_def sample_fs_def vfs_reset_eq first_from_end GID_ROOT_def
        is_root_def UID_ROOT_def)
qed

theorem format_mode_allowed_witness:
  "format_mode Dir MODE_DIR ! 5 \<noteq> 45 \<longleftrightarrow> allowed ROOT_ID (drop_bit 1 perm_R) (sample_fs\<lparr>CURRENT_UID := 7\<rparr>)"
  using format_mode_allowed [OF sample_other(3,1,2), of 1 1 Dir] by (simp add: MODE_DIR_def)

lemma read_file_handles: "read_file j n (s\<lparr>HANDLES := hs\<rparr>) = read_file j n s"
  by (rule read_file_frame) simp_all

text \<open>A descriptor returned by open reads the file the path names in the root directory, always from
  its beginning: a second read returns the same bytes as the first, although the handle's offset is
  advanced by each of them.\<close>

theorem file_read_restarts:
  assumes "length (HANDLES s) = MAX_HANDLES" "file_open path s = (fd, t)" "0 \<le> fd"
  shows "fst (file_read fd n t) = read_file (vfs_lookup ROOT_ID (if take 1 path = str ''/'' then drop 1 path else path) s) n s \<and>
    fst (file_read fd n (snd (file_read fd m t))) = fst (file_read fd n t)"
proof -
  let ?v = "vfs_lookup ROOT_ID (if take 1 path = str ''/'' then drop 1 path else path) s"
  obtain i where i: "first_from (\<lambda>i. \<not> h_in_use (HANDLES s ! i)) 0 MAX_HANDLES = Some i"
    and t: "fd = int i" "t = s\<lparr>HANDLES := (HANDLES s)[i := \<lparr>h_vnode_id = ?v, h_offset = 0, h_in_use = True\<rparr>]\<rparr>"
    using assms(2,3) by (auto simp: file_open_def Let_def split: if_splits option.splits)
  have lt: "i < 16" using first_from_SomeD [OF i] by (simp add: MAX_HANDLES_def)
  then have idx: "fd_index fd = i" by (simp add: t(1) fd_index_def)
  have h: "HANDLES t ! i = \<lparr>h_vnode_id = ?v, h_offset = 0, h_in_use = True\<rparr>" "length (HANDLES t) = 16"
    using lt assms(1) by (simp_all add: t(2) MAX_HANDLES_def)
  have r: "read_file ?v k t = read_file ?v k s" for k unfolding t(2) by (rule read_file_handles)
  then show ?thesis using h lt
    by (simp add: file_read_def Let_def idx MAX_HANDLES_def read_file_handles)
qed

lemma sample_open:
  "file_open [97] (sample_fs2\<lparr>HANDLES := replicate 16 \<lparr>h_vnode_id = 0, h_offset = 0, h_in_use = False\<rparr>\<rparr>) =
     (0, sample_fs2\<lparr>HANDLES := (replicate 16 \<lparr>h_vnode_id = 0, h_offset = 0, h_in_use = False\<rparr>)
        [0 := \<lparr>h_vnode_id = vfs_lookup ROOT_ID [97] sample_fs2, h_offset = 0, h_in_use = True\<rparr>]\<rparr>)"
proof -
  let ?hs = "replicate 16 \<lparr>h_vnode_id = 0, h_offset = 0, h_in_use = False\<rparr>"
  have "vview (sample_fs2\<lparr>HANDLES := ?hs\<rparr>) = vview sample_fs2" by (rule view_frame) simp
  then have l: "vfs_lookup ROOT_ID [97] (sample_fs2\<lparr>HANDLES := ?hs\<rparr>) = vfs_lookup ROOT_ID [97] sample_fs2"
    using sample_fs2_facts(1) vfs_lookup_view [of sample_fs2 "NEXT_ID sample_fs2"]
      vfs_lookup_view [of "sample_fs2\<lparr>HANDLES := ?hs\<rparr>" "NEXT_ID sample_fs2"] by (simp add: vfs_wf_def)
  have "first_from (\<lambda>i. \<not> h_in_use (?hs ! i)) 0 MAX_HANDLES = Some 0"
    by (simp add: first_from_hit MAX_HANDLES_def)
  then show ?thesis using l sample_fs2_facts(2) by (simp add: file_open_def Let_def)
qed

theorem file_read_restarts_witness:
  "let s = sample_fs2\<lparr>HANDLES := replicate 16 \<lparr>h_vnode_id = 0, h_offset = 0, h_in_use = False\<rparr>\<rparr>;
       t = snd (file_open [97] s)
   in fst (file_read 0 4 (snd (file_read 0 4 t))) = fst (file_read 0 4 t)"
  using file_read_restarts [OF _ sample_open, of 4 4] by (simp add: sample_open Let_def MAX_HANDLES_def)

end
