(* ===== verification/Sha512.thy ===== *)
theory Sha512
  imports Hash_Stream
begin

text \<open>
  SHA-512 and SHA-384, \<open>kernel/src/crypto/sha512.rs\<close>: the hashes certificate chains are signed with
  besides SHA-256.  Both share the compression function and the streaming state; the second starts from
  another chaining value and cuts its output.  The reference is, as for SHA-256, the one-shot definition
  of the standard, and the streaming state is a second instance of the interface \<open>stream_hash\<close>.
\<close>

section \<open>The code\<close>

definition K512 :: "u64 list" where
  "K512 = concat
     [[0x428a2f98d728ae22, 0x7137449123ef65cd, 0xb5c0fbcfec4d3b2f],
      [0xe9b5dba58189dbbc, 0x3956c25bf348b538, 0x59f111f1b605d019],
      [0x923f82a4af194f9b, 0xab1c5ed5da6d8118, 0xd807aa98a3030242],
      [0x12835b0145706fbe, 0x243185be4ee4b28c, 0x550c7dc3d5ffb4e2],
      [0x72be5d74f27b896f, 0x80deb1fe3b1696b1, 0x9bdc06a725c71235],
      [0xc19bf174cf692694, 0xe49b69c19ef14ad2, 0xefbe4786384f25e3],
      [0x0fc19dc68b8cd5b5, 0x240ca1cc77ac9c65, 0x2de92c6f592b0275],
      [0x4a7484aa6ea6e483, 0x5cb0a9dcbd41fbd4, 0x76f988da831153b5],
      [0x983e5152ee66dfab, 0xa831c66d2db43210, 0xb00327c898fb213f],
      [0xbf597fc7beef0ee4, 0xc6e00bf33da88fc2, 0xd5a79147930aa725],
      [0x06ca6351e003826f, 0x142929670a0e6e70, 0x27b70a8546d22ffc],
      [0x2e1b21385c26c926, 0x4d2c6dfc5ac42aed, 0x53380d139d95b3df],
      [0x650a73548baf63de, 0x766a0abb3c77b2a8, 0x81c2c92e47edaee6],
      [0x92722c851482353b, 0xa2bfe8a14cf10364, 0xa81a664bbc423001],
      [0xc24b8b70d0f89791, 0xc76c51a30654be30, 0xd192e819d6ef5218],
      [0xd69906245565a910, 0xf40e35855771202a, 0x106aa07032bbd1b8],
      [0x19a4c116b8d2d0c8, 0x1e376c085141ab53, 0x2748774cdf8eeb99],
      [0x34b0bcb5e19b48a8, 0x391c0cb3c5c95a63, 0x4ed8aa4ae3418acb],
      [0x5b9cca4f7763e373, 0x682e6ff3d6b2b8a3, 0x748f82ee5defb2fc],
      [0x78a5636f43172f60, 0x84c87814a1f0ab72, 0x8cc702081a6439ec],
      [0x90befffa23631e28, 0xa4506cebde82bde9, 0xbef9a3f7b2c67915],
      [0xc67178f2e372532b, 0xca273eceea26619c, 0xd186b8c721c0c207],
      [0xeada7dd6cde0eb1e, 0xf57d4f7fee6ed178, 0x06f067aa72176fba],
      [0x0a637dc5a2c898a6, 0x113f9804bef90dae, 0x1b710b35131c471b],
      [0x28db77f523047d84, 0x32caab7b40c72493, 0x3c9ebe0a15c9bebc],
      [0x431d67c49c100d4c, 0x4cc5d4becb3e42b6, 0x597f299cfc657e2a],
      [0x5fcb6fab3ad6faec, 0x6c44198c4a475817]]"

definition H512 :: "u64 list" where
  "H512 =
     [0x6a09e667f3bcc908, 0xbb67ae8584caa73b, 0x3c6ef372fe94f82b, 0xa54ff53a5f1d36f1,
      0x510e527fade682d1, 0x9b05688c2b3e6c1f, 0x1f83d9abfb41bd6b, 0x5be0cd19137e2179]"

definition H384 :: "u64 list" where
  "H384 =
     [0xcbbb9d5dc1059ed8, 0x629a292a367cd507, 0x9159015a3070dd17, 0x152fecd8f70e5939,
      0x67332667ffc00b31, 0x8eb44a8768581511, 0xdb0c2e0d64f98fa7, 0x47b5481dbefa4fa4]"

record sha512 =
  t_h :: "u64 list"
  t_buf :: bytes
  t_buf_len :: nat
  t_total :: "128 word"
  t_truncate :: bool

definition new512 :: sha512 where
  "new512 = \<lparr>t_h = H512, t_buf = replicate 128 0, t_buf_len = 0, t_total = 0, t_truncate = False\<rparr>"

definition new384 :: sha512 where
  "new384 = \<lparr>t_h = H384, t_buf = replicate 128 0, t_buf_len = 0, t_total = 0, t_truncate = True\<rparr>"

definition from_be64 :: "bytes \<Rightarrow> u64" where
  "from_be64 bs = from_le64 (rev bs)"

definition to_be128 :: "128 word \<Rightarrow> bytes" where
  "to_be128 w = to_be64 (ucast (drop_bit 64 w)) @ to_be64 (ucast w)"

text \<open>The two loops that fill the message schedule, and one round of the main loop.\<close>

definition schedule512 :: "bytes \<Rightarrow> u64 list" where
  "schedule512 block =
     fold (\<lambda>i w.
         let s0 = rotate_right 1 (w ! (i - 15)) XOR rotate_right 8 (w ! (i - 15)) XOR drop_bit 7 (w ! (i - 15));
             s1 = rotate_right 19 (w ! (i - 2)) XOR rotate_right 61 (w ! (i - 2)) XOR drop_bit 6 (w ! (i - 2))
         in w[i := w ! (i - 16) + s0 + w ! (i - 7) + s1])
       [16..<80]
       (fold (\<lambda>i w. w[i := from_be64 (bslice (i * 8) 8 block)]) [0..<16] (replicate 80 0))"

type_synonym vars512 = "u64 \<times> u64 \<times> u64 \<times> u64 \<times> u64 \<times> u64 \<times> u64 \<times> u64"

definition round512 :: "u64 list \<Rightarrow> nat \<Rightarrow> vars512 \<Rightarrow> vars512" where
  "round512 w i v =
     (let (a, b, c, d, e, f, g, h) = v;
          s1 = rotate_right 14 e XOR rotate_right 18 e XOR rotate_right 41 e;
          ch = (e AND f) XOR (NOT e AND g);
          t1 = h + s1 + ch + K512 ! i + w ! i;
          s0 = rotate_right 28 a XOR rotate_right 34 a XOR rotate_right 39 a;
          maj = (a AND b) XOR (a AND c) XOR (b AND c);
          t2 = s0 + maj
      in (t1 + t2, a, b, c, d + t1, e, f, g))"

definition compress512 :: "u64 list \<Rightarrow> bytes \<Rightarrow> u64 list" where
  "compress512 hs block =
     (let w = schedule512 block;
          (a, b, c, d, e, f, g, h) =
            fold (round512 w) [0..<80] (hs ! 0, hs ! 1, hs ! 2, hs ! 3, hs ! 4, hs ! 5, hs ! 6, hs ! 7)
      in [hs ! 0 + a, hs ! 1 + b, hs ! 2 + c, hs ! 3 + d, hs ! 4 + e, hs ! 5 + f, hs ! 6 + g, hs ! 7 + h])"

text \<open>The loop over whole blocks of the input: the remaining input and the state.\<close>

function update_blocks512 :: "bytes \<Rightarrow> sha512 \<Rightarrow> bytes \<times> sha512" where
  "update_blocks512 data s =
     (if length data \<ge> 128
      then update_blocks512 (drop 128 data) (s\<lparr>t_h := compress512 (t_h s) (take 128 data)\<rparr>)
      else (data, s))"
  by pat_completeness auto
termination
  by (relation "measure (\<lambda>(data, s). length data)") auto

declare update_blocks512.simps [simp del]

definition sha512_update :: "bytes \<Rightarrow> sha512 \<Rightarrow> sha512" where
  "sha512_update data s =
     (let s = s\<lparr>t_total := t_total s + of_nat (length data)\<rparr>;
          (data, s) =
            (if t_buf_len s > 0 then
               let need = 128 - t_buf_len s;
                   tk = min (length data) need;
                   s = s\<lparr>t_buf := put_at (t_buf_len s) (take tk data) (t_buf s), t_buf_len := t_buf_len s + tk\<rparr>;
                   data = drop tk data
               in if t_buf_len s = 128
                  then (data, s\<lparr>t_h := compress512 (t_h s) (t_buf s), t_buf_len := 0\<rparr>)
                  else (data, s)
             else (data, s));
          (data, s) = update_blocks512 data s
      in if data \<noteq> [] then s\<lparr>t_buf := put_at 0 data (t_buf s), t_buf_len := length data\<rparr> else s)"

fun update_no_len512 :: "bytes \<Rightarrow> sha512 \<Rightarrow> sha512" where
  "update_no_len512 [] s = s"
| "update_no_len512 (b # bs) s =
     (let s = s\<lparr>t_buf := (t_buf s)[t_buf_len s := b], t_buf_len := t_buf_len s + 1\<rparr> in
      update_no_len512 bs
        (if t_buf_len s = 128 then s\<lparr>t_h := compress512 (t_h s) (t_buf s), t_buf_len := 0\<rparr> else s))"

definition finish_bytes :: "sha512 \<Rightarrow> bytes \<Rightarrow> bytes" where
  "finish_bytes s out =
     (let bit_len = t_total s * 8;
          pad = (replicate 144 0)[0 := 0x80];
          pad_len = (if t_buf_len s < 112 then 112 - t_buf_len s else 240 - t_buf_len s);
          pad = put_at pad_len (to_be128 bit_len) pad;
          s = update_no_len512 (take (pad_len + 16) pad) s
      in fold (\<lambda>(j, b) out. if j < length out then out[j := b] else out)
           (enumerate 0 (concat (map to_be64 (t_h s)))) out)"

definition finish512 :: "sha512 \<Rightarrow> bytes" where
  "finish512 s = finish_bytes s (replicate 64 0)"

definition finish384 :: "sha512 \<Rightarrow> bytes" where
  "finish384 s = take 48 (finish_bytes s (replicate 64 0))"

definition hash512 :: "bytes \<Rightarrow> bytes" where
  "hash512 data = finish512 (sha512_update data new512)"

definition hash384 :: "bytes \<Rightarrow> bytes" where
  "hash384 data = finish384 (sha512_update data new384)"

section \<open>The reference\<close>

definition sha512_pad :: "bytes \<Rightarrow> bytes" where
  "sha512_pad msg =
     msg @ [0x80] @ replicate ((239 - length msg mod 128) mod 128) 0 @ to_be128 (of_nat (8 * length msg))"

definition sha512_core :: "u64 list \<Rightarrow> bytes \<Rightarrow> bytes" where
  "sha512_core iv msg = concat (map to_be64 (fst (absorb 128 compress512 iv (sha512_pad msg))))"

definition sha512_spec :: "bytes \<Rightarrow> bytes" where
  "sha512_spec msg = sha512_core H512 msg"

definition sha384_spec :: "bytes \<Rightarrow> bytes" where
  "sha384_spec msg = take 48 (sha512_core H384 msg)"

section \<open>The streaming state\<close>

definition sha512_ok :: "sha512 \<Rightarrow> bool" where
  "sha512_ok s \<longleftrightarrow> length (t_buf s) = 128 \<and> t_buf_len s < 128"

definition sha512_view :: "sha512 \<Rightarrow> (u64 list \<times> bytes) \<times> 128 word" where
  "sha512_view s = ((t_h s, take (t_buf_len s) (t_buf s)), t_total s)"

lemma update_blocks512_absorb:
  "update_blocks512 data s =
     (snd (absorb 128 compress512 (t_h s) data), s\<lparr>t_h := fst (absorb 128 compress512 (t_h s) data)\<rparr>)"
proof (induction data s rule: update_blocks512.induct)
  case (1 data s)
  then show ?case by (subst update_blocks512.simps) (simp add: absorb.simps [of 128 compress512 "t_h s" data])
qed

text \<open>The last two steps of \<open>update\<close>, from a state with an empty partial block.\<close>

definition update_rest512 :: "bytes \<Rightarrow> sha512 \<Rightarrow> sha512" where
  "update_rest512 data s =
     (let (data, s) = update_blocks512 data s
      in if data \<noteq> [] then s\<lparr>t_buf := put_at 0 data (t_buf s), t_buf_len := length data\<rparr> else s)"

lemma update_rest512_view:
  assumes "length (t_buf s) = 128" "t_buf_len s = 0"
  shows "sha512_ok (update_rest512 data s)" "sha512_view (update_rest512 data s) = (absorb 128 compress512 (t_h s) data, t_total s)"
proof -
  let ?r = "snd (absorb 128 compress512 (t_h s) data)"
  have "length ?r < 128" by (rule absorb_tail) simp
  then have "length (put_at 0 ?r (t_buf s)) = 128" "take (length ?r) (put_at 0 ?r (t_buf s)) = ?r"
    using assms by (simp, simp add: put_at_def)
  with assms \<open>length ?r < 128\<close>
  show "sha512_ok (update_rest512 data s)" "sha512_view (update_rest512 data s) = (absorb 128 compress512 (t_h s) data, t_total s)"
    by (simp_all add: update_rest512_def update_blocks512_absorb sha512_ok_def sha512_view_def Let_def prod_eq_iff)
qed

lemma sha512_update_cases:
  assumes "t_buf_len s < 128"
  shows "sha512_update d s =
     (let n = t_buf_len s; s' = s\<lparr>t_total := t_total s + of_nat (length d)\<rparr> in
      if n = 0 then update_rest512 d s'
      else if length d < 128 - n then s'\<lparr>t_buf := put_at n d (t_buf s), t_buf_len := n + length d\<rparr>
      else
        let b = put_at n (take (128 - n) d) (t_buf s) in
        update_rest512 (drop (128 - n) d) (s'\<lparr>t_buf := b, t_h := compress512 (t_h s) b, t_buf_len := 0\<rparr>))"
proof (cases "t_buf_len s > 0 \<and> length d < 128 - t_buf_len s")
  case True
  then show ?thesis
    by (auto simp: sha512_update_def Let_def update_blocks512_absorb absorb_short)
next
  case False
  then show ?thesis using assms
    by (auto simp: sha512_update_def update_rest512_def Let_def case_prod_unfold intro!: sha512.equality)
qed

lemma sha512_update_view:
  assumes "sha512_ok s"
  shows "sha512_ok (sha512_update d s) \<and>
    sha512_view (sha512_update d s) =
      (absorb 128 compress512 (t_h s) (take (t_buf_len s) (t_buf s) @ d), t_total s + of_nat (length d))"
proof -
  let ?n = "t_buf_len s"
  have n: "?n < 128" "length (t_buf s) = 128" using assms by (simp_all add: sha512_ok_def)
  consider (empty) "?n = 0" | (part) "0 < ?n" "length d < 128 - ?n" | (full) "0 < ?n" "128 - ?n \<le> length d"
    by linarith
  then show ?thesis
  proof cases
    case empty
    let ?s' = "s\<lparr>t_total := t_total s + of_nat (length d)\<rparr>"
    show ?thesis using update_rest512_view [of ?s' d] n empty by (simp add: sha512_update_cases [OF n(1)] Let_def)
  next
    case part
    then show ?thesis using n take_put_at [of ?n "t_buf s" d]
      by (simp add: sha512_update_cases [OF n(1)] Let_def sha512_ok_def sha512_view_def absorb_short)
  next
    case full
    let ?b = "put_at ?n (take (128 - ?n) d) (t_buf s)"
    let ?s' = "s\<lparr>t_total := t_total s + of_nat (length d), t_buf := ?b, t_h := compress512 (t_h s) ?b, t_buf_len := 0\<rparr>"
    have b: "length ?b = 128" using full n by simp
    have "take 128 ?b = take ?n (t_buf s) @ take (128 - ?n) d"
      using take_put_at [of ?n "t_buf s" "take (128 - ?n) d"] full n by simp
    then have b': "?b = take ?n (t_buf s) @ take (128 - ?n) d" using b by simp
    have "take ?n (t_buf s) @ d = ?b @ drop (128 - ?n) d" unfolding b' by simp
    then have "absorb 128 compress512 (t_h s) (take ?n (t_buf s) @ d) =
        absorb 128 compress512 (compress512 (t_h s) ?b) (drop (128 - ?n) d)"
      using absorb_block [of 128 ?b] b by simp
    then show ?thesis using update_rest512_view [of ?s' "drop (128 - ?n) d"] b full n
      by (simp add: sha512_update_cases [OF n(1)] Let_def)
  qed
qed

interpretation sha512_stream: stream_hash 128 compress512 "of_nat :: nat \<Rightarrow> 128 word" sha512_ok sha512_view sha512_update
proof unfold_locales
  show "length (snd (fst (sha512_view s))) < 128" if "sha512_ok s" for s
    using that by (simp add: sha512_ok_def sha512_view_def)
  show "sha512_ok (sha512_update d s)" if "sha512_ok s" for d s
    using sha512_update_view [OF that] by simp
  show "sha512_view (sha512_update d s) = (absorb 128 compress512 (fst (fst (sha512_view s)))
      (snd (fst (sha512_view s)) @ d), snd (sha512_view s) + of_nat (length d))" if "sha512_ok s" for d s
    using sha512_update_view [OF that, of d] by (simp add: sha512_view_def)
qed simp_all


section \<open>Finishing\<close>

lemma update_no_len512_view:
  assumes "sha512_ok s"
  shows "sha512_ok (update_no_len512 bs s) \<and>
    sha512_view (update_no_len512 bs s) = (absorb 128 compress512 (t_h s) (take (t_buf_len s) (t_buf s) @ bs), t_total s)"
  using assms
proof (induction bs arbitrary: s)
  case Nil
  then show ?case by (simp add: sha512_ok_def sha512_view_def absorb_short)
next
  case (Cons b bs)
  let ?n = "t_buf_len s" and ?b = "(t_buf s)[t_buf_len s := b]"
  let ?s1 = "s\<lparr>t_buf := ?b, t_buf_len := ?n + 1\<rparr>"
  let ?s2 = "if ?n + 1 = 128 then ?s1\<lparr>t_h := compress512 (t_h s) ?b, t_buf_len := 0\<rparr> else ?s1"
  have n: "?n < 128" "length (t_buf s) = 128" using Cons.prems by (simp_all add: sha512_ok_def)
  then have tk: "take (?n + 1) ?b = take ?n (t_buf s) @ [b]" by (simp add: take_Suc_conv_app_nth)
  have ok: "sha512_ok ?s2" using n by (simp add: sha512_ok_def)
  have step: "update_no_len512 (b # bs) s = update_no_len512 bs ?s2" by (simp add: Let_def)
  have IH: "sha512_ok (update_no_len512 bs ?s2) \<and> sha512_view (update_no_len512 bs ?s2) =
      (absorb 128 compress512 (t_h ?s2) (take (t_buf_len ?s2) (t_buf ?s2) @ bs), t_total ?s2)"
    by (rule Cons.IH [OF ok])
  show ?case
  proof (cases "?n + 1 = 128")
    case True
    then have b: "?b = take ?n (t_buf s) @ [b]" using tk n by simp
    have "absorb 128 compress512 (t_h s) (take ?n (t_buf s) @ b # bs) = absorb 128 compress512 (compress512 (t_h s) ?b) bs"
      using absorb_block [of 128 "take ?n (t_buf s) @ [b]" compress512 "t_h s" bs] n True unfolding b by simp
    with IH True show ?thesis unfolding step by simp
  next
    case False
    with IH tk show ?thesis unfolding step by simp
  qed
qed

lemma length_be128 [simp]: "length (to_be128 w) = 16"
  by (simp add: to_be128_def)

lemma pad_bytes512:
  assumes "0 < m" "m \<le> 128"
  shows "take (m + 16) (put_at m (to_be128 v) ((replicate 144 0)[0 := 0x80])) = [0x80] @ replicate (m - 1) 0 @ to_be128 v"
proof -
  have "take (m + 16) (put_at m (to_be128 v) ((replicate 144 0)[0 := 0x80])) = take m ((replicate 144 0)[0 := 0x80]) @ to_be128 v"
    using take_put_at [of m "(replicate 144 0)[0 := 0x80]" "to_be128 v"] assms by simp
  moreover have "take m ((replicate 144 0)[0 := 0x80]) = (0x80::u8) # replicate (m - 1) 0"
    using assms by (intro nth_equalityI) (auto simp: nth_list_update nth_Cons')
  ultimately show ?thesis by simp
qed

lemma pad_count512: "n < 128 \<Longrightarrow> (239 - n) mod 128 = (if n < 112 then 111 - n else 239 - n)" for n :: nat
proof (cases "n < 112")
  case True
  then have e: "239 - n = 128 + (111 - n)" by simp
  have "(128 + (111 - n)) mod 128 = (111 - n) mod 128" by (rule mod_add_self1)
  with True show ?thesis unfolding e by simp
qed simp

lemma store_all:
  "i + length xs \<le> length out \<Longrightarrow>
     fold (\<lambda>(j, b) out. if j < length out then out[j := b] else out) (enumerate i xs) out = put_at i xs out"
proof (induction xs arbitrary: i out)
  case Nil
  then show ?case by (simp add: put_at_def)
next
  case (Cons x xs)
  then show ?case by (simp add: put_at_def take_Suc_conv_app_nth)
qed

lemma absorb_length512: "length h = 8 \<Longrightarrow> length (fst (absorb 128 compress512 h xs)) = 8"
proof (induction "128 :: nat" compress512 h xs rule: absorb.induct)
  case (1 h xs)
  have "length (compress512 h (take 128 xs)) = 8" by (simp add: compress512_def Let_def case_prod_unfold)
  with 1 show ?case by (subst absorb.simps) simp
qed

lemma length_concat_be64 [simp]: "length (concat (map to_be64 ws)) = 8 * length ws"
  by (induction ws) simp_all

lemma finish_bytes_spec:
  assumes ok: "sha512_ok s" and v: "sha512_view s = (absorb 128 compress512 iv msg, of_nat (length msg))" and iv: "length iv = 8"
  shows "finish_bytes s (replicate 64 0) = sha512_core iv msg"
proof -
  let ?n = "t_buf_len s" and ?r = "take (t_buf_len s) (t_buf s)"
  let ?m = "if ?n < 112 then 112 - ?n else 240 - ?n"
  let ?pad = "[0x80] @ replicate (?m - 1) 0 @ to_be128 (t_total s * 8)"
  have n: "?n < 128" "length (t_buf s) = 128" using ok by (simp_all add: sha512_ok_def)
  have st: "t_h s = fst (absorb 128 compress512 iv msg)" "?r = snd (absorb 128 compress512 iv msg)"
    "t_total s = of_nat (length msg)" using v by (simp_all add: sha512_view_def prod_eq_iff)
  have "length ?r = length msg mod 128" using absorb_tail_length [of 128 compress512 iv msg] st(2) by simp
  then have nm: "?n = length msg mod 128" using n by simp
  have "?m - 1 = (239 - ?n) mod 128" using pad_count512 [OF n(1)] by simp
  then have pad: "msg @ ?pad = sha512_pad msg" by (simp add: sha512_pad_def st(3) nm mult.commute)
  have "t_h (update_no_len512 ?pad s) = fst (absorb 128 compress512 (t_h s) (?r @ ?pad))"
    using update_no_len512_view [OF ok, of ?pad] by (simp add: sha512_view_def prod_eq_iff)
  also have "\<dots> = fst (absorb 128 compress512 iv (msg @ ?pad))"
    by (simp only: st(1,2) absorb_append [of 128 compress512 iv msg ?pad, OF zero_less_numeral])
  finally have "t_h (update_no_len512 ?pad s) = fst (absorb 128 compress512 iv (sha512_pad msg))"
    by (simp only: pad)
  moreover have "take (?m + 16) (put_at ?m (to_be128 (t_total s * 8)) ((replicate 144 0)[0 := 0x80])) = ?pad"
    using n by (intro pad_bytes512) auto
  ultimately have "finish_bytes s (replicate 64 0) =
      fold (\<lambda>(j, b) out. if j < length out then out[j := b] else out) (enumerate 0 (sha512_core iv msg)) (replicate 64 0)"
    unfolding finish_bytes_def sha512_core_def Let_def by simp
  also have "\<dots> = put_at 0 (sha512_core iv msg) (replicate 64 0)"
    by (rule store_all) (simp add: sha512_core_def absorb_length512 iv)
  also have "\<dots> = sha512_core iv msg" by (simp add: put_at_def sha512_core_def absorb_length512 iv)
  finally show ?thesis .
qed

lemma new512_ok: "sha512_ok new512" "sha512_view new512 = ((H512, []), 0)" "sha512_ok new384" "sha512_view new384 = ((H384, []), 0)"
  by (simp_all add: new512_def new384_def sha512_ok_def sha512_view_def)

lemma length_iv: "length H512 = 8" "length H384 = 8"
  by (simp_all add: H512_def H384_def)

lemma sha512_chunks: "finish512 (fold sha512_update parts new512) = sha512_spec (concat parts)"
  using finish_bytes_spec [OF sha512_stream.chunks_ok [OF new512_ok(1)] sha512_stream.from_empty [OF new512_ok(1,2)] length_iv(1)]
  by (simp add: finish512_def sha512_spec_def)

lemma sha384_chunks: "finish384 (fold sha512_update parts new384) = sha384_spec (concat parts)"
  using finish_bytes_spec [OF sha512_stream.chunks_ok [OF new512_ok(3)] sha512_stream.from_empty [OF new512_ok(3,4)] length_iv(2)]
  by (simp add: finish384_def sha384_spec_def)

lemma hash512_spec: "hash512 data = sha512_spec data"
  using sha512_chunks [of "[data]"] by (simp add: hash512_def)

lemma hash384_spec: "hash384 data = sha384_spec data"
  using sha384_chunks [of "[data]"] by (simp add: hash384_def)

lemma length_sha512_spec [simp]: "length (sha512_spec msg) = 64" "length (sha384_spec msg) = 48"
  by (simp_all add: sha512_spec_def sha384_spec_def sha512_core_def absorb_length512 length_iv)

end
