(* ===== verification/Sha512_Vectors.thy ===== *)
theory Sha512_Vectors
  imports Sha512
begin

text \<open>
  What ties the model of SHA-512 and SHA-384 to the standard: its constants are the fractions of roots of
  primes that FIPS 180-4 prescribes, and the digest of its example message comes out.
\<close>

text \<open>A word is the first 64 bits of the fraction of the \<open>r\<close>-th root of \<open>p\<close>, a number below 8.\<close>

definition root_fraction :: "nat \<Rightarrow> int \<Rightarrow> u64 \<Rightarrow> bool" where
  "root_fraction r p h \<longleftrightarrow>
     list_ex (\<lambda>k. (k * 2 ^ 64 + uint h) ^ r \<le> p * (2 ^ 64) ^ r \<and> p * (2 ^ 64) ^ r < (k * 2 ^ 64 + uint h + 1) ^ r)
       [1, 2, 3, 4, 5, 6, 7]"

definition primes80 :: "int list" where
  "primes80 =
  [2, 3, 5, 7, 11, 13, 17, 19, 23, 29, 31, 37, 41, 43, 47, 53, 59, 61, 67, 71,
   73, 79, 83, 89, 97, 101, 103, 107, 109, 113, 127, 131, 137, 139, 149, 151, 157, 163, 167, 173,
   179, 181, 191, 193, 197, 199, 211, 223, 227, 229, 233, 239, 241, 251, 257, 263, 269, 271, 277, 281,
   283, 293, 307, 311, 313, 317, 331, 337, 347, 349, 353, 359, 367, 373, 379, 383, 389, 397, 401, 409]"

text \<open>The round constants come from the cube roots of the first 80 primes, the two chaining values from
  the square roots of the first eight and of the next eight.\<close>

theorem sha512_constants:
  "list_all2 (root_fraction 3) primes80 K512"
  "list_all2 (root_fraction 2) (take 8 primes80) H512"
  "list_all2 (root_fraction 2) (take 8 (drop 8 primes80)) H384"
  by code_simp+

text \<open>The digest of the message abc is the one given in FIPS 180-4.\<close>

theorem sha512_abc:
  "hash512 (str ''abc'') =
     [0xdd, 0xaf, 0x35, 0xa1, 0x93, 0x61, 0x7a, 0xba, 0xcc, 0x41, 0x73, 0x49, 0xae, 0x20, 0x41, 0x31,
      0x12, 0xe6, 0xfa, 0x4e, 0x89, 0xa9, 0x7e, 0xa2, 0x0a, 0x9e, 0xee, 0xe6, 0x4b, 0x55, 0xd3, 0x9a,
      0x21, 0x92, 0x99, 0x2a, 0x27, 0x4f, 0xc1, 0xa8, 0x36, 0xba, 0x3c, 0x23, 0xa3, 0xfe, 0xeb, 0xbd,
      0x45, 0x4d, 0x44, 0x23, 0x64, 0x3c, 0xe8, 0x0e, 0x2a, 0x9a, 0xc9, 0x4f, 0xa5, 0x4c, 0xa4, 0x9f]"
  by code_simp

end
