(* ===== verification/Diskfs.thy ===== *)
theory Diskfs
  imports Perm
begin

text \<open>
  The on-disk file system, \<open>kernel/src/fs/diskfs.rs\<close>, and mounting, \<open>kernel/src/fs/mod.rs\<close>: a superblock,
  one block of 64 inode records, a bitmap block and data blocks.  The disk is reached through the
  two sector operations of the ATA driver, which are parameters here: \<open>rd drive lba count buf d\<close> and
  \<open>wr drive lba count buf d\<close> act on a device state \<open>d\<close>.
\<close>

section \<open>Layout\<close>

type_synonym 'd reader = "nat \<Rightarrow> u32 \<Rightarrow> u8 \<Rightarrow> bytes \<Rightarrow> 'd \<Rightarrow> (bool \<times> bytes) \<times> 'd"
type_synonym 'd writer = "nat \<Rightarrow> u32 \<Rightarrow> u8 \<Rightarrow> bytes \<Rightarrow> 'd \<Rightarrow> bool \<times> 'd"

definition FS_LBA :: u32 where "FS_LBA = 2048"
definition BLOCK_SIZE :: nat where "BLOCK_SIZE = 4096"
definition BLOCK_COUNT :: u32 where "BLOCK_COUNT = 1024"
definition SECTORS_PER_BLOCK :: u8 where "SECTORS_PER_BLOCK = 8"
definition FS_MAGIC :: u64 where "FS_MAGIC = 0x31465952524142"
definition INODE_SIZE :: nat where "INODE_SIZE = 64"
definition INODE_COUNT :: nat where "INODE_COUNT = BLOCK_SIZE div INODE_SIZE"
definition INODE_TABLE_BLOCK :: u32 where "INODE_TABLE_BLOCK = 1"
definition DATA_BITMAP_BLOCK :: u32 where "DATA_BITMAP_BLOCK = 2"
definition DATA_START_BLOCK :: u32 where "DATA_START_BLOCK = 3"

record superblock =
  sb_magic :: u64
  sb_version :: u32
  sb_block_size :: u32
  sb_inode_count :: u32
  sb_inode_table_block :: u32
  sb_data_bitmap_block :: u32
  sb_data_start_block :: u32
  sb_total_blocks :: u32
  sb_root_inode :: u32
  sb_generation :: u32

record disk_inode =
  d_used :: u8
  d_vtype :: u8
  d_name_len :: u8
  d_mode :: u16
  d_uid :: u32
  d_gid :: u32
  d_size :: u32
  d_parent :: u32
  d_first_block :: u32
  d_block_count :: u32
  d_name :: bytes

definition disk_inode_blank :: disk_inode where
  "disk_inode_blank =
     \<lparr>d_used = 0, d_vtype = 0, d_name_len = 0, d_mode = 0, d_uid = 0, d_gid = 0, d_size = 0, d_parent = 0,
      d_first_block = 0, d_block_count = 0, d_name = replicate 32 0\<rparr>"

definition inode_name_str :: "disk_inode \<Rightarrow> bytes" where
  "inode_name_str d = text_or (str ''?'') (take (min (unat (d_name_len d)) 32) (d_name d))"

definition read_block :: "'d reader \<Rightarrow> nat \<Rightarrow> u32 \<Rightarrow> bytes \<Rightarrow> 'd \<Rightarrow> (bool \<times> bytes) \<times> 'd" where
  "read_block rd drive block buf d =
     (if block \<ge> BLOCK_COUNT then ((False, buf), d)
      else rd drive (FS_LBA + block * ucast SECTORS_PER_BLOCK) SECTORS_PER_BLOCK buf d)"

definition write_block :: "'d writer \<Rightarrow> nat \<Rightarrow> u32 \<Rightarrow> bytes \<Rightarrow> 'd \<Rightarrow> bool \<times> 'd" where
  "write_block wr drive block buf d =
     (if block \<ge> BLOCK_COUNT then (False, d)
      else wr drive (FS_LBA + block * ucast SECTORS_PER_BLOCK) SECTORS_PER_BLOCK buf d)"

definition unpack_superblock :: "bytes \<Rightarrow> superblock" where
  "unpack_superblock buf =
     \<lparr>sb_magic = from_le64 buf, sb_version = le32_at buf 8, sb_block_size = le32_at buf 12,
      sb_inode_count = le32_at buf 16, sb_inode_table_block = le32_at buf 20, sb_data_bitmap_block = le32_at buf 24,
      sb_data_start_block = le32_at buf 28, sb_total_blocks = le32_at buf 32, sb_root_inode = le32_at buf 36,
      sb_generation = le32_at buf 40\<rparr>"

definition read_superblock :: "'d reader \<Rightarrow> nat \<Rightarrow> 'd \<Rightarrow> superblock option \<times> 'd" where
  "read_superblock rd drive d =
     (case read_block rd drive 0 (replicate BLOCK_SIZE 0) d of
        ((ok, buf), d) \<Rightarrow>
          if \<not> ok then (None, d)
          else if from_le64 buf \<noteq> FS_MAGIC then (None, d)
          else (Some (unpack_superblock buf), d))"

definition pack_superblock :: "superblock \<Rightarrow> bytes" where
  "pack_superblock sb =
     (let buf = put_at 0 (to_le64 (sb_magic sb)) (replicate BLOCK_SIZE 0);
          buf = put_at 8 (to_le32 (sb_version sb)) buf;
          buf = put_at 12 (to_le32 (sb_block_size sb)) buf;
          buf = put_at 16 (to_le32 (sb_inode_count sb)) buf;
          buf = put_at 20 (to_le32 (sb_inode_table_block sb)) buf;
          buf = put_at 24 (to_le32 (sb_data_bitmap_block sb)) buf;
          buf = put_at 28 (to_le32 (sb_data_start_block sb)) buf;
          buf = put_at 32 (to_le32 (sb_total_blocks sb)) buf;
          buf = put_at 36 (to_le32 (sb_root_inode sb)) buf
      in put_at 40 (to_le32 (sb_generation sb)) buf)"

definition write_superblock :: "'d writer \<Rightarrow> nat \<Rightarrow> superblock \<Rightarrow> 'd \<Rightarrow> bool \<times> 'd" where
  "write_superblock wr drive sb d = write_block wr drive 0 (pack_superblock sb) d"

definition pack_inode :: "disk_inode \<Rightarrow> bytes" where
  "pack_inode d =
     (let out = (replicate INODE_SIZE 0)[0 := d_used d, 1 := d_vtype d, 2 := d_name_len d];
          out = put_at 4 (to_le16 (d_mode d)) out;
          out = put_at 8 (to_le32 (d_uid d)) out;
          out = put_at 12 (to_le32 (d_gid d)) out;
          out = put_at 16 (to_le32 (d_size d)) out;
          out = put_at 20 (to_le32 (d_parent d)) out;
          out = put_at 24 (to_le32 (d_first_block d)) out;
          out = put_at 28 (to_le32 (d_block_count d)) out
      in put_at 32 (d_name d) out)"

definition unpack_inode :: "bytes \<Rightarrow> disk_inode" where
  "unpack_inode src =
     \<lparr>d_used = src ! 0, d_vtype = src ! 1, d_name_len = src ! 2, d_mode = le16_at src 4, d_uid = le32_at src 8,
      d_gid = le32_at src 12, d_size = le32_at src 16, d_parent = le32_at src 20, d_first_block = le32_at src 24,
      d_block_count = le32_at src 28, d_name = bslice 32 32 src\<rparr>"

definition disk_is_present :: "'d reader \<Rightarrow> nat \<Rightarrow> 'd \<Rightarrow> bool \<times> 'd" where
  "disk_is_present rd drive d = (let (sb, d) = read_superblock rd drive d in (sb \<noteq> None, d))"

definition new_superblock :: "u32 \<Rightarrow> superblock" where
  "new_superblock gen =
     \<lparr>sb_magic = FS_MAGIC, sb_version = 1, sb_block_size = of_nat BLOCK_SIZE, sb_inode_count = of_nat INODE_COUNT,
      sb_inode_table_block = INODE_TABLE_BLOCK, sb_data_bitmap_block = DATA_BITMAP_BLOCK,
      sb_data_start_block = DATA_START_BLOCK, sb_total_blocks = BLOCK_COUNT, sb_root_inode = 0,
      sb_generation = gen\<rparr>"

definition disk_format :: "'d writer \<Rightarrow> nat \<Rightarrow> 'd \<Rightarrow> bool \<times> 'd" where
  "disk_format wr drive d =
     (let root = disk_inode_blank
            \<lparr>d_used := 1, d_vtype := 1, d_mode := MODE_DIR, d_uid := UID_ROOT, d_gid := GID_ROOT,
             d_name := (replicate 32 0)[0 := 47], d_name_len := 1\<rparr>;
          table = put_at 0 (pack_inode root) (replicate BLOCK_SIZE 0);
          (ok, d) = write_block wr drive INODE_TABLE_BLOCK table d
      in if \<not> ok then (False, d)
         else
           let (ok, d) = write_block wr drive DATA_BITMAP_BLOCK (replicate BLOCK_SIZE 0) d in
           if \<not> ok then (False, d) else write_superblock wr drive (new_superblock 0) d)"

section \<open>Saving\<close>

text \<open>The breadth-first walk: \<open>queue\<close> holds every id queued so far, \<open>head\<close> the next one to visit.\<close>

function collect_loop :: "fs \<Rightarrow> u64 list \<Rightarrow> nat \<Rightarrow> u64 list \<Rightarrow> u64 list" where
  "collect_loop s queue head out =
     (if head < length queue \<and> length out < MAX_VNODES then
        let vid = queue ! head;
            cids = map de_id (read_dir vid MAX_CHILDREN s)
        in collect_loop s (queue @ take (MAX_VNODES - length queue) cids) (head + 1) (out @ [vid])
      else out)"
  by pat_completeness auto
termination
  by (relation "measure (\<lambda>(s, queue, head, out). MAX_VNODES - length out)") (auto simp: MAX_VNODES_def)

declare collect_loop.simps [simp del]

definition collect_order :: "fs \<Rightarrow> u64 list" where
  "collect_order s = collect_loop s [ROOT_ID] 0 []"

definition u32_max :: u32 where "u32_max = - 1"

record 'd save_state =
  sv_disk :: 'd
  sv_inodes :: bytes
  sv_bitmap :: bytes
  sv_next :: nat
  sv_index :: "u32 list"
  sv_vnodes :: "u64 list"

text \<open>The loop over the blocks of one file: the disk, or the disk at the point of failure.\<close>

fun save_blocks :: "'d writer \<Rightarrow> nat \<Rightarrow> fs \<Rightarrow> u64 \<Rightarrow> nat \<Rightarrow> nat \<Rightarrow> nat list \<Rightarrow> nat \<Rightarrow> 'd \<Rightarrow> 'd + 'd" where
  "save_blocks wr drive s vid sz first [] off d = Inr d"
| "save_blocks wr drive s vid sz first (b # bs) off d =
     (let chunk = min BLOCK_SIZE (sz - off);
          data = read_file_at vid off chunk s
      in if length data \<noteq> chunk then Inl d
         else
           let (ok, d) = write_block wr drive (of_nat (first + b)) (put_at 0 data (replicate BLOCK_SIZE 0)) d in
           if \<not> ok then Inl d else save_blocks wr drive s vid sz first bs (off + chunk) d)"

definition mark_blocks :: "nat \<Rightarrow> nat \<Rightarrow> bytes \<Rightarrow> bytes" where
  "mark_blocks start blocks bm =
     fold (\<lambda>b bm. let k = start + b in bm[k div 8 := bm ! (k div 8) OR push_bit (k mod 8) 1]) [0..<blocks] bm"

definition parent_index :: "u32 list \<Rightarrow> u64 list \<Rightarrow> u64 \<Rightarrow> u32" where
  "parent_index index vnodes parent =
     (case first_from (\<lambda>i. index ! i \<noteq> u32_max \<and> vnodes ! unat (index ! i) = parent) 0 (length index) of
        Some i \<Rightarrow> of_nat i
      | None \<Rightarrow> 0)"

definition inode_header :: "fs \<Rightarrow> 'd save_state \<Rightarrow> u64 \<Rightarrow> vnode_type \<Rightarrow> disk_inode" where
  "inode_header s st vid vt =
     (let p = (case get_perm vid s of Some p \<Rightarrow> p | None \<Rightarrow> \<lparr>p_uid = 0, p_gid = 0, p_mode = 0\<rparr>);
          nm = get_name vid (MAX_NAME + 1) s;
          par = get_parent vid s
      in disk_inode_blank
           \<lparr>d_used := 1, d_vtype := (case vt of Dir \<Rightarrow> 1 | _ \<Rightarrow> 0), d_mode := p_mode p, d_uid := p_uid p,
            d_gid := p_gid p, d_name := put_at 0 nm (replicate 32 0), d_name_len := of_nat (length nm),
            d_parent := (if par = 0 then 0 else parent_index (sv_index st) (sv_vnodes st) par)\<rparr>)"

definition put_inode :: "nat \<Rightarrow> u64 \<Rightarrow> disk_inode \<Rightarrow> 'd save_state \<Rightarrow> 'd save_state" where
  "put_inode slot vid d st =
     st\<lparr>sv_index := (sv_index st)[slot := of_nat slot],
        sv_vnodes := (sv_vnodes st)[slot := vid],
        sv_inodes := put_at (slot * INODE_SIZE) (pack_inode d) (sv_inodes st)\<rparr>"

definition save_data ::
  "'d writer \<Rightarrow> nat \<Rightarrow> fs \<Rightarrow> u64 \<Rightarrow> disk_inode \<Rightarrow> 'd save_state \<Rightarrow> 'd + disk_inode \<times> 'd save_state" where
  "save_data wr drive s vid d st =
     (let sz = get_size vid s; d = d\<lparr>d_size := of_nat sz\<rparr> in
      if sz > 0 then
        let blocks = (sz + BLOCK_SIZE - 1) div BLOCK_SIZE in
        if sv_next st + blocks > unat (BLOCK_COUNT - DATA_START_BLOCK) then Inl (sv_disk st)
        else
          let first = unat DATA_START_BLOCK + sv_next st;
              d = d\<lparr>d_first_block := of_nat first, d_block_count := of_nat blocks\<rparr>
          in case save_blocks wr drive s vid sz first [0..<blocks] 0 (sv_disk st) of
               Inl dk \<Rightarrow> Inl dk
             | Inr dk \<Rightarrow>
                 Inr (d, st\<lparr>sv_disk := dk, sv_bitmap := mark_blocks (sv_next st) blocks (sv_bitmap st),
                   sv_next := sv_next st + blocks\<rparr>)
      else Inr (d, st))"

definition save_entry :: "'d writer \<Rightarrow> nat \<Rightarrow> fs \<Rightarrow> nat \<Rightarrow> u64 \<Rightarrow> 'd save_state \<Rightarrow> 'd + 'd save_state" where
  "save_entry wr drive s slot vid st =
     (case get_type vid s of
        None \<Rightarrow> Inr st
      | Some vt \<Rightarrow>
          let d = inode_header s st vid vt in
          if d_vtype d = 0 then
            case save_data wr drive s vid d st of
              Inl dk \<Rightarrow> Inl dk
            | Inr (d, st) \<Rightarrow> Inr (put_inode slot vid d st)
          else Inr (put_inode slot vid d st))"

fun save_entries :: "'d writer \<Rightarrow> nat \<Rightarrow> fs \<Rightarrow> nat \<Rightarrow> u64 list \<Rightarrow> 'd save_state \<Rightarrow> 'd + 'd save_state" where
  "save_entries wr drive s slot [] st = Inr st"
| "save_entries wr drive s slot (vid # vids) st =
     (case save_entry wr drive s slot vid st of
        Inl d \<Rightarrow> Inl d
      | Inr st \<Rightarrow> save_entries wr drive s (slot + 1) vids st)"

definition disk_save :: "'d reader \<Rightarrow> 'd writer \<Rightarrow> nat \<Rightarrow> fs \<Rightarrow> 'd \<Rightarrow> bool \<times> 'd" where
  "disk_save rd wr drive s d =
     (case save_entries wr drive s 0 (collect_order s)
             \<lparr>sv_disk = d, sv_inodes = replicate BLOCK_SIZE 0, sv_bitmap = replicate BLOCK_SIZE 0, sv_next = 0,
              sv_index = replicate MAX_VNODES u32_max, sv_vnodes = replicate MAX_VNODES 0\<rparr> of
        Inl d \<Rightarrow> (False, d)
      | Inr st \<Rightarrow>
          let (ok, d) = write_block wr drive INODE_TABLE_BLOCK (sv_inodes st) (sv_disk st) in
          if \<not> ok then (False, d)
          else
            let (ok, d) = write_block wr drive DATA_BITMAP_BLOCK (sv_bitmap st) d in
            if \<not> ok then (False, d)
            else
              let (sb, d) = read_superblock rd drive d;
                  gen = (case sb of Some sb \<Rightarrow> sb_generation sb | None \<Rightarrow> 0)
              in write_superblock wr drive (new_superblock (gen + 1)) d)"

section \<open>Loading\<close>

text \<open>The contents of one file: reading stops at the first block that cannot be read.\<close>

function load_blocks :: "'d reader \<Rightarrow> nat \<Rightarrow> u32 \<Rightarrow> nat \<Rightarrow> nat \<Rightarrow> bytes \<Rightarrow> bytes \<Rightarrow> 'd \<Rightarrow> bytes \<times> 'd" where
  "load_blocks rd drive first want off buf block d =
     (if off < want then
        case read_block rd drive (first + of_nat (off div BLOCK_SIZE)) block d of
          ((ok, block), d) \<Rightarrow>
            if \<not> ok then (buf, d)
            else
              let chunk = min BLOCK_SIZE (want - off) in
              load_blocks rd drive first want (off + chunk) (put_at off (take chunk block) buf) block d
      else (buf, d))"
  by pat_completeness auto
termination
  by (relation "measure (\<lambda>(rd, drive, first, want, off, buf, block, d). want - off)") (auto simp: BLOCK_SIZE_def)

declare load_blocks.simps [simp del]

definition load_data :: "'d reader \<Rightarrow> nat \<Rightarrow> disk_inode \<Rightarrow> u64 \<Rightarrow> fs \<times> 'd \<Rightarrow> fs \<times> 'd" where
  "load_data rd drive d vid sd =
     (let (s, dk) = sd in
      if d_vtype d = 0 \<and> d_size d > 0 then
        let want = min (unat (d_size d)) MAX_FILE_SIZE;
            (buf, dk) = load_blocks rd drive (d_first_block d) want 0 (replicate MAX_FILE_SIZE 0) (replicate BLOCK_SIZE 0) dk
        in (snd (write_file vid (take want buf) s), dk)
      else (s, dk))"

definition load_entry ::
  "'d reader \<Rightarrow> nat \<Rightarrow> superblock \<Rightarrow> nat \<Rightarrow> disk_inode \<Rightarrow> (fs \<times> u64 list) \<times> 'd \<Rightarrow> (fs \<times> u64 list) \<times> 'd" where
  "load_entry rd drive sb i d st =
     (let ((s, ids), dk) = st in
      if d_used d = 0 then st
      else if of_nat i = sb_root_inode sb then
        ((snd (set_mode ROOT_ID (d_mode d) (snd (set_owner ROOT_ID (d_uid d) (d_gid d) s))), ids[i := ROOT_ID]), dk)
      else if unat (d_parent d) \<ge> length ids then st
      else
        let parent = ids ! unat (d_parent d) in
        if parent = 0 then st
        else
          let nm = inode_name_str d in
          if nm = [] then st
          else
            let (vid, s) = (if d_vtype d = 1 then create_dir parent nm s else create_file parent nm s) in
            if vid = 0 then ((s, ids), dk)
            else
              let (s, dk) = load_data rd drive d vid (s, dk);
                  s = snd (set_owner vid (d_uid d) (d_gid d) s);
                  s = snd (set_mode vid (d_mode d) s)
              in ((s, ids[i := vid]), dk))"

text \<open>None: the index past the inode block, where the kernel panics.\<close>

fun load_entries ::
  "'d reader \<Rightarrow> nat \<Rightarrow> superblock \<Rightarrow> bytes \<Rightarrow> nat list \<Rightarrow> (fs \<times> u64 list) \<times> 'd \<Rightarrow> ((fs \<times> u64 list) \<times> 'd) option" where
  "load_entries rd drive sb table [] st = Some st"
| "load_entries rd drive sb table (i # js) st =
     (if (i + 1) * INODE_SIZE > length table then None
      else load_entries rd drive sb table js
             (load_entry rd drive sb i (unpack_inode (bslice (i * INODE_SIZE) INODE_SIZE table)) st))"

definition disk_load :: "'d reader \<Rightarrow> nat \<Rightarrow> fs \<Rightarrow> 'd \<Rightarrow> ((bool \<times> fs) \<times> 'd) option" where
  "disk_load rd drive s d =
     (case read_superblock rd drive d of
        (None, d) \<Rightarrow> Some ((False, s), d)
      | (Some sb, d) \<Rightarrow>
          if sb_block_size sb \<noteq> of_nat BLOCK_SIZE \<or> sb_version sb \<noteq> 1 then Some ((False, s), d)
          else case read_block rd drive (sb_inode_table_block sb) (replicate BLOCK_SIZE 0) d of
            ((ok, table), d) \<Rightarrow>
              if \<not> ok then Some ((False, s), d)
              else
                map_option (\<lambda>((s, ids), d). ((True, s), d))
                  (load_entries rd drive sb table [0..<unat (sb_inode_count sb)]
                    ((vfs_reset s, replicate INODE_COUNT 0), d)))"

section \<open>Mounting (fs/mod.rs)\<close>

definition mount_drive :: "fs \<Rightarrow> nat option" where
  "mount_drive s = (if MOUNT_DRIVE s < 0 then None else Some (nat (MOUNT_DRIVE s)))"

definition fs_sync :: "'d reader \<Rightarrow> 'd writer \<Rightarrow> fs \<Rightarrow> 'd \<Rightarrow> bool \<times> 'd" where
  "fs_sync rd wr s d = (case mount_drive s of Some drive \<Rightarrow> disk_save rd wr drive s d | None \<Rightarrow> (False, d))"

fun mount_loop :: "'d reader \<Rightarrow> nat list \<Rightarrow> fs \<Rightarrow> 'd \<Rightarrow> (fs \<times> 'd) option" where
  "mount_loop rd [] s d = Some (s, d)"
| "mount_loop rd (i # drives) s d =
     (let (here, d) = disk_is_present rd i d in
      if \<not> here then mount_loop rd drives s d
      else case disk_load rd i s d of
        None \<Rightarrow> None
      | Some ((ok, s), d) \<Rightarrow> if ok then Some (s\<lparr>MOUNT_DRIVE := int i\<rparr>, d) else mount_loop rd drives s d)"

definition mount_from_disk :: "'d reader \<Rightarrow> nat \<Rightarrow> fs \<Rightarrow> 'd \<Rightarrow> (fs \<times> 'd) option" where
  "mount_from_disk rd drives s d = mount_loop rd [0..<drives] s d"

text \<open>Start-up: root, account files, sample tree, the installed system if there is one, accounts.\<close>

definition file_smoke_test :: "fs \<Rightarrow> fs" where
  "file_smoke_test s =
     (let (fd, s) = file_open (str ''/hello'') s in
      if fd < 0 then s
      else
        let s = file_close fd (snd (file_read fd 128 s));
            (fd2, s) = file_open (str ''/nonexistent'') s
        in if fd2 < 0 then s else file_close fd2 s)"

definition fs_init :: "bytes \<Rightarrow> 'd reader \<Rightarrow> nat \<Rightarrow> fs \<Rightarrow> 'd \<Rightarrow> (fs \<times> 'd) option" where
  "fs_init TEST_EXE rd drives s d =
     (let s = vfs_init s;
          s = snd (install_defaults s);
          s = create_test_files TEST_EXE s
      in map_option (\<lambda>(s, d). (file_smoke_test (snd (load_from_passwd s)), d)) (mount_from_disk rd drives s d))"

end
