(* ===== verification/Diskfs_Image.thy ===== *)
theory Diskfs_Image
  imports Diskfs
begin

text \<open>
  What the on-disk format promises: the records of \<open>kernel/src/fs/diskfs.rs\<close> survive a trip through
  their byte layout, and a saved image holds the record and the contents of every entry of the tree.
  The client side of the disk is proved against an interface, the two sector operations and what
  they promise; the theory Boot_Disk discharges it for the ATA driver.
\<close>

section \<open>Layout of the records\<close>

lemmas disk_consts = FS_LBA_def BLOCK_SIZE_def BLOCK_COUNT_def SECTORS_PER_BLOCK_def INODE_SIZE_def INODE_COUNT_def
  INODE_TABLE_BLOCK_def DATA_BITMAP_BLOCK_def DATA_START_BLOCK_def

lemma from_le64_at: "8 \<le> length buf \<Longrightarrow> from_le64 buf = le64_at buf 0"
  by (simp add: le64_at_def from_le64_def bslice_def)

lemmas field_puts = le16.at_put_same le16.at_put_before le16.at_put_after le32.at_put_same le32.at_put_before
  le32.at_put_after le64.at_put_same le64.at_put_before le64.at_put_after

lemma length_pack_superblock [simp]: "length (pack_superblock sb) = 4096"
  by (simp add: pack_superblock_def BLOCK_SIZE_def Let_def)

lemma magic_pack: "from_le64 (pack_superblock sb) = sb_magic sb"
proof -
  have "from_le64 (pack_superblock sb) = le64_at (pack_superblock sb) 0"
    by (simp add: from_le64_at)
  also have "\<dots> = sb_magic sb"
    by (simp add: pack_superblock_def BLOCK_SIZE_def Let_def field_puts)
  finally show ?thesis .
qed

lemma unpack_pack_superblock: "unpack_superblock (pack_superblock sb) = sb"
proof -
  have "unpack_superblock (pack_superblock sb) = unpack_superblock (pack_superblock sb)\<lparr>sb_magic := sb_magic sb\<rparr>"
    using magic_pack [of sb] by (simp add: unpack_superblock_def)
  also have "\<dots> = sb"
    by (simp add: unpack_superblock_def pack_superblock_def BLOCK_SIZE_def Let_def field_puts)
  finally show ?thesis .
qed

lemma length_pack_inode [simp]: "length (d_name d) = 32 \<Longrightarrow> length (pack_inode d) = 64"
  by (simp add: pack_inode_def INODE_SIZE_def Let_def)

lemma unpack_pack_inode:
  assumes "length (d_name d) = 32"
  shows "unpack_inode (pack_inode d) = d"
  using assms
  by (simp add: unpack_inode_def pack_inode_def INODE_SIZE_def Let_def field_puts nth_put_at bslice_put_at_same)

definition root_inode :: disk_inode where
  "root_inode = disk_inode_blank
     \<lparr>d_used := 1, d_vtype := 1, d_mode := MODE_DIR, d_uid := UID_ROOT, d_gid := GID_ROOT,
      d_name := (replicate 32 0)[0 := 47], d_name_len := 1\<rparr>"

text \<open>Block \<open>k\<close> of a file of \<open>sz\<close> bytes, padded with zeros.\<close>

definition file_block :: "fs \<Rightarrow> u64 \<Rightarrow> nat \<Rightarrow> nat \<Rightarrow> bytes" where
  "file_block s vid sz k = put_at 0 (read_file_at vid (4096 * k) (min 4096 (sz - 4096 * k)) s) (replicate 4096 0)"

lemma read_file_at_slice:
  assumes "get_size vid s = sz" "off + n \<le> sz" "0 < n"
  shows "read_file_at vid off n s = bslice off n (read_file_at vid 0 sz s)"
  using assms by (auto simp: read_file_at_def Let_def bslice_def drop_map take_map add.assoc intro!: nth_equalityI)

text \<open>
  What the image says of entry \<open>k\<close> of the walk: \<open>r\<close> is its inode record and \<open>blk\<close> the blocks of the
  disk.  A parent is named by its position in the walk.
\<close>

definition parent_slot :: "u64 list \<Rightarrow> nat \<Rightarrow> u64 \<Rightarrow> nat" where
  "parent_slot order k par =
     (if par = 0 then 0 else case first_from (\<lambda>j. order ! j = par) 0 k of Some j \<Rightarrow> j | None \<Rightarrow> 0)"

definition blocks_of :: "nat \<Rightarrow> nat" where
  "blocks_of sz = (4095 + sz) div 4096"

definition entry_image :: "fs \<Rightarrow> u64 list \<Rightarrow> (nat \<Rightarrow> bytes) \<Rightarrow> nat \<Rightarrow> disk_inode \<Rightarrow> bool" where
  "entry_image s order blk k r \<longleftrightarrow>
     (let vid = order ! k; sz = get_size vid s in
      d_used r = 1 \<and> d_vtype r = (if get_type vid s = Some Dir then 1 else 0) \<and>
      get_perm vid s = Some \<lparr>p_uid = d_uid r, p_gid = d_gid r, p_mode = d_mode r\<rparr> \<and>
      take (unat (d_name_len r)) (d_name r) = get_name vid (MAX_NAME + 1) s \<and>
      unat (d_parent r) = parent_slot order k (get_parent vid s) \<and>
      (get_type vid s \<noteq> Some Dir \<longrightarrow>
        d_size r = of_nat sz \<and> (\<forall>b < blocks_of sz. blk (unat (d_first_block r) + b) = file_block s vid sz b)))"

definition extent_below :: "fs \<Rightarrow> u64 \<Rightarrow> nat \<Rightarrow> disk_inode \<Rightarrow> bool" where
  "extent_below s vid t r \<longleftrightarrow>
     get_type vid s \<noteq> Some Dir \<and> get_size vid s > 0 \<longrightarrow>
       3 \<le> unat (d_first_block r) \<and> unat (d_first_block r) + blocks_of (get_size vid s) \<le> t"

text \<open>The data blocks an entry takes, those of the entries before the \<open>k\<close>-th, and that the record of a
  non-empty file names the extent right after them.\<close>

definition need_blocks :: "fs \<Rightarrow> u64 \<Rightarrow> nat" where
  "need_blocks s vid = (if get_type vid s = Some Dir then 0 else blocks_of (get_size vid s))"

definition offset_of :: "fs \<Rightarrow> u64 list \<Rightarrow> nat \<Rightarrow> nat" where
  "offset_of s order k = sum_list (map (need_blocks s) (take k order))"

definition extent_at :: "fs \<Rightarrow> u64 list \<Rightarrow> nat \<Rightarrow> disk_inode \<Rightarrow> bool" where
  "extent_at s order k r \<longleftrightarrow>
     get_type (order ! k) s \<noteq> Some Dir \<and> get_size (order ! k) s > 0 \<longrightarrow>
       unat (d_first_block r) = 3 + offset_of s order k \<and> unat (d_block_count r) = need_blocks s (order ! k)"

lemma offset_of_Suc: "k < length order \<Longrightarrow> offset_of s order (Suc k) = offset_of s order k + need_blocks s (order ! k)"
  by (simp add: offset_of_def take_Suc_conv_app_nth)

text \<open>The bitmap marks exactly the first \<open>n\<close> data blocks.\<close>

definition marks_below :: "bytes \<Rightarrow> nat \<Rightarrow> bool" where
  "marks_below bm n \<longleftrightarrow> length bm = 4096 \<and> (\<forall>k < 32768. bit (bm ! (k div 8)) (k mod 8) \<longleftrightarrow> k < n)"

lemma mark_one:
  assumes "marks_below bm n" "n < 32768"
  shows "marks_below (bm[n div 8 := bm ! (n div 8) OR push_bit (n mod 8) 1]) (Suc n)"
proof -
  have "bit (bm[n div 8 := bm ! (n div 8) OR push_bit (n mod 8) 1] ! (k div 8)) (k mod 8) \<longleftrightarrow> k < Suc n"
    if "k < 32768" for k
  proof (cases "k div 8 = n div 8")
    case True
    have "k mod 8 = n mod 8 \<longleftrightarrow> k = n"
      using True by (metis div_mult_mod_eq)
    moreover have "k mod 8 < 8" by simp
    ultimately show ?thesis
      using True assms that by (auto simp: marks_below_def bit_simps less_Suc_eq)
  next
    case False
    then have "k \<noteq> n" by auto
    with False assms that show ?thesis by (auto simp: marks_below_def)
  qed
  with assms(1) show ?thesis by (simp add: marks_below_def)
qed

lemma mark_blocks_marks:
  assumes "marks_below bm n" "n + m \<le> 1021"
  shows "marks_below (mark_blocks n m bm) (n + m)"
  using assms(2)
proof (induction m)
  case (Suc m)
  then have "marks_below (mark_blocks n m bm) (n + m)" by simp
  with mark_one [OF this] Suc.prems show ?case by (simp add: mark_blocks_def Let_def)
qed (simp add: mark_blocks_def assms(1))

definition save_inv :: "('d \<Rightarrow> nat \<Rightarrow> bytes) \<Rightarrow> fs \<Rightarrow> u64 list \<Rightarrow> nat \<Rightarrow> 'd save_state \<Rightarrow> bool" where
  "save_inv blk s order k st \<longleftrightarrow>
     length (sv_inodes st) = 4096 \<and> length (sv_index st) = 64 \<and> length (sv_vnodes st) = 64 \<and> sv_next st \<le> 1021 \<and>
     marks_below (sv_bitmap st) (sv_next st) \<and>
     (\<forall>j < 64. sv_index st ! j = (if j < k then of_nat j else u32_max)) \<and>
     (\<forall>j < k. sv_vnodes st ! j = order ! j) \<and>
     (\<forall>j < k. \<exists>r. length (d_name r) = 32 \<and> bslice (j * 64) 64 (sv_inodes st) = pack_inode r \<and>
        entry_image s order (blk (sv_disk st)) j r \<and> extent_below s (order ! j) (3 + sv_next st) r \<and> extent_at s order j r)"

lemma small_index: "j < 64 \<Longrightarrow> unat (of_nat j :: u32) = j" "j < 64 \<Longrightarrow> (of_nat j :: u32) \<noteq> u32_max"
proof -
  show 1: "unat (of_nat j :: u32) = j" if "j < 64" for j
    using that by (simp add: unat_of_nat)
  have "unat u32_max = 2 ^ 32 - 1" by (simp add: u32_max_def unsigned_minus_1_eq_mask mask_eq_exp_minus_1)
  then show "(of_nat j :: u32) \<noteq> u32_max" if "j < 64"
    using 1 [OF that] that by auto
qed

lemma parent_index_slot:
  assumes "save_inv blk s order k st" "k \<le> 64"
  shows "unat (parent_index (sv_index st) (sv_vnodes st) par) =
    (case first_from (\<lambda>j. order ! j = par) 0 k of Some j \<Rightarrow> j | None \<Rightarrow> 0)"
proof -
  let ?P = "\<lambda>i. sv_index st ! i \<noteq> u32_max \<and> sv_vnodes st ! unat (sv_index st ! i) = par"
  have P: "?P i \<longleftrightarrow> i < k \<and> order ! i = par" if "i < 64" for i
    using assms that small_index [of i] by (auto simp: save_inv_def)
  have "first_from ?P 0 64 = first_from (\<lambda>i. i < k \<and> order ! i = par) 0 64"
    using P by (intro first_from_cong) blast
  also have "\<dots> = first_from (\<lambda>j. order ! j = par) 0 k"
    by (rule option_eqI_Some) (use assms(2) in \<open>auto simp: first_from_Some_iff\<close>)
  finally have "first_from ?P 0 64 = first_from (\<lambda>j. order ! j = par) 0 k" .
  moreover have "length (sv_index st) = 64" using assms(1) by (simp add: save_inv_def)
  ultimately show ?thesis
    using assms(2) by (auto simp: parent_index_def small_index dest!: first_from_SomeD split: option.splits)
qed

lemma inode_header_image:
  assumes inv: "save_inv blk s order k st" and k: "k \<le> 64" and vt: "get_type (order ! k) s = Some vt"
  defines "r \<equiv> inode_header s st (order ! k) vt"
  shows "length (d_name r) = 32" "d_vtype r = (if vt = Dir then 1 else 0)"
    "vt = Dir \<Longrightarrow> entry_image s order B k r"
    "vt \<noteq> Dir \<Longrightarrow> \<forall>b < blocks_of (get_size (order ! k) s). B (unat f + b) = file_block s (order ! k) (get_size (order ! k) s) b \<Longrightarrow>
      entry_image s order B k (r\<lparr>d_size := of_nat (get_size (order ! k) s), d_first_block := f, d_block_count := c\<rparr>)"
proof -
  let ?n = "get_name (order ! k) (MAX_NAME + 1) s"
  have n: "length ?n \<le> 32"
    by (auto simp: get_name_def MAX_NAME_def split: option.splits)
  show len: "length (d_name r) = 32"
    using n by (simp add: r_def inode_header_def Let_def)
  have u: "unat (of_nat (length ?n) :: u8) = length ?n"
    using n by (simp add: unat_of_nat)
  obtain p where p: "get_perm (order ! k) s = Some p"
    using vt by (auto simp: get_type_def get_perm_def)
  have nm: "take (length ?n) (put_at 0 ?n (replicate 32 0)) = ?n"
    by (simp add: put_at_def)
  have par: "unat (d_parent r) = parent_slot order k (get_parent (order ! k) s)"
    using parent_index_slot [OF inv k] by (simp add: r_def inode_header_def parent_slot_def Let_def)
  show ty: "d_vtype r = (if vt = Dir then 1 else 0)"
    by (cases vt) (simp_all add: r_def inode_header_def Let_def)
  show "entry_image s order B k r" if "vt = Dir"
    using that p vt par ty u nm by (simp add: entry_image_def Let_def r_def inode_header_def)
  show "entry_image s order B k (r\<lparr>d_size := of_nat (get_size (order ! k) s), d_first_block := f, d_block_count := c\<rparr>)"
    if "vt \<noteq> Dir" "\<forall>b < blocks_of (get_size (order ! k) s). B (unat f + b) = file_block s (order ! k) (get_size (order ! k) s) b"
    using that p vt par ty u nm by (simp add: entry_image_def Let_def r_def inode_header_def)
qed

lemma put_inode_inv:
  assumes inv: "save_inv blk s order k st" and k: "k < 64" and len: "length (d_name r) = 32"
    and img: "entry_image s order (blk (sv_disk st)) k r" and ext: "extent_below s (order ! k) (3 + sv_next st) r"
    and at: "extent_at s order k r"
  shows "save_inv blk s order (Suc k) (put_inode k (order ! k) r st)"
proof -
  let ?t = "put_at (k * 64) (pack_inode r) (sv_inodes st)"
  have fit: "k * 64 + length (pack_inode r) \<le> length (sv_inodes st)"
    using inv k len by (simp add: save_inv_def)
  have old: "bslice (j * 64) 64 ?t = bslice (j * 64) 64 (sv_inodes st)" if "j < k" for j
  proof -
    have "j * 64 + 64 \<le> k * 64" using that by simp
    with fit show ?thesis by (intro bslice_put_at_before) simp_all
  qed
  have new: "bslice (k * 64) 64 ?t = pack_inode r"
    using fit len by (intro bslice_put_at_same) simp_all
  have "\<exists>r. length (d_name r) = 32 \<and> bslice (j * 64) 64 ?t = pack_inode r \<and>
      entry_image s order (blk (sv_disk st)) j r \<and> extent_below s (order ! j) (3 + sv_next st) r \<and> extent_at s order j r" if "j < Suc k" for j
    using that inv old new len img ext at by (cases "j = k") (auto simp: save_inv_def)
  then show ?thesis
    using inv k fit by (auto simp: save_inv_def put_inode_def INODE_SIZE_def nth_list_update less_Suc_eq)
qed

section \<open>The walk of the tree\<close>

lemma read_dir_loop_ids:
  assumes "\<forall>c \<in> set cs. \<exists>w. vview s c = Some w \<and> v_id w = c" "length out + length cs \<le> len"
  shows "map de_id (read_dir_loop cs len s out) = map de_id out @ cs"
  using assms
proof (induction cs arbitrary: out)
  case (Cons c cs)
  then obtain w where "vview s c = Some w" "v_id w = c" by auto
  then obtain i where "find_slot c s = Some i" "vnode_at i s = w" by (auto simp: vview_def)
  with Cons show ?case using \<open>v_id w = c\<close> by (simp add: Let_def)
qed simp

lemma kids_live: "vfs_wf s \<Longrightarrow> vview s p = Some v \<Longrightarrow> c \<in> set (kids v) \<Longrightarrow> \<exists>w. vview s c = Some w \<and> v_id w = c \<and> v_parent w = p"
  by (metis vfs_wf_def view_wfD(1,3))

lemma read_dir_ids:
  assumes "vfs_wf s" "vview s vid = Some v"
  shows "map de_id (read_dir vid MAX_CHILDREN s) = kids v"
proof -
  obtain i where i: "find_slot vid s = Some i" "vnode_at i s = v"
    using assms(2) by (auto simp: vview_def)
  have "length (kids v) \<le> 16"
    using assms view_wfD(1) [of "vview s"] by (auto simp: vfs_wf_def kids_def vnode_ok_def)
  then have "map de_id (read_dir_loop (kids v) MAX_CHILDREN s []) = kids v"
    using kids_live [OF assms] read_dir_loop_ids [of "kids v" s "[]" MAX_CHILDREN]
    by (fastforce simp: MAX_CHILDREN_def)
  with i show ?thesis by (simp add: read_dir_def kids_def)
qed

definition walk_inv :: "fs \<Rightarrow> u64 list \<Rightarrow> nat \<Rightarrow> bool" where
  "walk_inv s queue head \<longleftrightarrow>
     head \<le> length queue \<and> queue \<noteq> [] \<and> queue ! 0 = ROOT_ID \<and> distinct queue \<and> set queue \<subseteq> dom (vview s) \<and>
     (\<forall>k. 0 < k \<and> k < length queue \<longrightarrow> (\<exists>j < min k head. queue ! j = get_parent (queue ! k) s)) \<and>
     (\<forall>j < head. \<forall>v. vview s (queue ! j) = Some v \<longrightarrow> set (kids v) \<subseteq> set queue)"

lemma dom_vview: "finite (dom (vview s)) \<and> card (dom (vview s)) \<le> 64"
proof -
  have "dom (vview s) \<subseteq> v_id ` (\<lambda>i. VNODES s ! i) ` {..<64}"
    by (auto simp: vview_def find_slot_def MAX_VNODES_def dest!: first_from_SomeD split: if_splits)
  moreover have "card (v_id ` (\<lambda>i. VNODES s ! i) ` {..<64 :: nat}) \<le> 64"
    by (metis card_image_le card_lessThan finite_imageI finite_lessThan le_trans)
  ultimately show ?thesis
    by (meson card_mono finite_imageI finite_lessThan finite_subset le_trans)
qed

lemma walk_inv_length: "walk_inv s queue head \<Longrightarrow> length queue \<le> 64"
  using dom_vview [of s] card_mono [of "dom (vview s)" "set queue"]
  by (auto simp: walk_inv_def distinct_card)

lemma walk_inv_step:
  assumes wf: "vfs_wf s" and inv: "walk_inv s queue head" and h: "head < length queue" and v: "vview s (queue ! head) = Some v"
  shows "walk_inv s (queue @ kids v) (Suc head)"
proof -
  let ?p = "queue ! head"
  have par: "get_parent c s = ?p" "vview s c \<noteq> None" if "c \<in> set (kids v)" for c
    using kids_live [OF wf v that] by (auto simp: get_view)
  have p0: "?p \<noteq> 0" using wf v by (auto simp: vfs_wf_def)
  have fresh: "c \<notin> set queue" if c: "c \<in> set (kids v)" for c
  proof
    assume "c \<in> set queue"
    then obtain k where k: "k < length queue" "queue ! k = c" by (auto simp: in_set_conv_nth)
    show False
    proof (cases "k = 0")
      case True
      then have "get_parent ROOT_ID s = ?p" using k inv par [OF c] by (simp add: walk_inv_def)
      moreover obtain r where "vview s ROOT_ID = Some r" "v_parent r = 0"
        using wf view_wfD(6) unfolding vfs_wf_def by blast
      ultimately show False using p0 by (simp add: get_view)
    next
      case False
      with k inv obtain j where "j < head" "queue ! j = get_parent c s" by (auto simp: walk_inv_def)
      with par [OF c] inv h show False by (auto simp: walk_inv_def nth_eq_iff_index_eq)
    qed
  qed
  have "\<exists>j < min k (Suc head). (queue @ kids v) ! j = get_parent ((queue @ kids v) ! k) s"
    if "0 < k" "k < length queue + length (kids v)" for k
  proof (cases "k < length queue")
    case True
    with inv that obtain j where j: "j < min k head" "queue ! j = get_parent (queue ! k) s"
      by (auto simp: walk_inv_def)
    with True show ?thesis by (intro exI [of _ j]) (auto simp: nth_append)
  next
    case False
    then have "(queue @ kids v) ! k \<in> set (kids v)" using that by (simp add: nth_append)
    with False h show ?thesis using par by (intro exI [of _ head]) (auto simp: nth_append)
  qed
  moreover have "set (kids w) \<subseteq> set (queue @ kids v)"
    if "j < Suc head" "vview s ((queue @ kids v) ! j) = Some w" for j w
  proof (cases "j = head")
    case True
    with that v h show ?thesis by (simp add: nth_append)
  next
    case False
    with that have j: "j < head" by simp
    with that h inv have "set (kids w) \<subseteq> set queue" by (simp add: walk_inv_def nth_append)
    then show ?thesis by auto
  qed
  moreover have "distinct (kids v)" using wf v view_wfD(2) by (auto simp: vfs_wf_def)
  ultimately show ?thesis
    using inv h fresh par unfolding walk_inv_def by (auto simp: nth_append)
qed

lemma collect_loop_walk:
  assumes "vfs_wf s" "walk_inv s queue head" "out = take head queue"
  shows "\<exists>queue'. collect_loop s queue head out = queue' \<and> walk_inv s queue' (length queue')"
  using assms
proof (induction s queue head out rule: collect_loop.induct)
  case (1 s queue head out)
  show ?case
  proof (cases "head < length queue")
    case True
    then obtain v where v: "vview s (queue ! head) = Some v"
      using "1.prems"(2) by (meson domD nth_mem subsetD walk_inv_def)
    have ids: "map de_id (read_dir (queue ! head) MAX_CHILDREN s) = kids v"
      by (rule read_dir_ids [OF "1.prems"(1) v])
    have inv: "walk_inv s (queue @ kids v) (Suc head)"
      by (rule walk_inv_step [OF "1.prems"(1,2) True v])
    have small: "length (queue @ kids v) \<le> 64" by (rule walk_inv_length [OF inv])
    have out: "length out < MAX_VNODES" "out @ [queue ! head] = take (Suc head) (queue @ kids v)"
      using True small "1.prems"(3) by (simp_all add: MAX_VNODES_def take_Suc_conv_app_nth)
    have "collect_loop s queue head out = collect_loop s (queue @ kids v) (head + 1) (out @ [queue ! head])"
      using True out(1) small by (subst collect_loop.simps) (simp add: ids Let_def MAX_VNODES_def)
    moreover have "take (MAX_VNODES - length queue) (kids v) = kids v"
      using small by (simp add: MAX_VNODES_def)
    ultimately show ?thesis
      using "1.IH" [OF _ refl refl] True out inv "1.prems"(1) by (simp add: ids)
  next
    case False
    with "1.prems" have "head = length queue" "out = queue" by (auto simp: walk_inv_def)
    moreover from this have "collect_loop s queue head out = queue" by (subst collect_loop.simps) simp
    ultimately show ?thesis using "1.prems"(2) by simp
  qed
qed

lemma collect_order_walk:
  assumes "vfs_wf s"
  shows "walk_inv s (collect_order s) (length (collect_order s))"
proof -
  have "walk_inv s [ROOT_ID] 0"
    using assms view_wfD(6) [of "vview s"] by (auto simp: walk_inv_def vfs_wf_def)
  with collect_loop_walk [OF assms this] show ?thesis by (auto simp: collect_order_def)
qed

section \<open>The interface of the disk\<close>

text \<open>Block \<open>b\<close> of the file system, from the sectors of the disk.\<close>

definition disk_block :: "(nat \<Rightarrow> bytes) \<Rightarrow> nat \<Rightarrow> bytes" where
  "disk_block sec b = concat (map sec [2048 + 8 * b..<2048 + 8 * b + 8])"

lemma length_disk_block: "(\<And>a. length (sec a) = 512) \<Longrightarrow> length (disk_block sec b) = 4096"
  by (simp add: disk_block_def length_concat comp_def sum_list_triv)

lemma block_lba:
  assumes "unat (b :: u32) < 1024"
  shows "unat (FS_LBA + b * ucast SECTORS_PER_BLOCK) = 2048 + 8 * unat b"
proof -
  have "unat (b * 8) = unat b * 8"
    using assms by (subst unat_mult_lem [THEN iffD1]) simp_all
  moreover have "unat (2048 + b * 8) = 2048 + unat (b * 8)"
    using assms calculation by (subst unat_add_lem [THEN iffD1]) simp_all
  ultimately show ?thesis by (simp add: FS_LBA_def SECTORS_PER_BLOCK_def)
qed

lemma concat_slices: "length buf = n * k \<Longrightarrow> concat (map (\<lambda>i. bslice (i * k) k buf) [0..<n]) = buf"
proof (induction n arbitrary: buf)
  case (Suc n)
  then have ih: "concat (map (\<lambda>i. bslice (i * k) k (take (n * k) buf)) [0..<n]) = take (n * k) buf"
    by simp
  have "bslice (i * k) k (take (n * k) buf) = bslice (i * k) k buf" if "i < n" for i
  proof -
    have "i * k + k \<le> n * k"
      using mult_le_mono1 [of "Suc i" n k] that by simp
    then show ?thesis by (simp add: bslice_def drop_take min_def)
  qed
  then have "map (\<lambda>i. bslice (i * k) k (take (n * k) buf)) [0..<n] = map (\<lambda>i. bslice (i * k) k buf) [0..<n]"
    by simp
  moreover have "take (n * k) buf @ bslice (n * k) k buf = buf"
    using Suc.prems by (simp add: bslice_def)
  ultimately show ?case using ih by (simp del: map_eq_conv)
qed simp

locale sector_disk =
  fixes rd :: "'d reader"
    and wr :: "'d writer"
    and ready :: "nat \<Rightarrow> 'd \<Rightarrow> bool"
    and cap :: "nat \<Rightarrow> 'd \<Rightarrow> nat"
    and sector :: "'d \<Rightarrow> nat \<Rightarrow> bytes"
  assumes sector_length: "ready i d \<Longrightarrow> length (sector d a) = 512"
    and rd_law: "ready i d \<Longrightarrow> 0 < unat n \<Longrightarrow> unat lba + unat n \<le> cap i d \<Longrightarrow> unat n * 512 \<le> length buf \<Longrightarrow>
      \<exists>d'. rd i lba n buf d = ((True, put_at 0 (concat (map (sector d) [unat lba..<unat lba + unat n])) buf), d') \<and>
        ready i d' \<and> cap i d' = cap i d \<and> sector d' = sector d"
    and wr_law: "ready i d \<Longrightarrow> 0 < unat n \<Longrightarrow> unat lba + unat n \<le> cap i d \<Longrightarrow> unat n * 512 \<le> length buf \<Longrightarrow>
      \<exists>d'. wr i lba n buf d = (True, d') \<and> ready i d' \<and> cap i d' = cap i d \<and>
        sector d' = (\<lambda>a. if unat lba \<le> a \<and> a < unat lba + unat n then bslice ((a - unat lba) * 512) 512 buf else sector d a)"
begin

text \<open>The disk is there and large enough for the file system.\<close>

definition usable :: "nat \<Rightarrow> 'd \<Rightarrow> bool" where
  "usable i d \<longleftrightarrow> ready i d \<and> 10240 \<le> cap i d"

lemma length_block: "usable i d \<Longrightarrow> length (disk_block (sector d) b) = 4096"
  by (rule length_disk_block) (auto simp: usable_def intro: sector_length)

lemma read_block_law:
  assumes u: "usable i d" and b: "unat b < 1024" and len: "length buf = 4096"
  obtains d' where "read_block rd i b buf d = ((True, disk_block (sector d) (unat b)), d')"
    "usable i d'" "sector d' = sector d"
proof -
  have lba: "unat (FS_LBA + b * ucast SECTORS_PER_BLOCK) = 2048 + 8 * unat b" by (rule block_lba [OF b])
  have "put_at 0 (disk_block (sector d) (unat b)) buf = disk_block (sector d) (unat b)"
    using len length_block [OF u] by (simp add: put_at_def)
  moreover have "\<not> BLOCK_COUNT \<le> b"
    using b by (simp add: BLOCK_COUNT_def word_le_nat_alt)
  moreover obtain d' where "rd i (FS_LBA + b * ucast SECTORS_PER_BLOCK) SECTORS_PER_BLOCK buf d =
      ((True, put_at 0 (disk_block (sector d) (unat b)) buf), d')" "ready i d'" "cap i d' = cap i d" "sector d' = sector d"
    using rd_law [of i d SECTORS_PER_BLOCK "FS_LBA + b * ucast SECTORS_PER_BLOCK" buf] u b len
    unfolding lba disk_block_def by (auto simp: usable_def SECTORS_PER_BLOCK_def)
  ultimately show thesis
    using u that [of d'] by (simp add: read_block_def usable_def)
qed

lemma write_block_law:
  assumes u: "usable i d" and b: "unat b < 1024" and len: "length buf = 4096"
  obtains d' where "write_block wr i b buf d = (True, d')" "usable i d'"
    "disk_block (sector d') = (disk_block (sector d))(unat b := buf)"
proof -
  let ?a = "2048 + 8 * unat b"
  have lba: "unat (FS_LBA + b * ucast SECTORS_PER_BLOCK) = ?a" by (rule block_lba [OF b])
  obtain d' where w: "wr i (FS_LBA + b * ucast SECTORS_PER_BLOCK) SECTORS_PER_BLOCK buf d = (True, d')" "ready i d'"
      "cap i d' = cap i d" "sector d' = (\<lambda>a. if ?a \<le> a \<and> a < ?a + 8 then bslice ((a - ?a) * 512) 512 buf else sector d a)"
    using wr_law [of i d SECTORS_PER_BLOCK "FS_LBA + b * ucast SECTORS_PER_BLOCK" buf] u b len
    unfolding lba by (auto simp: usable_def SECTORS_PER_BLOCK_def)
  have "disk_block (sector d') c = (if c = unat b then buf else disk_block (sector d) c)" for c
  proof (cases "c = unat b")
    case True
    have "map (sector d') [?a..<?a + 8] = map (\<lambda>i. bslice (i * 512) 512 buf) [0..<8]"
      by (rule nth_equalityI) (simp_all add: w(4))
    then show ?thesis
      using True concat_slices [of buf 8 512] len by (simp add: disk_block_def)
  next
    case False
    then have "map (sector d') [2048 + 8 * c..<2048 + 8 * c + 8] = map (sector d) [2048 + 8 * c..<2048 + 8 * c + 8]"
      by (auto simp: w(4))
    with False show ?thesis by (simp add: disk_block_def del: map_eq_conv)
  qed
  then have "disk_block (sector d') = (disk_block (sector d))(unat b := buf)" by auto
  moreover have "\<not> BLOCK_COUNT \<le> b"
    using b by (simp add: BLOCK_COUNT_def word_le_nat_alt)
  ultimately show thesis
    using u w that [of d'] by (simp add: write_block_def usable_def)
qed

lemma read_superblock_law:
  assumes "usable i d"
  obtains d' where "read_superblock rd i d =
      (if from_le64 (disk_block (sector d) 0) = FS_MAGIC then Some (unpack_superblock (disk_block (sector d) 0)) else None, d')"
    "usable i d'" "sector d' = sector d"
proof -
  obtain d' where "read_block rd i 0 (replicate 4096 0) d = ((True, disk_block (sector d) 0), d')"
      "usable i d'" "sector d' = sector d"
    using read_block_law [OF assms, of 0 "replicate 4096 0"] by auto
  with that [of d'] show thesis by (simp add: read_superblock_def BLOCK_SIZE_def)
qed

lemma write_superblock_law:
  assumes "usable i d"
  obtains d' where "write_superblock wr i sb d = (True, d')" "usable i d'"
    "disk_block (sector d') = (disk_block (sector d))(0 := pack_superblock sb)"
  using write_block_law [OF assms, of 0 "pack_superblock sb"] that by (auto simp: write_superblock_def)

text \<open>A formatted disk holds a superblock and a table with the root only.\<close>

lemma disk_format_law:
  assumes "usable i d"
  obtains d' where "disk_format wr i d = (True, d')" "usable i d'"
    "disk_block (sector d') 0 = pack_superblock (new_superblock 0)"
    "disk_block (sector d') 1 = put_at 0 (pack_inode root_inode) (replicate 4096 0)"
proof -
  let ?t = "put_at 0 (pack_inode root_inode) (replicate 4096 0)"
  have len: "length ?t = 4096" by (simp add: root_inode_def)
  obtain d1 where 1: "write_block wr i 1 ?t d = (True, d1)" "usable i d1"
      "disk_block (sector d1) = (disk_block (sector d))(1 := ?t)"
    using write_block_law [OF assms, of 1 ?t] len by auto
  obtain d2 where 2: "write_block wr i 2 (replicate 4096 0) d1 = (True, d2)" "usable i d2"
      "disk_block (sector d2) = (disk_block (sector d1))(2 := replicate 4096 0)"
    using write_block_law [OF 1(2), of 2 "replicate 4096 0"] by auto
  obtain d3 where 3: "write_superblock wr i (new_superblock 0) d2 = (True, d3)" "usable i d3"
      "disk_block (sector d3) = (disk_block (sector d2))(0 := pack_superblock (new_superblock 0))"
    using write_superblock_law [OF 2(2)] by blast
  have "disk_format wr i d = (True, d3)"
    using 1(1) 2(1) 3(1) by (simp add: disk_format_def disk_consts root_inode_def)
  then show thesis by (rule that) (use 1 2 3 in simp_all)
qed

text \<open>Writing the blocks of one file.\<close>

lemma save_blocks_law:
  assumes "usable i d" "first + n \<le> 1024" "k \<le> n" "n = (4095 + sz) div 4096"
    "save_blocks wr i s vid sz first [k..<n] (min sz (4096 * k)) d = Inr d'"
  shows "usable i d' \<and> disk_block (sector d') =
    (\<lambda>c. if first + k \<le> c \<and> c < first + n then file_block s vid sz (c - first) else disk_block (sector d) c)"
  using assms
proof (induction "n - k" arbitrary: k d)
  case 0
  then show ?case by (auto simp: fun_eq_iff)
next
  case (Suc m)
  then have kn: "k < n" by simp
  then have off: "4096 * k < sz" using Suc.prems(4) by (simp add: less_eq_div_iff_mult_less_eq Suc_le_eq [symmetric])
  let ?c = "min 4096 (sz - 4096 * k)"
  have next_off: "4096 * k + ?c = min sz (4096 * Suc k)" using off by auto
  have upt: "[k..<n] = k # [Suc k..<n]" using kn by (simp add: upt_conv_Cons)
  from Suc.prems(5) off upt have len: "length (read_file_at vid (4096 * k) ?c s) = ?c"
    by (auto simp: BLOCK_SIZE_def Let_def split: if_splits)
  have w: "unat (of_nat (first + k) :: u32) = first + k"
    using Suc.prems(2) kn by (simp add: unat_of_nat del: of_nat_add)
  have fb: "length (file_block s vid sz k) = 4096"
    using len by (simp add: file_block_def)
  obtain d1 where d1: "write_block wr i (of_nat (first + k)) (file_block s vid sz k) d = (True, d1)" "usable i d1"
      "disk_block (sector d1) = (disk_block (sector d))(first + k := file_block s vid sz k)"
    using write_block_law [OF Suc.prems(1), of "of_nat (first + k)" "file_block s vid sz k"] w fb Suc.prems(2) kn by auto
  have "save_blocks wr i s vid sz first [Suc k..<n] (min sz (4096 * Suc k)) d1 = Inr d'"
    using Suc.prems(5) off upt len d1(1) next_off
    by (simp add: BLOCK_SIZE_def Let_def file_block_def)
  then have "usable i d' \<and> disk_block (sector d') =
    (\<lambda>c. if first + Suc k \<le> c \<and> c < first + n then file_block s vid sz (c - first) else disk_block (sector d1) c)"
    using Suc.hyps(2) Suc.prems kn d1(2) by (intro Suc.hyps(1)) auto
  then show ?case using kn by (auto simp: d1(3) fun_eq_iff)
qed

lemma save_data_law:
  assumes inv: "save_inv (\<lambda>d. disk_block (sector d)) s order k st" and u: "usable i (sv_disk st)"
    and sz: "get_size (order ! k) s = sz" and ok: "save_data wr i s (order ! k) r st = Inr (r', st')"
    and isf: "get_type (order ! k) s \<noteq> Some Dir" and nx: "sv_next st = offset_of s order k"
  shows "save_inv (\<lambda>d. disk_block (sector d)) s order k st' \<and> usable i (sv_disk st') \<and>
    extent_below s (order ! k) (3 + sv_next st') r' \<and>
    extent_at s order k r' \<and> sv_next st' = sv_next st + need_blocks s (order ! k) \<and>
    (\<exists>f c. r' = r\<lparr>d_size := of_nat sz, d_first_block := f, d_block_count := c\<rparr> \<and>
      (\<forall>b < blocks_of sz. disk_block (sector (sv_disk st')) (unat f + b) = file_block s (order ! k) sz b))"
proof (cases "sz = 0")
  case True
  then have "r' = r\<lparr>d_size := of_nat sz\<rparr>" "st' = st"
    using ok sz by (simp_all add: save_data_def)
  moreover have "r\<lparr>d_size := of_nat sz\<rparr> = r\<lparr>d_size := of_nat sz, d_first_block := d_first_block r, d_block_count := d_block_count r\<rparr>"
    by simp
  ultimately show ?thesis
    using True inv u sz
    by (intro conjI exI [of _ "d_first_block r"] exI [of _ "d_block_count r"]) (simp_all add: extent_below_def extent_at_def need_blocks_def blocks_of_def)
next
  case False
  let ?n = "blocks_of sz" and ?f = "3 + sv_next st"
  from False ok sz obtain dk where dk: "sv_next st + ?n \<le> 1021"
      "save_blocks wr i s (order ! k) sz ?f [0..<?n] 0 (sv_disk st) = Inr dk"
      "r' = r\<lparr>d_size := of_nat sz, d_first_block := of_nat ?f, d_block_count := of_nat ?n\<rparr>"
      "st' = st\<lparr>sv_disk := dk, sv_bitmap := mark_blocks (sv_next st) ?n (sv_bitmap st), sv_next := sv_next st + ?n\<rparr>"
    by (auto simp: save_data_def disk_consts blocks_of_def Let_def split: if_splits sum.splits)
  then have B: "usable i dk" "disk_block (sector dk) =
      (\<lambda>c. if ?f \<le> c \<and> c < ?f + ?n then file_block s (order ! k) sz (c - ?f) else disk_block (sector (sv_disk st)) c)"
    using save_blocks_law [OF u, of ?f ?n 0 sz s "order ! k" dk] by (simp_all add: blocks_of_def)
  have uf: "unat (of_nat ?f :: u32) = ?f"
    using dk(1) by (simp add: unat_of_nat del: of_nat_add)
  have keep: "entry_image s order (disk_block (sector dk)) j q" "extent_below s (order ! j) (3 + (sv_next st + ?n)) q"
    if "entry_image s order (disk_block (sector (sv_disk st))) j q" "extent_below s (order ! j) ?f q" for j q
  proof -
    have "disk_block (sector dk) (unat (d_first_block q) + b) = disk_block (sector (sv_disk st)) (unat (d_first_block q) + b)"
      if "get_type (order ! j) s \<noteq> Some Dir" "b < blocks_of (get_size (order ! j) s)" for b
      using \<open>extent_below s (order ! j) ?f q\<close> that by (auto simp: B(2) extent_below_def blocks_of_def)
    with that(1) show "entry_image s order (disk_block (sector dk)) j q"
      by (simp add: entry_image_def Let_def)
    show "extent_below s (order ! j) (3 + (sv_next st + ?n)) q"
      using that(2) by (auto simp: extent_below_def)
  qed
  have "marks_below (mark_blocks (sv_next st) ?n (sv_bitmap st)) (sv_next st + ?n)"
    using inv dk(1) by (intro mark_blocks_marks) (simp_all add: save_inv_def)
  then have "save_inv (\<lambda>d. disk_block (sector d)) s order k st'"
    using inv dk(1) keep unfolding save_inv_def dk(4) by (simp add: add.assoc) meson
  moreover have "extent_below s (order ! k) (3 + sv_next st') r'"
    using sz uf by (simp add: extent_below_def dk(3,4) del: of_nat_add)
  moreover have "unat (of_nat ?n :: u32) = ?n" using dk(1) by (simp add: unat_of_nat)
  then have "extent_at s order k r' \<and> sv_next st' = sv_next st + need_blocks s (order ! k)"
    using sz uf isf nx by (simp add: extent_at_def need_blocks_def dk(3,4) del: of_nat_add)
  moreover have "\<forall>b < ?n. disk_block (sector (sv_disk st')) (unat (of_nat ?f :: u32) + b) = file_block s (order ! k) sz b"
    unfolding uf by (simp add: dk(4) B(2))
  ultimately show ?thesis using B(1) dk(3,4) by auto
qed

lemma save_entry_law:
  assumes inv: "save_inv (\<lambda>d. disk_block (sector d)) s order k st" and u: "usable i (sv_disk st)" and k: "k < 64"
    and vt: "get_type (order ! k) s = Some vt" and ok: "save_entry wr i s k (order ! k) st = Inr st'"
    and nx: "sv_next st = offset_of s order k" and kl: "k < length order"
  shows "save_inv (\<lambda>d. disk_block (sector d)) s order (Suc k) st' \<and> usable i (sv_disk st') \<and>
    sv_next st' = offset_of s order (Suc k)"
proof (cases "vt = Dir")
  case True
  let ?r = "inode_header s st (order ! k) vt"
  have "st' = put_inode k (order ! k) ?r st"
    using ok vt inode_header_image(2) [OF inv _ vt] True k by (simp add: save_entry_def)
  moreover have "extent_below s (order ! k) (3 + sv_next st) ?r" "extent_at s order k ?r"
    using True vt by (simp_all add: extent_below_def extent_at_def)
  moreover have "offset_of s order (Suc k) = sv_next st"
    using True vt nx by (simp add: offset_of_Suc [OF kl] need_blocks_def)
  ultimately show ?thesis
    using put_inode_inv [OF inv k inode_header_image(1) [OF inv _ vt] inode_header_image(3) [OF inv _ vt True]] k u
    by (simp add: put_inode_def)
next
  case False
  let ?r = "inode_header s st (order ! k) vt"
  obtain r' st1 where d: "save_data wr i s (order ! k) ?r st = Inr (r', st1)" "st' = put_inode k (order ! k) r' st1"
    using ok vt inode_header_image(2) [OF inv _ vt] False k
    by (auto simp: save_entry_def split: sum.splits)
  obtain f c where 1: "save_inv (\<lambda>d. disk_block (sector d)) s order k st1" "usable i (sv_disk st1)"
      "extent_below s (order ! k) (3 + sv_next st1) r'"
      "extent_at s order k r'" "sv_next st1 = sv_next st + need_blocks s (order ! k)"
      "r' = ?r\<lparr>d_size := of_nat (get_size (order ! k) s), d_first_block := f, d_block_count := c\<rparr>"
      "\<forall>b < blocks_of (get_size (order ! k) s).
        disk_block (sector (sv_disk st1)) (unat f + b) = file_block s (order ! k) (get_size (order ! k) s) b"
    using save_data_law [OF inv u refl d(1) _ nx] vt False by auto
  have img: "entry_image s order (disk_block (sector (sv_disk st1))) k r'"
    unfolding 1(6) using inode_header_image(4) [OF inv _ vt False 1(7)] k by simp
  have "length (d_name r') = 32"
    using inode_header_image(1) [OF inv _ vt] k 1(6) by simp
  then show ?thesis
    using put_inode_inv [OF 1(1) k _ img 1(3,4)] 1(2,5) d(2) nx by (simp add: put_inode_def offset_of_Suc [OF kl])
qed

lemma save_entries_law:
  assumes "save_inv (\<lambda>d. disk_block (sector d)) s order k st" "usable i (sv_disk st)" "length order \<le> 64"
    "\<forall>vid \<in> set order. get_type vid s \<noteq> None" "save_entries wr i s k (drop k order) st = Inr st'" "k \<le> length order"
    "sv_next st = offset_of s order k"
  shows "save_inv (\<lambda>d. disk_block (sector d)) s order (length order) st' \<and> usable i (sv_disk st') \<and>
    sv_next st' = offset_of s order (length order)"
  using assms
proof (induction "length order - k" arbitrary: k st)
  case (Suc m)
  then have k: "k < length order" by simp
  then have dr: "drop k order = order ! k # drop (Suc k) order" by (simp add: Cons_nth_drop_Suc)
  from Suc.prems(4) k obtain vt where vt: "get_type (order ! k) s = Some vt" by (auto dest: nth_mem)
  from Suc.prems(5) dr obtain st1 where st1: "save_entry wr i s k (order ! k) st = Inr st1"
      "save_entries wr i s (Suc k) (drop (Suc k) order) st1 = Inr st'"
    by (auto split: sum.splits)
  have "save_inv (\<lambda>d. disk_block (sector d)) s order (Suc k) st1 \<and> usable i (sv_disk st1) \<and>
      sv_next st1 = offset_of s order (Suc k)"
    using Suc.prems k by (intro save_entry_law [OF _ _ _ vt st1(1)]) simp_all
  then show ?case
    using Suc.hyps Suc.prems k st1 by (intro Suc.hyps(1) [of "Suc k" st1]) simp_all
qed simp

lemma save_inv_start:
  "save_inv blk s order 0 \<lparr>sv_disk = d, sv_inodes = replicate BLOCK_SIZE 0, sv_bitmap = replicate BLOCK_SIZE 0, sv_next = 0,
     sv_index = replicate MAX_VNODES u32_max, sv_vnodes = replicate MAX_VNODES 0\<rparr>"
  by (auto simp: save_inv_def marks_below_def BLOCK_SIZE_def MAX_VNODES_def less_mult_imp_div_less)

lemma disk_save_law:
  assumes u: "usable i d" and len: "length (collect_order s) \<le> 64"
    and live: "\<forall>vid \<in> set (collect_order s). get_type vid s \<noteq> None" and ok: "disk_save rd wr i s d = (True, d')"
  shows "usable i d' \<and> (\<exists>gen. disk_block (sector d') 0 = pack_superblock (new_superblock gen)) \<and>
    marks_below (disk_block (sector d') 2) (sum_list (map (need_blocks s) (collect_order s))) \<and>
    (\<forall>k < length (collect_order s).
      entry_image s (collect_order s) (disk_block (sector d')) k (unpack_inode (bslice (k * 64) 64 (disk_block (sector d') 1))) \<and>
      extent_below s (collect_order s ! k) 1024 (unpack_inode (bslice (k * 64) 64 (disk_block (sector d') 1))) \<and>
      extent_at s (collect_order s) k (unpack_inode (bslice (k * 64) 64 (disk_block (sector d') 1))))"
proof -
  let ?o = "collect_order s"
  obtain st where st: "save_entries wr i s 0 ?o \<lparr>sv_disk = d, sv_inodes = replicate BLOCK_SIZE 0, sv_bitmap = replicate BLOCK_SIZE 0,
      sv_next = 0, sv_index = replicate MAX_VNODES u32_max, sv_vnodes = replicate MAX_VNODES 0\<rparr> = Inr st"
    using ok by (auto simp: disk_save_def split: sum.splits)
  have inv: "save_inv (\<lambda>d. disk_block (sector d)) s ?o (length ?o) st" "usable i (sv_disk st)"
      "sv_next st = sum_list (map (need_blocks s) ?o)"
    using save_entries_law [OF save_inv_start _ len live, of i d st] st u by (simp_all add: offset_of_def)
  have bm: "length (sv_bitmap st) = 4096" using inv(1) by (simp add: save_inv_def marks_below_def)
  have t: "length (sv_inodes st) = 4096" using inv(1) by (simp add: save_inv_def)
  obtain d1 where 1: "write_block wr i 1 (sv_inodes st) (sv_disk st) = (True, d1)" "usable i d1"
      "disk_block (sector d1) = (disk_block (sector (sv_disk st)))(1 := sv_inodes st)"
    using write_block_law [OF inv(2), of 1] t by auto
  obtain d2 where 2: "write_block wr i 2 (sv_bitmap st) d1 = (True, d2)" "usable i d2"
      "disk_block (sector d2) = (disk_block (sector d1))(2 := sv_bitmap st)"
    using write_block_law [OF 1(2), of 2] bm by auto
  obtain sb d3 where 3: "read_superblock rd i d2 = (sb, d3)" "usable i d3" "sector d3 = sector d2"
    using read_superblock_law [OF 2(2)] by metis
  let ?g = "(case sb of Some sb \<Rightarrow> sb_generation sb | None \<Rightarrow> 0) + 1"
  obtain d4 where 4: "write_superblock wr i (new_superblock ?g) d3 = (True, d4)" "usable i d4"
      "disk_block (sector d4) = (disk_block (sector d3))(0 := pack_superblock (new_superblock ?g))"
    using write_superblock_law [OF 3(2)] by blast
  have d': "d' = d4"
    using ok st 1(1) 2(1) 3(1) 4(1) by (simp add: disk_save_def disk_consts)
  have B: "disk_block (sector d4) = (disk_block (sector (sv_disk st)))
      (1 := sv_inodes st, 2 := sv_bitmap st, 0 := pack_superblock (new_superblock ?g))"
    using 1(3) 2(3) 3(3) 4(3) by simp
  have "entry_image s ?o (disk_block (sector d4)) k (unpack_inode (bslice (k * 64) 64 (disk_block (sector d4) 1))) \<and>
      extent_below s (?o ! k) 1024 (unpack_inode (bslice (k * 64) 64 (disk_block (sector d4) 1))) \<and>
      extent_at s ?o k (unpack_inode (bslice (k * 64) 64 (disk_block (sector d4) 1)))"
    if k: "k < length ?o" for k
  proof -
    obtain r where r: "length (d_name r) = 32" "bslice (k * 64) 64 (sv_inodes st) = pack_inode r"
        "entry_image s ?o (disk_block (sector (sv_disk st))) k r" "extent_below s (?o ! k) (3 + sv_next st) r"
        "extent_at s ?o k r"
      using inv(1) k by (auto simp: save_inv_def)
    have "disk_block (sector d4) (unat (d_first_block r) + b) = disk_block (sector (sv_disk st)) (unat (d_first_block r) + b)"
      if "get_type (?o ! k) s \<noteq> Some Dir" "b < blocks_of (get_size (?o ! k) s)" for b
      using r(4) that by (auto simp: B extent_below_def blocks_of_def)
    with r(3) have "entry_image s ?o (disk_block (sector d4)) k r"
      by (simp add: entry_image_def Let_def)
    moreover have "disk_block (sector d4) 1 = sv_inodes st" by (simp add: B)
    moreover have "extent_below s (?o ! k) 1024 r"
      using r(4) inv(1) by (auto simp: extent_below_def save_inv_def)
    ultimately show ?thesis using r(1,2,5) by (simp add: unpack_pack_inode)
  qed
  moreover have "marks_below (disk_block (sector d4) 2) (sum_list (map (need_blocks s) ?o))"
    using inv(1,3) by (simp add: B save_inv_def)
  moreover have "disk_block (sector d4) 0 = pack_superblock (new_superblock ?g)" by (simp add: B)
  ultimately show ?thesis using d' 4(2) by blast
qed

text \<open>Reading the blocks of a file back.\<close>

lemma load_blocks_law:
  assumes "usable i d" "unat f + blocks_of sz \<le> 1024" "length buf = 65536" "sz \<le> 65536" "length block = 4096"
    "\<forall>b < blocks_of sz. disk_block (sector d) (unat f + b) = file_block s vid sz b"
    "length (read_file_at vid 0 sz s) = sz" "get_size vid s = sz" "k \<le> blocks_of sz"
    "take (min sz (4096 * k)) buf = take (min sz (4096 * k)) (read_file_at vid 0 sz s)"
  shows "\<exists>buf' d'. load_blocks rd i f sz (min sz (4096 * k)) buf block d = (buf', d') \<and>
    take sz buf' = read_file_at vid 0 sz s \<and> usable i d' \<and> sector d' = sector d"
  using assms
proof (induction "blocks_of sz - k" arbitrary: k buf block d)
  case 0
  then have "k = blocks_of sz" by simp
  then have "min sz (4096 * k) = sz" by (simp add: blocks_of_def)
  with 0 show ?case by (subst load_blocks.simps) simp
next
  case (Suc m)
  then have k: "k < blocks_of sz" by simp
  then have off: "4096 * k < sz" by (simp add: blocks_of_def less_eq_div_iff_mult_less_eq Suc_le_eq [symmetric])
  let ?c = "min 4096 (sz - 4096 * k)" and ?x = "read_file_at vid 0 sz s"
  have u: "unat (f + of_nat k) = unat f + k"
    using Suc.prems(2) k by (subst unat_add_lem [THEN iffD1]) (simp_all add: unat_of_nat)
  obtain d1 where d1: "read_block rd i (f + of_nat k) block d = ((True, file_block s vid sz k), d1)" "usable i d1" "sector d1 = sector d"
    using read_block_law [OF Suc.prems(1), of "f + of_nat k" block] u k Suc.prems(2,5,6) by auto
  have chunk: "take ?c (file_block s vid sz k) = bslice (4096 * k) ?c ?x"
    using read_file_at_slice [of vid s sz "4096 * k" ?c] Suc.prems(7,8) off
    by (simp add: file_block_def put_at_def bslice_def)
  let ?buf = "put_at (4096 * k) (bslice (4096 * k) ?c ?x) buf"
  have lc: "length (bslice (4096 * k) ?c ?x) = ?c" using Suc.prems(7) off by simp
  have nxt: "4096 * k + ?c = min sz (4096 * Suc k)" using off by auto
  have "take (4096 * k) buf = take (4096 * k) ?x" using Suc.prems(10) off by (simp add: min_def)
  then have pre: "take (min sz (4096 * Suc k)) ?buf = take (min sz (4096 * Suc k)) ?x"
    unfolding nxt [symmetric] using lc Suc.prems(3,4) off
    by (simp add: put_at_def take_add bslice_def)
  have "load_blocks rd i f sz (min sz (4096 * k)) buf block d =
      load_blocks rd i f sz (min sz (4096 * Suc k)) ?buf (file_block s vid sz k) d1"
    using off d1(1) chunk nxt by (subst load_blocks.simps) (simp add: BLOCK_SIZE_def Let_def min_absorb2)
  moreover have "length (file_block s vid sz k) = 4096"
    using read_file_at_slice [of vid s sz "4096 * k" ?c] Suc.prems(7,8) off by (simp add: file_block_def)
  moreover have "length ?buf = 65536" using lc Suc.prems(3,4) off by simp
  ultimately show ?case
    using Suc.hyps(1) [of "Suc k" d1 ?buf "file_block s vid sz k"] Suc.hyps(2) Suc.prems k d1(2,3) pre by simp
qed

end

section \<open>Loading\<close>

lemma load_entries_None:
  "load_entries rd i sb table js st = None \<longleftrightarrow> (\<exists>j \<in> set js. length table < (j + 1) * INODE_SIZE)"
  by (induction js arbitrary: st) auto

lemma load_entries_blank:
  assumes "\<forall>j \<in> set js. (j + 1) * 64 \<le> length table \<and> table ! (j * 64) = 0"
  shows "load_entries rd i sb table js st = Some st"
  using assms
proof (induction js)
  case (Cons j js)
  then have "d_used (unpack_inode (bslice (j * 64) 64 table)) = 0"
    by (simp add: unpack_inode_def nth_bslice)
  with Cons show ?case
    by (simp add: INODE_SIZE_def load_entry_def case_prod_beta)
qed simp

lemma reset_root_attrs:
  "snd (set_mode ROOT_ID MODE_DIR (snd (set_owner ROOT_ID UID_ROOT GID_ROOT (vfs_reset s)))) = vfs_reset s"
proof -
  have "find_slot ROOT_ID (vfs_reset s) = Some 0"
    by (simp add: find_slot_Some [OF table_ok_reset] nth_reset ROOT_ID_def)
  moreover have "vnode_at 0 (vfs_reset s) = root_vnode" by (simp add: vnode_at_def nth_reset)
  moreover have "root_vnode\<lparr>v_uid := UID_ROOT, v_gid := GID_ROOT\<rparr> = root_vnode" "root_vnode\<lparr>v_mode := MODE_DIR\<rparr> = root_vnode"
    by (simp_all add: root_vnode_def)
  moreover have "put_vnode 0 root_vnode (vfs_reset s) = vfs_reset s"
    by (simp add: put_vnode_def vfs_reset_eq)
  ultimately show ?thesis by (simp add: set_owner_def set_mode_def)
qed

lemma load_entries_root:
  assumes "table = put_at 0 (pack_inode root_inode) (replicate 4096 0)" "sb_root_inode sb = 0"
  shows "load_entries rd i sb table [0..<64] ((vfs_reset s, ids), d) = Some ((vfs_reset s, ids[0 := ROOT_ID]), d)"
proof -
  have n: "length (d_name root_inode) = 32" by (simp add: root_inode_def)
  have "bslice 0 64 table = pack_inode root_inode"
    unfolding assms(1) using n by (intro bslice_put_at_same) simp_all
  then have "load_entry rd i sb 0 (unpack_inode (bslice 0 64 table)) ((vfs_reset s, ids), d) =
      ((vfs_reset s, ids[0 := ROOT_ID]), d)"
    using n reset_root_attrs [of s] assms(2)
    by (simp add: unpack_pack_inode load_entry_def root_inode_def disk_inode_blank_def)
  moreover have "load_entries rd i sb table [1..<64] st = Some st" for st
    using n by (intro load_entries_blank) (auto simp: assms(1) nth_put_at)
  moreover have "[0..<64] = 0 # [1..<64 :: nat]" by (simp add: upt_conv_Cons)
  moreover have "length table = 4096" using n by (simp add: assms(1))
  ultimately show ?thesis by (simp add: INODE_SIZE_def)
qed

context sector_disk
begin

lemma disk_load_None:
  assumes u: "usable i d"
  defines "sb \<equiv> unpack_superblock (disk_block (sector d) 0)"
  shows "disk_load rd i s d = None \<longleftrightarrow>
    from_le64 (disk_block (sector d) 0) = FS_MAGIC \<and> sb_block_size sb = 4096 \<and> sb_version sb = 1 \<and>
    unat (sb_inode_table_block sb) < 1024 \<and> 64 < unat (sb_inode_count sb)"
proof -
  obtain d1 where 1: "read_superblock rd i d =
      (if from_le64 (disk_block (sector d) 0) = FS_MAGIC then Some sb else None, d1)" "usable i d1" "sector d1 = sector d"
    using read_superblock_law [OF u] unfolding sb_def by blast
  show ?thesis
  proof (cases "from_le64 (disk_block (sector d) 0) = FS_MAGIC \<and> sb_block_size sb = 4096 \<and> sb_version sb = 1 \<and>
      unat (sb_inode_table_block sb) < 1024")
    case True
    then obtain t d2 where 2: "read_block rd i (sb_inode_table_block sb) (replicate 4096 0) d1 = ((True, t), d2)" "length t = 4096"
      using read_block_law [OF 1(2), of "sb_inode_table_block sb" "replicate 4096 0"] length_block [OF 1(2)] by (metis length_replicate)
    have "(\<exists>j \<in> set [0..<unat (sb_inode_count sb)]. length t < (j + 1) * INODE_SIZE) \<longleftrightarrow> 64 < unat (sb_inode_count sb)"
      using 2(2) by (auto simp: INODE_SIZE_def intro: bexI [of _ 64])
    then show ?thesis
      using True 1(1) 2(1) by (simp add: disk_load_def BLOCK_SIZE_def load_entries_None)
  next
    case False
    have "fst (fst (read_block rd i b buf d1)) = False" if "\<not> unat b < 1024" for b buf
      using that by (simp add: read_block_def BLOCK_COUNT_def word_le_nat_alt)
    with False 1(1) show ?thesis
      by (auto simp: disk_load_def BLOCK_SIZE_def split: prod.splits) (metis fst_conv)
  qed
qed

lemma format_load:
  assumes u: "usable i d"
  obtains d' d'' where "disk_format wr i d = (True, d')" "disk_load rd i s d' = Some ((True, vfs_reset s), d'')"
    "fst (disk_is_present rd i d')"
proof -
  obtain d1 where 1: "disk_format wr i d = (True, d1)" "usable i d1"
      "disk_block (sector d1) 0 = pack_superblock (new_superblock 0)"
      "disk_block (sector d1) 1 = put_at 0 (pack_inode root_inode) (replicate 4096 0)"
    by (rule disk_format_law [OF u])
  obtain d2 where 2: "read_superblock rd i d1 = (Some (new_superblock 0), d2)" "usable i d2" "sector d2 = sector d1"
    using read_superblock_law [OF 1(2)] 1(3)
    by (metis magic_pack unpack_pack_superblock new_superblock_def superblock.select_convs(1))
  obtain d3 where 3: "read_block rd i 1 (replicate 4096 0) d2 =
      ((True, put_at 0 (pack_inode root_inode) (replicate 4096 0)), d3)"
    using read_block_law [OF 2(2), of 1 "replicate 4096 0"] 2(3) 1(4) by auto
  have "disk_load rd i s d1 = Some ((True, vfs_reset s), d3)"
    using 2(1) 3 load_entries_root [of _ "new_superblock 0" rd i s "replicate 64 0" d3]
    by (simp add: disk_load_def new_superblock_def disk_consts)
  moreover have "fst (disk_is_present rd i d1)" using 2(1) by (simp add: disk_is_present_def)
  ultimately show thesis using that 1(1) by blast
qed

end

section \<open>When saving succeeds\<close>

text \<open>An entry whose contents can be read.\<close>

definition readable :: "fs \<Rightarrow> u64 \<Rightarrow> bool" where
  "readable s vid \<longleftrightarrow> get_type vid s = Some Dir \<or> length (read_file_at vid 0 (get_size vid s) s) = get_size vid s"

context sector_disk
begin

lemma save_blocks_ok:
  assumes "usable i d" "first + blocks_of sz \<le> 1024" "k \<le> blocks_of sz" "get_size vid s = sz"
    "length (read_file_at vid 0 sz s) = sz"
  shows "\<exists>d'. save_blocks wr i s vid sz first [k..<blocks_of sz] (min sz (4096 * k)) d = Inr d'"
  using assms
proof (induction "blocks_of sz - k" arbitrary: k d)
  case (Suc m)
  then have k: "k < blocks_of sz" by simp
  then have off: "4096 * k < sz" by (simp add: blocks_of_def less_eq_div_iff_mult_less_eq Suc_le_eq [symmetric])
  let ?c = "min 4096 (sz - 4096 * k)"
  have nxt: "4096 * k + ?c = min sz (4096 * Suc k)" using off by auto
  have len: "length (read_file_at vid (4096 * k) ?c s) = ?c"
    using read_file_at_slice [of vid s sz "4096 * k" ?c] Suc.prems(4,5) off by simp
  have u: "unat (of_nat (first + k) :: u32) = first + k"
    using Suc.prems(2) k by (simp add: unat_of_nat del: of_nat_add)
  obtain d1 where d1: "write_block wr i (of_nat (first + k)) (file_block s vid sz k) d = (True, d1)" "usable i d1"
    using write_block_law [OF Suc.prems(1), of "of_nat (first + k)" "file_block s vid sz k"] u len Suc.prems(2) k
    by (auto simp: file_block_def)
  have "[k..<blocks_of sz] = k # [Suc k..<blocks_of sz]" using k by (simp add: upt_conv_Cons)
  then have "save_blocks wr i s vid sz first [k..<blocks_of sz] (min sz (4096 * k)) d =
      save_blocks wr i s vid sz first [Suc k..<blocks_of sz] (min sz (4096 * Suc k)) d1"
    using off len d1(1) nxt by (simp add: BLOCK_SIZE_def Let_def file_block_def min_absorb2)
  with Suc.hyps(1) [of "Suc k" d1] Suc.hyps(2) Suc.prems k d1(2) show ?case by simp
qed simp

lemma save_entry_ok:
  assumes u: "usable i (sv_disk st)" and vt: "get_type vid s = Some vt" and rd: "readable s vid"
    and fit: "sv_next st + need_blocks s vid \<le> 1021"
  shows "\<exists>st'. save_entry wr i s k vid st = Inr st' \<and> sv_next st' = sv_next st + need_blocks s vid"
proof (cases "vt = Dir")
  case True
  then show ?thesis using vt
    by (simp add: save_entry_def inode_header_def Let_def put_inode_def need_blocks_def)
next
  case False
  let ?sz = "get_size vid s"
  have ty: "d_vtype (inode_header s st vid vt) = 0"
    using False by (cases vt) (simp_all add: inode_header_def Let_def)
  show ?thesis
  proof (cases "?sz = 0")
    case True
    then show ?thesis using vt ty False
      by (simp add: save_entry_def save_data_def put_inode_def need_blocks_def blocks_of_def)
  next
    case sz: False
    have nb: "need_blocks s vid = (4095 + ?sz) div 4096"
      using False vt by (simp add: need_blocks_def blocks_of_def)
    have fit': "sv_next st + (4095 + ?sz) div 4096 \<le> 1021" using fit nb by simp
    obtain dk where "save_blocks wr i s vid ?sz (3 + sv_next st) [0..<(4095 + ?sz) div 4096] 0 (sv_disk st) = Inr dk"
      using save_blocks_ok [OF u, of "3 + sv_next st" ?sz 0 vid s] rd vt False fit' by (auto simp: readable_def blocks_of_def)
    with sz vt ty fit' nb show ?thesis
      by (simp add: save_entry_def save_data_def disk_consts put_inode_def Let_def)
  qed
qed

lemma save_entries_ok:
  assumes "save_inv (\<lambda>d. disk_block (sector d)) s order k st" "usable i (sv_disk st)" "length order \<le> 64" "k \<le> length order"
    "\<forall>vid \<in> set order. get_type vid s \<noteq> None \<and> readable s vid"
    "sv_next st + sum_list (map (need_blocks s) (drop k order)) \<le> 1021" "sv_next st = offset_of s order k"
  shows "\<exists>st'. save_entries wr i s k (drop k order) st = Inr st'"
  using assms
proof (induction "length order - k" arbitrary: k st)
  case (Suc m)
  then have k: "k < length order" by simp
  then have dr: "drop k order = order ! k # drop (Suc k) order" by (simp add: Cons_nth_drop_Suc)
  from Suc.prems(5) k obtain vt where vt: "get_type (order ! k) s = Some vt" "readable s (order ! k)" by (auto dest: nth_mem)
  obtain st1 where st1: "save_entry wr i s k (order ! k) st = Inr st1" "sv_next st1 = sv_next st + need_blocks s (order ! k)"
    using save_entry_ok [OF Suc.prems(2) vt, of k] Suc.prems(6) dr by auto
  have inv: "save_inv (\<lambda>d. disk_block (sector d)) s order (Suc k) st1 \<and> usable i (sv_disk st1) \<and>
      sv_next st1 = offset_of s order (Suc k)"
    using Suc.prems k by (intro save_entry_law [OF _ _ _ vt(1) st1(1)]) simp_all
  have "\<exists>st'. save_entries wr i s (Suc k) (drop (Suc k) order) st1 = Inr st'"
    using Suc.hyps Suc.prems k st1 dr inv by (intro Suc.hyps(1) [of "Suc k" st1]) simp_all
  with st1(1) dr show ?case by simp
qed simp

lemma disk_save_ok:
  assumes u: "usable i d" and len: "length (collect_order s) \<le> 64"
    and live: "\<forall>vid \<in> set (collect_order s). get_type vid s \<noteq> None \<and> readable s vid"
    and fit: "sum_list (map (need_blocks s) (collect_order s)) \<le> 1021"
  shows "\<exists>d'. disk_save rd wr i s d = (True, d')"
proof -
  let ?o = "collect_order s"
  let ?st = "\<lparr>sv_disk = d, sv_inodes = replicate BLOCK_SIZE 0, sv_bitmap = replicate BLOCK_SIZE 0,
      sv_next = 0, sv_index = replicate MAX_VNODES u32_max, sv_vnodes = replicate MAX_VNODES 0\<rparr>"
  obtain st where st: "save_entries wr i s 0 ?o ?st = Inr st"
    using save_entries_ok [OF save_inv_start _ len, of i d s] u live fit by (auto simp: offset_of_def)
  have inv: "save_inv (\<lambda>d. disk_block (sector d)) s ?o (length ?o) st" "usable i (sv_disk st)"
    using save_entries_law [OF save_inv_start _ len, of i d s st] st u live by (auto simp: offset_of_def)
  have len2: "length (sv_inodes st) = 4096" "length (sv_bitmap st) = 4096"
    using inv(1) by (simp_all add: save_inv_def marks_below_def)
  obtain d1 where 1: "write_block wr i 1 (sv_inodes st) (sv_disk st) = (True, d1)" "usable i d1"
    using write_block_law [OF inv(2), of 1 "sv_inodes st"] len2 by auto
  obtain d2 where 2: "write_block wr i 2 (sv_bitmap st) d1 = (True, d2)" "usable i d2"
    using write_block_law [OF 1(2), of 2 "sv_bitmap st"] len2 by auto
  obtain sb d3 where 3: "read_superblock rd i d2 = (sb, d3)" "usable i d3"
    using read_superblock_law [OF 2(2)] by metis
  show ?thesis
    using write_superblock_law [OF 3(2)] st 1(1) 2(1) 3(1)
    by (simp add: disk_save_def disk_consts) (meson)
qed

end

end
