(* ===== verification/Ata.thy ===== *)
theory Ata
  imports Prelude
begin

text \<open>
  The ATA programmed-I/O driver, \<open>kernel/src/dev/ata.rs\<close>.  The x86 port instructions act on hardware
  of some type \<open>'h\<close>; they are the four operations of a bus, a parameter of every definition that
  touches a port.  The polling loops carry the number of polls still allowed.
\<close>

section \<open>Ports, registers and the state of the driver\<close>

record 'h bus =
  in8 :: "u16 \<Rightarrow> 'h \<Rightarrow> u8 \<times> 'h"
  out8 :: "u16 \<Rightarrow> u8 \<Rightarrow> 'h \<Rightarrow> 'h"
  in16 :: "u16 \<Rightarrow> 'h \<Rightarrow> u16 \<times> 'h"
  out16 :: "u16 \<Rightarrow> u16 \<Rightarrow> 'h \<Rightarrow> 'h"

definition PRIMARY_IO :: u16 where "PRIMARY_IO = 0x1F0"
definition PRIMARY_CTRL :: u16 where "PRIMARY_CTRL = 0x3F6"
definition SECONDARY_IO :: u16 where "SECONDARY_IO = 0x170"
definition SECONDARY_CTRL :: u16 where "SECONDARY_CTRL = 0x376"

definition REG_SECCOUNT :: u16 where "REG_SECCOUNT = 2"
definition REG_LBA0 :: u16 where "REG_LBA0 = 3"
definition REG_LBA1 :: u16 where "REG_LBA1 = 4"
definition REG_LBA2 :: u16 where "REG_LBA2 = 5"
definition REG_DRIVE :: u16 where "REG_DRIVE = 6"
definition REG_STATUS :: u16 where "REG_STATUS = 7"
definition REG_COMMAND :: u16 where "REG_COMMAND = 7"

definition ST_BSY :: u8 where "ST_BSY = 0x80"
definition ST_DF :: u8 where "ST_DF = 0x20"
definition ST_DRQ :: u8 where "ST_DRQ = 0x08"
definition ST_ERR :: u8 where "ST_ERR = 0x01"

definition CMD_READ :: u8 where "CMD_READ = 0x20"
definition CMD_WRITE :: u8 where "CMD_WRITE = 0x30"
definition CMD_FLUSH :: u8 where "CMD_FLUSH = 0xE7"
definition CMD_IDENTIFY :: u8 where "CMD_IDENTIFY = 0xEC"

definition SECTOR_SIZE :: nat where "SECTOR_SIZE = 512"
definition POLL_LIMIT :: nat where "POLL_LIMIT = 4000000"
definition MAX_DRIVES :: nat where "MAX_DRIVES = 4"

lemmas ata_ports =
  PRIMARY_IO_def PRIMARY_CTRL_def SECONDARY_IO_def SECONDARY_CTRL_def REG_SECCOUNT_def REG_LBA0_def
  REG_LBA1_def REG_LBA2_def REG_DRIVE_def REG_STATUS_def REG_COMMAND_def

lemmas ata_codes =
  ST_BSY_def ST_DF_def ST_DRQ_def ST_ERR_def CMD_READ_def CMD_WRITE_def CMD_FLUSH_def CMD_IDENTIFY_def

record drive =
  dv_channel :: u8
  dv_slave :: bool
  dv_sectors :: u32
  dv_model :: bytes
  dv_model_len :: nat

definition drive_empty :: drive where
  "drive_empty = \<lparr>dv_channel = 0, dv_slave = False, dv_sectors = 0, dv_model = replicate 24 0, dv_model_len = 0\<rparr>"

record 'h ata =
  DRIVES :: "drive list"
  DRIVE_COUNT :: nat
  PRESENT :: bool
  READS :: nat
  WRITES :: nat
  hw :: 'h

definition ata_count :: "'h ata \<Rightarrow> nat" where
  "ata_count st = DRIVE_COUNT st"

definition drive_at :: "nat \<Rightarrow> 'h ata \<Rightarrow> drive option" where
  "drive_at i st = (if i \<ge> ata_count st then None else Some (DRIVES st ! i))"

section \<open>Polling\<close>

fun wait_not_busy_loop :: "'h bus \<Rightarrow> u16 \<Rightarrow> nat \<Rightarrow> 'h \<Rightarrow> bool \<times> 'h" where
  "wait_not_busy_loop b io n h =
     (if n = 0 then (False, h)
      else
        let (st, h) = in8 b (io + REG_STATUS) h in
        if st = 0 then (False, h)
        else if st AND ST_BSY = 0 then (True, h)
        else wait_not_busy_loop b io (n - 1) h)"

definition wait_not_busy :: "'h bus \<Rightarrow> u16 \<Rightarrow> 'h \<Rightarrow> bool \<times> 'h" where
  "wait_not_busy b io h = wait_not_busy_loop b io POLL_LIMIT h"

fun wait_drq_loop :: "'h bus \<Rightarrow> u16 \<Rightarrow> nat \<Rightarrow> 'h \<Rightarrow> bool \<times> 'h" where
  "wait_drq_loop b io n h =
     (if n = 0 then (False, h)
      else
        let (st, h) = in8 b (io + REG_STATUS) h in
        if st AND ST_BSY = 0 \<and> st AND ST_DRQ \<noteq> 0 then (True, h)
        else if st AND (ST_ERR OR ST_DF) \<noteq> 0 then (False, h)
        else wait_drq_loop b io (n - 1) h)"

definition wait_drq :: "'h bus \<Rightarrow> u16 \<Rightarrow> 'h \<Rightarrow> bool \<times> 'h" where
  "wait_drq b io h = wait_drq_loop b io POLL_LIMIT h"

fun poll_status_loop :: "'h bus \<Rightarrow> u16 \<Rightarrow> nat \<Rightarrow> 'h \<Rightarrow> u8 option \<times> 'h" where
  "poll_status_loop b io n h =
     (if n = 0 then (None, h)
      else
        let (st, h) = in8 b (io + REG_STATUS) h in
        if st = 0 then (None, h)
        else if st AND ST_BSY = 0 then (Some st, h)
        else poll_status_loop b io (n - 1) h)"

definition poll_status :: "'h bus \<Rightarrow> u16 \<Rightarrow> 'h \<Rightarrow> u8 option \<times> 'h" where
  "poll_status b io h = poll_status_loop b io POLL_LIMIT h"

declare wait_not_busy_loop.simps [simp del] wait_drq_loop.simps [simp del] poll_status_loop.simps [simp del]

definition delay_400ns :: "'h bus \<Rightarrow> u16 \<Rightarrow> 'h \<Rightarrow> 'h" where
  "delay_400ns b ctrl h = ((\<lambda>h. snd (in8 b ctrl h)) ^^ 4) h"

section \<open>Moving words through the data port\<close>

fun port_read_words :: "'h bus \<Rightarrow> u16 \<Rightarrow> nat \<Rightarrow> 'h \<Rightarrow> u16 list \<times> 'h" where
  "port_read_words b port 0 h = ([], h)"
| "port_read_words b port (Suc n) h =
     (let (v, h) = in16 b port h; (vs, h) = port_read_words b port n h in (v # vs, h))"

fun port_write_words :: "'h bus \<Rightarrow> u16 \<Rightarrow> u16 list \<Rightarrow> 'h \<Rightarrow> 'h" where
  "port_write_words b port [] h = h"
| "port_write_words b port (v # vs) h = port_write_words b port vs (out16 b port v h)"

text \<open>A byte buffer seen through a \<open>u16\<close> pointer, on a little-endian machine.\<close>

definition bytes_of_words :: "u16 list \<Rightarrow> bytes" where
  "bytes_of_words ws = concat (map to_le16 ws)"

fun words_of_bytes :: "bytes \<Rightarrow> u16 list" where
  "words_of_bytes (x # y # bs) = from_le16 x y # words_of_bytes bs"
| "words_of_bytes _ = []"

section \<open>Probing\<close>

definition io_of :: "u8 \<Rightarrow> u16" where
  "io_of channel = (if channel = 0 then PRIMARY_IO else SECONDARY_IO)"

definition ctrl_of :: "u8 \<Rightarrow> u16" where
  "ctrl_of channel = (if channel = 0 then PRIMARY_CTRL else SECONDARY_CTRL)"

definition model_byte :: "u8 \<Rightarrow> bytes \<times> nat \<Rightarrow> bytes \<times> nat" where
  "model_byte c mk =
     (let (model, k) = mk in
      if c = 0 \<or> c = 32 \<and> k = 0 then (model, k)
      else if k < length model then (model[k := c], k + 1)
      else (model, k))"

fun trim_spaces :: "bytes \<Rightarrow> nat \<Rightarrow> nat" where
  "trim_spaces model 0 = 0"
| "trim_spaces model (Suc k) = (if model ! k = 32 then trim_spaces model k else Suc k)"

definition parse_identify :: "u8 \<Rightarrow> bool \<Rightarrow> u16 list \<Rightarrow> drive" where
  "parse_identify channel slave buf =
     (let (model, k) = fold (\<lambda>w mk. model_byte (ucast (w AND 0xFF)) (model_byte (ucast (drop_bit 8 w)) mk))
            (bslice 27 20 buf) (replicate 24 0, 0)
      in \<lparr>dv_channel = channel, dv_slave = slave,
          dv_sectors = ucast (buf ! 60) OR push_bit 16 (ucast (buf ! 61)),
          dv_model = model, dv_model_len = trim_spaces model k\<rparr>)"

definition identify :: "'h bus \<Rightarrow> u8 \<Rightarrow> bool \<Rightarrow> 'h \<Rightarrow> drive option \<times> 'h" where
  "identify b channel slave h =
     (let io = io_of channel; ctrl = ctrl_of channel;
          h = out8 b ctrl 0 h;
          h = out8 b (io + REG_DRIVE) (if slave then 0xB0 else 0xA0) h;
          h = delay_400ns b ctrl h;
          h = out8 b (io + REG_SECCOUNT) 0 h;
          h = out8 b (io + REG_LBA0) 0 h;
          h = out8 b (io + REG_LBA1) 0 h;
          h = out8 b (io + REG_LBA2) 0 h;
          h = out8 b (io + REG_COMMAND) CMD_IDENTIFY h
      in case poll_status b io h of
           (None, h) \<Rightarrow> (None, h)
         | (Some st, h) \<Rightarrow>
             if st = 0 then (None, h)
             else
               let (l1, h) = in8 b (io + REG_LBA1) h in
               if l1 \<noteq> 0 then (None, h)
               else
                 let (l2, h) = in8 b (io + REG_LBA2) h in
                 if l2 \<noteq> 0 then (None, h)
                 else
                   let (ok, h) = wait_drq b io h in
                   if \<not> ok then (None, h)
                   else
                     let (buf, h) = port_read_words b io 256 h in
                     (Some (parse_identify channel slave buf), h))"

definition probe_one :: "'h bus \<Rightarrow> u8 \<times> bool \<Rightarrow> 'h ata \<times> nat \<Rightarrow> 'h ata \<times> nat" where
  "probe_one b cs stn =
     (let (st, n) = stn in
      if n \<ge> MAX_DRIVES then (st, n)
      else case identify b (fst cs) (snd cs) (hw st) of
        (None, h) \<Rightarrow> (st\<lparr>hw := h\<rparr>, n)
      | (Some d, h) \<Rightarrow> (st\<lparr>hw := h, DRIVES := (DRIVES st)[n := d]\<rparr>, n + 1))"

definition ata_init :: "'h bus \<Rightarrow> 'h ata \<Rightarrow> 'h ata" where
  "ata_init b st =
     (let (st, n) = fold (probe_one b) [(0, False), (0, True), (1, False), (1, True)] (st, 0)
      in st\<lparr>DRIVE_COUNT := n, PRESENT := n > 0\<rparr>)"

section \<open>Sector transfers\<close>

definition issue :: "'h bus \<Rightarrow> drive \<Rightarrow> u16 \<Rightarrow> u16 \<Rightarrow> u32 \<Rightarrow> u8 \<Rightarrow> u8 \<Rightarrow> 'h \<Rightarrow> bool \<times> 'h" where
  "issue b d io ctrl lba count cmd h =
     (if lba + ucast count > dv_sectors d then (False, h)
      else
        let h = out8 b ctrl 0 h;
            head = 0xE0 OR (if dv_slave d then 0x10 else 0) OR ucast (drop_bit 24 lba AND 0x0F);
            h = out8 b (io + REG_DRIVE) head h;
            h = delay_400ns b ctrl h;
            (ok, h) = wait_not_busy b io h
        in if \<not> ok then (False, h)
           else
             let h = out8 b (io + REG_SECCOUNT) count h;
                 h = out8 b (io + REG_LBA0) (ucast (lba AND 0xFF)) h;
                 h = out8 b (io + REG_LBA1) (ucast (drop_bit 8 lba AND 0xFF)) h;
                 h = out8 b (io + REG_LBA2) (ucast (drop_bit 16 lba AND 0xFF)) h;
                 h = out8 b (io + REG_COMMAND) cmd h
             in case poll_status b io h of
                  (Some s, h) \<Rightarrow> (s AND ST_ERR = 0, h)
                | (None, h) \<Rightarrow> (False, h))"

fun read_loop :: "'h bus \<Rightarrow> u16 \<Rightarrow> nat list \<Rightarrow> bytes \<Rightarrow> 'h \<Rightarrow> (bool \<times> bytes) \<times> 'h" where
  "read_loop b io [] buf h = ((True, buf), h)"
| "read_loop b io (s # ss) buf h =
     (let (ok, h) = wait_drq b io h in
      if \<not> ok then ((False, buf), h)
      else
        let (ws, h) = port_read_words b io 256 h in
        read_loop b io ss (put_at (s * SECTOR_SIZE) (bytes_of_words ws) buf) h)"

definition read_sectors :: "'h bus \<Rightarrow> nat \<Rightarrow> u32 \<Rightarrow> u8 \<Rightarrow> bytes \<Rightarrow> 'h ata \<Rightarrow> (bool \<times> bytes) \<times> 'h ata" where
  "read_sectors b i lba count buf st =
     (case drive_at i st of
        None \<Rightarrow> ((False, buf), st)
      | Some d \<Rightarrow>
          if length buf < unat count * SECTOR_SIZE \<or> count = 0 then ((False, buf), st)
          else
            let io = io_of (dv_channel d); (ok, h) = issue b d io (ctrl_of (dv_channel d)) lba count CMD_READ (hw st) in
            if \<not> ok then ((False, buf), st\<lparr>hw := h\<rparr>)
            else case read_loop b io [0..<unat count] buf h of
              ((ok, buf), h) \<Rightarrow>
                if \<not> ok then ((False, buf), st\<lparr>hw := h\<rparr>)
                else ((True, buf), st\<lparr>hw := h, READS := wadd64 (READS st) (unat count)\<rparr>))"

fun write_loop :: "'h bus \<Rightarrow> u16 \<Rightarrow> nat list \<Rightarrow> bytes \<Rightarrow> 'h \<Rightarrow> bool \<times> 'h" where
  "write_loop b io [] buf h = (True, h)"
| "write_loop b io (s # ss) buf h =
     (let (ok, h) = wait_drq b io h in
      if \<not> ok then (False, h)
      else write_loop b io ss buf (port_write_words b io (words_of_bytes (bslice (s * SECTOR_SIZE) SECTOR_SIZE buf)) h))"

definition write_sectors :: "'h bus \<Rightarrow> nat \<Rightarrow> u32 \<Rightarrow> u8 \<Rightarrow> bytes \<Rightarrow> 'h ata \<Rightarrow> bool \<times> 'h ata" where
  "write_sectors b i lba count buf st =
     (case drive_at i st of
        None \<Rightarrow> (False, st)
      | Some d \<Rightarrow>
          if length buf < unat count * SECTOR_SIZE \<or> count = 0 then (False, st)
          else
            let io = io_of (dv_channel d); (ok, h) = issue b d io (ctrl_of (dv_channel d)) lba count CMD_WRITE (hw st) in
            if \<not> ok then (False, st\<lparr>hw := h\<rparr>)
            else
              let (ok, h) = write_loop b io [0..<unat count] buf h in
              if \<not> ok then (False, st\<lparr>hw := h\<rparr>)
              else
                let h = out8 b (io + REG_COMMAND) CMD_FLUSH h;
                    (_, h) = wait_not_busy b io h
                in (True, st\<lparr>hw := h, WRITES := wadd64 (WRITES st) (unat count)\<rparr>))"

section \<open>Bytes and words\<close>

lemma words_of_bytes_of_words: "words_of_bytes (bytes_of_words ws) = ws"
  by (induction ws) (simp_all add: bytes_of_words_def to_le16_def to_be16_def from_le16_def from_be16_to_be16)

lemma to_be16_from_be16: "to_be16 (from_be16 a b) = [a, b]"
proof -
  have "ucast (drop_bit 8 (from_be16 a b)) = a"
    by (rule bit_word_eqI) (auto simp: from_be16_def bit_simps dest: bit_imp_le_length)
  moreover have "ucast (from_be16 a b) = b"
    by (rule bit_word_eqI) (auto simp: from_be16_def bit_simps)
  ultimately show ?thesis by (simp add: to_be16_def)
qed

lemma bytes_of_words_of_bytes: "even (length bs) \<Longrightarrow> bytes_of_words (words_of_bytes bs) = bs"
  by (induction bs rule: words_of_bytes.induct)
    (simp_all add: bytes_of_words_def to_le16_def from_le16_def to_be16_from_be16)

lemma length_words_of_bytes: "length (words_of_bytes bs) = length bs div 2"
  by (induction bs rule: words_of_bytes.induct) simp_all

lemma length_bytes_of_words: "length (bytes_of_words ws) = 2 * length ws"
  by (induction ws) (simp_all add: bytes_of_words_def)

end
