(* ===== verification/Ata_Disk.thy ===== *)
theory Ata_Disk
  imports Ata
begin

text \<open>
  A disk that follows the ATA programmed-I/O protocol (a master on the primary channel, nothing else
  attached), and the driver of the theory Ata run against it: a sector transfer moves exactly the
  sectors asked for.  The disk is the hardware the driver is written for, not code of the kernel.
  It stays busy for a number of status reads after every command and every sector.
\<close>

section \<open>The disk\<close>

datatype phase =
    Quiet
  | Sending "u16 list" nat nat
  | Receiving "u16 list" nat nat

record pio =
  pd_data :: "nat \<Rightarrow> u16 list"
  pd_ident :: "u16 list"
  pd_latency :: nat
  pd_head :: u8
  pd_cnt :: u8
  pd_l0 :: u8
  pd_l1 :: u8
  pd_l2 :: u8
  pd_busy :: nat
  pd_phase :: phase

definition pio_status :: "pio \<Rightarrow> u8" where
  "pio_status h =
     (if bit (pd_head h) 4 then 0 else if pd_busy h > 0 then 0x80
      else case pd_phase h of Quiet \<Rightarrow> 0x50 | _ \<Rightarrow> 0x58)"

definition pio_lba :: "pio \<Rightarrow> nat" where
  "pio_lba h = unat (pd_l0 h) + 2 ^ 8 * unat (pd_l1 h) + 2 ^ 16 * unat (pd_l2 h) + 2 ^ 24 * unat (pd_head h AND 0x0F)"

definition pio_sectors :: "pio \<Rightarrow> nat" where
  "pio_sectors h = (if pd_cnt h = 0 then 256 else unat (pd_cnt h))"

definition pio_in8 :: "u16 \<Rightarrow> pio \<Rightarrow> u8 \<times> pio" where
  "pio_in8 port h =
     (if port = 0x1F7 then (pio_status h, h\<lparr>pd_busy := pd_busy h - 1\<rparr>)
      else if port = 0x1F4 then (pd_l1 h, h)
      else if port = 0x1F5 then (pd_l2 h, h)
      else if port = 0x3F6 then (pio_status h, h)
      else (0xFF, h))"

definition pio_command :: "u8 \<Rightarrow> pio \<Rightarrow> pio" where
  "pio_command c h =
     (if bit (pd_head h) 4 then h
      else if c = 0xEC then h\<lparr>pd_busy := pd_latency h, pd_phase := Sending (pd_ident h) 0 0\<rparr>
      else if c = 0x20 then
        h\<lparr>pd_busy := pd_latency h, pd_phase := Sending (pd_data h (pio_lba h)) (pio_lba h + 1) (pio_sectors h - 1)\<rparr>
      else if c = 0x30 then h\<lparr>pd_busy := pd_latency h, pd_phase := Receiving [] (pio_lba h) (pio_sectors h)\<rparr>
      else h\<lparr>pd_busy := pd_latency h, pd_phase := Quiet\<rparr>)"

definition pio_out8 :: "u16 \<Rightarrow> u8 \<Rightarrow> pio \<Rightarrow> pio" where
  "pio_out8 port v h =
     (if port = 0x1F2 then h\<lparr>pd_cnt := v\<rparr>
      else if port = 0x1F3 then h\<lparr>pd_l0 := v\<rparr>
      else if port = 0x1F4 then h\<lparr>pd_l1 := v\<rparr>
      else if port = 0x1F5 then h\<lparr>pd_l2 := v\<rparr>
      else if port = 0x1F6 then h\<lparr>pd_head := v\<rparr>
      else if port = 0x1F7 then pio_command v h
      else h)"

definition pio_in16 :: "u16 \<Rightarrow> pio \<Rightarrow> u16 \<times> pio" where
  "pio_in16 port h =
     (case pd_phase h of
        Sending (w # ws) lba left \<Rightarrow>
          (w, if ws \<noteq> [] then h\<lparr>pd_phase := Sending ws lba left\<rparr>
              else if left = 0 then h\<lparr>pd_phase := Quiet\<rparr>
              else h\<lparr>pd_busy := pd_latency h, pd_phase := Sending (pd_data h lba) (lba + 1) (left - 1)\<rparr>)
      | _ \<Rightarrow> (0xFFFF, h))"

definition pio_out16 :: "u16 \<Rightarrow> u16 \<Rightarrow> pio \<Rightarrow> pio" where
  "pio_out16 port v h =
     (case pd_phase h of
        Receiving ws lba left \<Rightarrow>
          (if length ws + 1 < 256 then h\<lparr>pd_phase := Receiving (ws @ [v]) lba left\<rparr>
           else h\<lparr>pd_data := (pd_data h)(lba := ws @ [v]), pd_busy := pd_latency h,
                  pd_phase := (if left \<le> 1 then Quiet else Receiving [] (lba + 1) (left - 1))\<rparr>)
      | _ \<Rightarrow> h)"

definition pio_bus :: "pio bus" where
  "pio_bus = \<lparr>in8 = pio_in8, out8 = pio_out8, in16 = pio_in16, out16 = pio_out16\<rparr>"

lemma pio_bus_simps [simp]:
  "in8 pio_bus = pio_in8" "out8 pio_bus = pio_out8" "in16 pio_bus = pio_in16" "out16 pio_bus = pio_out16"
  by (simp_all add: pio_bus_def)

text \<open>The master is selected, sectors have 256 words, and the disk answers within the poll limit.\<close>

definition pio_ok :: "pio \<Rightarrow> bool" where
  "pio_ok h \<longleftrightarrow> (\<forall>a. length (pd_data h a) = 256) \<and> pd_latency h < POLL_LIMIT \<and> pd_busy h < POLL_LIMIT"

section \<open>Polling against the disk\<close>

lemma status_busy:
  assumes "\<not> bit (pd_head h) 4"
  shows "pio_in8 (0x1F0 + REG_STATUS) h = (if pd_busy h > 0 then 0x80 else
      case pd_phase h of Quiet \<Rightarrow> 0x50 | _ \<Rightarrow> 0x58, h\<lparr>pd_busy := pd_busy h - 1\<rparr>)"
  using assms by (simp add: pio_in8_def pio_status_def REG_STATUS_def)

lemma wait_not_busy_loop_disk:
  assumes "\<not> bit (pd_head h) 4" "pd_busy h < n"
  shows "wait_not_busy_loop pio_bus 0x1F0 n h = (True, h\<lparr>pd_busy := 0\<rparr>)"
  using assms
proof (induction n arbitrary: h)
  case (Suc n)
  show ?case
    using Suc.prems Suc.IH [of "h\<lparr>pd_busy := pd_busy h - 1\<rparr>"]
    by (subst wait_not_busy_loop.simps)
      (auto simp: status_busy ST_BSY_def split: phase.splits)
qed simp

lemma wait_drq_loop_disk:
  assumes "\<not> bit (pd_head h) 4" "pd_busy h < n" "pd_phase h \<noteq> Quiet"
  shows "wait_drq_loop pio_bus 0x1F0 n h = (True, h\<lparr>pd_busy := 0\<rparr>)"
  using assms
proof (induction n arbitrary: h)
  case (Suc n)
  show ?case
    using Suc.prems Suc.IH [of "h\<lparr>pd_busy := pd_busy h - 1\<rparr>"]
    by (subst wait_drq_loop.simps)
      (auto simp: status_busy ata_codes split: phase.splits)
qed simp

lemma poll_status_loop_disk:
  assumes "\<not> bit (pd_head h) 4" "pd_busy h < n"
  shows "poll_status_loop pio_bus 0x1F0 n h =
    (Some (case pd_phase h of Quiet \<Rightarrow> 0x50 | _ \<Rightarrow> 0x58), h\<lparr>pd_busy := 0\<rparr>)"
  using assms
proof (induction n arbitrary: h)
  case (Suc n)
  show ?case
    using Suc.prems Suc.IH [of "h\<lparr>pd_busy := pd_busy h - 1\<rparr>"]
    by (subst poll_status_loop.simps)
      (auto simp: status_busy ST_BSY_def split: phase.splits)
qed simp

lemma delay_disk [simp]: "delay_400ns pio_bus 0x3F6 h = h"
proof -
  have "(\<lambda>h. snd (in8 pio_bus 0x3F6 h)) = id"
    by (auto simp: pio_in8_def)
  then show ?thesis by (simp add: delay_400ns_def)
qed

lemma pio_okD:
  assumes "pio_ok h"
  shows "length (pd_data h a) = 256" "pd_latency h < POLL_LIMIT" "pd_busy h < POLL_LIMIT"
  using assms by (simp_all add: pio_ok_def)

lemma POLL_LIMIT_pos: "0 < POLL_LIMIT"
  by (simp add: POLL_LIMIT_def)

section \<open>Transfers against the disk\<close>

lemma read_words_part:
  assumes "pd_phase h = Sending ws a left" "n < length ws"
  shows "port_read_words pio_bus 0x1F0 n h = (take n ws, h\<lparr>pd_phase := Sending (drop n ws) a left\<rparr>)"
  using assms
proof (induction n arbitrary: ws h)
  case 0
  then show ?case by (cases h) simp
next
  case (Suc n)
  then obtain w vs where ws: "ws = w # vs" "vs \<noteq> []" "n < length vs"
    by (cases ws) fastforce+
  with Suc.prems have "pio_in16 0x1F0 h = (w, h\<lparr>pd_phase := Sending vs a left\<rparr>)"
    by (simp add: pio_in16_def)
  with ws Suc.IH [of "h\<lparr>pd_phase := Sending vs a left\<rparr>" vs] show ?case by simp
qed

lemma port_read_words_snoc:
  "port_read_words b p (Suc n) h =
     (let (vs, h) = port_read_words b p n h; (v, h) = in16 b p h in (vs @ [v], h))"
  by (induction n arbitrary: h) (simp_all add: case_prod_beta Let_def)

lemma read_words_sector:
  assumes "pd_phase h = Sending ws a left" "length ws = Suc n"
  shows "port_read_words pio_bus 0x1F0 (Suc n) h = (ws,
    if left = 0 then h\<lparr>pd_phase := Quiet\<rparr>
    else h\<lparr>pd_busy := pd_latency h, pd_phase := Sending (pd_data h a) (a + 1) (left - 1)\<rparr>)"
proof -
  from assms(2) have d: "drop n ws = [ws ! n]" "take n ws @ [ws ! n] = ws"
    by (simp_all add: take_Suc_conv_app_nth [symmetric] Cons_nth_drop_Suc [symmetric])
  show ?thesis
    unfolding port_read_words_snoc using assms read_words_part [OF assms(1), of n] d
    by (simp add: pio_in16_def)
qed

text \<open>The bytes of \<open>n\<close> sectors from sector \<open>a\<close> on.\<close>

definition disk_bytes :: "pio \<Rightarrow> nat \<Rightarrow> nat \<Rightarrow> bytes" where
  "disk_bytes h a n = concat (map (\<lambda>i. bytes_of_words (pd_data h i)) [a..<a + n])"

lemma disk_bytes_Suc: "disk_bytes h a (Suc n) = bytes_of_words (pd_data h a) @ disk_bytes h (a + 1) n"
  by (simp add: disk_bytes_def upt_conv_Cons del: upt_Suc)

lemma length_disk_bytes: "pio_ok h \<Longrightarrow> length (disk_bytes h a n) = n * 512"
  by (induction n arbitrary: a)
    (simp_all add: disk_bytes_Suc length_bytes_of_words pio_okD(1), simp add: disk_bytes_def)

lemma put_at_put_at:
  assumes "off + length xs + length ys \<le> length buf"
  shows "put_at (off + length xs) ys (put_at off xs buf) = put_at off (xs @ ys) buf"
  using assms by (simp add: put_at_def add.assoc add.commute add.left_commute)

lemma read_loop_disk:
  assumes "pio_ok h" "\<not> bit (pd_head h) 4" "pd_phase h = Sending (pd_data h a) (a + 1) m"
    "(k + Suc m) * 512 \<le> length buf"
  shows "read_loop pio_bus 0x1F0 [k..<k + Suc m] buf h =
    ((True, put_at (k * 512) (disk_bytes h a (Suc m)) buf), h\<lparr>pd_busy := 0, pd_phase := Quiet\<rparr>)"
  using assms
proof (induction m arbitrary: h a k buf)
  case 0
  have "wait_drq pio_bus 0x1F0 h = (True, h\<lparr>pd_busy := 0\<rparr>)"
    unfolding wait_drq_def using 0 pio_okD(3) by (intro wait_drq_loop_disk) auto
  with 0 show ?case
    using read_words_sector [of "h\<lparr>pd_busy := 0\<rparr>" "pd_data h a" "a + 1" 0 255] pio_okD(1) [of h a]
    by (simp add: SECTOR_SIZE_def disk_bytes_def upt_conv_Cons)
next
  case (Suc m)
  let ?h = "h\<lparr>pd_busy := pd_latency h, pd_phase := Sending (pd_data h (a + 1)) (a + 1 + 1) m\<rparr>"
  let ?buf = "put_at (k * 512) (bytes_of_words (pd_data h a)) buf"
  have w: "wait_drq pio_bus 0x1F0 h = (True, h\<lparr>pd_busy := 0\<rparr>)"
    unfolding wait_drq_def using Suc.prems pio_okD(3) by (intro wait_drq_loop_disk) auto
  have len: "length (bytes_of_words (pd_data h a)) = 512"
    using Suc.prems(1) by (simp add: length_bytes_of_words pio_okD(1))
  have r: "port_read_words pio_bus 0x1F0 256 (h\<lparr>pd_busy := 0\<rparr>) = (pd_data h a, ?h)"
    using read_words_sector [of "h\<lparr>pd_busy := 0\<rparr>" "pd_data h a" "a + 1" "Suc m" 255] Suc.prems
      pio_okD(1) [of h a] by simp
  have ih: "read_loop pio_bus 0x1F0 [Suc k..<Suc k + Suc m] ?buf ?h =
      ((True, put_at (Suc k * 512) (disk_bytes ?h (a + 1) (Suc m)) ?buf), ?h\<lparr>pd_busy := 0, pd_phase := Quiet\<rparr>)"
    using Suc.prems len by (intro Suc.IH) (auto simp: pio_ok_def)
  have "disk_bytes ?h (a + 1) (Suc m) = disk_bytes h (a + 1) (Suc m)"
    by (simp add: disk_bytes_def)
  moreover have "put_at (Suc k * 512) (disk_bytes h (a + 1) (Suc m)) ?buf = put_at (k * 512) (disk_bytes h a (Suc (Suc m))) buf"
    using put_at_put_at [of "k * 512" "bytes_of_words (pd_data h a)" "disk_bytes h (a + 1) (Suc m)" buf]
      len Suc.prems(4) length_disk_bytes [OF Suc.prems(1), of "a + 1" "Suc m"]
    by (simp add: disk_bytes_Suc add.commute)
  moreover have "[k..<k + Suc (Suc m)] = k # [Suc k..<Suc k + Suc m]"
    by (simp add: upt_conv_Cons del: upt_Suc)
  ultimately show ?case
    using w r ih by (simp add: SECTOR_SIZE_def del: upt_Suc)
qed

lemma write_words_part:
  assumes "pd_phase h = Receiving ws a left" "length ws + length vs < 256"
  shows "port_write_words pio_bus 0x1F0 vs h = h\<lparr>pd_phase := Receiving (ws @ vs) a left\<rparr>"
  using assms
proof (induction vs arbitrary: ws h)
  case Nil
  then show ?case by (cases h) simp
next
  case (Cons v vs)
  then have "pio_out16 0x1F0 v h = h\<lparr>pd_phase := Receiving (ws @ [v]) a left\<rparr>"
    by (simp add: pio_out16_def)
  with Cons.prems Cons.IH [of "h\<lparr>pd_phase := Receiving (ws @ [v]) a left\<rparr>" "ws @ [v]"] show ?case by simp
qed

lemma port_write_words_append:
  "port_write_words b p (us @ vs) h = port_write_words b p vs (port_write_words b p us h)"
  by (induction us arbitrary: h) simp_all

lemma write_words_sector:
  assumes "pd_phase h = Receiving [] a left" "length vs = 256"
  shows "port_write_words pio_bus 0x1F0 vs h =
    h\<lparr>pd_data := (pd_data h)(a := vs), pd_busy := pd_latency h,
      pd_phase := (if left \<le> 1 then Quiet else Receiving [] (a + 1) (left - 1))\<rparr>"
proof -
  from assms(2) have vs: "vs = butlast vs @ [last vs]" "length (butlast vs) = 255"
    by (cases vs rule: rev_cases; simp)+
  have "port_write_words pio_bus 0x1F0 (butlast vs) h = h\<lparr>pd_phase := Receiving (butlast vs) a left\<rparr>"
    using write_words_part [OF assms(1), of "butlast vs"] vs(2) by simp
  with vs show ?thesis
    by (subst vs(1), subst port_write_words_append) (simp add: pio_out16_def)
qed

definition sector_of :: "bytes \<Rightarrow> nat \<Rightarrow> u16 list" where
  "sector_of buf k = words_of_bytes (bslice (k * 512) 512 buf)"

lemma length_sector_of: "(k + 1) * 512 \<le> length buf \<Longrightarrow> length (sector_of buf k) = 256"
  by (simp add: sector_of_def length_words_of_bytes)

definition store_sectors :: "nat \<Rightarrow> nat \<Rightarrow> nat \<Rightarrow> bytes \<Rightarrow> (nat \<Rightarrow> u16 list) \<Rightarrow> nat \<Rightarrow> u16 list" where
  "store_sectors a k n buf f i = (if a \<le> i \<and> i < a + n then sector_of buf (k + (i - a)) else f i)"

lemma store_sectors_Suc:
  "store_sectors (a + 1) (k + 1) n buf (f(a := sector_of buf k)) = store_sectors a k (Suc n) buf f"
  by (rule ext) (auto simp: store_sectors_def Suc_diff_Suc)

lemma write_loop_disk:
  assumes "pio_ok h" "\<not> bit (pd_head h) 4" "pd_phase h = Receiving [] a (Suc m)" "(k + Suc m) * 512 \<le> length buf"
  shows "write_loop pio_bus 0x1F0 [k..<k + Suc m] buf h =
    (True, h\<lparr>pd_data := store_sectors a k (Suc m) buf (pd_data h), pd_busy := pd_latency h, pd_phase := Quiet\<rparr>)"
  using assms
proof (induction m arbitrary: h a k)
  case 0
  have "wait_drq pio_bus 0x1F0 h = (True, h\<lparr>pd_busy := 0\<rparr>)"
    unfolding wait_drq_def using 0 pio_okD(3) by (intro wait_drq_loop_disk) auto
  moreover have "(pd_data h)(a := sector_of buf k) = store_sectors a k (Suc 0) buf (pd_data h)"
    by (rule ext) (auto simp: store_sectors_def)
  moreover have "length (sector_of buf k) = 256"
    using 0 by (intro length_sector_of) simp
  ultimately show ?case
    using 0 write_words_sector [of "h\<lparr>pd_busy := 0\<rparr>" a 1 "sector_of buf k"]
    by (simp add: SECTOR_SIZE_def upt_conv_Cons sector_of_def [symmetric])
next
  case (Suc m)
  let ?h = "h\<lparr>pd_data := (pd_data h)(a := sector_of buf k), pd_busy := pd_latency h,
    pd_phase := Receiving [] (a + 1) (Suc m)\<rparr>"
  have w: "wait_drq pio_bus 0x1F0 h = (True, h\<lparr>pd_busy := 0\<rparr>)"
    unfolding wait_drq_def using Suc.prems pio_okD(3) by (intro wait_drq_loop_disk) auto
  have len: "length (sector_of buf k) = 256"
    using Suc.prems by (intro length_sector_of) simp
  have p: "port_write_words pio_bus 0x1F0 (sector_of buf k) (h\<lparr>pd_busy := 0\<rparr>) = ?h"
    using write_words_sector [of "h\<lparr>pd_busy := 0\<rparr>" a "Suc (Suc m)" "sector_of buf k"] len Suc.prems by simp
  have "write_loop pio_bus 0x1F0 [k + 1..<k + 1 + Suc m] buf ?h =
      (True, ?h\<lparr>pd_data := store_sectors (a + 1) (k + 1) (Suc m) buf (pd_data ?h), pd_busy := pd_latency ?h, pd_phase := Quiet\<rparr>)"
    using Suc.prems len by (intro Suc.IH) (auto simp: pio_ok_def)
  moreover have "[k..<k + Suc (Suc m)] = k # [k + 1..<k + 1 + Suc m]"
    by (simp add: upt_conv_Cons del: upt_Suc)
  ultimately show ?case
    using w p store_sectors_Suc [of a k "Suc m" buf "pd_data h"]
    by (simp add: SECTOR_SIZE_def sector_of_def [symmetric] del: upt_Suc)
qed

section \<open>Sector operations\<close>

text \<open>The registers hold the digits of the sector number in base 256.\<close>

lemma byte_of_word: "unat (ucast (w AND 0xFF) :: u8) = unat w mod 2 ^ 8" for w :: u32
proof -
  have "w AND 0xFF = take_bit 8 w"
    by (simp add: take_bit_eq_mask mask_eq_exp_minus_1)
  then show ?thesis
    by (simp only: unsigned_ucast_eq unsigned_take_bit_eq) (simp add: take_bit_eq_mod)
qed

lemma nibble_of_word: "unat (ucast (w AND 0x0F) :: u8) = unat w mod 2 ^ 4" for w :: u32
proof -
  have "w AND 0x0F = take_bit 4 w"
    by (simp add: take_bit_eq_mask mask_eq_exp_minus_1)
  then show ?thesis
    by (simp only: unsigned_ucast_eq unsigned_take_bit_eq) (simp add: take_bit_eq_mod mod_mod_cancel)
qed

lemma head_nibble: "(0xE0 OR ucast (w AND 0x0F) :: u8) AND 0x0F = ucast (w AND 0x0F)" for w :: u32
proof -
  have "(ucast (w AND 0x0F) :: u8) AND 0x0F = ucast (w AND 0x0F)"
  proof -
    have "(0x0F :: u8) = mask 4" "(0x0F :: u32) = mask 4" by (simp_all add: mask_eq_exp_minus_1)
    then show ?thesis by (auto intro!: bit_word_eqI simp: bit_simps)
  qed
  then show ?thesis by (simp add: bit.conj_disj_distrib2)
qed

lemma head_master: "\<not> bit (0xE0 OR ucast (w AND 0x0F) :: u8) 4" for w :: u32
proof -
  have "(0x0F :: u32) = mask 4" by (simp add: mask_eq_exp_minus_1)
  moreover have "\<not> bit (0xE0 :: u8) 4" by (simp add: bit_iff_odd_drop_bit)
  ultimately show ?thesis by (simp add: bit_simps)
qed

lemma base256_digits:
  fixes n :: nat
  assumes "n < 2 ^ 28"
  shows "n mod 2 ^ 8 + 2 ^ 8 * (n div 2 ^ 8 mod 2 ^ 8) + 2 ^ 16 * (n div 2 ^ 16 mod 2 ^ 8)
    + 2 ^ 24 * (n div 2 ^ 24 mod 2 ^ 4) = n"
proof -
  have p: "(2 :: nat) ^ 8 = 256" "(2 :: nat) ^ 16 = 65536" "(2 :: nat) ^ 24 = 16777216" "(2 :: nat) ^ 4 = 16"
    by simp_all
  have "n div 65536 = n div 256 div 256" "n div 16777216 = n div 65536 div 256"
    by (simp_all add: div_mult2_eq [symmetric])
  moreover have "n div 16777216 mod 16 = n div 16777216"
    using assms by (simp add: less_mult_imp_div_less)
  ultimately show ?thesis
    using mult_div_mod_eq [of 256 n] mult_div_mod_eq [of 256 "n div 256"] mult_div_mod_eq [of 256 "n div 65536"]
    unfolding p by linarith
qed

lemma split_lba:
  assumes "unat lba < 2 ^ 28"
  shows "unat (ucast (lba AND 0xFF) :: u8) + 2 ^ 8 * unat (ucast (drop_bit 8 lba AND 0xFF) :: u8)
    + 2 ^ 16 * unat (ucast (drop_bit 16 lba AND 0xFF) :: u8)
    + 2 ^ 24 * unat ((0xE0 OR ucast (drop_bit 24 lba AND 0x0F) :: u8) AND 0x0F) = unat (lba :: u32)"
  unfolding head_nibble byte_of_word nibble_of_word unat_drop_bit_eq
  unfolding drop_bit_eq_div by (rule base256_digits [OF assms])

lemma issue_disk:
  assumes ok: "pio_ok h" and m: "\<not> dv_slave d" and sz: "unat (dv_sectors d) \<le> 2 ^ 28" and c: "0 < unat count"
    and fit: "unat lba + unat count \<le> unat (dv_sectors d)" and cmd: "cmd = CMD_READ \<or> cmd = CMD_WRITE"
  obtains h' where "issue pio_bus d 0x1F0 0x3F6 lba count cmd h = (True, h')"
    "pio_ok h'" "\<not> bit (pd_head h') 4" "pd_data h' = pd_data h" "pd_ident h' = pd_ident h"
    "pd_latency h' = pd_latency h"
    "pd_phase h' = (if cmd = CMD_READ then Sending (pd_data h (unat lba)) (unat lba + 1) (unat count - 1)
       else Receiving [] (unat lba) (unat count))"
proof -
  let ?head = "0xE0 OR ucast (drop_bit 24 lba AND 0x0F) :: u8"
  let ?r = "h\<lparr>pd_head := ?head, pd_busy := 0, pd_cnt := count, pd_l0 := ucast (lba AND 0xFF),
    pd_l1 := ucast (drop_bit 8 lba AND 0xFF), pd_l2 := ucast (drop_bit 16 lba AND 0xFF)\<rparr>"
  have uc: "unat (ucast count :: u32) = unat count"
    using unsigned_less [of count, where ?'a = nat] by (simp add: unsigned_ucast_eq take_bit_eq_mod)
  then have "unat (lba + ucast count) = unat lba + unat count"
    using fit sz by (subst unat_add_lem [THEN iffD1]) simp_all
  with fit have guard: "\<not> lba + ucast count > dv_sectors d"
    by (simp add: word_less_nat_alt not_less)
  have lba: "pio_lba ?r = unat lba"
    using split_lba [of lba] fit sz c by (simp add: pio_lba_def)
  have n: "pio_sectors ?r = unat count"
    using c by (auto simp: pio_sectors_def)
  have w: "wait_not_busy pio_bus 0x1F0 (h\<lparr>pd_head := ?head\<rparr>) = (True, h\<lparr>pd_head := ?head, pd_busy := 0\<rparr>)"
    unfolding wait_not_busy_def using head_master pio_okD(3) [OF ok]
    by (subst wait_not_busy_loop_disk) simp_all
  let ?h = "pio_command cmd ?r"
  have h: "?h = ?r\<lparr>pd_busy := pd_latency h, pd_phase := pd_phase ?h\<rparr>"
    "pd_phase ?h = (if cmd = CMD_READ then Sending (pd_data h (unat lba)) (unat lba + 1) (unat count - 1)
       else Receiving [] (unat lba) (unat count))"
    using cmd head_master lba n by (auto simp: pio_command_def ata_codes)
  have "poll_status pio_bus 0x1F0 ?h = (Some 0x58, ?h\<lparr>pd_busy := 0\<rparr>)"
    unfolding poll_status_def using pio_okD(2) [OF ok] head_master h
    by (subst poll_status_loop_disk) (simp_all split: phase.splits)
  with guard w m have "issue pio_bus d 0x1F0 0x3F6 lba count cmd h = (True, ?h\<lparr>pd_busy := 0\<rparr>)"
    by (simp add: issue_def ata_ports pio_out8_def ata_codes)
  then show thesis
    using that h ok head_master by (simp add: pio_ok_def)
qed

text \<open>Drive \<open>i\<close> of the driver's table is the disk.\<close>

definition attached :: "nat \<Rightarrow> pio ata \<Rightarrow> bool" where
  "attached i st \<longleftrightarrow> i < DRIVE_COUNT st \<and> dv_channel (DRIVES st ! i) = 0 \<and> \<not> dv_slave (DRIVES st ! i) \<and>
     unat (dv_sectors (DRIVES st ! i)) \<le> 2 ^ 28 \<and> pio_ok (hw st)"

definition capacity :: "nat \<Rightarrow> pio ata \<Rightarrow> nat" where
  "capacity i st = unat (dv_sectors (DRIVES st ! i))"

definition sectors_at :: "nat \<Rightarrow> nat \<Rightarrow> pio ata \<Rightarrow> bytes" where
  "sectors_at a n st = disk_bytes (hw st) a n"

lemma attached_io:
  assumes "attached i st"
  shows "drive_at i st = Some (DRIVES st ! i)" "io_of (dv_channel (DRIVES st ! i)) = 0x1F0"
    "ctrl_of (dv_channel (DRIVES st ! i)) = 0x3F6"
  using assms by (simp_all add: attached_def drive_at_def ata_count_def io_of_def ctrl_of_def ata_ports)

lemma read_sectors_disk:
  assumes a: "attached i st" and c: "0 < unat count" and fit: "unat lba + unat count \<le> capacity i st"
    and len: "unat count * 512 \<le> length buf"
  obtains st' where "read_sectors pio_bus i lba count buf st =
      ((True, put_at 0 (sectors_at (unat lba) (unat count) st) buf), st')"
    "attached i st'" "capacity i st' = capacity i st" "pd_data (hw st') = pd_data (hw st)"
proof -
  from a have ok: "pio_ok (hw st)" "\<not> dv_slave (DRIVES st ! i)" "unat (dv_sectors (DRIVES st ! i)) \<le> 2 ^ 28"
    by (simp_all add: attached_def)
  obtain h where h: "issue pio_bus (DRIVES st ! i) 0x1F0 0x3F6 lba count CMD_READ (hw st) = (True, h)"
      "pio_ok h" "\<not> bit (pd_head h) 4" "pd_data h = pd_data (hw st)"
      "pd_phase h = Sending (pd_data h (unat lba)) (unat lba + 1) (unat count - 1)"
    by (rule issue_disk [OF ok c, of lba CMD_READ]) (use fit in \<open>auto simp: capacity_def\<close>)
  have "read_loop pio_bus 0x1F0 [0..<0 + Suc (unat count - 1)] buf h =
      ((True, put_at (0 * 512) (disk_bytes h (unat lba) (Suc (unat count - 1))) buf), h\<lparr>pd_busy := 0, pd_phase := Quiet\<rparr>)"
    using h len c by (intro read_loop_disk) simp_all
  then have "read_loop pio_bus 0x1F0 [0..<unat count] buf h =
      ((True, put_at 0 (sectors_at (unat lba) (unat count) st) buf), h\<lparr>pd_busy := 0, pd_phase := Quiet\<rparr>)"
    using c h(4) by (simp add: sectors_at_def disk_bytes_def del: upt_Suc)
  moreover have "count \<noteq> 0" using c by auto
  ultimately have "read_sectors pio_bus i lba count buf st =
      ((True, put_at 0 (sectors_at (unat lba) (unat count) st) buf),
       st\<lparr>hw := h\<lparr>pd_busy := 0, pd_phase := Quiet\<rparr>, READS := wadd64 (READS st) (unat count)\<rparr>)"
    using h(1) len by (simp add: read_sectors_def attached_io [OF a] SECTOR_SIZE_def)
  then show thesis
    by (rule that) (use h(2,4) a in \<open>simp_all add: attached_def capacity_def pio_ok_def\<close>)
qed

lemma write_sectors_disk:
  assumes a: "attached i st" and c: "0 < unat count" and fit: "unat lba + unat count \<le> capacity i st"
    and len: "unat count * 512 \<le> length buf"
  obtains st' where "write_sectors pio_bus i lba count buf st = (True, st')"
    "attached i st'" "capacity i st' = capacity i st"
    "pd_data (hw st') = store_sectors (unat lba) 0 (unat count) buf (pd_data (hw st))"
proof -
  from a have ok: "pio_ok (hw st)" "\<not> dv_slave (DRIVES st ! i)" "unat (dv_sectors (DRIVES st ! i)) \<le> 2 ^ 28"
    by (simp_all add: attached_def)
  obtain h where h: "issue pio_bus (DRIVES st ! i) 0x1F0 0x3F6 lba count CMD_WRITE (hw st) = (True, h)"
      "pio_ok h" "\<not> bit (pd_head h) 4" "pd_data h = pd_data (hw st)"
      "pd_phase h = Receiving [] (unat lba) (unat count)"
    by (rule issue_disk [OF ok c, of lba CMD_WRITE]) (use fit in \<open>auto simp: capacity_def CMD_READ_def CMD_WRITE_def\<close>)
  let ?f = "store_sectors (unat lba) 0 (unat count) buf (pd_data (hw st))"
  let ?h = "h\<lparr>pd_data := ?f, pd_busy := pd_latency h, pd_phase := Quiet\<rparr>"
  have "write_loop pio_bus 0x1F0 [0..<0 + Suc (unat count - 1)] buf h =
      (True, h\<lparr>pd_data := store_sectors (unat lba) 0 (Suc (unat count - 1)) buf (pd_data h),
         pd_busy := pd_latency h, pd_phase := Quiet\<rparr>)"
    using h len c by (intro write_loop_disk) simp_all
  then have w: "write_loop pio_bus 0x1F0 [0..<unat count] buf h = (True, ?h)"
    using c h(4) by (simp del: upt_Suc)
  have f: "pio_out8 (0x1F0 + REG_COMMAND) CMD_FLUSH ?h = ?h"
    using h(3) by (simp add: pio_out8_def REG_COMMAND_def CMD_FLUSH_def pio_command_def)
  have n: "wait_not_busy pio_bus 0x1F0 ?h = (True, ?h\<lparr>pd_busy := 0\<rparr>)"
    unfolding wait_not_busy_def using h(3) pio_okD(2) [OF h(2)] by (subst wait_not_busy_loop_disk) simp_all
  have "length (?f s) = 256" for s
    using len ok(1) by (auto simp: store_sectors_def pio_ok_def intro!: length_sector_of)
  then have ok': "pio_ok (?h\<lparr>pd_busy := 0\<rparr>)"
    using h(2) by (simp add: pio_ok_def POLL_LIMIT_pos)
  have "count \<noteq> 0" using c by auto
  then have "write_sectors pio_bus i lba count buf st =
      (True, st\<lparr>hw := ?h\<lparr>pd_busy := 0\<rparr>, WRITES := wadd64 (WRITES st) (unat count)\<rparr>)"
    using h(1) w f n len by (simp add: write_sectors_def attached_io [OF a] SECTOR_SIZE_def)
  then show thesis
    by (rule that) (use a ok' in \<open>simp_all add: attached_def capacity_def\<close>)
qed

section \<open>Probing against the disk\<close>

lemma poll_status_absent:
  "poll_status_loop pio_bus 0x170 n h = (None, h)"
proof (induction n)
  case (Suc n)
  have "pio_in8 (0x170 + REG_STATUS) h = (0xFF, h)"
    by (simp add: pio_in8_def REG_STATUS_def)
  with Suc show ?case
    by (subst poll_status_loop.simps) (simp add: ST_BSY_def)
qed (simp add: poll_status_loop.simps)

lemma identify_absent: "identify pio_bus 1 slave h = (None, h)"
proof -
  have "(\<lambda>h. snd (in8 pio_bus 0x376 h)) = id"
    by (auto simp: pio_in8_def)
  then have "delay_400ns pio_bus 0x376 h = h" for h
    by (simp add: delay_400ns_def)
  then show ?thesis
    by (simp add: identify_def io_of_def ctrl_of_def ata_ports pio_out8_def poll_status_def poll_status_absent)
qed

lemma identify_slave:
  obtains h' where "identify pio_bus 0 True h = (None, h')"
    "pd_data h' = pd_data h" "pd_latency h' = pd_latency h" "pd_busy h' = pd_busy h - 1"
proof -
  have "bit (0xB0 :: u8) 4" by (simp add: bit_iff_odd_drop_bit)
  moreover have "poll_status_loop pio_bus 0x1F0 POLL_LIMIT g = (None, g\<lparr>pd_busy := pd_busy g - 1\<rparr>)"
    if "bit (pd_head g) 4" for g
    using that POLL_LIMIT_pos
    by (subst poll_status_loop.simps) (simp add: pio_in8_def pio_status_def REG_STATUS_def)
  ultimately show thesis
    by (intro that [of "h\<lparr>pd_head := 0xB0, pd_cnt := 0, pd_l0 := 0, pd_l1 := 0, pd_l2 := 0, pd_busy := pd_busy h - 1\<rparr>"])
      (simp_all add: identify_def io_of_def ctrl_of_def ata_ports pio_out8_def pio_command_def poll_status_def)
qed

lemma identify_master:
  assumes "pio_ok h" "length (pd_ident h) = 256"
  obtains h' where "identify pio_bus 0 False h = (Some (parse_identify 0 False (pd_ident h)), h')"
    "pd_data h' = pd_data h" "pd_latency h' = pd_latency h" "pd_busy h' = 0"
proof -
  let ?r = "h\<lparr>pd_head := 0xA0, pd_cnt := 0, pd_l0 := 0, pd_l1 := 0, pd_l2 := 0, pd_busy := 0, pd_phase := Sending (pd_ident h) 0 0\<rparr>"
  have m: "\<not> bit (0xA0 :: u8) 4" by (simp add: bit_iff_odd_drop_bit)
  have p: "poll_status pio_bus 0x1F0 (h\<lparr>pd_head := 0xA0, pd_cnt := 0, pd_l0 := 0, pd_l1 := 0, pd_l2 := 0,
      pd_busy := pd_latency h, pd_phase := Sending (pd_ident h) 0 0\<rparr>) = (Some 0x58, ?r)"
    unfolding poll_status_def using m pio_okD(2) [OF assms(1)] by (subst poll_status_loop_disk) simp_all
  have w: "wait_drq pio_bus 0x1F0 ?r = (True, ?r)"
    unfolding wait_drq_def using m POLL_LIMIT_pos by (subst wait_drq_loop_disk) simp_all
  have r: "port_read_words pio_bus 0x1F0 256 ?r = (pd_ident h, ?r\<lparr>pd_phase := Quiet\<rparr>)"
    using read_words_sector [of ?r "pd_ident h" 0 0 255] assms(2) by simp
  have "identify pio_bus 0 False h = (Some (parse_identify 0 False (pd_ident h)), ?r\<lparr>pd_phase := Quiet\<rparr>)"
    using m p w r
    by (simp add: identify_def io_of_def ctrl_of_def ata_ports pio_out8_def pio_in8_def pio_command_def CMD_IDENTIFY_def)
  then show thesis by (rule that) simp_all
qed

text \<open>
  Probing finds exactly the disk that is there, with the capacity and model string of its
  identification block, and reads nothing else of it: the slave that does not answer and the channel
  whose lines float are given up after the poll limit.
\<close>

theorem ata_init_finds:
  assumes ok: "pio_ok (hw st)" and id: "length (pd_ident (hw st)) = 256" and "length (DRIVES st) = MAX_DRIVES"
    and cap: "unat (dv_sectors (parse_identify 0 False (pd_ident (hw st)))) \<le> 2 ^ 28"
  shows "ata_count (ata_init pio_bus st) = 1 \<and> attached 0 (ata_init pio_bus st) \<and>
    DRIVES (ata_init pio_bus st) ! 0 = parse_identify 0 False (pd_ident (hw st)) \<and>
    pd_data (hw (ata_init pio_bus st)) = pd_data (hw st)"
proof -
  let ?d = "parse_identify 0 False (pd_ident (hw st))"
  obtain h where h: "identify pio_bus 0 False (hw st) = (Some ?d, h)"
      "pd_data h = pd_data (hw st)" "pd_latency h = pd_latency (hw st)" "pd_busy h = 0"
    using identify_master [OF ok id] by blast
  obtain g where g: "identify pio_bus 0 True h = (None, g)" "pd_data g = pd_data h" "pd_latency g = pd_latency h"
      "pd_busy g = pd_busy h - 1"
    using identify_slave [of h] by blast
  have "ata_init pio_bus st = st\<lparr>hw := g, DRIVES := (DRIVES st)[0 := ?d], DRIVE_COUNT := 1, PRESENT := True\<rparr>"
    using h(1) g(1) by (simp add: ata_init_def probe_one_def identify_absent MAX_DRIVES_def)
  moreover have "dv_channel ?d = 0" "\<not> dv_slave ?d"
    by (simp_all add: parse_identify_def split: prod.splits)
  ultimately show ?thesis
    using assms h g POLL_LIMIT_pos by (simp add: ata_count_def attached_def pio_ok_def MAX_DRIVES_def)
qed

definition sample_disk :: pio where
  "sample_disk = \<lparr>pd_data = (\<lambda>_. replicate 256 0), pd_ident = (replicate 256 0)[60 := 0x4000], pd_latency = 3,
     pd_head = 0, pd_cnt = 0, pd_l0 = 0, pd_l1 = 0, pd_l2 = 0, pd_busy = 0, pd_phase = Quiet\<rparr>"

definition sample_ata :: "pio ata" where
  "sample_ata = \<lparr>DRIVES = replicate 4 drive_empty, DRIVE_COUNT = 0, PRESENT = False, READS = 0, WRITES = 0,
     hw = sample_disk\<rparr>"

lemma sample_disk_ok:
  "pio_ok sample_disk" "length (pd_ident sample_disk) = 256"
  "dv_sectors (parse_identify 0 False (pd_ident sample_disk)) = 0x4000"
  by (simp_all add: pio_ok_def sample_disk_def POLL_LIMIT_def parse_identify_def split: prod.splits)

theorem ata_init_finds_witness:
  "ata_count (ata_init pio_bus sample_ata) = 1 \<and> attached 0 (ata_init pio_bus sample_ata) \<and>
    DRIVES (ata_init pio_bus sample_ata) ! 0 = parse_identify 0 False (pd_ident (hw sample_ata)) \<and>
    pd_data (hw (ata_init pio_bus sample_ata)) = pd_data (hw sample_ata)"
  by (rule ata_init_finds) (simp_all add: sample_ata_def MAX_DRIVES_def sample_disk_ok)

section \<open>What was written is read back\<close>

lemma sectors_store:
  assumes "n * 512 \<le> length buf" "a \<le> b" "b + m \<le> a + n" "pd_data h = store_sectors a 0 n buf f"
  shows "disk_bytes h b m = bslice ((b - a) * 512) (m * 512) buf"
  using assms
proof (induction m arbitrary: b)
  case (Suc m)
  let ?k = "b - a"
  have "(?k + 1) * 512 \<le> n * 512"
    using Suc.prems by (intro mult_right_mono) simp_all
  then have len: "even (length (bslice (?k * 512) 512 buf))"
    using Suc.prems(1) by simp
  have "bytes_of_words (pd_data h b) = bslice (?k * 512) 512 buf"
    using Suc.prems bytes_of_words_of_bytes [OF len] by (simp add: store_sectors_def sector_of_def)
  moreover have "disk_bytes h (b + 1) m = bslice ((?k + 1) * 512) (m * 512) buf"
    using Suc.IH [of "b + 1"] Suc.prems by (simp add: Suc_diff_le)
  ultimately show ?case
    by (simp add: disk_bytes_Suc bslice_def take_add [symmetric] add.commute drop_drop)
      (simp add: take_add drop_drop add.commute)
qed (simp add: disk_bytes_def bslice_def)


definition sample_ready :: "pio ata" where
  "sample_ready = sample_ata\<lparr>DRIVES := replicate 4 (drive_empty\<lparr>dv_sectors := 0x4000\<rparr>), DRIVE_COUNT := 1\<rparr>"

lemma sample_ready_attached: "attached 0 sample_ready" "capacity 0 sample_ready = 0x4000"
  using sample_disk_ok(1)
  by (simp_all add: attached_def capacity_def sample_ready_def sample_ata_def drive_empty_def)


end
