(* ===== verification/Boot_Disk.thy ===== *)
theory Boot_Disk
  imports Diskfs_Image Ata_Disk
begin

text \<open>
  The file system on the ATA driver: the driver keeps what the disk interface promises, so the laws
  of the theory Diskfs_Image hold of \<open>kernel/src/fs/diskfs.rs\<close> on top of \<open>kernel/src/dev/ata.rs\<close>.
\<close>

section \<open>The driver provides the interface\<close>

definition sector_bytes :: "pio ata \<Rightarrow> nat \<Rightarrow> bytes" where
  "sector_bytes st a = bytes_of_words (pd_data (hw st) a)"

abbreviation ata_rd :: "pio ata reader" where "ata_rd \<equiv> read_sectors pio_bus"
abbreviation ata_wr :: "pio ata writer" where "ata_wr \<equiv> write_sectors pio_bus"

lemma sector_bytes_store:
  assumes "unat n * 512 \<le> length buf" "pd_data (hw st') = store_sectors l 0 (unat (n :: u8)) buf (pd_data (hw st))"
  shows "sector_bytes st' = (\<lambda>a. if l \<le> a \<and> a < l + unat n then bslice ((a - l) * 512) 512 buf else sector_bytes st a)"
proof
  fix a
  have "even (length (bslice ((a - l) * 512) 512 buf))" if "l \<le> a" "a < l + unat n"
  proof -
    have "(a - l + 1) * 512 \<le> unat n * 512" using that by (intro mult_right_mono) auto
    with assms(1) show ?thesis by simp
  qed
  then show "sector_bytes st' a = (if l \<le> a \<and> a < l + unat n then bslice ((a - l) * 512) 512 buf else sector_bytes st a)"
    by (auto simp: sector_bytes_def assms(2) store_sectors_def sector_of_def bytes_of_words_of_bytes)
qed

interpretation ata_disk: sector_disk ata_rd ata_wr attached capacity sector_bytes
proof
  show "length (sector_bytes d a) = 512" if "attached i d" for i d a
    using that by (simp add: sector_bytes_def length_bytes_of_words attached_def pio_ok_def)
  show "\<exists>d'. ata_rd i lba n buf d =
      ((True, put_at 0 (concat (map (sector_bytes d) [unat lba..<unat lba + unat n])) buf), d') \<and>
      attached i d' \<and> capacity i d' = capacity i d \<and> sector_bytes d' = sector_bytes d"
    if a: "attached i d" "0 < unat n" "unat lba + unat n \<le> capacity i d" "unat n * 512 \<le> length buf" for i d n lba buf
    by (rule read_sectors_disk [OF a]) (auto simp: sectors_at_def disk_bytes_def sector_bytes_def [abs_def])
  show "\<exists>d'. ata_wr i lba n buf d = (True, d') \<and> attached i d' \<and> capacity i d' = capacity i d \<and>
      sector_bytes d' = (\<lambda>a. if unat lba \<le> a \<and> a < unat lba + unat n then bslice ((a - unat lba) * 512) 512 buf else sector_bytes d a)"
    if a: "attached i d" "0 < unat n" "unat lba + unat n \<le> capacity i d" "unat n * 512 \<le> length buf" for i d n lba buf
  proof (rule write_sectors_disk [OF a])
    fix d' assume "ata_wr i lba n buf d = (True, d')" "attached i d'" "capacity i d' = capacity i d"
      "pd_data (hw d') = store_sectors (unat lba) 0 (unat n) buf (pd_data (hw d))"
    then show ?thesis using sector_bytes_store [OF a(4)] by blast
  qed
qed

lemma ata_usable: "attached i st \<Longrightarrow> 10240 \<le> capacity i st \<Longrightarrow> ata_disk.usable i st"
  by (simp add: ata_disk.usable_def)

text \<open>The inode record \<open>k\<close> of the disk.\<close>

definition inode_on :: "pio ata \<Rightarrow> nat \<Rightarrow> disk_inode" where
  "inode_on st k = unpack_inode (bslice (k * 64) 64 (disk_block (sector_bytes st) 1))"

text \<open>The tree can be saved: every file is readable and all of them fit the data area.\<close>

definition savable :: "fs \<Rightarrow> bool" where
  "savable s \<longleftrightarrow> (\<forall>vid \<in> set (collect_order s). readable s vid) \<and>
     sum_list (map (need_blocks s) (collect_order s)) \<le> 1021"

lemma walk_live:
  assumes "vfs_wf s"
  shows "length (collect_order s) \<le> 64" "\<forall>vid \<in> set (collect_order s). get_type vid s \<noteq> None"
proof -
  note w = collect_order_walk [OF assms]
  show "length (collect_order s) \<le> 64" by (rule walk_inv_length [OF w])
  have "set (collect_order s) \<subseteq> dom (vview s)" using w by (simp add: walk_inv_def)
  then show "\<forall>vid \<in> set (collect_order s). get_type vid s \<noteq> None" by (auto simp: get_view)
qed

lemma save_on_ata:
  assumes wf: "vfs_wf s" and a: "attached i st" "10240 \<le> capacity i st" and sv: "savable s"
  obtains st' where "disk_save ata_rd ata_wr i s st = (True, st')" "ata_disk.usable i st'"
    "\<And>k. k < length (collect_order s) \<Longrightarrow>
       entry_image s (collect_order s) (disk_block (sector_bytes st')) k (inode_on st' k) \<and>
       extent_below s (collect_order s ! k) 1024 (inode_on st' k) \<and>
       extent_at s (collect_order s) k (inode_on st' k)"
    "marks_below (disk_block (sector_bytes st') 2) (sum_list (map (need_blocks s) (collect_order s)))"
    "\<exists>gen. disk_block (sector_bytes st') 0 = pack_superblock (new_superblock gen)"
proof -
  note u = ata_usable [OF a]
  note live = walk_live [OF wf]
  obtain st' where st': "disk_save ata_rd ata_wr i s st = (True, st')"
    using ata_disk.disk_save_ok [OF u live(1)] live(2) sv by (auto simp: savable_def)
  show thesis
    using that [OF st'] ata_disk.disk_save_law [OF u live st'] by (auto simp: inode_on_def)
qed

section \<open>Properties\<close>

text \<open>
  C17.  The walk that saving uses visits the root first, no vnode twice, every vnode after its parent
  (the order the loader depends on), and with a vnode all of its children: everything a path can name.
\<close>

theorem collect_order_complete:
  assumes "vfs_wf s"
  shows "collect_order s \<noteq> [] \<and> collect_order s ! 0 = ROOT_ID \<and> distinct (collect_order s) \<and>
    (\<forall>k. 0 < k \<and> k < length (collect_order s) \<longrightarrow>
      (\<exists>j < k. collect_order s ! j = get_parent (collect_order s ! k) s)) \<and>
    (\<forall>p v c. p \<in> set (collect_order s) \<and> vview s p = Some v \<and> c \<in> set (kids v) \<longrightarrow> c \<in> set (collect_order s))"
proof -
  let ?o = "collect_order s"
  note w = collect_order_walk [OF assms, unfolded walk_inv_def]
  have "c \<in> set ?o" if pvc: "p \<in> set ?o" "vview s p = Some v" "c \<in> set (kids v)" for p v c
  proof -
    obtain j where "j < length ?o" "?o ! j = p" using pvc(1) by (auto simp: in_set_conv_nth)
    with w pvc(2,3) show ?thesis by blast
  qed
  moreover have "\<exists>j < k. ?o ! j = get_parent (?o ! k) s" if "0 < k" "k < length ?o" for k
  proof -
    from w have "\<forall>k. 0 < k \<and> k < length ?o \<longrightarrow> (\<exists>j < min k (length ?o). ?o ! j = get_parent (?o ! k) s)" by (elim conjE)
    with that show ?thesis by fastforce
  qed
  ultimately show ?thesis using w by blast
qed

text \<open>
  C15.  Saving a well-formed tree whose files are readable and fit the data area succeeds, and the
  disk then holds an image of it: a superblock, and for every entry of the walk a record with its type,
  owner, mode and name, the slot of its parent, and data blocks that are its contents padded with
  zeros.  The extents of the non-empty files follow one another without gap or overlap from block 3
  on, in the order of the walk, each with the file's own number of blocks, and the bitmap marks
  exactly the blocks they take together.
\<close>

theorem save_image:
  assumes "vfs_wf s" "attached i st" "10240 \<le> capacity i st" "savable s"
  shows "\<exists>st'. disk_save ata_rd ata_wr i s st = (True, st') \<and>
    (\<exists>gen. disk_block (sector_bytes st') 0 = pack_superblock (new_superblock gen)) \<and>
    marks_below (disk_block (sector_bytes st') 2) (sum_list (map (need_blocks s) (collect_order s))) \<and>
    (\<forall>k < length (collect_order s).
      entry_image s (collect_order s) (disk_block (sector_bytes st')) k (inode_on st' k) \<and>
      extent_at s (collect_order s) k (inode_on st' k))"
  by (rule save_on_ata [OF assms]) blast

text \<open>
  C16.  What a save wrote, the loader's reading loop gives back: for every file of the walk, the loop
  over the blocks its record names returns exactly the contents of the file.
\<close>

theorem save_reads_back:
  assumes "vfs_wf s" "attached i st" "10240 \<le> capacity i st" "savable s"
    and k: "k < length (collect_order s)" and isf: "get_type (collect_order s ! k) s \<noteq> Some Dir"
    and sz: "get_size (collect_order s ! k) s \<le> 65536"
  shows "let vid = collect_order s ! k; sz = get_size vid s;
      st' = snd (disk_save ata_rd ata_wr i s st); r = inode_on st' k in
    unat (d_size r) = sz \<and>
    take sz (fst (load_blocks ata_rd i (d_first_block r) sz 0 (replicate 65536 0) (replicate 4096 0) st')) =
      read_file_at vid 0 sz s"
proof -
  let ?vid = "collect_order s ! k" and ?r = "\<lambda>st'. inode_on st' k"
  let ?sz = "get_size ?vid s"
  obtain st' where st': "disk_save ata_rd ata_wr i s st = (True, st')" "ata_disk.usable i st'"
      "entry_image s (collect_order s) (disk_block (sector_bytes st')) k (?r st')" "extent_below s ?vid 1024 (?r st')"
    using save_on_ata [OF assms(1-4)] k by metis
  have d: "d_size (?r st') = of_nat ?sz"
      "\<forall>b < blocks_of ?sz. disk_block (sector_bytes st') (unat (d_first_block (?r st')) + b) = file_block s ?vid ?sz b"
    using st'(3) isf by (simp_all add: entry_image_def Let_def)
  have len: "length (read_file_at ?vid 0 ?sz s) = ?sz"
    using assms(4) k isf nth_mem [OF k] by (auto simp: savable_def readable_def)
  have "take ?sz (fst (load_blocks ata_rd i (d_first_block (?r st')) ?sz 0 (replicate 65536 0) (replicate 4096 0) st')) =
      read_file_at ?vid 0 ?sz s"
  proof (cases "?sz = 0")
    case True
    then show ?thesis by (simp add: read_file_at_def)
  next
    case False
    then have "unat (d_first_block (?r st')) + blocks_of ?sz \<le> 1024"
      using st'(4) isf by (simp add: extent_below_def)
    from ata_disk.load_blocks_law [OF st'(2) this _ sz _ d(2) len refl, of "replicate 65536 0" "replicate 4096 0" 0]
    show ?thesis by auto
  qed
  moreover have "unat (of_nat ?sz :: u32) = ?sz" using sz by (simp add: unat_of_nat)
  ultimately show ?thesis using d(1) st'(1) by (simp add: Let_def)
qed

text \<open>
  C20.  Loading panics exactly when the superblock is accepted and claims more inodes than the inode
  block holds: the count is taken from the disk unchecked.
\<close>

theorem disk_load_panics:
  assumes "attached i st" "10240 \<le> capacity i st"
  shows "disk_load ata_rd i s st = None \<longleftrightarrow>
    (let b = disk_block (sector_bytes st) 0; sb = unpack_superblock b in
     from_le64 b = FS_MAGIC \<and> sb_block_size sb = 4096 \<and> sb_version sb = 1 \<and>
     unat (sb_inode_table_block sb) < 1024 \<and> INODE_COUNT < unat (sb_inode_count sb))"
  using ata_disk.disk_load_None [OF ata_usable [OF assms], of s] by (simp add: Let_def INODE_COUNT_def disk_consts)

text \<open>
  C19.  Formatting a large enough disk succeeds; the file system is then found, and mounting it gives
  the empty tree whatever tree was there before.
\<close>

theorem format_mounts:
  assumes "attached i st" "10240 \<le> capacity i st"
  shows "fst (disk_format ata_wr i st) \<and> fst (disk_is_present ata_rd i (snd (disk_format ata_wr i st))) \<and>
    map_option fst (disk_load ata_rd i s (snd (disk_format ata_wr i st))) = Some (True, vfs_reset s)"
proof (rule ata_disk.format_load [OF ata_usable [OF assms], of s])
  fix d' d'' assume "disk_format ata_wr i st = (True, d')" "disk_load ata_rd i s d' = Some ((True, vfs_reset s), d'')"
    "fst (disk_is_present ata_rd i d')"
  then show ?thesis by simp
qed

text \<open>The two records of the format survive a trip through their byte layout.\<close>

theorem disk_records_round_trip:
  assumes "length (d_name d) = 32"
  shows "unpack_inode (pack_inode d) = d \<and> length (pack_inode d) = INODE_SIZE \<and>
    unpack_superblock (pack_superblock sb) = sb \<and> length (pack_superblock sb) = BLOCK_SIZE"
  using assms by (simp add: unpack_pack_inode unpack_pack_superblock INODE_SIZE_def BLOCK_SIZE_def)

section \<open>A disk and a tree\<close>

definition tree_root :: vnode where
  "tree_root = root_vnode\<lparr>v_child_ids := 2 # replicate 15 0, v_child_count := 1\<rparr>"

definition tree_file :: vnode where
  "tree_file = (set_name_raw (str ''a'') vnode_empty)
     \<lparr>v_id := 2, v_parent := 1, v_size := 3, v_data_offset := 1, v_data_cap := 3\<rparr>"

definition sample_tree :: fs where
  "sample_tree = sample_fs
     \<lparr>VNODES := tree_root # tree_file # replicate 62 vnode_empty, NEXT_ID := 3, DATA_POOL := (\<lambda>_. 7)\<rparr>"

lemma sample_tree_walk: "collect_order sample_tree = [1, 2]"
  by code_simp

lemma sample_tree_gets:
  "get_type 1 sample_tree = Some Dir" "get_type 2 sample_tree = Some File" "get_size 2 sample_tree = 3"
  "get_data_offset 2 sample_tree = 1"
  by code_simp+

lemma nth_sample_tree:
  "k < 64 \<Longrightarrow> VNODES sample_tree ! k = (if k = 0 then tree_root else if k = 1 then tree_file else vnode_empty)"
  by (auto simp: sample_tree_def nth_Cons')

lemma tree_nodes:
  "v_id tree_root = 1" "v_id tree_file = 2" "v_id vnode_empty = 0" "kids tree_root = [2]" "kids tree_file = []"
  "v_type tree_root = Dir" "v_parent tree_root = 0" "v_parent tree_file = 1" "vnode_ok tree_root" "vnode_ok tree_file"
  using root_vnode_fields(5)
  by (simp_all add: tree_root_def tree_file_def vnode_empty_def kids_def vnode_ok_def set_name_raw_def Let_def put_at_def vfs_consts)

lemma sample_tree_wf: "vfs_wf sample_tree"
proof -
  have tok: "table_ok sample_tree"
    unfolding table_ok_def
  proof (intro conjI allI impI)
    show "length (VNODES sample_tree) = 64" by (simp add: sample_tree_def)
    fix k j assume "k < 64" "j < 64"
      "v_id (VNODES sample_tree ! k) \<noteq> 0 \<and> v_id (VNODES sample_tree ! k) = v_id (VNODES sample_tree ! j)"
    then show "k = j" by (simp add: nth_sample_tree tree_nodes split: if_splits)
  qed
  have "vview sample_tree j = [1 \<mapsto> tree_root, 2 \<mapsto> tree_file] j" for j
  proof (rule option_eqI_Some)
    fix v
    show "vview sample_tree j = Some v \<longleftrightarrow> [1 \<mapsto> tree_root, 2 \<mapsto> tree_file] j = Some v"
      unfolding vview_Some [OF tok]
      by (auto simp: nth_sample_tree tree_nodes split: if_splits intro: exI [of _ 0] exI [of _ 1])
  qed
  then have v: "vview sample_tree = [1 \<mapsto> tree_root, 2 \<mapsto> tree_file]" by (rule ext)
  have "view_wf [1 \<mapsto> tree_root, 2 \<mapsto> tree_file] 3"
    by (rule view_wfI) (auto simp: tree_nodes ROOT_ID_def split: if_splits)
  then show ?thesis using tok by (simp add: vfs_wf_def v) (simp add: sample_tree_def)
qed

lemma sample_tree_contents: "read_file_at 2 0 3 sample_tree = [7, 7, 7]"
  by (simp add: read_file_at_def Let_def sample_tree_gets upt_rec) (simp add: sample_tree_def)

lemma sample_tree_savable: "savable sample_tree"
  by (simp add: savable_def sample_tree_walk readable_def need_blocks_def sample_tree_gets sample_tree_contents blocks_of_def)

theorem collect_order_complete_witness:
  "collect_order sample_tree = [ROOT_ID, 2] \<and> distinct (collect_order sample_tree)"
  using collect_order_complete [OF sample_tree_wf] by (simp add: sample_tree_walk ROOT_ID_def)

theorem save_image_witness:
  "\<exists>st'. disk_save ata_rd ata_wr 0 sample_tree sample_ready = (True, st') \<and>
    entry_image sample_tree [1, 2] (disk_block (sector_bytes st')) 1 (inode_on st' 1) \<and>
    unat (d_first_block (inode_on st' 1)) = 3 \<and> marks_below (disk_block (sector_bytes st') 2) 1"
proof -
  have nb: "need_blocks sample_tree 1 = 0" "need_blocks sample_tree 2 = 1"
    by (simp_all add: need_blocks_def sample_tree_gets blocks_of_def)
  obtain st' where st': "disk_save ata_rd ata_wr 0 sample_tree sample_ready = (True, st')"
    "marks_below (disk_block (sector_bytes st') 2) (sum_list (map (need_blocks sample_tree) (collect_order sample_tree)))"
    "\<forall>k < length (collect_order sample_tree).
      entry_image sample_tree (collect_order sample_tree) (disk_block (sector_bytes st')) k (inode_on st' k) \<and>
      extent_at sample_tree (collect_order sample_tree) k (inode_on st' k)"
    using save_image [OF sample_tree_wf sample_ready_attached(1) _ sample_tree_savable]
    by (auto simp: sample_ready_attached)
  from st'(3) [THEN spec, of 1] st'(1,2) show ?thesis
    by (simp add: sample_tree_walk extent_at_def offset_of_def nb sample_tree_gets)
qed

theorem save_reads_back_witness:
  "let st' = snd (disk_save ata_rd ata_wr 0 sample_tree sample_ready); r = inode_on st' 1 in
    unat (d_size r) = 3 \<and>
    take 3 (fst (load_blocks ata_rd 0 (d_first_block r) 3 0 (replicate 65536 0) (replicate 4096 0) st')) = [7, 7, 7]"
  using save_reads_back [OF sample_tree_wf sample_ready_attached(1) _ sample_tree_savable, of 1]
  by (simp add: sample_ready_attached sample_tree_walk sample_tree_gets sample_tree_contents Let_def)

theorem disk_load_panics_witness:
  "disk_load ata_rd 0 sample_tree (snd (write_superblock ata_wr 0 ((new_superblock 0)\<lparr>sb_inode_count := 65\<rparr>) sample_ready)) = None"
proof -
  let ?sb = "(new_superblock 0)\<lparr>sb_inode_count := 65\<rparr>"
  have "ata_disk.usable 0 sample_ready"
    by (rule ata_usable) (simp_all add: sample_ready_attached)
  then obtain st where st: "write_superblock ata_wr 0 ?sb sample_ready = (True, st)" "ata_disk.usable 0 st"
      "disk_block (sector_bytes st) = (disk_block (sector_bytes sample_ready))(0 := pack_superblock ?sb)"
    by (rule ata_disk.write_superblock_law)
  then have "attached 0 st" "10240 \<le> capacity 0 st" by (simp_all add: ata_disk.usable_def)
  from disk_load_panics [OF this, of sample_tree] st show ?thesis
    by (simp add: unpack_pack_superblock magic_pack Let_def new_superblock_def disk_consts)
qed

theorem format_mounts_witness:
  "fst (disk_format ata_wr 0 sample_ready) \<and>
    map_option fst (disk_load ata_rd 0 sample_tree (snd (disk_format ata_wr 0 sample_ready))) =
      Some (True, vfs_reset sample_tree)"
  using format_mounts [OF sample_ready_attached(1), of sample_tree] by (simp add: sample_ready_attached)

theorem disk_records_round_trip_witness:
  "unpack_inode (pack_inode (disk_inode_blank\<lparr>d_size := 5\<rparr>)) = disk_inode_blank\<lparr>d_size := 5\<rparr>"
  using disk_records_round_trip [of "disk_inode_blank\<lparr>d_size := 5\<rparr>"] by (simp add: disk_inode_blank_def)

end
