(* ===== verification/Pci.thy ===== *)
theory Pci
  imports Prelude
begin

text \<open>
  PCI enumeration, \<open>kernel/src/dev/pci.rs\<close>: access to configuration space through the two ports of
  mechanism 1, sizing of the first base address register, and the scan of all buses into the table of
  devices.  The two port instructions are parameters; a host bridge that follows mechanism 1 is given
  below, and the scan is shown to find exactly the functions behind it.
\<close>

section \<open>Configuration space\<close>

definition CONFIG_ADDR :: u16 where "CONFIG_ADDR = 0xCF8"
definition CONFIG_DATA :: u16 where "CONFIG_DATA = 0xCFC"
definition MAX_DEVICES :: nat where "MAX_DEVICES = 128"

record 'p ports32 =
  outl :: "u16 \<Rightarrow> u32 \<Rightarrow> 'p \<Rightarrow> 'p"
  inl :: "u16 \<Rightarrow> 'p \<Rightarrow> u32 \<times> 'p"

record pci_device =
  pd_bus :: u8
  pd_dev :: u8
  pd_func :: u8
  pd_vendor :: u16
  pd_device :: u16
  pd_class :: u8
  pd_subclass :: u8
  pd_prog_if :: u8
  pd_bar0 :: u32
  pd_bar0_addr :: nat
  pd_bar0_size :: nat

definition config_address :: "u8 \<Rightarrow> u8 \<Rightarrow> u8 \<Rightarrow> u8 \<Rightarrow> u32" where
  "config_address bus dev func offset =
     0x80000000 OR push_bit 16 (ucast bus) OR push_bit 11 (ucast dev AND 0x1F)
       OR push_bit 8 (ucast func AND 0x07) OR (ucast offset AND 0xFC)"

definition config_read_u32 :: "'p ports32 \<Rightarrow> u8 \<Rightarrow> u8 \<Rightarrow> u8 \<Rightarrow> u8 \<Rightarrow> 'p \<Rightarrow> u32 \<times> 'p" where
  "config_read_u32 io bus dev func offset p =
     inl io CONFIG_DATA (outl io CONFIG_ADDR (config_address bus dev func offset) p)"

definition config_read_u16 :: "'p ports32 \<Rightarrow> u8 \<Rightarrow> u8 \<Rightarrow> u8 \<Rightarrow> u8 \<Rightarrow> 'p \<Rightarrow> u16 \<times> 'p" where
  "config_read_u16 io bus dev func offset p =
     (let (v, p) = config_read_u32 io bus dev func (offset AND 0xFC) p
      in (ucast (drop_bit (unat ((offset AND 2) * 8)) v AND 0xFFFF), p))"

definition config_read_u8 :: "'p ports32 \<Rightarrow> u8 \<Rightarrow> u8 \<Rightarrow> u8 \<Rightarrow> u8 \<Rightarrow> 'p \<Rightarrow> u8 \<times> 'p" where
  "config_read_u8 io bus dev func offset p =
     (let (v, p) = config_read_u32 io bus dev func (offset AND 0xFC) p
      in (ucast (drop_bit (unat ((offset AND 3) * 8)) v AND 0xFF), p))"

definition config_write_u32 :: "'p ports32 \<Rightarrow> u8 \<Rightarrow> u8 \<Rightarrow> u8 \<Rightarrow> u8 \<Rightarrow> u32 \<Rightarrow> 'p \<Rightarrow> 'p" where
  "config_write_u32 io bus dev func offset v p =
     outl io CONFIG_DATA v (outl io CONFIG_ADDR (config_address bus dev func offset) p)"

definition size_of_mask :: "u32 \<Rightarrow> nat" where
  "size_of_mask m = (if m = 0 \<or> m = 0xFFFFFFFF then 0 else unat (NOT (m AND 0xFFFFFFF0) + 1))"

definition bar_size :: "'p ports32 \<Rightarrow> u8 \<Rightarrow> u8 \<Rightarrow> u8 \<Rightarrow> u8 \<Rightarrow> 'p \<Rightarrow> nat \<times> 'p" where
  "bar_size io bus dev func bar_index p =
     (let off = 0x10 + bar_index * 4;
          (orig, p) = config_read_u32 io bus dev func off p;
          p = config_write_u32 io bus dev func off 0xFFFFFFFF p;
          (m, p) = config_read_u32 io bus dev func off p;
          p = config_write_u32 io bus dev func off orig p
      in (size_of_mask m, p))"

section \<open>The scan\<close>

text \<open>The loop's variables: the ports, the recorded devices (\<open>n\<close> is their number) and \<open>dropped\<close>.\<close>

type_synonym 'p scan = "'p \<times> pci_device list \<times> nat"

definition read_func :: "'p ports32 \<Rightarrow> u8 \<Rightarrow> u8 \<Rightarrow> u8 \<Rightarrow> u16 \<Rightarrow> 'p \<Rightarrow> pci_device \<times> 'p" where
  "read_func io bus dev func vendor p =
     (let (device, p) = config_read_u16 io bus dev func 0x02 p;
          (cls, p) = config_read_u8 io bus dev func 0x0B p;
          (subclass, p) = config_read_u8 io bus dev func 0x0A p;
          (prog_if, p) = config_read_u8 io bus dev func 0x09 p;
          (bar0, p) = config_read_u32 io bus dev func 0x10 p;
          ((bar0_addr, bar0_sz), p) =
            (if bar0 AND 1 \<noteq> 0 then ((unat (bar0 AND 0xFFFFFFFC), 0), p)
             else let (sz, p) = bar_size io bus dev func 0 p in ((unat (bar0 AND 0xFFFFFFF0), sz), p))
      in (\<lparr>pd_bus = bus, pd_dev = dev, pd_func = func, pd_vendor = vendor, pd_device = device,
           pd_class = cls, pd_subclass = subclass, pd_prog_if = prog_if, pd_bar0 = bar0,
           pd_bar0_addr = bar0_addr, pd_bar0_size = bar0_sz\<rparr>, p))"

definition scan_func :: "'p ports32 \<Rightarrow> u8 \<Rightarrow> u8 \<Rightarrow> nat \<Rightarrow> 'p scan \<Rightarrow> 'p scan" where
  "scan_func io bus dev f st =
     (let (p, found, dropped) = st; func = of_nat f;
          (vendor, p) = config_read_u16 io bus dev func 0x00 p
      in if vendor = 0xFFFF then (p, found, dropped)
         else if length found \<ge> MAX_DEVICES then (p, found, dropped + 1)
         else let (d, p) = read_func io bus dev func vendor p in (p, found @ [d], dropped))"

definition scan_slot :: "'p ports32 \<Rightarrow> nat \<Rightarrow> nat \<Rightarrow> 'p scan \<Rightarrow> 'p scan" where
  "scan_slot io b d st =
     (let (p, found, dropped) = st; bus = of_nat b; dev = of_nat d;
          (vendor, p) = config_read_u16 io bus dev 0 0x00 p
      in if vendor = 0xFFFF then (p, found, dropped)
         else
           let (header, p) = config_read_u8 io bus dev 0 0x0E p;
               funcs = (if header AND 0x80 \<noteq> 0 then 8 else 1)
           in fold (scan_func io bus dev) [0..<funcs] (p, found, dropped))"

definition pci_init :: "'p ports32 \<Rightarrow> 'p \<Rightarrow> 'p scan" where
  "pci_init io p = fold (\<lambda>b. fold (scan_slot io b) [0..<32]) [0..<256] (p, [], 0)"

text \<open>Looking up the table that the scan leaves behind.\<close>

definition pci_find :: "u16 \<Rightarrow> u16 \<Rightarrow> pci_device list \<Rightarrow> pci_device option" where
  "pci_find vendor device ds =
     map_option ((!) ds) (first_from (\<lambda>i. pd_vendor (ds ! i) = vendor \<and> pd_device (ds ! i) = device) 0 (length ds))"

definition find_class :: "u8 \<Rightarrow> u8 \<Rightarrow> pci_device list \<Rightarrow> pci_device option" where
  "find_class cls subclass ds =
     map_option ((!) ds) (first_from (\<lambda>i. pd_class (ds ! i) = cls \<and> pd_subclass (ds ! i) = subclass) 0 (length ds))"

section \<open>A host bridge\<close>

text \<open>
  Configuration space as dwords by address, the bits of each dword that can be written, and the
  address latch of mechanism 1.
\<close>

record bridge =
  latch :: u32
  dword :: "u32 \<Rightarrow> u32"
  writable :: "u32 \<Rightarrow> u32"

definition host_bridge :: "bridge ports32" where
  "host_bridge =
     \<lparr>outl = (\<lambda>port v s.
        if port = CONFIG_ADDR then s\<lparr>latch := v\<rparr>
        else if port = CONFIG_DATA then
          s\<lparr>dword := (dword s)(latch s := (dword s (latch s) AND NOT (writable s (latch s))) OR (v AND writable s (latch s)))\<rparr>
        else s),
      inl = (\<lambda>port s. (if port = CONFIG_DATA then dword s (latch s) else latch s, s))\<rparr>"

text \<open>What a function of the bridge should be recorded as, and the functions in scanning order.\<close>

definition cfg8 :: "bridge \<Rightarrow> u8 \<Rightarrow> u8 \<Rightarrow> u8 \<Rightarrow> u8 \<Rightarrow> nat \<Rightarrow> u8" where
  "cfg8 s b d f off i = ucast (drop_bit (8 * i) (dword s (config_address b d f off)))"

definition cfg16 :: "bridge \<Rightarrow> u8 \<Rightarrow> u8 \<Rightarrow> u8 \<Rightarrow> nat \<Rightarrow> u16" where
  "cfg16 s b d f i = ucast (drop_bit (16 * i) (dword s (config_address b d f 0)))"

definition responds :: "bridge \<Rightarrow> u8 \<Rightarrow> u8 \<Rightarrow> u8 \<Rightarrow> bool" where
  "responds s b d f \<longleftrightarrow> cfg16 s b d f 0 \<noteq> 0xFFFF"

definition device_at :: "bridge \<Rightarrow> u8 \<Rightarrow> u8 \<Rightarrow> u8 \<Rightarrow> pci_device" where
  "device_at s b d f =
     (let a = config_address b d f 0x10; bar = dword s a; io = bit bar 0 in
      \<lparr>pd_bus = b, pd_dev = d, pd_func = f, pd_vendor = cfg16 s b d f 0, pd_device = cfg16 s b d f 1,
       pd_class = cfg8 s b d f 8 3, pd_subclass = cfg8 s b d f 8 2, pd_prog_if = cfg8 s b d f 8 1, pd_bar0 = bar,
       pd_bar0_addr = unat (if io then bar AND 0xFFFFFFFC else bar AND 0xFFFFFFF0),
       pd_bar0_size = (if io then 0 else size_of_mask (bar OR writable s a))\<rparr>)"

definition functions_at :: "bridge \<Rightarrow> nat \<Rightarrow> nat \<Rightarrow> pci_device list" where
  "functions_at s b d =
     (let b = of_nat b; d = of_nat d in
      if \<not> responds s b d 0 then []
      else map (device_at s b d) (filter (responds s b d)
             (map of_nat [0..<if bit (cfg8 s b d 0 0x0C 2) 7 then 8 else 1])))"

definition all_functions :: "bridge \<Rightarrow> pci_device list" where
  "all_functions s = concat (map (\<lambda>b. concat (map (functions_at s b) [0..<32])) [0..<256])"

lemma read_u32_bridge:
  "config_read_u32 host_bridge b d f off s = (dword s (config_address b d f off), s\<lparr>latch := config_address b d f off\<rparr>)"
  by (simp add: config_read_u32_def host_bridge_def CONFIG_ADDR_def CONFIG_DATA_def)

lemma config_address_align: "config_address b d f (off AND 0xFC) = config_address b d f off"
proof -
  have "ucast (off AND 0xFC) AND 0xFC = (ucast off AND 0xFC :: u32)"
    by (rule bit_word_eqI) (auto simp: bit_simps dest: bit_imp_le_length)
  then show ?thesis by (simp add: config_address_def)
qed

lemma low16: "ucast (v AND 0xFFFF) = (ucast v :: u16)" for v :: u32
proof -
  have "v AND 0xFFFF = take_bit 16 v" by (simp add: take_bit_eq_mask mask_eq_exp_minus_1)
  then show ?thesis by (auto intro!: bit_word_eqI simp: bit_simps)
qed

lemma low8: "ucast (v AND 0xFF) = (ucast v :: u8)" for v :: u32
proof -
  have "v AND 0xFF = take_bit 8 v" by (simp add: take_bit_eq_mask mask_eq_exp_minus_1)
  then show ?thesis by (auto intro!: bit_word_eqI simp: bit_simps)
qed

text \<open>Reads only move the latch.\<close>

lemma read_u16_bridge:
  "config_read_u16 host_bridge b d f 0 s = (cfg16 s b d f 0, s\<lparr>latch := config_address b d f 0\<rparr>)"
  "config_read_u16 host_bridge b d f 2 s = (cfg16 s b d f 1, s\<lparr>latch := config_address b d f 0\<rparr>)"
  by (simp_all add: config_read_u16_def read_u32_bridge cfg16_def low16)

lemma read_u8_bridge:
  "config_read_u8 host_bridge b d f 0x0B s = (cfg8 s b d f 8 3, s\<lparr>latch := config_address b d f 8\<rparr>)"
  "config_read_u8 host_bridge b d f 0x0A s = (cfg8 s b d f 8 2, s\<lparr>latch := config_address b d f 8\<rparr>)"
  "config_read_u8 host_bridge b d f 0x09 s = (cfg8 s b d f 8 1, s\<lparr>latch := config_address b d f 8\<rparr>)"
  "config_read_u8 host_bridge b d f 0x0E s = (cfg8 s b d f 0x0C 2, s\<lparr>latch := config_address b d f 0x0C\<rparr>)"
  by (simp_all add: config_read_u8_def read_u32_bridge cfg8_def low8)

lemma latch_invisible [simp]:
  "cfg8 (s\<lparr>latch := a\<rparr>) = cfg8 s" "cfg16 (s\<lparr>latch := a\<rparr>) = cfg16 s" "responds (s\<lparr>latch := a\<rparr>) = responds s"
  "device_at (s\<lparr>latch := a\<rparr>) = device_at s"
  by (simp_all add: cfg8_def cfg16_def responds_def device_at_def fun_eq_iff Let_def)

text \<open>Sizing writes all ones to the register and puts its value back.\<close>

lemma probe_bits:
  fixes x w :: u32
  shows "(x AND NOT w) OR w = x OR w" "((x OR w) AND NOT w) OR (x AND w) = x"
  by (rule bit_word_eqI, auto simp: bit_simps)+

lemma bar_size_bridge:
  "bar_size host_bridge b d f 0 s =
     (size_of_mask (dword s (config_address b d f 0x10) OR writable s (config_address b d f 0x10)),
      s\<lparr>latch := config_address b d f 0x10\<rparr>)"
proof -
  have "(0xFFFFFFFF :: u32) = - 1" by simp
  then have "(0xFFFFFFFF :: u32) AND w = w" for w by (metis and.left_neutral)
  then show ?thesis
    by (simp add: bar_size_def read_u32_bridge Let_def config_write_u32_def)
      (simp add: host_bridge_def CONFIG_ADDR_def CONFIG_DATA_def probe_bits)
qed

lemma odd_word: "v AND 1 \<noteq> 0 \<longleftrightarrow> bit v 0" for v :: u32
  by (simp add: and_one_eq mod_2_eq_odd bit_0)

lemma read_func_bridge:
  "\<exists>a. read_func host_bridge b d f (cfg16 s b d f 0) s = (device_at s b d f, s\<lparr>latch := a\<rparr>)"
  by (auto simp: read_func_def read_u16_bridge read_u8_bridge read_u32_bridge bar_size_bridge odd_word
      device_at_def Let_def)

text \<open>
  After functions \<open>fs\<close> have answered, the first 128 are recorded, the others are counted, and
  configuration space is as it was.
\<close>

definition scanned :: "bridge \<Rightarrow> pci_device list \<Rightarrow> bridge scan \<Rightarrow> bool" where
  "scanned s fs st \<longleftrightarrow> (\<exists>a. st = (s\<lparr>latch := a\<rparr>, take 128 fs, length fs - 128))"

lemma scanned_read: "scanned s fs (s\<lparr>latch := a\<rparr>, take 128 fs, length fs - 128)"
  by (auto simp: scanned_def)

lemma scan_func_bridge:
  assumes "scanned s fs st"
  shows "scanned s (fs @ (if responds s b d (of_nat f) then [device_at s b d (of_nat f)] else []))
           (scan_func host_bridge b d f st)"
proof -
  let ?f = "of_nat f :: u8"
  obtain a where st: "st = (s\<lparr>latch := a\<rparr>, take 128 fs, length fs - 128)"
    using assms by (auto simp: scanned_def)
  obtain a' where rd: "read_func host_bridge b d ?f (cfg16 s b d ?f 0) (s\<lparr>latch := config_address b d ?f 0\<rparr>)
      = (device_at s b d ?f, s\<lparr>latch := a'\<rparr>)"
    using read_func_bridge [of b d ?f "s\<lparr>latch := config_address b d ?f 0\<rparr>"] by auto
  show ?thesis
    unfolding st scanned_def scan_func_def
    by (auto simp: read_u16_bridge rd responds_def MAX_DEVICES_def Let_def)
qed

lemma fold_collects:
  assumes "\<And>x fs st. I fs st \<Longrightarrow> I (fs @ g x) (F x st)" "I fs st"
  shows "I (fs @ concat (map g xs)) (fold F xs st)"
  using assms(2)
proof (induction xs arbitrary: fs st)
  case (Cons x xs)
  from Cons.IH [OF assms(1) [OF Cons.prems]] show ?case by simp
qed simp

lemma concat_if: "concat (map (\<lambda>x. if P (h x) then [g (h x)] else []) xs) = map g (filter P (map h xs))"
  by (induction xs) auto

lemma scan_slot_bridge:
  assumes "scanned s fs st"
  shows "scanned s (fs @ functions_at s b d) (scan_slot host_bridge b d st)"
proof -
  let ?b = "of_nat b :: u8" and ?d = "of_nat d :: u8"
  obtain a where st: "st = (s\<lparr>latch := a\<rparr>, take 128 fs, length fs - 128)"
    using assms by (auto simp: scanned_def)
  have top: "cfg8 s ?b ?d 0 12 2 AND 0x80 \<noteq> 0 \<longleftrightarrow> bit (cfg8 s ?b ?d 0 12 2) 7"
    using and_exp_eq_0_iff_not_bit [of "cfg8 s ?b ?d 0 12 2" 7] by simp
  note go = fold_collects [where I = "scanned s" and F = "scan_func host_bridge ?b ?d"
      and g = "\<lambda>f. if responds s ?b ?d (of_nat f) then [device_at s ?b ?d (of_nat f)] else []",
      OF scan_func_bridge scanned_read [of s fs], unfolded concat_if [where h = of_nat]]
  show ?thesis
  proof (cases "responds s ?b ?d 0")
    case False
    then show ?thesis
      using scanned_read by (simp add: st scan_slot_def functions_at_def read_u16_bridge responds_def Let_def)
  next
    case True
    then show ?thesis
      using go [where xs = "[0..<if bit (cfg8 s ?b ?d 0 12 2) 7 then 8 else 1]"]
      by (simp add: st scan_slot_def functions_at_def read_u16_bridge read_u8_bridge responds_def top Let_def)
  qed
qed

lemma pci_init_scanned: "scanned s (all_functions s) (pci_init host_bridge s)"
proof -
  have "scanned s [] (s, [], 0)"
    unfolding scanned_def by (intro exI [of _ "latch s"]) simp
  then show ?thesis
    using fold_collects [where I = "scanned s" and xs = "[0..<256]" and fs = "[]" and st = "(s, [], 0)",
        OF fold_collects [where I = "scanned s", OF scan_slot_bridge]]
    by (simp add: pci_init_def all_functions_def)
qed

lemma pci_find_eq: "pci_find v d ds = find (\<lambda>x. pd_vendor x = v \<and> pd_device x = d) ds"
  unfolding pci_find_def
  using find_first_from [where n = "length ds" and xs = ds and Q = "\<lambda>x. pd_vendor x = v \<and> pd_device x = d"] by simp

lemma find_class_eq: "find_class c sc ds = find (\<lambda>x. pd_class x = c \<and> pd_subclass x = sc) ds"
  unfolding find_class_def
  using find_first_from [where n = "length ds" and xs = ds and Q = "\<lambda>x. pd_class x = c \<and> pd_subclass x = sc"] by simp

text \<open>A 32-bit memory register that decodes \<open>2 ^ k\<close> bytes reports that size.\<close>

lemma size_of_mask_exp:
  assumes k: "4 \<le> k" "k < 32" and bar: "\<not> bit bar 0" "\<And>i. 4 \<le> i \<Longrightarrow> i < k \<Longrightarrow> \<not> bit (bar :: u32) i"
  shows "size_of_mask (bar OR NOT (mask k)) = 2 ^ k"
proof -
  let ?m = "bar OR NOT (mask k)"
  have "bit ?m 31" "\<not> bit ?m 0" using k bar by (simp_all add: bit_simps)
  moreover have "m \<noteq> 0 \<and> m \<noteq> 0xFFFFFFFF" if "bit m 31" "\<not> bit m 0" for m :: u32
    using that by auto
  ultimately have ends: "?m \<noteq> 0" "?m \<noteq> 0xFFFFFFFF" by blast+
  have low: "(0xFFFFFFF0 :: u32) = NOT (mask 4)" by (simp add: mask_eq_exp_minus_1)
  have "NOT (?m AND 0xFFFFFFF0) = mask k"
    unfolding low using k bar(2) by (intro bit_word_eqI) (auto simp: bit_simps not_less)
  then have "NOT (?m AND 0xFFFFFFF0) + 1 = (2 ^ k :: u32)" by (simp add: mask_eq_exp_minus_1)
  moreover have "unat (2 ^ k :: u32) = 2 ^ k"
    using unat_of_nat [of "2 ^ k", where ?'a = 32] power_strict_increasing [OF k(2), of "2 :: nat"] by simp
  ultimately show ?thesis
    using ends by (simp add: size_of_mask_def)
qed

section \<open>The scan finds the functions of the bridge\<close>

text \<open>
  Over a host bridge that follows mechanism 1, the scan records the functions that answer, in the
  order of bus, slot and function and each as its configuration space describes it, up to the 128th,
  counts the others, and leaves every dword of configuration space as it was, the probed base address
  registers included.
\<close>

theorem pci_scan_complete:
  "\<exists>a. pci_init host_bridge s = (s\<lparr>latch := a\<rparr>, take 128 (all_functions s), length (all_functions s) - 128)"
  using pci_init_scanned [of s] by (simp add: scanned_def)

end
