(* ===== verification/E1000.thy ===== *)
theory E1000
  imports Frame_Alloc Pci
begin

text \<open>
  The Intel 8254x driver, \<open>kernel/src/net/e1000.rs\<close>: start-up over the table of PCI devices, the two
  descriptor rings in memory shared with the card, sending, receiving and the EEPROM.  The card is a
  parameter: what it does when a register is written or read, and what it does on its own before a
  look of the driver at the shared memory.
\<close>

section \<open>Registers and state\<close>

definition REG_CTRL :: u32 where "REG_CTRL = 0x0000"
definition REG_NIC_STATUS :: u32 where "REG_NIC_STATUS = 0x0008"
definition REG_EERD :: u32 where "REG_EERD = 0x0014"
definition REG_RCTL :: u32 where "REG_RCTL = 0x0100"
definition REG_TCTL :: u32 where "REG_TCTL = 0x0400"
definition REG_RDBAL :: u32 where "REG_RDBAL = 0x2800"
definition REG_RDBAH :: u32 where "REG_RDBAH = 0x2804"
definition REG_RDLEN :: u32 where "REG_RDLEN = 0x2808"
definition REG_RDH :: u32 where "REG_RDH = 0x2810"
definition REG_RDT :: u32 where "REG_RDT = 0x2818"
definition REG_TDBAL :: u32 where "REG_TDBAL = 0x3800"
definition REG_TDBAH :: u32 where "REG_TDBAH = 0x3804"
definition REG_TDLEN :: u32 where "REG_TDLEN = 0x3808"
definition REG_TDH :: u32 where "REG_TDH = 0x3810"
definition REG_TDT :: u32 where "REG_TDT = 0x3818"

definition REG_IMC :: u32 where "REG_IMC = 0x00D8"
definition REG_MTA :: u32 where "REG_MTA = 0x5200"
definition REG_RAL0 :: u32 where "REG_RAL0 = 0x5400"
definition REG_RAH0 :: u32 where "REG_RAH0 = 0x5404"

definition INTEL :: u16 where "INTEL = 0x8086"
definition ADAPTER_IDS :: "u16 list" where "ADAPTER_IDS = [0x100E, 0x100F, 0x10D3]"
definition CTRL_RST :: u32 where "CTRL_RST = 0x4000000"
definition CTRL_SLU :: u32 where "CTRL_SLU = 0x40"
definition STATUS_LU :: u32 where "STATUS_LU = 2"
definition RCTL_ON :: u32 where "RCTL_ON = 0x0400801A"
definition TCTL_ON :: u32 where "TCTL_ON = 0x4010A"

definition RX_DESC :: nat where "RX_DESC = 8"
definition TX_DESC :: nat where "TX_DESC = 8"
definition BUF_SIZE :: nat where "BUF_SIZE = 2048"

definition EERD_START :: u32 where "EERD_START = 1"
definition EERD_DONE :: u32 where "EERD_DONE = 0x10"
definition RXD_STAT_DD :: u8 where "RXD_STAT_DD = 1"
definition TXD_CMD :: u8 where "TXD_CMD = 0x0B"
definition TXD_STAT_DD :: u8 where "TXD_STAT_DD = 1"

type_synonym dma = "nat \<Rightarrow> u8"

record 'c card =
  reg_write :: "u32 \<Rightarrow> u32 \<Rightarrow> 'c \<times> dma \<Rightarrow> 'c \<times> dma"
  reg_read :: "u32 \<Rightarrow> 'c \<times> dma \<Rightarrow> u32 \<times> ('c \<times> dma)"
  card_runs :: "'c \<times> dma \<Rightarrow> 'c \<times> dma"

record 'c nic =
  NIC_PRESENT :: bool
  MMIO_BASE :: u32
  MAC_LO :: u32
  MAC_HI :: u32
  RX_RING :: u32
  RX_BUFS :: u32
  RX_CUR :: nat
  TX_RING :: u32
  TX_BUFS :: u32
  NIC_TX_TAIL :: nat
  TX_FRAMES :: u32
  RX_FRAMES :: u32
  TX_STALLS :: u32
  chip :: "'c \<times> dma"

definition poke :: "nat \<Rightarrow> bytes \<Rightarrow> dma \<Rightarrow> dma" where
  "poke a bs m = (\<lambda>x. if a \<le> x \<and> x < a + length bs then bs ! (x - a) else m x)"

definition peek :: "nat \<Rightarrow> nat \<Rightarrow> dma \<Rightarrow> bytes" where
  "peek a n m = map m [a..<a + n]"

definition dma_of :: "'c nic \<Rightarrow> dma" where
  "dma_of n = snd (chip n)"

definition set_dma :: "dma \<Rightarrow> 'c nic \<Rightarrow> 'c nic" where
  "set_dma m n = n\<lparr>chip := (fst (chip n), m)\<rparr>"

definition mmio_write :: "'c card \<Rightarrow> u32 \<Rightarrow> u32 \<Rightarrow> 'c nic \<Rightarrow> 'c nic" where
  "mmio_write cd reg v n = (if MMIO_BASE n = 0 then n else n\<lparr>chip := reg_write cd reg v (chip n)\<rparr>)"

definition mmio_read :: "'c card \<Rightarrow> u32 \<Rightarrow> 'c nic \<Rightarrow> u32 \<times> 'c nic" where
  "mmio_read cd reg n =
     (if MMIO_BASE n = 0 then (0, n) else let (v, c) = reg_read cd reg (chip n) in (v, n\<lparr>chip := c\<rparr>))"

definition nic_mac :: "'c nic \<Rightarrow> bytes option" where
  "nic_mac n =
     (if \<not> NIC_PRESENT n then None
      else Some [ucast (MAC_LO n), ucast (drop_bit 8 (MAC_LO n)), ucast (drop_bit 16 (MAC_LO n)),
                 ucast (drop_bit 24 (MAC_LO n)), ucast (MAC_HI n), ucast (drop_bit 8 (MAC_HI n))])"

definition link_up :: "'c card \<Rightarrow> 'c nic \<Rightarrow> bool \<times> 'c nic" where
  "link_up cd n =
     (if \<not> NIC_PRESENT n then (False, n)
      else let (v, n) = mmio_read cd REG_NIC_STATUS n in (v AND STATUS_LU \<noteq> 0, n))"

section \<open>EEPROM\<close>

fun eeprom_poll :: "'c card \<Rightarrow> nat \<Rightarrow> 'c nic \<Rightarrow> u16 option \<times> 'c nic" where
  "eeprom_poll cd k n =
     (if k = 0 then (None, n)
      else
        let (v, n) = mmio_read cd REG_EERD n in
        if v AND EERD_DONE \<noteq> 0 then (Some (ucast (drop_bit 16 v)), n) else eeprom_poll cd (k - 1) n)"

declare eeprom_poll.simps [simp del]

definition eeprom_read :: "'c card \<Rightarrow> u8 \<Rightarrow> 'c nic \<Rightarrow> u16 option \<times> 'c nic" where
  "eeprom_read cd addr n = eeprom_poll cd 100000 (mmio_write cd REG_EERD (push_bit 8 (ucast addr) OR EERD_START) n)"

definition eeprom_mac :: "'c card \<Rightarrow> 'c nic \<Rightarrow> (u32 \<times> u32) option \<times> 'c nic" where
  "eeprom_mac cd n =
     (case eeprom_read cd 0 n of
        (None, n) \<Rightarrow> (None, n)
      | (Some w0, n) \<Rightarrow>
          case eeprom_read cd 1 n of
            (None, n) \<Rightarrow> (None, n)
          | (Some w1, n) \<Rightarrow>
              case eeprom_read cd 2 n of
                (None, n) \<Rightarrow> (None, n)
              | (Some w2, n) \<Rightarrow> (Some (push_bit 16 (ucast w1) OR ucast w0, ucast w2), n))"

section \<open>Rings\<close>

definition init_desc :: "nat \<Rightarrow> nat \<Rightarrow> nat \<Rightarrow> dma \<Rightarrow> dma" where
  "init_desc ring bufs i m =
     poke (ring + i * 16 + 8) (replicate 8 0) (poke (ring + i * 16) (to_le64 (of_nat (bufs + i * BUF_SIZE))) m)"

text \<open>The register writes of \<open>rings_init\<close>, in order.\<close>

definition rings_regs :: "nat \<Rightarrow> nat \<Rightarrow> (u32 \<times> u32) list" where
  "rings_regs rx tx =
     [(REG_RDBAL, of_nat rx), (REG_RDBAH, 0), (REG_RDLEN, of_nat (RX_DESC * 16)), (REG_RDH, 0),
      (REG_RDT, of_nat (RX_DESC - 1)), (REG_RCTL, RCTL_ON),
      (REG_TDBAL, of_nat tx), (REG_TDBAH, 0), (REG_TDLEN, of_nat (TX_DESC * 16)), (REG_TDH, 0),
      (REG_TDT, 0), (REG_TCTL, TCTL_ON)]"

definition rings_init :: "'c card \<Rightarrow> frame_allocator \<Rightarrow> 'c nic \<Rightarrow> (bool \<times> 'c nic) \<times> frame_allocator" where
  "rings_init cd fa n =
     (let (rx_ring, fa) = fa_alloc_contig 1 fa;
          (tx_ring, fa) = fa_alloc_contig 1 fa;
          (rx_bufs, fa) = fa_alloc_contig 4 fa;
          (tx_bufs, fa) = fa_alloc_contig 4 fa
      in if rx_ring = 0 \<or> tx_ring = 0 \<or> rx_bufs = 0 \<or> tx_bufs = 0 then ((False, n), fa)
         else
           let n = n\<lparr>RX_RING := of_nat rx_ring, TX_RING := of_nat tx_ring, RX_BUFS := of_nat rx_bufs,
                     TX_BUFS := of_nat tx_bufs\<rparr>;
               m = fold (init_desc rx_ring rx_bufs) [0..<RX_DESC] (dma_of n);
               m = fold (init_desc tx_ring tx_bufs) [0..<TX_DESC] m;
               n = fold (\<lambda>(r, v). mmio_write cd r v) (rings_regs rx_ring tx_ring) (set_dma m n)
           in ((True, n\<lparr>RX_CUR := 0, NIC_TX_TAIL := 0\<rparr>), fa))"

section \<open>Start-up\<close>

definition find_adapter :: "pci_device list \<Rightarrow> pci_device option" where
  "find_adapter ds =
     (case List.map_filter (\<lambda>dev. pci_find INTEL dev ds) ADAPTER_IDS of
        d # _ \<Rightarrow> Some d
      | [] \<Rightarrow> find_class 0x02 0x00 ds)"

text \<open>A loop that reads a register until a test holds, at most \<open>k\<close> times.\<close>

fun mmio_poll :: "'c card \<Rightarrow> u32 \<Rightarrow> (u32 \<Rightarrow> bool) \<Rightarrow> nat \<Rightarrow> 'c nic \<Rightarrow> 'c nic" where
  "mmio_poll cd reg P k n =
     (if k = 0 then n else let (v, n) = mmio_read cd reg n in if P v then n else mmio_poll cd reg P (k - 1) n)"

declare mmio_poll.simps [simp del]

definition reset_card :: "'c card \<Rightarrow> 'c nic \<Rightarrow> 'c nic" where
  "reset_card cd n =
     (let n = mmio_write cd REG_IMC 0xFFFFFFFF n;
          (ctrl, n) = mmio_read cd REG_CTRL n;
          n = mmio_write cd REG_CTRL (ctrl OR CTRL_RST) n;
          n = mmio_poll cd REG_CTRL (\<lambda>v. v AND CTRL_RST = 0) 1000000 n
      in mmio_write cd REG_MTA 0 (mmio_write cd REG_IMC 0xFFFFFFFF n))"

definition read_mac :: "'c card \<Rightarrow> 'c nic \<Rightarrow> (u32 \<times> u32) option \<times> 'c nic" where
  "read_mac cd n =
     (let (lo, n) = mmio_read cd REG_RAL0 n;
          (hi, n) = mmio_read cd REG_RAH0 n
      in if lo = 0 \<and> hi AND 0xFFFF = 0 then eeprom_mac cd n else (Some (lo, hi), n))"

definition bring_up :: "'c card \<Rightarrow> 'c nic \<Rightarrow> 'c nic" where
  "bring_up cd n =
     (let (ctrl, n) = mmio_read cd REG_CTRL n;
          n = mmio_write cd REG_CTRL (ctrl OR CTRL_SLU) n;
          n = mmio_poll cd REG_NIC_STATUS (\<lambda>v. v AND STATUS_LU \<noteq> 0) 1000000 n;
          (_, n) = link_up cd n
      in snd (mmio_read cd REG_NIC_STATUS n))"

definition e1000_init :: "'p ports32 \<Rightarrow> 'c card \<Rightarrow> pci_device list \<Rightarrow> 'p \<Rightarrow> 'c nic \<Rightarrow> frame_allocator
    \<Rightarrow> ('p \<times> 'c nic) \<times> frame_allocator" where
  "e1000_init io cd ds p n fa =
     (case find_adapter ds of
        None \<Rightarrow> ((p, n), fa)
      | Some d \<Rightarrow>
          let bar = of_nat (pd_bar0_addr d) :: u32 in
          if bar = 0 then ((p, n), fa)
          else
            let n = n\<lparr>MMIO_BASE := bar\<rparr>;
                (cmd, p) = config_read_u16 io (pd_bus d) (pd_dev d) (pd_func d) 0x04 p;
                p = config_write_u32 io (pd_bus d) (pd_dev d) (pd_func d) 0x04 (ucast (cmd OR 0x0006)) p;
                n = reset_card cd n
            in case read_mac cd n of
                 (None, n) \<Rightarrow> ((p, n), fa)
               | (Some (lo, hi), n) \<Rightarrow>
                   let n = n\<lparr>MAC_LO := lo, MAC_HI := hi, NIC_PRESENT := True\<rparr>;
                       n = fold (\<lambda>i. mmio_write cd (REG_MTA + of_nat i * 4) 0) [0..<128] n;
                       ((ok, n), fa) = rings_init cd fa n
                   in if ok then ((p, bring_up cd n), fa) else ((p, n\<lparr>NIC_PRESENT := False\<rparr>), fa))"

section \<open>Frames\<close>

text \<open>Waiting for the done bit; here and in \<open>recv_frame\<close> the card may act before a look at the ring.\<close>

fun tx_wait :: "'c card \<Rightarrow> nat \<Rightarrow> nat \<Rightarrow> 'c nic \<Rightarrow> 'c nic" where
  "tx_wait cd a k n =
     (let n = n\<lparr>chip := card_runs cd (chip n)\<rparr> in
      if dma_of n a AND TXD_STAT_DD \<noteq> 0 then n
      else if k = 0 then n\<lparr>TX_STALLS := TX_STALLS n + 1\<rparr>
      else tx_wait cd a (k - 1) n)"

declare tx_wait.simps [simp del]

definition fill_tx :: "nat \<Rightarrow> nat \<Rightarrow> bytes \<Rightarrow> dma \<Rightarrow> dma" where
  "fill_tx buf d frame m =
     poke (d + 12) [0, 0, 0, 0] (poke (d + 11) [TXD_CMD] (poke (d + 10) [0]
       (poke (d + 8) (to_le16 (of_nat (length frame))) (poke buf frame m))))"

definition send_frame :: "'c card \<Rightarrow> bytes \<Rightarrow> 'c nic \<Rightarrow> bool \<times> 'c nic" where
  "send_frame cd frame n =
     (if \<not> NIC_PRESENT n \<or> frame = [] \<or> length frame > BUF_SIZE then (False, n)
      else if TX_RING n = 0 then (False, n)
      else
        let tail = NIC_TX_TAIL n;
            buf = unat (TX_BUFS n + of_nat (tail * BUF_SIZE));
            d = unat (TX_RING n) + tail * 16;
            next = (tail + 1) mod TX_DESC;
            n = set_dma (fill_tx buf d frame (dma_of n)) n;
            n = mmio_write cd REG_TDT (of_nat next) (n\<lparr>NIC_TX_TAIL := next\<rparr>);
            n = n\<lparr>TX_FRAMES := TX_FRAMES n + 1\<rparr>
        in (True, tx_wait cd (d + 12) 1000000 n))"

definition recv_frame :: "'c card \<Rightarrow> nat \<Rightarrow> 'c nic \<Rightarrow> bytes option \<times> 'c nic" where
  "recv_frame cd cap n =
     (if \<not> NIC_PRESENT n then (None, n)
      else if RX_RING n = 0 then (None, n)
      else
        let n = n\<lparr>chip := card_runs cd (chip n)\<rparr>;
            cur = RX_CUR n;
            d = unat (RX_RING n) + cur * 16;
            status = dma_of n (d + 12);
            len = unat (from_le16 (dma_of n (d + 8)) (dma_of n (d + 9)))
        in if status AND RXD_STAT_DD = 0 then (None, n)
           else
             let k = min len cap;
                 out = peek (unat (RX_BUFS n + of_nat (cur * BUF_SIZE))) k (dma_of n);
                 n = set_dma (poke (d + 12) [0] (dma_of n)) n;
                 n = mmio_write cd REG_RDT (of_nat cur) (n\<lparr>RX_CUR := (cur + 1) mod RX_DESC\<rparr>)
             in (Some out, n\<lparr>RX_FRAMES := RX_FRAMES n + 1\<rparr>))"

section \<open>Shared memory\<close>

lemma peek_poke_same: "n = length bs \<Longrightarrow> peek a n (poke a bs m) = bs"
  by (rule nth_equalityI) (simp_all add: peek_def poke_def)

lemma peek_poke_other: "b + n \<le> a \<or> a + length bs \<le> b \<Longrightarrow> peek b n (poke a bs m) = peek b n m"
  by (auto simp: peek_def poke_def)

lemma poke_other: "b < a \<or> a + length bs \<le> b \<Longrightarrow> poke a bs m b = m b"
  by (auto simp: poke_def)

lemma length_peek [simp]: "length (peek a n m) = n"
  by (simp add: peek_def)

end
