(* ===== verification/Net_Ip.thy ===== *)
theory Net_Ip
  imports E1000 "HOL-Library.Monad_Syntax"
begin

text \<open>
  The lower half of the network stack: the state of \<open>kernel/src/net\<close>, address resolution
  (\<open>arp.rs\<close>) and IPv4 datagrams (\<open>ipv4.rs\<close>).  Each module's static variables form a record; \<open>net\<close>
  collects them with the adapter and the timer.  An address or a hardware address is its bytes.
\<close>

section \<open>State\<close>

record arp_entry =
  e_ip :: u32
  e_mac :: bytes
  e_valid :: bool

record arp_state =
  OUR_IP :: u32
  CACHE :: "arp_entry list"
  REQUESTS_SENT :: u32
  REPLIES_SEEN :: u32

record ip_state =
  IP_MASK :: u32
  GATEWAY :: u32
  IP_ID :: u16
  IP_SENT :: nat
  IP_RECEIVED :: nat
  BAD_CHECKSUM :: nat
  FRAGMENTS :: nat

record icmp_state =
  PENDING :: bool
  PENDING_SEQ :: u16
  PENDING_TARGET :: u32
  PENDING_SINCE :: nat
  REPLY_SEEN :: bool
  REPLY_RTT_MS :: u32
  REPLY_FROM :: u32
  ECHO_SENT :: nat
  ECHO_REPLIES :: nat

text \<open>The functions that are ever registered for a UDP port.\<close>

datatype handler = Dhcp_Handle | Dns_Handle

record udp_state =
  NEXT_PORT :: u32
  LISTENERS :: "(u16 \<times> handler) option list"
  LISTENER_COUNT :: nat
  UDP_SENT :: nat
  UDP_RECEIVED :: nat
  NO_LISTENER :: nat

record dns_state =
  DNS_SERVER :: u32
  DNS_LOCAL_PORT :: u16
  QUERY_ID :: u16
  DNS_LAST_SEND :: nat
  DNS_ATTEMPTS :: u32
  DNS_STATE :: u8
  DNS_RESULT :: u32
  NAME_LEN :: nat
  DNS_NAME :: bytes
  QUERIES :: nat
  ANSWERS :: nat

datatype dhcp_st = Idle | Discovering | Requesting | Bound | Dhcp_Failed

record dhcp_state =
  DHCP_STATE :: dhcp_st
  XID :: u32
  OFFERED_IP :: u32
  SERVER_ID :: u32
  DHCP_LAST_SEND :: nat
  DHCP_ATTEMPTS :: u32
  LEASE_SECS :: u32
  OFFERS_SEEN :: nat
  ACKS_SEEN :: nat

datatype tcp_st = Closed | SynSent | Established | FinWait | FinSent | Failed

record tcb =
  ACTIVE :: bool
  STATE :: tcp_st
  REMOTE_IP :: u32
  REMOTE_PORT :: u16
  LOCAL_PORT :: u16
  SND_UNA :: u32
  SND_NXT :: u32
  RCV_NXT :: u32
  LAST_SEND :: nat
  RETRIES :: u32
  ISS :: u32
  TX_BUF :: "nat \<Rightarrow> u8"
  TX_SLOT_SEQ :: "u32 list"
  TX_SLOT_LEN :: "nat list"
  TX_SLOT_FIN :: "bool list"
  TX_HEAD :: u32
  TX_TAIL :: u32
  RX_BUF :: "nat \<Rightarrow> u8"
  RX_HEAD :: u32
  RX_TAIL :: u32
  RX_TRUNCATED :: bool
  PEER_CLOSED :: bool
  CONNECTS :: nat
  SEGMENTS_IN :: nat
  RETRANSMITS :: nat

record 'c net =
  NIC :: "'c nic"
  TIMER_TICKS :: nat
  ARP :: arp_state
  IP :: ip_state
  ICMP :: icmp_state
  UDP :: udp_state
  DHCP :: dhcp_state
  DNS :: dns_state
  TCP :: tcb
  FALLBACK_APPLIED :: bool

definition nic_send :: "'c card \<Rightarrow> bytes \<Rightarrow> 'c net \<Rightarrow> bool \<times> 'c net" where
  "nic_send cd frame s = (let (ok, n) = send_frame cd frame (NIC s) in (ok, s\<lparr>NIC := n\<rparr>))"

text \<open>
  Reads of a received buffer.  An index or a range outside the buffer makes the kernel panic; the
  reading functions return \<^const>\<open>None\<close> there, and so does every handler that reads through them.
\<close>

definition u8_at :: "bytes \<Rightarrow> nat \<Rightarrow> u8 option" where
  "u8_at b i = (if i < length b then Some (b ! i) else None)"

definition u16_at :: "bytes \<Rightarrow> nat \<Rightarrow> u16 option" where
  "u16_at b i = (if i + 1 < length b then Some (be16_at b i) else None)"

definition slice_at :: "bytes \<Rightarrow> nat \<Rightarrow> nat \<Rightarrow> bytes option" where
  "slice_at b i j = (if i \<le> j \<and> j \<le> length b then Some (bslice i (j - i) b) else None)"

definition u32_at :: "bytes \<Rightarrow> nat \<Rightarrow> u32 option" where
  "u32_at b i = map_option (\<lambda>x. be32_at x 0) (slice_at b i (i + 4))"

section \<open>Address resolution (arp.rs)\<close>

abbreviation (input) ETHERTYPE_ARP :: u16 where "ETHERTYPE_ARP \<equiv> 0x0806"
abbreviation (input) ARP_REQUEST :: u16 where "ARP_REQUEST \<equiv> 1"
abbreviation (input) ARP_REPLY :: u16 where "ARP_REPLY \<equiv> 2"
abbreviation (input) CACHE_SIZE :: nat where "CACHE_SIZE \<equiv> 8"

definition ip_to_u32 :: "bytes \<Rightarrow> u32" where
  "ip_to_u32 ip =
     push_bit 24 (ucast (ip ! 0)) OR push_bit 16 (ucast (ip ! 1)) OR push_bit 8 (ucast (ip ! 2)) OR ucast (ip ! 3)"

definition u32_to_ip :: "u32 \<Rightarrow> bytes" where
  "u32_to_ip v = [ucast (drop_bit 24 v), ucast (drop_bit 16 v), ucast (drop_bit 8 v), ucast v]"

definition our_ip :: "'c net \<Rightarrow> bytes" where
  "our_ip s = u32_to_ip (OUR_IP (ARP s))"

definition set_our_ip :: "bytes \<Rightarrow> 'c net \<Rightarrow> 'c net" where
  "set_our_ip ip s = s\<lparr>ARP := (ARP s)\<lparr>OUR_IP := ip_to_u32 ip\<rparr>\<rparr>"

definition arp_lookup :: "bytes \<Rightarrow> 'c net \<Rightarrow> bytes option" where
  "arp_lookup ip s =
     (let key = ip_to_u32 ip; c = CACHE (ARP s) in
      map_option (\<lambda>i. e_mac (c ! i)) (first_from (\<lambda>i. e_valid (c ! i) \<and> e_ip (c ! i) = key) 0 CACHE_SIZE))"

text \<open>The slot search of \<open>remember\<close>: stop at a matching entry, else note a free one while none is noted.\<close>

function remember_slot :: "arp_entry list \<Rightarrow> u32 \<Rightarrow> nat \<Rightarrow> nat \<Rightarrow> nat" where
  "remember_slot c ip i slot =
     (if i < CACHE_SIZE then
        if e_valid (c ! i) \<and> e_ip (c ! i) = ip then i
        else remember_slot c ip (i + 1) (if \<not> e_valid (c ! i) \<and> slot = 0 then i else slot)
      else slot)"
  by pat_completeness auto
termination
  by (relation "measure (\<lambda>(c, ip, i, slot). CACHE_SIZE - i)") auto

declare remember_slot.simps [simp del]

definition remember :: "u32 \<Rightarrow> bytes \<Rightarrow> 'c net \<Rightarrow> 'c net" where
  "remember ip mac s =
     (let c = CACHE (ARP s); slot = remember_slot c ip 0 0 in
      s\<lparr>ARP := (ARP s)\<lparr>CACHE := c[slot := \<lparr>e_ip = ip, e_mac = mac, e_valid = True\<rparr>]\<rparr>\<rparr>)"

definition arp_frame :: "bytes \<Rightarrow> bytes \<Rightarrow> u16 \<Rightarrow> u32 \<Rightarrow> bytes" where
  "arp_frame dst_mac our_mac oper our =
     (let f = put_at 0 dst_mac (replicate 42 0);
          f = put_at 6 our_mac f;
          f = put_at 12 (to_be16 ETHERTYPE_ARP) f;
          f = put_at 14 (to_be16 1) f;
          f = put_at 16 (to_be16 0x0800) f;
          f = f[18 := 6, 19 := 4];
          f = put_at 20 (to_be16 oper) f;
          f = put_at 22 our_mac f
      in put_at 28 (to_be32 our) f)"

definition arp_request :: "'c card \<Rightarrow> bytes \<Rightarrow> 'c net \<Rightarrow> bool \<times> 'c net" where
  "arp_request cd target s =
     (case nic_mac (NIC s) of
        None \<Rightarrow> (False, s)
      | Some our_mac \<Rightarrow>
          let frame = put_at 38 (to_be32 (ip_to_u32 target))
                (arp_frame (replicate 6 0xFF) our_mac ARP_REQUEST (OUR_IP (ARP s)));
              (ok, s) = nic_send cd frame s
          in if ok then (True, s\<lparr>ARP := (ARP s)\<lparr>REQUESTS_SENT := REQUESTS_SENT (ARP s) + 1\<rparr>\<rparr>) else (False, s))"

definition reply_to :: "'c card \<Rightarrow> bytes \<Rightarrow> 'c net \<Rightarrow> 'c net option" where
  "reply_to cd frame s =
     (case nic_mac (NIC s) of
        None \<Rightarrow> Some s
      | Some our_mac \<Rightarrow>
          let our = OUR_IP (ARP s) in
          if length frame < 42 then Some s
          else do {
            p \<leftarrow> slice_at frame 14 (length frame);
            sender_mac \<leftarrow> slice_at p 8 14;
            sender_ip \<leftarrow> slice_at p 14 18;
            target_ip \<leftarrow> u32_at p 24;
            if target_ip \<noteq> our then Some s
            else
              let out = put_at 38 sender_ip (put_at 32 sender_mac (arp_frame sender_mac our_mac ARP_REPLY our))
              in Some (snd (nic_send cd out s))
          })"

definition arp_handle_frame :: "'c card \<Rightarrow> bytes \<Rightarrow> 'c net \<Rightarrow> 'c net option" where
  "arp_handle_frame cd frame s =
     (if length frame < 14 then Some s
      else do {
        ethertype \<leftarrow> u16_at frame 12;
        if ethertype \<noteq> ETHERTYPE_ARP \<or> length frame < 42 then Some s
        else do {
          p \<leftarrow> slice_at frame 14 (length frame);
          oper \<leftarrow> u16_at p 6;
          sender_mac \<leftarrow> slice_at p 8 14;
          sender_ip \<leftarrow> slice_at p 14 18;
          if oper = ARP_REPLY then
            Some (remember (ip_to_u32 sender_ip) sender_mac
              (s\<lparr>ARP := (ARP s)\<lparr>REPLIES_SEEN := REPLIES_SEEN (ARP s) + 1\<rparr>\<rparr>))
          else if oper = ARP_REQUEST then do {
            _ \<leftarrow> slice_at p 24 28;
            reply_to cd frame s
          }
          else Some s
        }
      })"

text \<open>\<open>parse_ip\<close>: the loop over the bytes of a dotted address.\<close>

fun parse_ip_loop :: "bytes \<Rightarrow> bytes \<Rightarrow> nat \<Rightarrow> nat \<Rightarrow> bytes option" where
  "parse_ip_loop [] out cur digits =
     (if digits = 0 \<or> length out \<noteq> 3 then None else Some (out @ [of_nat cur]))"
| "parse_ip_loop (ch # cs) out cur digits =
     (if 48 \<le> ch \<and> ch \<le> 57 then
        let cur = cur * 10 + unat (ch - 48); digits = digits + 1 in
        if cur > 255 \<or> digits > 3 then None else parse_ip_loop cs out cur digits
      else if ch = 46 then
        if digits = 0 \<or> length out \<ge> 3 then None else parse_ip_loop cs (out @ [of_nat cur]) 0 0
      else None)"

definition parse_ip :: "bytes \<Rightarrow> bytes option" where
  "parse_ip s = parse_ip_loop s [] 0 0"

section \<open>Datagrams (ipv4.rs)\<close>

abbreviation (input) ETHERTYPE_IPV4 :: u16 where "ETHERTYPE_IPV4 \<equiv> 0x0800"
abbreviation (input) PROTO_ICMP :: u8 where "PROTO_ICMP \<equiv> 1"
abbreviation (input) PROTO_TCP :: u8 where "PROTO_TCP \<equiv> 6"
abbreviation (input) PROTO_UDP :: u8 where "PROTO_UDP \<equiv> 17"
abbreviation (input) BROADCAST :: bytes where "BROADCAST \<equiv> [255, 255, 255, 255]"

definition set_mask :: "bytes \<Rightarrow> 'c net \<Rightarrow> 'c net" where
  "set_mask m s = s\<lparr>IP := (IP s)\<lparr>IP_MASK := ip_to_u32 m\<rparr>\<rparr>"

definition set_gateway :: "bytes \<Rightarrow> 'c net \<Rightarrow> 'c net" where
  "set_gateway g s = s\<lparr>IP := (IP s)\<lparr>GATEWAY := ip_to_u32 g\<rparr>\<rparr>"

definition gateway :: "'c net \<Rightarrow> bytes" where
  "gateway s = u32_to_ip (GATEWAY (IP s))"

definition on_link :: "bytes \<Rightarrow> 'c net \<Rightarrow> bool" where
  "on_link ip s \<longleftrightarrow> ip_to_u32 (our_ip s) AND IP_MASK (IP s) = ip_to_u32 ip AND IP_MASK (IP s)"

definition next_hop :: "bytes \<Rightarrow> 'c net \<Rightarrow> bytes" where
  "next_hop ip s = (let g = gateway s in if on_link ip s \<or> g = [0, 0, 0, 0] then ip else g)"

fun sum_be16 :: "bytes \<Rightarrow> u32 \<Rightarrow> u32" where
  "sum_be16 (a # b # bs) acc = sum_be16 bs (acc + ucast (from_be16 a b))"
| "sum_be16 [a] acc = acc + push_bit 8 (ucast a)"
| "sum_be16 [] acc = acc"

text \<open>The end-around carry: \<open>while sum >> 16 != 0 { sum = (sum & 0xFFFF) + (sum >> 16) }\<close>.\<close>

lemma carry_nat: "unat (v :: u32) = 2 ^ 16 * unat (drop_bit 16 v) + unat (v AND 0xFFFF)"
proof -
  have "v AND 0xFFFF = take_bit 16 v" by (simp add: take_bit_eq_mask mask_eq_exp_minus_1)
  then have "unat (v AND 0xFFFF) = unat v mod 2 ^ 16"
    by (simp only: unsigned_take_bit_eq) (simp add: take_bit_eq_mod)
  moreover have "unat (drop_bit 16 v) = unat v div 2 ^ 16"
    by (simp only: unat_drop_bit_eq) (simp add: drop_bit_eq_div)
  ultimately show ?thesis by simp
qed

lemma carry_step: "unat ((v AND 0xFFFF) + drop_bit 16 (v :: u32)) = unat (v AND 0xFFFF) + unat (drop_bit 16 v)"
proof -
  have "unat (v AND 0xFFFF) + unat (drop_bit 16 v) \<le> unat v" using carry_nat [of v] by simp
  then have "unat (v AND 0xFFFF) + unat (drop_bit 16 v) < 2 ^ LENGTH(32)"
    using unsigned_less [of v, where ?'a = nat] by (rule le_less_trans)
  then show ?thesis by (rule unat_add_lem [THEN iffD1])
qed

function end_around :: "u32 \<Rightarrow> u32" where
  "end_around v = (if drop_bit 16 v \<noteq> 0 then end_around ((v AND 0xFFFF) + drop_bit 16 v) else v)"
  by pat_completeness auto
termination
proof (relation "measure unat")
  fix v :: u32 assume "drop_bit 16 v \<noteq> 0"
  then have "0 < unat (drop_bit 16 v)" by (simp add: unat_gt_0)
  then show "((v AND 0xFFFF) + drop_bit 16 v, v) \<in> measure unat"
    unfolding in_measure carry_step using carry_nat [of v] by simp
qed simp

declare end_around.simps [simp del]

definition ip_checksum :: "bytes \<Rightarrow> u16" where
  "ip_checksum data = NOT (ucast (end_around (sum_be16 data 0)))"

text \<open>The 20 header bytes before the checksum is filled in, and after.\<close>

definition ip_header0 :: "u16 \<Rightarrow> u16 \<Rightarrow> u8 \<Rightarrow> bytes \<Rightarrow> bytes \<Rightarrow> bytes" where
  "ip_header0 tot ident proto src dst =
     (let h = (replicate 20 0)[0 := 0x45, 1 := 0];
          h = put_at 2 (to_be16 tot) h;
          h = put_at 4 (to_be16 ident) h;
          h = put_at 6 (to_be16 0) h;
          h = h[8 := 64, 9 := proto];
          h = put_at 10 (to_be16 0) h;
          h = put_at 12 src h
      in put_at 16 dst h)"

definition ip_header :: "u16 \<Rightarrow> u16 \<Rightarrow> u8 \<Rightarrow> bytes \<Rightarrow> bytes \<Rightarrow> bytes" where
  "ip_header tot ident proto src dst =
     (let h = ip_header0 tot ident proto src dst in put_at 10 (to_be16 (ip_checksum h)) h)"

definition ip_frame :: "bytes \<Rightarrow> bytes \<Rightarrow> u16 \<Rightarrow> u8 \<Rightarrow> bytes \<Rightarrow> bytes \<Rightarrow> bytes \<Rightarrow> bytes" where
  "ip_frame dst_mac our_mac ident proto src dst payload =
     (let f = put_at 0 dst_mac (replicate 1514 0);
          f = put_at 6 our_mac f;
          f = put_at 12 (to_be16 ETHERTYPE_IPV4) f;
          f = put_at 14 (ip_header (of_nat (20 + length payload)) ident proto src dst) f;
          f = put_at 34 payload f
      in take (34 + length payload) f)"

definition next_ip_id :: "'c net \<Rightarrow> u16 \<times> 'c net" where
  "next_ip_id s = (IP_ID (IP s), s\<lparr>IP := (IP s)\<lparr>IP_ID := IP_ID (IP s) + 1\<rparr>\<rparr>)"

definition send_ip_frame :: "'c card \<Rightarrow> bytes \<Rightarrow> 'c net \<Rightarrow> bool \<times> 'c net" where
  "send_ip_frame cd frame s =
     (let (ok, s) = nic_send cd frame s in
      if ok then (True, s\<lparr>IP := (IP s)\<lparr>IP_SENT := wadd64 (IP_SENT (IP s)) 1\<rparr>\<rparr>) else (False, s))"

definition ip_send :: "'c card \<Rightarrow> bytes \<Rightarrow> u8 \<Rightarrow> bytes \<Rightarrow> 'c net \<Rightarrow> bool \<times> 'c net" where
  "ip_send cd dst proto payload s =
     (case nic_mac (NIC s) of
        None \<Rightarrow> (False, s)
      | Some our_mac \<Rightarrow>
          if 20 + length payload > 1500 then (False, s)
          else
            let hop = next_hop dst s in
            case arp_lookup hop s of
              None \<Rightarrow> (False, snd (arp_request cd hop s))
            | Some hop_mac \<Rightarrow>
                let (ident, s) = next_ip_id s in
                send_ip_frame cd (ip_frame hop_mac our_mac ident proto (our_ip s) dst payload) s)"

definition send_broadcast :: "'c card \<Rightarrow> bytes \<Rightarrow> bytes \<Rightarrow> u8 \<Rightarrow> bytes \<Rightarrow> 'c net \<Rightarrow> bool \<times> 'c net" where
  "send_broadcast cd src dst proto payload s =
     (case nic_mac (NIC s) of
        None \<Rightarrow> (False, s)
      | Some our_mac \<Rightarrow>
          if 20 + length payload > 1500 then (False, s)
          else
            let (ident, s) = next_ip_id s in
            send_ip_frame cd (ip_frame (replicate 6 0xFF) our_mac ident proto src dst payload) s)"

text \<open>
  The checks of \<open>handle_frame\<close> before it hands the body on: the outcome, and the counters it moves.
\<close>

datatype ip_verdict = Ip_Drop | Ip_Bad_Checksum | Ip_Fragment | Ip_Accept bytes u8 bytes

definition ip_classify :: "bytes \<Rightarrow> bytes \<Rightarrow> ip_verdict option" where
  "ip_classify ours frame =
     (if length frame < 34 then Some Ip_Drop
      else do {
        ethertype \<leftarrow> u16_at frame 12;
        if ethertype \<noteq> ETHERTYPE_IPV4 then Some Ip_Drop
        else do {
          pkt \<leftarrow> slice_at frame 14 (length frame);
          b0 \<leftarrow> u8_at pkt 0;
          let ihl = unat (b0 AND 0x0F) * 4;
          if drop_bit 4 b0 \<noteq> 4 \<or> ihl < 20 \<or> length pkt < ihl then Some Ip_Drop
          else do {
            w \<leftarrow> u16_at pkt 2;
            let tot = unat w;
            if tot < ihl \<or> tot > length pkt then Some Ip_Drop
            else do {
              header \<leftarrow> slice_at pkt 0 ihl;
              if ip_checksum header \<noteq> 0 then Some Ip_Bad_Checksum
              else do {
                flags_frag \<leftarrow> u16_at pkt 6;
                if flags_frag AND 0x3FFF \<noteq> 0 then Some Ip_Fragment
                else do {
                  src \<leftarrow> slice_at pkt 12 16;
                  dst \<leftarrow> slice_at pkt 16 20;
                  proto \<leftarrow> u8_at pkt 9;
                  body \<leftarrow> slice_at pkt ihl tot;
                  Some (if ip_to_u32 dst \<noteq> ip_to_u32 ours \<and> dst \<noteq> BROADCAST then Ip_Drop
                        else Ip_Accept src proto body)
                }
              }
            }
          }
        }
      })"

section \<open>The checksum\<close>

text \<open>The words of the message as numbers, an odd last byte padded with a zero byte.\<close>

fun words16 :: "bytes \<Rightarrow> nat list" where
  "words16 (a # b # bs) = (256 * unat a + unat b) # words16 bs"
| "words16 [a] = [256 * unat a]"
| "words16 [] = []"

text \<open>RFC 1071: one's complement addition carries around at every step.\<close>

definition ones_add :: "nat \<Rightarrow> nat \<Rightarrow> nat" where
  "ones_add a b = (if a + b < 2 ^ 16 then a + b else a + b - 65535)"

definition rfc1071 :: "bytes \<Rightarrow> nat" where
  "rfc1071 data = 65535 - foldl ones_add 0 (words16 data)"

text \<open>Both are the residue of the plain sum, with 0 only for the sum 0.\<close>

definition residue :: "nat \<Rightarrow> nat" where
  "residue s = (if s = 0 then 0 else (s - 1) mod 65535 + 1)"

lemma residue_small: "s < 2 ^ 16 \<Longrightarrow> residue s = s"
  by (auto simp: residue_def)

lemma residue_less: "residue s < 2 ^ 16"
proof -
  have "(s - 1) mod 65535 < 65535" by simp
  then show ?thesis by (simp add: residue_def)
qed

lemma residue_cong:
  assumes "s mod 65535 = t mod 65535" "s = 0 \<longleftrightarrow> t = 0"
  shows "residue s = residue t"
proof (cases "s = 0")
  case False
  with assms(2) obtain s' t' where st: "s = Suc s'" "t = Suc t'" by (meson not0_implies_Suc)
  have "(Suc s' + 65534) mod 65535 = (Suc t' + 65534) mod 65535"
    using assms(1) unfolding st by (rule mod_add_cong) simp
  then have "s' mod 65535 = t' mod 65535" by simp
  then show ?thesis by (simp add: residue_def st)
qed (use assms in simp)

lemma residue_full: "residue s = 65535 \<longleftrightarrow> 0 < s \<and> s mod 65535 = 0"
  by (cases s) (simp_all add: residue_def mod_Suc)

lemma residue_complement: "(s + (65535 - residue s)) mod 65535 = 0"
proof (cases "s = 0")
  case False
  then obtain t where t: "s = Suc t" using not0_implies_Suc by blast
  have "s + (65535 - residue s) = t - t mod 65535 + 65535"
    unfolding t residue_def using mod_less_divisor [of 65535 t] mod_less_eq_dividend [of t 65535] by simp
  then show ?thesis by (simp add: minus_mod_eq_mult_div)
qed (simp add: residue_def)

lemma unat_end_around: "unat (end_around v) = residue (unat v)"
proof (induction v rule: end_around.induct)
  case (1 v)
  note split = carry_nat [of v]
  show ?case
  proof (cases "drop_bit 16 v = 0")
    case True
    then have "unat v < 2 ^ 16"
      using split unsigned_less [of "v AND 0xFFFF", where ?'a = nat] word_and_le1 [of v "0xFFFF"] by (simp add: word_le_nat_alt)
    with True show ?thesis by (simp add: end_around.simps [of v] residue_small)
  next
    case False
    let ?w = "(v AND 0xFFFF) + drop_bit 16 v"
    have pos: "0 < unat (drop_bit 16 v)" using False by (simp add: unat_gt_0)
    have "unat v = 65535 * unat (drop_bit 16 v) + unat ?w" using split by (simp add: carry_step)
    then have "unat v mod 65535 = unat ?w mod 65535" by simp
    then have "residue (unat ?w) = residue (unat v)"
      using pos split by (intro residue_cong) (auto simp: carry_step)
    with 1 False show ?thesis by (simp add: end_around.simps [of v])
  qed
qed

lemma unat_from_be16: "unat (from_be16 a b) = 256 * unat a + unat b"
proof -
  have ab: "unat a < 256" "unat b < 256"
    using unsigned_less [of a, where ?'a = nat] unsigned_less [of b, where ?'a = nat] by simp_all
  have "from_be16 a b = push_bit 8 (ucast a) + ucast b"
    unfolding from_be16_def by (rule disjunctive_add [symmetric]) (auto simp: bit_simps dest: bit_imp_le_length)
  also have "\<dots> = of_nat (256 * unat a + unat b)"
    by (simp add: push_bit_eq_mult)
  finally show ?thesis using ab by (simp add: unat_of_nat del: of_nat_add of_nat_mult)
qed

lemma words16_bound: "x \<in> set (words16 bs) \<Longrightarrow> x < 2 ^ 16"
proof (induction bs rule: words16.induct)
  case (1 a b bs)
  then show ?case using unsigned_less [of a, where ?'a = nat] unsigned_less [of b, where ?'a = nat] by auto
next
  case (2 a)
  then show ?case using unsigned_less [of a, where ?'a = nat] by simp
qed simp

lemma sum_words16: "2 * sum_list (words16 bs) \<le> 65535 * (length bs + 1)"
proof (induction bs rule: words16.induct)
  case (1 a b bs)
  then show ?case using unsigned_less [of a, where ?'a = nat] unsigned_less [of b, where ?'a = nat] by simp
next
  case (2 a)
  then show ?case using unsigned_less [of a, where ?'a = nat] by simp
qed simp

lemma unat_ucast16: "unat (ucast (x :: u16) :: u32) = unat x"
  using unsigned_less [of x, where ?'a = nat] by (simp only: unsigned_ucast_eq) (simp add: take_bit_nat_eq_self)

lemma unat_sum_be16:
  assumes "unat acc + sum_list (words16 bs) < 2 ^ 32"
  shows "unat (sum_be16 bs acc) = unat acc + sum_list (words16 bs)"
  using assms
proof (induction bs acc rule: sum_be16.induct)
  case (1 a b bs acc)
  have w: "unat (ucast (from_be16 a b) :: u32) = 256 * unat a + unat b"
    by (simp add: unat_ucast16 unat_from_be16)
  have "unat (acc + ucast (from_be16 a b)) = unat acc + (256 * unat a + unat b)"
    using "1.prems" w by (subst unat_add_lem [THEN iffD1]) simp_all
  with 1 show ?case by simp
next
  case (2 a acc)
  have "push_bit 8 (ucast a) = (ucast (from_be16 a 0) :: u32)"
    by (rule bit_word_eqI) (auto simp: from_be16_def bit_simps dest: bit_imp_le_length)
  then have w: "unat (push_bit 8 (ucast a) :: u32) = 256 * unat a" by (simp add: unat_ucast16 unat_from_be16)
  with 2 show ?case by (subst sum_be16.simps, subst unat_add_lem [THEN iffD1]) simp_all
qed simp

lemma foldl_ones_add:
  assumes "\<forall>x \<in> set ws. x < 2 ^ 16" "a < 2 ^ 16"
  shows "foldl ones_add a ws = residue (a + sum_list ws)"
  using assms
proof (induction ws arbitrary: a)
  case Nil
  then show ?case by (simp add: residue_small)
next
  case (Cons w ws)
  have less: "ones_add a w < 2 ^ 16" using Cons.prems by (auto simp: ones_add_def)
  have "residue (ones_add a w + sum_list ws) = residue (a + w + sum_list ws)"
  proof (cases "a + w < 2 ^ 16")
    case False
    then have "a + w + sum_list ws = ones_add a w + sum_list ws + 65535" by (simp add: ones_add_def)
    then have "(a + w + sum_list ws) mod 65535 = (ones_add a w + sum_list ws) mod 65535" by (metis mod_add_self2)
    with False show ?thesis by (intro residue_cong) (auto simp: ones_add_def)
  qed (simp add: ones_add_def)
  with Cons less show ?case by (simp add: add.assoc)
qed

lemma unat_NOT16: "unat (NOT w) = 65535 - unat (w :: u16)"
proof -
  have "NOT w = of_nat (65535 - unat w)"
    using unsigned_less [of w, where ?'a = nat] by (simp add: not_eq_complement of_nat_diff)
  then show ?thesis using unsigned_less [of w, where ?'a = nat] by (simp add: unat_of_nat del: of_nat_diff)
qed

lemma ip_checksum_residue:
  assumes "sum_list (words16 data) < 2 ^ 32"
  shows "unat (ip_checksum data) = 65535 - residue (sum_list (words16 data))"
proof -
  have "unat (end_around (sum_be16 data 0)) = residue (sum_list (words16 data))"
    using assms by (simp add: unat_end_around unat_sum_be16)
  then have "unat (ucast (end_around (sum_be16 data 0)) :: u16) = residue (sum_list (words16 data))"
    using residue_less by (simp only: unsigned_ucast_eq unsigned_take_bit_eq) (simp add: take_bit_eq_mod)
  then show ?thesis by (simp add: ip_checksum_def unat_NOT16)
qed

lemma ip_checksum_zero:
  assumes "sum_list (words16 data) < 2 ^ 32"
  shows "ip_checksum data = 0 \<longleftrightarrow> 0 < sum_list (words16 data) \<and> sum_list (words16 data) mod 65535 = 0"
proof -
  let ?s = "sum_list (words16 data)"
  have "ip_checksum data = 0 \<longleftrightarrow> unat (ip_checksum data) = 0" by (metis unat_eq_0)
  also have "\<dots> \<longleftrightarrow> residue ?s = 65535"
    using residue_less [of ?s] by (simp add: ip_checksum_residue [OF assms]) linarith
  also have "\<dots> \<longleftrightarrow> 0 < ?s \<and> ?s mod 65535 = 0" by (rule residue_full)
  finally show ?thesis .
qed

lemma words_fit: "length data \<le> 131070 \<Longrightarrow> sum_list (words16 data) < 2 ^ 32"
  using sum_words16 [of data] by simp

text \<open>
  C32: the checksum the kernel computes, with 32-bit additions and carries folded in at the end, is the
  RFC 1071 checksum with its carry at every step, for every message up to 131070 bytes, odd lengths
  included.
\<close>

theorem ip_checksum_rfc:
  assumes "length data \<le> 131070"
  shows "ip_checksum data = of_nat (rfc1071 data)"
proof -
  have "foldl ones_add 0 (words16 data) = residue (sum_list (words16 data))"
    using words16_bound by (subst foldl_ones_add) auto
  then have "unat (ip_checksum data) = rfc1071 data"
    by (simp add: rfc1071_def ip_checksum_residue [OF words_fit [OF assms]])
  then show ?thesis by (metis of_nat_unat ucast_id)
qed

theorem ip_checksum_rfc_witness: "ip_checksum [0x00, 0x01, 0xF2, 0x03, 0xF4, 0xF5, 0xF6, 0xF7] = 0x220D"
  using ip_checksum_rfc [of "[0x00, 0x01, 0xF2, 0x03, 0xF4, 0xF5, 0xF6, 0xF7]"] by (simp add: rfc1071_def ones_add_def)

section \<open>A datagram is received as it was sent\<close>

lemma list4E:
  assumes "length xs = 4"
  obtains a b c d where "xs = [a, b, c, d]"
  using assms by (auto simp: numeral_eq_Suc length_Suc_conv)

lemma list6E:
  assumes "length xs = 6"
  obtains a b c d e f where "xs = [a, b, c, d, e, f]"
  using assms by (auto simp: numeral_eq_Suc length_Suc_conv)

text \<open>Evaluating buffer writes on an explicit list, one element at a time.\<close>

named_theorems layout \<open>evaluation of writes into a buffer\<close>

lemma layout_rules [layout]:
  "(x # xs)[numeral v := y] = x # xs[pred_numeral v := y]"
  "replicate (numeral v) x = x # replicate (pred_numeral v) x"
  "put_at 0 [] xs = xs"
  "put_at 0 (z # zs) (x # xs) = z # put_at 0 zs xs"
  "put_at (Suc n) zs (x # xs) = x # put_at n zs xs"
  "put_at (numeral v) zs (x # xs) = x # put_at (pred_numeral v) zs xs"
  by (simp_all add: put_at_def numeral_eq_Suc)

lemma ip_header0_eq:
  assumes "length src = 4" "length dst = 4"
  shows "ip_header0 tot ident proto src dst =
    [0x45, 0] @ to_be16 tot @ to_be16 ident @ [0, 0, 64, proto, 0, 0] @ src @ dst"
proof -
  obtain a b c d where "src = [a, b, c, d]" by (rule list4E [OF assms(1)])
  moreover obtain a' b' c' d' where "dst = [a', b', c', d']" by (rule list4E [OF assms(2)])
  ultimately show ?thesis by (simp add: ip_header0_def to_be16_def layout)
qed

lemma ip_header_eq:
  assumes "length src = 4" "length dst = 4"
  shows "ip_header tot ident proto src dst =
    [0x45, 0] @ to_be16 tot @ to_be16 ident @ [0, 0, 64, proto] @
      to_be16 (ip_checksum (ip_header0 tot ident proto src dst)) @ src @ dst"
  unfolding ip_header_def Let_def
  by (subst (2) ip_header0_eq [OF assms]) (simp add: to_be16_def layout)

lemma words16_append: "even (length xs) \<Longrightarrow> words16 (xs @ ys) = words16 xs @ words16 ys"
  by (induction xs rule: words16.induct) auto

lemma words16_be16: "words16 (to_be16 w) = [unat w]"
  using unat_from_be16 [of "ucast (drop_bit 8 w)" "ucast w"] by (simp add: to_be16_def from_be16_to_be16)

text \<open>A block with its checksum stored in one of its words sums to a multiple of 65535.\<close>

lemma checksum_verifies:
  assumes "even (length a)" "0 < sum_list (words16 (a @ [0, 0] @ b))" "length a + length b \<le> 65536"
  shows "ip_checksum (a @ to_be16 (ip_checksum (a @ [0, 0] @ b)) @ b) = 0"
proof -
  let ?s = "sum_list (words16 (a @ [0, 0] @ b))" and ?ck = "ip_checksum (a @ [0, 0] @ b)"
  have fit: "sum_list (words16 (a @ [0, 0] @ b)) < 2 ^ 32" "sum_list (words16 (a @ to_be16 ?ck @ b)) < 2 ^ 32"
    by (rule words_fit, use assms(3) in simp)+
  have "sum_list (words16 (a @ to_be16 ?ck @ b)) = ?s + unat ?ck"
    using assms(1) by (simp add: words16_append words16_be16)
  also have "\<dots> = ?s + (65535 - residue ?s)" unfolding ip_checksum_residue [OF fit(1)] ..
  finally have total: "sum_list (words16 (a @ to_be16 ?ck @ b)) = ?s + (65535 - residue ?s)" .
  have "(?s + (65535 - residue ?s)) mod 65535 = 0" by (rule residue_complement)
  then show ?thesis
    using assms(2) total by (subst ip_checksum_zero [OF fit(2)]) simp
qed

lemma ip_header_verifies:
  assumes "length src = 4" "length dst = 4"
  shows "ip_checksum (ip_header tot ident proto src dst) = 0"
proof -
  let ?a = "[0x45, 0] @ to_be16 tot @ to_be16 ident @ [0, 0, 64, proto]"
  have h0: "ip_header0 tot ident proto src dst = ?a @ [0, 0] @ src @ dst"
    using ip_header0_eq [OF assms] by simp
  have "ip_header tot ident proto src dst = ?a @ to_be16 (ip_checksum (?a @ [0, 0] @ src @ dst)) @ src @ dst"
    using ip_header_eq [OF assms] h0 by simp
  moreover have "0 < sum_list (words16 (?a @ [0, 0] @ src @ dst))" by simp
  ultimately show ?thesis
    using checksum_verifies [of ?a "src @ dst"] assms by simp
qed

lemma ip_frame_eq:
  assumes "length mac = 6" "length our = 6" "length src = 4" "length dst = 4" "length payload \<le> 1480"
  shows "ip_frame mac our ident proto src dst payload =
    mac @ our @ [8, 0] @ ip_header (of_nat (20 + length payload)) ident proto src dst @ payload"
proof -
  have h: "length (ip_header (of_nat (20 + length payload)) ident proto src dst) = 20"
    using assms by (simp add: ip_header_eq)
  show ?thesis
    using assms h by (simp add: ip_frame_def put_at_def to_be16_def Let_def)
qed

lemma from_be16_00: "from_be16 0 0 = 0"
  by (simp add: from_be16_def)

lemma classify_frame:
  assumes len: "length mac = 6" "length our = 6" "length src = 4" "length dst = 4" "length payload \<le> 1480"
    and dst: "dst = ours \<or> dst = BROADCAST"
  shows "ip_classify ours (ip_frame mac our ident proto src dst payload) = Some (Ip_Accept src proto payload)"
proof -
  define w where "w = (of_nat (20 + length payload) :: u16)"
  define h where "h = ip_header w ident proto src dst"
  let ?f = "mac @ our @ [8, 0] @ h @ payload"
  have f: "ip_frame mac our ident proto src dst payload = ?f"
    unfolding h_def w_def by (rule ip_frame_eq [OF len])
  have h20: "length h = 20" using len by (simp add: h_def ip_header_eq)
  have w: "unat w = 20 + length payload" using len(5) by (simp add: w_def unat_of_nat del: of_nat_add)
  have hd: "h ! 0 = 0x45" "be16_at h 2 = w" "be16_at h 6 = 0" "h ! 9 = proto" "bslice 12 4 h = src" "bslice 16 4 h = dst"
    using len by (simp_all add: h_def ip_header_eq be16_at_def to_be16_def from_be16_to_be16 bslice_def from_be16_00)
  have rd: "u8_at (h @ payload) 0 = Some 0x45" "u16_at (h @ payload) 2 = Some w" "u16_at (h @ payload) 6 = Some 0"
    "u8_at (h @ payload) 9 = Some proto" "slice_at (h @ payload) 12 16 = Some src" "slice_at (h @ payload) 16 20 = Some dst"
    "slice_at (h @ payload) 0 20 = Some h" "slice_at (h @ payload) 20 (20 + length payload) = Some payload"
    using hd h20 len by (simp_all add: u8_at_def u16_at_def slice_at_def be16_at_def nth_append bslice_def)
  have ty: "u16_at ?f 12 = Some ETHERTYPE_IPV4"
    using len by (simp add: u16_at_def be16_at_def nth_append from_be16_def push_bit_eq_mult)
  have pk: "slice_at ?f 14 (length ?f) = Some (h @ payload)"
    using len by (simp add: slice_at_def bslice_def)
  have big: "(length ?f < 34) = False" using len h20 by simp
  have ck: "ip_checksum h = 0" unfolding h_def by (rule ip_header_verifies [OF len(3,4)])
  show ?thesis
    unfolding f ip_classify_def big ty pk using dst by (auto simp: rd w h20 ck)
qed

section \<open>The address cache\<close>

definition holds_ip :: "arp_entry list \<Rightarrow> u32 \<Rightarrow> nat \<Rightarrow> bool" where
  "holds_ip c ip i \<longleftrightarrow> e_valid (c ! i) \<and> e_ip (c ! i) = ip"

text \<open>
  Where \<open>remember\<close> stores: over the entry of the same address, else in the first free slot other than
  slot 0, else in slot 0.
\<close>

lemma remember_slot_eq:
  "remember_slot c ip i slot =
     (case first_from (holds_ip c ip) i 8 of
        Some k \<Rightarrow> k
      | None \<Rightarrow> if slot \<noteq> 0 then slot
          else case first_from (\<lambda>k. \<not> e_valid (c ! k) \<and> k \<noteq> 0) i 8 of Some k \<Rightarrow> k | None \<Rightarrow> 0)"
proof (induction c ip i slot rule: remember_slot.induct)
  case (1 c ip i slot)
  show ?case
  proof (cases "i < 8")
    case False
    then show ?thesis by (simp add: remember_slot.simps [of c ip i slot] first_from_end)
  next
    case i: True
    show ?thesis
    proof (cases "holds_ip c ip i")
      case True
      with i show ?thesis
        by (simp add: remember_slot.simps [of c ip i slot] first_from_hit [of i 8 "holds_ip c ip"]) (simp add: holds_ip_def)
    next
      case False
      have step: "remember_slot c ip i slot = remember_slot c ip (i + 1) (if \<not> e_valid (c ! i) \<and> slot = 0 then i else slot)"
        using False i by (auto simp: remember_slot.simps [of c ip i slot] holds_ip_def)
      have m1: "first_from (holds_ip c ip) i 8 = first_from (holds_ip c ip) (i + 1) 8"
        using first_from_miss [of i 8 "holds_ip c ip"] i False by simp
      let ?P = "\<lambda>k. \<not> e_valid (c ! k) \<and> k \<noteq> 0"
      have m2: "first_from ?P i 8 = (if ?P i then Some i else first_from ?P (i + 1) 8)"
        using i by (subst first_from.simps) simp
      have IH: "remember_slot c ip (i + 1) sl = (case first_from (holds_ip c ip) (i + 1) 8 of
          Some k \<Rightarrow> k | None \<Rightarrow> if sl \<noteq> 0 then sl else case first_from ?P (i + 1) 8 of Some k \<Rightarrow> k | None \<Rightarrow> 0)"
        if "sl = (if \<not> e_valid (c ! i) \<and> slot = 0 then i else slot)" for sl
        unfolding that by (rule "1.IH" [OF i False [unfolded holds_ip_def]])
      show ?thesis
        unfolding step m1 m2 IH [OF refl] by (auto split: option.splits)
    qed
  qed
qed

lemma ip_to_u32_be: "ip_to_u32 [a, b, c, d] = from_be32 a b c d"
  by (simp add: ip_to_u32_def from_be32_def)

lemma u32_ip: "ip_to_u32 (u32_to_ip v) = v"
  by (simp add: u32_to_ip_def ip_to_u32_be from_be32_to_be32)

lemma length_u32_to_ip [simp]: "length (u32_to_ip v) = 4"
  by (simp add: u32_to_ip_def)

lemma arp_lookup_eq:
  "arp_lookup ip s = map_option (\<lambda>i. e_mac (CACHE (ARP s) ! i)) (first_from (holds_ip (CACHE (ARP s)) (ip_to_u32 ip)) 0 8)"
  by (simp add: arp_lookup_def Let_def holds_ip_def [abs_def])

lemma remember_cases:
  obtains (same) k where "first_from (holds_ip c ip) 0 8 = Some k" "remember_slot c ip 0 0 = k" "k < 8"
  | (free) k where "first_from (holds_ip c ip) 0 8 = None" "remember_slot c ip 0 0 = k" "k < 8" "\<not> e_valid (c ! k)"
  | (evict) "first_from (holds_ip c ip) 0 8 = None" "remember_slot c ip 0 0 = 0" "\<forall>k < 8. k \<noteq> 0 \<longrightarrow> e_valid (c ! k)"
proof (cases "first_from (holds_ip c ip) 0 8")
  case (Some k)
  moreover have "k < 8" using first_from_SomeD [OF Some] by simp
  ultimately show ?thesis by (intro same) (simp_all add: remember_slot_eq)
next
  case None
  show ?thesis
  proof (cases "first_from (\<lambda>k. \<not> e_valid (c ! k) \<and> k \<noteq> 0) 0 8")
    case (Some k)
    with first_from_SomeD [OF Some] None show ?thesis by (intro free [of k]) (simp_all add: remember_slot_eq)
  next
    case (None)
    then have "\<forall>k < 8. k \<noteq> 0 \<longrightarrow> e_valid (c ! k)" by (auto simp: first_from_None_iff)
    with None \<open>first_from (holds_ip c ip) 0 8 = None\<close> show ?thesis by (intro evict) (simp_all add: remember_slot_eq)
  qed
qed

lemma remember_lookup_same:
  assumes "length (CACHE (ARP s)) = 8" "ip_to_u32 a = ip"
  shows "arp_lookup a (remember ip mac s) = Some mac"
proof -
  let ?c = "CACHE (ARP s)"
  let ?slot = "remember_slot ?c ip 0 0"
  let ?c' = "?c[?slot := \<lparr>e_ip = ip, e_mac = mac, e_valid = True\<rparr>]"
  have "?slot < 8 \<and> (\<forall>j < ?slot. \<not> holds_ip ?c ip j)"
    by (cases rule: remember_cases [of ?c ip]) (auto simp: first_from_None_iff dest: first_from_SomeD)
  then have "first_from (holds_ip ?c' ip) 0 8 = Some ?slot"
    using assms(1) by (auto simp: first_from_Some_iff holds_ip_def)
  with \<open>?slot < 8 \<and> _\<close> assms show ?thesis
    by (simp add: arp_lookup_eq remember_def Let_def)
qed

lemma remember_lookup_other:
  assumes len: "length (CACHE (ARP s)) = 8" and ip: "ip_to_u32 a \<noteq> ip"
    and keep: "\<not> (\<forall>k < 8. e_valid (CACHE (ARP s) ! k)) \<or> e_ip (CACHE (ARP s) ! 0) \<noteq> ip_to_u32 a \<or>
      (\<exists>k < 8. holds_ip (CACHE (ARP s)) ip k)"
  shows "arp_lookup a (remember ip mac s) = arp_lookup a s"
proof -
  let ?c = "CACHE (ARP s)" and ?b = "ip_to_u32 a"
  let ?slot = "remember_slot ?c ip 0 0"
  let ?c' = "?c[?slot := \<lparr>e_ip = ip, e_mac = mac, e_valid = True\<rparr>]"
  have slot: "?slot < 8 \<and> \<not> holds_ip ?c ?b ?slot"
  proof (cases rule: remember_cases [of ?c ip])
    case (same k)
    with first_from_SomeD [OF same(1)] ip show ?thesis by (auto simp: holds_ip_def)
  next
    case (free k)
    then show ?thesis by (auto simp: holds_ip_def)
  next
    case evict
    have "\<not> (\<exists>k < 8. holds_ip ?c ip k)" using evict(1) by (auto simp: first_from_None_iff)
    with keep evict have "\<not> (e_valid (?c ! 0) \<and> e_ip (?c ! 0) = ?b)" by (metis gr0I)
    with evict show ?thesis by (simp add: holds_ip_def)
  qed
  have h: "holds_ip ?c' ?b j = holds_ip ?c ?b j" if "j < 8" for j
    using slot ip len that by (cases "j = ?slot") (auto simp: holds_ip_def)
  then have "first_from (holds_ip ?c' ?b) 0 8 = first_from (holds_ip ?c ?b) 0 8" by (intro first_from_cong) simp
  moreover have "k \<noteq> ?slot" if "first_from (holds_ip ?c ?b) 0 8 = Some k" for k
    using first_from_SomeD [OF that] slot by auto
  ultimately show ?thesis
    by (cases "first_from (holds_ip ?c ?b) 0 8") (simp_all add: arp_lookup_eq remember_def Let_def)
qed

section \<open>Handlers do not read outside the frame\<close>

named_theorems reads \<open>reads inside a buffer succeed\<close>

lemma reads_inside [reads]:
  "i < length b \<Longrightarrow> u8_at b i = Some (b ! i)"
  "i + 1 < length b \<Longrightarrow> u16_at b i = Some (be16_at b i)"
  "i \<le> j \<Longrightarrow> j \<le> length b \<Longrightarrow> slice_at b i j = Some (bslice i (j - i) b)"
  "i + 4 \<le> length b \<Longrightarrow> u32_at b i = Some (be32_at (bslice i 4 b) 0)"
  by (simp_all add: u8_at_def u16_at_def slice_at_def u32_at_def)

lemma ip_classify_total: "ip_classify ours frame \<noteq> None"
proof (cases "length frame < 34")
  case False
  then show ?thesis unfolding ip_classify_def by (auto simp: reads Let_def)
qed (simp add: ip_classify_def)

lemma arp_handle_total: "arp_handle_frame cd frame s \<noteq> None"
proof (cases "length frame < 42")
  case True
  then show ?thesis by (cases "length frame < 14") (simp_all add: arp_handle_frame_def reads)
next
  case False
  then have "reply_to cd frame s \<noteq> None"
    by (simp add: reply_to_def reads Let_def split: option.splits)
  with False show ?thesis by (simp add: arp_handle_frame_def reads)
qed

end
