(* ===== verification/Net_Udp.thy ===== *)
theory Net_Udp
  imports Net_Ip Text
begin

text \<open>
  The datagram protocols over IPv4: echo (\<open>icmp.rs\<close>), UDP and its port table (\<open>udp.rs\<close>), name
  resolution (\<open>dns.rs\<close>) and the DHCP client (\<open>dhcp.rs\<close>).  The cycle counter is an argument of the
  operations that read it.  A handler returns \<^const>\<open>None\<close> where the kernel would panic on an index.
\<close>

section \<open>Echo (icmp.rs)\<close>

abbreviation (input) OUR_ID :: u16 where "OUR_ID \<equiv> 0x0B05"

definition icmp_packet :: "u16 \<Rightarrow> bytes" where
  "icmp_packet seq =
     (let pkt = (replicate 40 0)[0 := 8, 1 := 0];
          pkt = put_at 4 (to_be16 OUR_ID) pkt;
          pkt = put_at 6 (to_be16 seq) pkt;
          pkt = put_at 8 (map (\<lambda>i. 0x61 + of_nat (i mod 26)) [0..<32]) pkt
      in put_at 2 (to_be16 (ip_checksum pkt)) pkt)"

definition icmp_request :: "'c card \<Rightarrow> bytes \<Rightarrow> u16 \<Rightarrow> 'c net \<Rightarrow> bool \<times> 'c net" where
  "icmp_request cd dst seq s =
     (let (ok, s) = ip_send cd dst PROTO_ICMP (icmp_packet seq) s in
      if \<not> ok then (False, s)
      else (True, s\<lparr>ICMP := (ICMP s)\<lparr>PENDING := True, PENDING_SEQ := seq, PENDING_TARGET := ip_to_u32 dst,
              PENDING_SINCE := TIMER_TICKS s, REPLY_SEEN := False, ECHO_SENT := wadd64 (ECHO_SENT (ICMP s)) 1\<rparr>\<rparr>))"

definition ticks_to_ms :: "nat \<Rightarrow> u32" where
  "ticks_to_ms ticks =
     (let ms = (ticks * 10) mod 2 ^ 64 in if ms > 0xFFFFFFFF then 0xFFFFFFFF else of_nat ms)"

definition take_reply :: "'c net \<Rightarrow> (bytes \<times> u32) option \<times> 'c net" where
  "take_reply s =
     (if \<not> REPLY_SEEN (ICMP s) then (None, s)
      else (Some (u32_to_ip (REPLY_FROM (ICMP s)), REPLY_RTT_MS (ICMP s)), s\<lparr>ICMP := (ICMP s)\<lparr>REPLY_SEEN := False\<rparr>\<rparr>))"

definition echo_reply :: "bytes \<Rightarrow> bytes" where
  "echo_reply body =
     (let n = min (length body) 1500;
          reply = put_at 0 (take n body) (replicate 1500 0);
          reply = put_at 2 (to_be16 0) (reply[0 := 0]);
          ck = ip_checksum (take n reply)
      in take n (put_at 2 (to_be16 ck) reply))"

definition icmp_handle :: "'c card \<Rightarrow> bytes \<Rightarrow> bytes \<Rightarrow> 'c net \<Rightarrow> 'c net option" where
  "icmp_handle cd src body s =
     (if length body < 8 then Some s
      else do {
        whole \<leftarrow> slice_at body 0 (length body);
        if ip_checksum whole \<noteq> 0 then Some s
        else do {
          ty \<leftarrow> u8_at body 0;
          if ty = 0 then do {
            ident \<leftarrow> u16_at body 4;
            seq \<leftarrow> u16_at body 6;
            if ident \<noteq> OUR_ID then Some s
            else
              let st = ICMP s;
                  rtt = ticks_to_ms (TIMER_TICKS s - PENDING_SINCE st);
                  st = st\<lparr>ECHO_REPLIES := wadd64 (ECHO_REPLIES st) 1,
                          PENDING := (if PENDING st \<and> PENDING_SEQ st = seq then False else PENDING st),
                          REPLY_FROM := ip_to_u32 src, REPLY_RTT_MS := rtt, REPLY_SEEN := True\<rparr>
              in Some (s\<lparr>ICMP := st\<rparr>)
          }
          else if ty = 8 then Some (snd (ip_send cd src PROTO_ICMP (echo_reply body) s))
          else Some s
        }
      })"

section \<open>Datagrams (udp.rs)\<close>

abbreviation (input) EPHEMERAL_BASE :: u32 where "EPHEMERAL_BASE \<equiv> 0xC000"
abbreviation (input) EPHEMERAL_SPAN :: u32 where "EPHEMERAL_SPAN \<equiv> 0x3F00"
abbreviation (input) MAX_LISTENERS :: nat where "MAX_LISTENERS \<equiv> 6"

definition alloc_port :: "u64 \<Rightarrow> 'c net \<Rightarrow> u16 \<times> 'c net" where
  "alloc_port tsc s =
     (let p = (if NEXT_PORT (UDP s) = 0 then EPHEMERAL_BASE + ucast tsc mod EPHEMERAL_SPAN else NEXT_PORT (UDP s));
          nxt = (if p + 1 \<ge> EPHEMERAL_BASE + EPHEMERAL_SPAN then EPHEMERAL_BASE else p + 1)
      in (ucast p, s\<lparr>UDP := (UDP s)\<lparr>NEXT_PORT := nxt\<rparr>\<rparr>))"

definition port_is :: "(u16 \<times> handler) option \<Rightarrow> u16 \<Rightarrow> bool" where
  "port_is l port = (case l of Some (p, _) \<Rightarrow> p = port | None \<Rightarrow> False)"

definition udp_listen :: "u16 \<Rightarrow> handler \<Rightarrow> 'c net \<Rightarrow> 'c net" where
  "udp_listen port h s =
     (let u = UDP s; n = LISTENER_COUNT u in
      case first_from (\<lambda>i. port_is (LISTENERS u ! i) port) 0 n of
        Some i \<Rightarrow> s\<lparr>UDP := u\<lparr>LISTENERS := (LISTENERS u)[i := Some (port, h)]\<rparr>\<rparr>
      | None \<Rightarrow>
          if n < MAX_LISTENERS
          then s\<lparr>UDP := u\<lparr>LISTENERS := (LISTENERS u)[n := Some (port, h)], LISTENER_COUNT := n + 1\<rparr>\<rparr>
          else s)"

definition transport_checksum :: "u8 \<Rightarrow> bytes \<Rightarrow> bytes \<Rightarrow> bytes \<Rightarrow> u16" where
  "transport_checksum proto src dst seg =
     NOT (ucast (end_around (sum_be16 seg (sum_be16 (src @ dst) 0 + ucast proto + of_nat (length seg)))))"

definition udp_datagram :: "bytes \<Rightarrow> bytes \<Rightarrow> u16 \<Rightarrow> u16 \<Rightarrow> bytes \<Rightarrow> bytes" where
  "udp_datagram src dst dst_port src_port payload =
     (let len = 8 + length payload;
          d = put_at 0 (to_be16 src_port) (replicate 1472 0);
          d = put_at 2 (to_be16 dst_port) d;
          d = put_at 4 (to_be16 (of_nat len)) d;
          d = put_at 8 payload d;
          ck = transport_checksum PROTO_UDP src dst (take len d)
      in take len (put_at 6 (to_be16 (if ck = 0 then 0xFFFF else ck)) d))"

definition udp_send_from :: "'c card \<Rightarrow> bytes \<Rightarrow> bytes \<Rightarrow> u16 \<Rightarrow> u16 \<Rightarrow> bytes \<Rightarrow> 'c net \<Rightarrow> bool \<times> 'c net" where
  "udp_send_from cd src dst dst_port src_port payload s =
     (if 8 + length payload > 1472 then (False, s)
      else
        let d = udp_datagram src dst dst_port src_port payload;
            (ok, s) = (if src = [0, 0, 0, 0] \<or> dst = BROADCAST then send_broadcast cd src dst PROTO_UDP d s
                       else ip_send cd dst PROTO_UDP d s)
        in if ok then (True, s\<lparr>UDP := (UDP s)\<lparr>UDP_SENT := wadd64 (UDP_SENT (UDP s)) 1\<rparr>\<rparr>) else (False, s))"

definition udp_send :: "'c card \<Rightarrow> bytes \<Rightarrow> u16 \<Rightarrow> u16 \<Rightarrow> bytes \<Rightarrow> 'c net \<Rightarrow> bool \<times> 'c net" where
  "udp_send cd dst dst_port src_port payload s = udp_send_from cd (our_ip s) dst dst_port src_port payload s"

section \<open>Name resolution (dns.rs)\<close>

abbreviation (input) DNS_RETRY_TICKS :: nat where "DNS_RETRY_TICKS \<equiv> 200"
abbreviation (input) DNS_MAX_ATTEMPTS :: u32 where "DNS_MAX_ATTEMPTS \<equiv> 3"

definition set_server :: "bytes \<Rightarrow> 'c net \<Rightarrow> 'c net" where
  "set_server ip s = s\<lparr>DNS := (DNS s)\<lparr>DNS_SERVER := ip_to_u32 ip\<rparr>\<rparr>"

definition dns_server :: "'c net \<Rightarrow> bytes" where
  "dns_server s = u32_to_ip (DNS_SERVER (DNS s))"

definition dns_init :: "u64 \<Rightarrow> 'c net \<Rightarrow> 'c net" where
  "dns_init tsc s =
     (let (p, s) = alloc_port tsc s in
      udp_listen p Dns_Handle (s\<lparr>DNS := (DNS s)\<lparr>DNS_LOCAL_PORT := p\<rparr>\<rparr>))"

definition current_name :: "nat \<Rightarrow> 'c net \<Rightarrow> bytes" where
  "current_name cap s = take (min (NAME_LEN (DNS s)) cap) (DNS_NAME (DNS s))"

definition take_result :: "'c net \<Rightarrow> bytes option \<times> 'c net" where
  "take_result s =
     (if DNS_STATE (DNS s) \<noteq> 2 then (None, s)
      else (Some (u32_to_ip (DNS_RESULT (DNS s))), s\<lparr>DNS := (DNS s)\<lparr>DNS_STATE := 0\<rparr>\<rparr>))"

text \<open>The loop over the labels; None when a label does not fit.\<close>

fun put_labels :: "bytes list \<Rightarrow> nat \<Rightarrow> bytes \<Rightarrow> (nat \<times> bytes) option" where
  "put_labels [] a buf = Some (a, buf)"
| "put_labels (l # ls) a buf =
     (if l = [] then put_labels ls a buf
      else if a + 1 + length l \<ge> length buf then None
      else put_labels ls (a + 1 + length l) (put_at (a + 1) l (buf[a := of_nat (length l)])))"

definition dns_query :: "u16 \<Rightarrow> bytes \<Rightarrow> bytes option" where
  "dns_query ident text =
     (let buf = put_at 0 (to_be16 ident) (replicate 256 0);
          buf = put_at 2 (to_be16 0x0100) buf;
          buf = put_at 4 (to_be16 1) buf
      in map_option (\<lambda>(a, buf). take (a + 5) (put_at (a + 3) (to_be16 1) (put_at (a + 1) (to_be16 1) (buf[a := 0]))))
           (put_labels (split_on 46 text) 12 buf))"

definition send_query :: "'c card \<Rightarrow> 'c net \<Rightarrow> 'c net" where
  "send_query cd s =
     (let name = current_name 64 s; text = (if utf8_valid name then name else []) in
      case dns_query (QUERY_ID (DNS s)) text of
        None \<Rightarrow> s\<lparr>DNS := (DNS s)\<lparr>DNS_STATE := 3\<rparr>\<rparr>
      | Some q \<Rightarrow>
          let s = s\<lparr>DNS := (DNS s)\<lparr>DNS_LAST_SEND := TIMER_TICKS s\<rparr>\<rparr>;
              (_, s) = udp_send cd (dns_server s) 53 (DNS_LOCAL_PORT (DNS s)) q s
          in s\<lparr>DNS := (DNS s)\<lparr>QUERIES := wadd64 (QUERIES (DNS s)) 1\<rparr>\<rparr>)"

definition to_ascii_lowercase :: "u8 \<Rightarrow> u8" where
  "to_ascii_lowercase b = (if 65 \<le> b \<and> b \<le> 90 then b + 32 else b)"

definition dns_start :: "'c card \<Rightarrow> bytes \<Rightarrow> 'c net \<Rightarrow> bool \<times> 'c net" where
  "dns_start cd name s =
     (if length name > 63 \<or> name = [] then (False, s)
      else if DNS_SERVER (DNS s) = 0 then (False, s)
      else
        (True, send_query cd (s\<lparr>DNS := (DNS s)\<lparr>NAME_LEN := length name,
           DNS_NAME := put_at 0 (map to_ascii_lowercase name) (DNS_NAME (DNS s)),
           QUERY_ID := (QUERY_ID (DNS s) + 1) OR 0x0100, DNS_ATTEMPTS := 0, DNS_STATE := 1\<rparr>\<rparr>)))"

definition dns_tick :: "'c card \<Rightarrow> 'c net \<Rightarrow> 'c net" where
  "dns_tick cd s =
     (if DNS_STATE (DNS s) \<noteq> 1 then s
      else if TIMER_TICKS s - DNS_LAST_SEND (DNS s) < DNS_RETRY_TICKS then s
      else
        let n = DNS_ATTEMPTS (DNS s) + 1; s = s\<lparr>DNS := (DNS s)\<lparr>DNS_ATTEMPTS := n\<rparr>\<rparr> in
        if n \<ge> DNS_MAX_ATTEMPTS then s\<lparr>DNS := (DNS s)\<lparr>DNS_STATE := 3\<rparr>\<rparr> else send_query cd s)"

text \<open>\<open>skip_name\<close>: the inner option is its result, the outer one is None for a panic.\<close>

function skip_name :: "bytes \<Rightarrow> nat \<Rightarrow> nat option option" where
  "skip_name msg a =
     (if a \<ge> length msg then Some None
      else do {
        len \<leftarrow> u8_at msg a;
        if len AND 0xC0 = 0xC0 then Some (if a + 1 < length msg then Some (a + 2) else None)
        else if len = 0 then Some (Some (a + 1))
        else skip_name msg (a + 1 + unat len)
      })"
  by pat_completeness auto
termination
  by (relation "measure (\<lambda>(msg, a). length msg - a)") auto

declare skip_name.simps [simp del]

fun skip_questions :: "bytes \<Rightarrow> nat \<Rightarrow> nat \<Rightarrow> nat option option" where
  "skip_questions msg 0 a = Some (Some a)"
| "skip_questions msg (Suc k) a = do {
     r \<leftarrow> skip_name msg a;
     case r of None \<Rightarrow> Some None | Some nxt \<Rightarrow> skip_questions msg k (nxt + 4)
   }"

datatype dns_answer = Malformed | Address bytes | No_Address

fun find_answer :: "bytes \<Rightarrow> nat \<Rightarrow> nat \<Rightarrow> dns_answer option" where
  "find_answer msg 0 a = Some No_Address"
| "find_answer msg (Suc k) a = do {
     r \<leftarrow> skip_name msg a;
     case r of
       None \<Rightarrow> Some Malformed
     | Some a \<Rightarrow>
         if a + 10 > length msg then Some Malformed
         else do {
           rtype \<leftarrow> u16_at msg a;
           w \<leftarrow> u16_at msg (a + 8);
           let rdlen = unat w;
           let rd_at = a + 10;
           if rd_at + rdlen > length msg then Some Malformed
           else if rtype = 1 \<and> rdlen = 4 then do {
             ip \<leftarrow> slice_at msg rd_at (rd_at + 4);
             Some (Address ip)
           }
           else find_answer msg k (rd_at + rdlen)
         }
   }"

definition dns_handle :: "bytes \<Rightarrow> 'c net \<Rightarrow> 'c net option" where
  "dns_handle msg s =
     (if length msg < 12 \<or> DNS_STATE (DNS s) \<noteq> 1 then Some s
      else do {
        ident \<leftarrow> u16_at msg 0;
        if ident \<noteq> QUERY_ID (DNS s) then Some s
        else do {
          b2 \<leftarrow> u8_at msg 2;
          if b2 AND 0x80 = 0 then Some s
          else do {
            b3 \<leftarrow> u8_at msg 3;
            if b3 AND 0x0F \<noteq> 0 then Some (s\<lparr>DNS := (DNS s)\<lparr>DNS_STATE := 3\<rparr>\<rparr>)
            else do {
              qd \<leftarrow> u16_at msg 4;
              an \<leftarrow> u16_at msg 6;
              q \<leftarrow> skip_questions msg (unat qd) 12;
              case q of
                None \<Rightarrow> Some s
              | Some a \<Rightarrow> do {
                  r \<leftarrow> find_answer msg (unat an) a;
                  Some (case r of
                      Malformed \<Rightarrow> s
                    | Address ip \<Rightarrow> s\<lparr>DNS := (DNS s)\<lparr>DNS_RESULT := ip_to_u32 ip, DNS_STATE := 2,
                        ANSWERS := wadd64 (ANSWERS (DNS s)) 1\<rparr>\<rparr>
                    | No_Address \<Rightarrow> s\<lparr>DNS := (DNS s)\<lparr>DNS_STATE := 3\<rparr>\<rparr>)
                }
            }
          }
        }
      })"

section \<open>DHCP (dhcp.rs)\<close>

abbreviation (input) SERVER_PORT :: u16 where "SERVER_PORT \<equiv> 67"
abbreviation (input) CLIENT_PORT :: u16 where "CLIENT_PORT \<equiv> 68"
abbreviation (input) OPT_SUBNET_MASK :: u8 where "OPT_SUBNET_MASK \<equiv> 1"
abbreviation (input) OPT_ROUTER :: u8 where "OPT_ROUTER \<equiv> 3"
abbreviation (input) OPT_DNS :: u8 where "OPT_DNS \<equiv> 6"
abbreviation (input) OPT_REQUESTED_IP :: u8 where "OPT_REQUESTED_IP \<equiv> 50"
abbreviation (input) OPT_LEASE_TIME :: u8 where "OPT_LEASE_TIME \<equiv> 51"
abbreviation (input) OPT_MESSAGE_TYPE :: u8 where "OPT_MESSAGE_TYPE \<equiv> 53"
abbreviation (input) OPT_SERVER_ID :: u8 where "OPT_SERVER_ID \<equiv> 54"
abbreviation (input) OPT_PARAM_LIST :: u8 where "OPT_PARAM_LIST \<equiv> 55"
abbreviation (input) OPT_END :: u8 where "OPT_END \<equiv> 255"
abbreviation (input) MAGIC_COOKIE :: bytes where "MAGIC_COOKIE \<equiv> [99, 130, 83, 99]"

definition base_packet :: "'c net \<Rightarrow> bytes" where
  "base_packet s =
     (let buf = (replicate 300 0)[0 := 1, 1 := 1, 2 := 6, 3 := 0];
          buf = put_at 4 (to_be32 (XID (DHCP s))) buf;
          buf = put_at 8 (to_be16 0) buf;
          buf = put_at 10 (to_be16 0x8000) buf;
          buf = (case nic_mac (NIC s) of Some mac \<Rightarrow> put_at 28 mac buf | None \<Rightarrow> buf)
      in put_at 236 MAGIC_COOKIE buf)"

definition push_option :: "u8 \<Rightarrow> bytes \<Rightarrow> bytes \<times> nat \<Rightarrow> bytes \<times> nat" where
  "push_option code data ba =
     (let (buf, a) = ba in
      if a + 2 + length data \<ge> length buf then (buf, a)
      else (put_at (a + 2) data (buf[a := code, a + 1 := of_nat (length data)]), a + 2 + length data))"

definition dhcp_send :: "'c card \<Rightarrow> bytes \<times> nat \<Rightarrow> 'c net \<Rightarrow> 'c net" where
  "dhcp_send cd ba s =
     (let (buf, a) = ba; s = s\<lparr>DHCP := (DHCP s)\<lparr>DHCP_LAST_SEND := TIMER_TICKS s\<rparr>\<rparr> in
      snd (udp_send_from cd [0, 0, 0, 0] BROADCAST SERVER_PORT CLIENT_PORT (buf[a := OPT_END]) s))"

definition send_discover :: "'c card \<Rightarrow> 'c net \<Rightarrow> 'c net" where
  "send_discover cd s =
     dhcp_send cd
       (push_option OPT_PARAM_LIST [OPT_SUBNET_MASK, OPT_ROUTER, OPT_DNS, OPT_LEASE_TIME]
         (push_option OPT_MESSAGE_TYPE [1] (base_packet s, 240))) s"

definition send_request :: "'c card \<Rightarrow> 'c net \<Rightarrow> 'c net" where
  "send_request cd s =
     dhcp_send cd
       (push_option OPT_PARAM_LIST [OPT_SUBNET_MASK, OPT_ROUTER, OPT_DNS, OPT_LEASE_TIME]
         (push_option OPT_SERVER_ID (to_be32 (SERVER_ID (DHCP s)))
           (push_option OPT_REQUESTED_IP (to_be32 (OFFERED_IP (DHCP s)))
             (push_option OPT_MESSAGE_TYPE [3] (base_packet s, 240))))) s"

definition set_dhcp :: "dhcp_st \<Rightarrow> 'c net \<Rightarrow> 'c net" where
  "set_dhcp st s = s\<lparr>DHCP := (DHCP s)\<lparr>DHCP_STATE := st\<rparr>\<rparr>"

definition dhcp_init :: "'c net \<Rightarrow> 'c net" where
  "dhcp_init s =
     (let s = udp_listen CLIENT_PORT Dhcp_Handle s in
      set_dhcp Idle (s\<lparr>DHCP := (DHCP s)\<lparr>XID := of_nat (TIMER_TICKS s) XOR 0x0B050B05\<rparr>\<rparr>))"

definition dhcp_start :: "'c card \<Rightarrow> 'c net \<Rightarrow> 'c net" where
  "dhcp_start cd s =
     (if DHCP_STATE (DHCP s) = Bound then s
      else send_discover cd (set_dhcp Discovering (s\<lparr>DHCP := (DHCP s)\<lparr>DHCP_ATTEMPTS := 0\<rparr>\<rparr>)))"

definition dhcp_tick :: "'c card \<Rightarrow> 'c net \<Rightarrow> 'c net" where
  "dhcp_tick cd s =
     (let st = DHCP_STATE (DHCP s) in
      if st \<in> {Bound, Dhcp_Failed, Idle} then s
      else if TIMER_TICKS s - DHCP_LAST_SEND (DHCP s) < 100 then s
      else
        let n = DHCP_ATTEMPTS (DHCP s) + 1; s = s\<lparr>DHCP := (DHCP s)\<lparr>DHCP_ATTEMPTS := n\<rparr>\<rparr> in
        if n \<ge> 4 then set_dhcp Dhcp_Failed s
        else if st = Discovering then send_discover cd s else send_request cd s)"

record dhcp_opts =
  o_type :: u8
  o_mask :: "bytes option"
  o_router :: "bytes option"
  o_dns :: "bytes option"
  o_server :: "bytes option"
  o_lease :: "u32 option"

definition four :: "bytes \<Rightarrow> bytes option" where
  "four d = (if length d = 4 then Some d else None)"

definition take_option :: "u8 \<Rightarrow> bytes \<Rightarrow> dhcp_opts \<Rightarrow> dhcp_opts" where
  "take_option code data r =
     (if code = OPT_MESSAGE_TYPE \<and> length data = 1 then r\<lparr>o_type := data ! 0\<rparr>
      else if code = OPT_SUBNET_MASK then r\<lparr>o_mask := four data\<rparr>
      else if code = OPT_ROUTER then r\<lparr>o_router := four data\<rparr>
      else if code = OPT_DNS then r\<lparr>o_dns := four data\<rparr>
      else if code = OPT_SERVER_ID then r\<lparr>o_server := four data\<rparr>
      else if code = OPT_LEASE_TIME \<and> length data = 4 then r\<lparr>o_lease := Some (be32_at data 0)\<rparr>
      else r)"

function dhcp_options :: "bytes \<Rightarrow> nat \<Rightarrow> dhcp_opts \<Rightarrow> dhcp_opts option" where
  "dhcp_options p a r =
     (if a \<ge> length p then Some r
      else do {
        code \<leftarrow> u8_at p a;
        if code = OPT_END then Some r
        else if code = 0 then dhcp_options p (a + 1) r
        else if a + 1 \<ge> length p then Some r
        else do {
          len \<leftarrow> u8_at p (a + 1);
          if a + 2 + unat len > length p then Some r
          else do {
            data \<leftarrow> slice_at p (a + 2) (a + 2 + unat len);
            dhcp_options p (a + 2 + unat len) (take_option code data r)
          }
        }
      })"
  by pat_completeness auto
termination
  by (relation "measure (\<lambda>(p, a, r). length p - a)") auto

declare dhcp_options.simps [simp del]

definition apply_opt :: "('a \<Rightarrow> 's \<Rightarrow> 's) \<Rightarrow> 'a option \<Rightarrow> 's \<Rightarrow> 's" where
  "apply_opt f x s = (case x of Some v \<Rightarrow> f v s | None \<Rightarrow> s)"

definition dhcp_ack :: "u32 \<Rightarrow> dhcp_opts \<Rightarrow> 'c net \<Rightarrow> 'c net" where
  "dhcp_ack yiaddr r s =
     (let s = s\<lparr>DHCP := (DHCP s)\<lparr>ACKS_SEEN := wadd64 (ACKS_SEEN (DHCP s)) 1\<rparr>\<rparr>;
          s = set_our_ip (u32_to_ip yiaddr) s;
          s = apply_opt set_mask (o_mask r) s;
          s = apply_opt set_gateway (o_router r) s;
          s = apply_opt set_server (o_dns r) s;
          s = apply_opt (\<lambda>l s. s\<lparr>DHCP := (DHCP s)\<lparr>LEASE_SECS := l\<rparr>\<rparr>) (o_lease r) s
      in set_dhcp Bound s)"

definition dhcp_offer :: "'c card \<Rightarrow> u32 \<Rightarrow> dhcp_opts \<Rightarrow> 'c net \<Rightarrow> 'c net" where
  "dhcp_offer cd yiaddr r s =
     (let s = s\<lparr>DHCP := (DHCP s)\<lparr>OFFERS_SEEN := wadd64 (OFFERS_SEEN (DHCP s)) 1, OFFERED_IP := yiaddr\<rparr>\<rparr>;
          s = apply_opt (\<lambda>v s. s\<lparr>DHCP := (DHCP s)\<lparr>SERVER_ID := ip_to_u32 v\<rparr>\<rparr>) (o_server r) s;
          s = set_dhcp Requesting s
      in send_request cd (s\<lparr>DHCP := (DHCP s)\<lparr>DHCP_ATTEMPTS := 0\<rparr>\<rparr>))"

definition dhcp_handle :: "'c card \<Rightarrow> bytes \<Rightarrow> 'c net \<Rightarrow> 'c net option" where
  "dhcp_handle cd payload s =
     (if length payload < 240 then Some s
      else do {
        op \<leftarrow> u8_at payload 0;
        if op \<noteq> 2 then Some s
        else do {
          xid \<leftarrow> u32_at payload 4;
          if xid \<noteq> XID (DHCP s) then Some s
          else do {
            cookie \<leftarrow> slice_at payload 236 240;
            if cookie \<noteq> MAGIC_COOKIE then Some s
            else do {
              yiaddr \<leftarrow> u32_at payload 16;
              r \<leftarrow> dhcp_options payload 240
                \<lparr>o_type = 0, o_mask = None, o_router = None, o_dns = None, o_server = None, o_lease = None\<rparr>;
              Some (if o_type r = 2 then dhcp_offer cd yiaddr r s
                    else if o_type r = 5 then dhcp_ack yiaddr r s
                    else s)
            }
          }
        }
      })"

section \<open>Delivery by port\<close>

definition udp_handle :: "'c card \<Rightarrow> bytes \<Rightarrow> bytes \<Rightarrow> 'c net \<Rightarrow> 'c net option" where
  "udp_handle cd src body s =
     (if length body < 8 then Some s
      else do {
        src_port \<leftarrow> u16_at body 0;
        dst_port \<leftarrow> u16_at body 2;
        w \<leftarrow> u16_at body 4;
        let len = unat w;
        if len < 8 \<or> len > length body then Some s
        else do {
          let s = s\<lparr>UDP := (UDP s)\<lparr>UDP_RECEIVED := wadd64 (UDP_RECEIVED (UDP s)) 1\<rparr>\<rparr>;
          payload \<leftarrow> slice_at body 8 len;
          case first_from (\<lambda>i. port_is (LISTENERS (UDP s) ! i) dst_port) 0 (LISTENER_COUNT (UDP s)) of
            Some i \<Rightarrow>
              (case LISTENERS (UDP s) ! i of
                 Some (_, Dhcp_Handle) \<Rightarrow> dhcp_handle cd payload s
               | Some (_, Dns_Handle) \<Rightarrow> dns_handle payload s
               | None \<Rightarrow> Some s)
          | None \<Rightarrow> Some (s\<lparr>UDP := (UDP s)\<lparr>NO_LISTENER := wadd64 (NO_LISTENER (UDP s)) 1\<rparr>\<rparr>)
        }
      })"

end
