(* ===== verification/Net_Wire.thy ===== *)
theory Net_Wire
  imports Net_Udp
begin

text \<open>
  What the datagram handlers of \<open>Net_Udp\<close> make of a message: no handler reads outside it, whatever its
  bytes, and well-formed DNS answers and DHCP replies, given by encoders, are understood.
\<close>

section \<open>Handlers do not read outside the datagram\<close>

lemma skip_name_step:
  "a < length msg \<Longrightarrow> skip_name msg a =
     (if msg ! a AND 0xC0 = 0xC0 then Some (if a + 1 < length msg then Some (a + 2) else None)
      else if msg ! a = 0 then Some (Some (a + 1)) else skip_name msg (a + 1 + unat (msg ! a)))"
  by (subst skip_name.simps) (simp add: reads)

lemma skip_name_end: "length msg \<le> a \<Longrightarrow> skip_name msg a = Some None"
  by (simp add: skip_name.simps)

lemma skip_name_total_bound:
  "skip_name msg a \<noteq> None \<and> (skip_name msg a = Some (Some n) \<longrightarrow> a < n \<and> n \<le> length msg)"
proof (induction msg a rule: skip_name.induct)
  case (1 msg a)
  show ?case
  proof (cases "a < length msg")
    case True
    with 1 [of "msg ! a"] show ?thesis by (auto simp: skip_name_step reads)
  next
    case False
    then show ?thesis by (simp add: skip_name_end)
  qed
qed

lemmas skip_name_total = skip_name_total_bound [THEN conjunct1]

lemma skip_questions_total: "skip_questions msg k a \<noteq> None"
proof (induction k arbitrary: a)
  case (Suc k)
  obtain r where "skip_name msg a = Some r" using skip_name_total [of msg a] by blast
  then show ?case using Suc by (cases r) simp_all
qed simp

lemma find_answer_total: "find_answer msg k a \<noteq> None"
proof (induction k arbitrary: a)
  case (Suc k)
  obtain r where r: "skip_name msg a = Some r" using skip_name_total [of msg a] by blast
  show ?case
  proof (cases r)
    case (Some n)
    show ?thesis
    proof (cases "n + 10 \<le> length msg")
      case True
      with r Some Suc show ?thesis by (simp add: reads Let_def)
    qed (use r Some in simp)
  qed (use r in simp)
qed simp

lemma dns_handle_total: "dns_handle msg s \<noteq> None"
proof (cases "length msg < 12")
  case False
  obtain q where q: "skip_questions msg (unat (be16_at msg 4)) 12 = Some q"
    using skip_questions_total by blast
  show ?thesis
  proof (cases q)
    case None
    with False q show ?thesis by (simp add: dns_handle_def reads)
  next
    case (Some a)
    obtain r where "find_answer msg (unat (be16_at msg 6)) a = Some r" using find_answer_total by blast
    with False q Some show ?thesis by (simp add: dns_handle_def reads)
  qed
qed (simp add: dns_handle_def)

lemma dhcp_options_total: "dhcp_options p a r \<noteq> None"
proof (induction p a r rule: dhcp_options.induct)
  case (1 p a r)
  show ?case
  proof (cases "a + 1 < length p")
    case True
    with 1 show ?thesis by (subst dhcp_options.simps) (simp add: reads)
  next
    case False
    with 1 show ?thesis by (cases "a < length p"; subst dhcp_options.simps) (auto simp: reads)
  qed
qed

lemma dhcp_handle_total: "dhcp_handle cd payload s \<noteq> None"
proof (cases "length payload < 240")
  case False
  then have "240 \<le> length payload" "payload \<noteq> []" by auto
  moreover obtain r where "dhcp_options payload 240
      \<lparr>o_type = 0, o_mask = None, o_router = None, o_dns = None, o_server = None, o_lease = None\<rparr> = Some r"
    using dhcp_options_total by blast
  ultimately show ?thesis by (simp add: dhcp_handle_def reads)
qed (simp add: dhcp_handle_def)

lemma icmp_handle_total: "icmp_handle cd src body s \<noteq> None"
proof (cases "length body < 8")
  case False
  then have "8 \<le> length body" "body \<noteq> []" by auto
  then show ?thesis by (simp add: icmp_handle_def reads Let_def)
qed (simp add: icmp_handle_def)

lemma udp_handle_total: "udp_handle cd src body s \<noteq> None"
proof (cases "length body < 8")
  case False
  then show ?thesis
    using dns_handle_total dhcp_handle_total
    by (auto simp: udp_handle_def reads Let_def split: option.splits handler.splits)
qed (simp add: udp_handle_def)

section \<open>Well-formed answers\<close>

text \<open>A machine without an adapter, with an address and nothing going on, and the same with a query outstanding.\<close>

definition quiet_card :: "unit card" where
  "quiet_card = \<lparr>reg_write = (\<lambda>_ _ x. x), reg_read = (\<lambda>_ x. (0, x)), card_runs = (\<lambda>x. x)\<rparr>"

definition idle_stack :: "unit net" where
  "idle_stack = \<lparr>NIC = \<lparr>NIC_PRESENT = False, MMIO_BASE = 0, MAC_LO = 0, MAC_HI = 0, RX_RING = 0, RX_BUFS = 0, RX_CUR = 0,
       TX_RING = 0, TX_BUFS = 0, NIC_TX_TAIL = 0, TX_FRAMES = 0, RX_FRAMES = 0, TX_STALLS = 0, chip = ((), \<lambda>_. 0)\<rparr>,
     TIMER_TICKS = 0,
     ARP = \<lparr>OUR_IP = 0x0A000001, CACHE = replicate 8 \<lparr>e_ip = 0, e_mac = replicate 6 0, e_valid = False\<rparr>, REQUESTS_SENT = 0, REPLIES_SEEN = 0\<rparr>,
     IP = \<lparr>IP_MASK = 0xFFFFFF00, GATEWAY = 0, IP_ID = 0x0B05, IP_SENT = 0, IP_RECEIVED = 0, BAD_CHECKSUM = 0, FRAGMENTS = 0\<rparr>,
     ICMP = \<lparr>PENDING = False, PENDING_SEQ = 0, PENDING_TARGET = 0, PENDING_SINCE = 0, REPLY_SEEN = False, REPLY_RTT_MS = 0,
       REPLY_FROM = 0, ECHO_SENT = 0, ECHO_REPLIES = 0\<rparr>,
     UDP = \<lparr>NEXT_PORT = 0, LISTENERS = replicate 6 None, LISTENER_COUNT = 0, UDP_SENT = 0, UDP_RECEIVED = 0, NO_LISTENER = 0\<rparr>,
     DHCP = \<lparr>DHCP_STATE = Idle, XID = 0, OFFERED_IP = 0, SERVER_ID = 0, DHCP_LAST_SEND = 0, DHCP_ATTEMPTS = 0, LEASE_SECS = 0,
       OFFERS_SEEN = 0, ACKS_SEEN = 0\<rparr>,
     DNS = \<lparr>DNS_SERVER = 0, DNS_LOCAL_PORT = 0, QUERY_ID = 0, DNS_LAST_SEND = 0, DNS_ATTEMPTS = 0, DNS_STATE = 0, DNS_RESULT = 0,
       NAME_LEN = 0, DNS_NAME = replicate 64 0, QUERIES = 0, ANSWERS = 0\<rparr>,
     TCP = \<lparr>ACTIVE = False, STATE = Closed, REMOTE_IP = 0, REMOTE_PORT = 0, LOCAL_PORT = 0,
       SND_UNA = 0, SND_NXT = 0, RCV_NXT = 0, LAST_SEND = 0, RETRIES = 0, ISS = 0, TX_BUF = (\<lambda>_. 0),
       TX_SLOT_SEQ = replicate 8 0, TX_SLOT_LEN = replicate 8 0, TX_SLOT_FIN = replicate 8 False, TX_HEAD = 0, TX_TAIL = 0,
       RX_BUF = (\<lambda>_. 0), RX_HEAD = 0, RX_TAIL = 0, RX_TRUNCATED = False, PEER_CLOSED = False,
       CONNECTS = 0, SEGMENTS_IN = 0, RETRANSMITS = 0\<rparr>, FALLBACK_APPLIED = False\<rparr>"

definition asking :: "unit net" where
  "asking = idle_stack\<lparr>DNS := (DNS idle_stack)\<lparr>DNS_STATE := 1, QUERY_ID := 7\<rparr>\<rparr>"

text \<open>
  A name on the wire: labels, ended by the root or by a pointer to an earlier name.  A resource record:
  its name, type, class and time to live, and data.
\<close>

type_synonym dname = "bytes list \<times> (u8 \<times> u8) option"

definition enc_label :: "bytes \<Rightarrow> bytes" where
  "enc_label l = of_nat (length l) # l"

definition enc_name :: "dname \<Rightarrow> bytes" where
  "enc_name n = concat (map enc_label (fst n)) @ (case snd n of None \<Rightarrow> [0] | Some (h, l) \<Rightarrow> [h, l])"

definition name_ok :: "dname \<Rightarrow> bool" where
  "name_ok n \<longleftrightarrow> (\<forall>l \<in> set (fst n). l \<noteq> [] \<and> length l < 64) \<and>
     (case snd n of None \<Rightarrow> True | Some (h, _) \<Rightarrow> h AND 0xC0 = 0xC0)"

record rr =
  rr_name :: dname
  rr_type :: u16
  rr_mid :: bytes
  rr_data :: bytes

definition enc_rr :: "rr \<Rightarrow> bytes" where
  "enc_rr r = enc_name (rr_name r) @ to_be16 (rr_type r) @ rr_mid r @ to_be16 (of_nat (length (rr_data r))) @ rr_data r"

definition rr_ok :: "rr \<Rightarrow> bool" where
  "rr_ok r \<longleftrightarrow> name_ok (rr_name r) \<and> length (rr_mid r) = 6 \<and> length (rr_data r) < 2 ^ 16"

definition is_address :: "rr \<Rightarrow> bool" where
  "is_address r \<longleftrightarrow> rr_type r = 1 \<and> length (rr_data r) = 4"

lemma label_byte:
  assumes "n < 64"
  shows "(of_nat n :: u8) AND 0xC0 \<noteq> 0xC0" "unat (of_nat n :: u8) = n"
proof -
  show u: "unat (of_nat n :: u8) = n" using assms by (simp add: unat_of_nat)
  have "(of_nat n :: u8) AND 0xC0 \<le> of_nat n" by (rule word_and_le2)
  then have "unat ((of_nat n :: u8) AND 0xC0) \<le> n" using u by (simp add: word_le_nat_alt)
  then show "(of_nat n :: u8) AND 0xC0 \<noteq> 0xC0" using assms by auto
qed

lemma skip_name_enc:
  assumes "name_ok n"
  shows "skip_name (pre @ enc_name n @ post) (length pre) = Some (Some (length pre + length (enc_name n)))"
proof -
  obtain ls e where n: "n = (ls, e)" by (cases n)
  have ls: "\<forall>l \<in> set ls. l \<noteq> [] \<and> length l < 64" and e: "\<And>h l. e = Some (h, l) \<Longrightarrow> h AND 0xC0 = 0xC0"
    using assms by (auto simp: n name_ok_def)
  from ls show ?thesis unfolding n
  proof (induction ls arbitrary: pre)
    case Nil
    show ?case using e by (cases e) (auto simp: enc_name_def skip_name_step nth_append)
  next
    case (Cons l ls)
    let ?pre = "pre @ enc_label l"
    have l: "l \<noteq> []" "length l < 64" using Cons.prems by auto
    have u: "unat (of_nat (length l) :: u8) = length l" using label_byte(2) [OF l(2)] .
    have nz: "(of_nat (length l) :: u8) \<noteq> 0" using u l(1) by (metis length_0_conv unat_0)
    have msg: "pre @ enc_name (l # ls, e) @ post = ?pre @ enc_name (ls, e) @ post"
      by (simp add: enc_name_def)
    have "skip_name (pre @ enc_name (l # ls, e) @ post) (length pre) =
        skip_name (pre @ enc_name (l # ls, e) @ post) (length pre + 1 + length l)"
      using label_byte(1) [OF l(2)] u nz by (subst skip_name_step) (simp_all add: enc_name_def enc_label_def nth_append)
    also have "\<dots> = skip_name (?pre @ enc_name (ls, e) @ post) (length ?pre)"
      unfolding msg by (simp add: enc_label_def)
    also have "\<dots> = Some (Some (length ?pre + length (enc_name (ls, e))))"
      using Cons.prems by (intro Cons.IH) simp
    finally show ?case by (simp add: enc_name_def enc_label_def)
  qed
qed

text \<open>Reading a field of a message given by its parts.\<close>

lemma u16_at_parts: "length pre = i \<Longrightarrow> u16_at (pre @ to_be16 w @ post) i = Some w"
  by (simp add: u16_at_def be16_at_def nth_append to_be16_def from_be16_to_be16)

lemma slice_at_parts: "length pre = i \<Longrightarrow> j = i + length xs \<Longrightarrow> slice_at (pre @ xs @ post) i j = Some xs"
  by (simp add: slice_at_def bslice_def)

lemma find_answer_step:
  assumes "rr_ok r" "length pre = a"
  shows "find_answer (pre @ enc_rr r @ post) (Suc k) a =
    (if is_address r then Some (Address (rr_data r)) else find_answer (pre @ enc_rr r @ post) k (a + length (enc_rr r)))"
proof -
  let ?msg = "pre @ enc_rr r @ post" and ?n = "enc_name (rr_name r)" and ?len = "of_nat (length (rr_data r)) :: u16"
  have ok: "name_ok (rr_name r)" "length (rr_mid r) = 6" "length (rr_data r) < 2 ^ 16"
    using assms(1) by (simp_all add: rr_ok_def)
  have len: "unat ?len = length (rr_data r)" using ok(3) by (simp add: unat_of_nat)
  have skip: "skip_name ?msg a = Some (Some (a + length ?n))"
    using skip_name_enc [OF ok(1), of pre "to_be16 (rr_type r) @ rr_mid r @ to_be16 ?len @ rr_data r @ post"] assms(2)
    by (simp add: enc_rr_def)
  have ty: "u16_at ?msg (a + length ?n) = Some (rr_type r)"
    using u16_at_parts [of "pre @ ?n" _ "rr_type r" "rr_mid r @ to_be16 ?len @ rr_data r @ post"] assms(2) by (simp add: enc_rr_def)
  have ln: "u16_at ?msg (a + length ?n + 8) = Some ?len"
    using u16_at_parts [of "pre @ ?n @ to_be16 (rr_type r) @ rr_mid r" _ ?len "rr_data r @ post"] assms(2) ok(2) by (simp add: enc_rr_def add.assoc)
  have da: "slice_at ?msg (a + length ?n + 10) (a + length ?n + 10 + length (rr_data r)) = Some (rr_data r)"
    using slice_at_parts [OF refl refl, where pre = "pre @ ?n @ to_be16 (rr_type r) @ rr_mid r @ to_be16 ?len" and xs = "rr_data r" and post = post] assms(2) ok(2)
    by (simp add: enc_rr_def add.assoc)
  have tot: "length (enc_rr r) = length ?n + 10 + length (rr_data r)" using ok(2) by (simp add: enc_rr_def)
  show ?thesis
    using skip ty ln da tot assms(2)
    by (cases "length (rr_data r) = 4") (auto simp: len is_address_def Let_def add.assoc)
qed

lemma find_answer_enc:
  assumes "\<forall>r \<in> set rs. rr_ok r" "length pre = a"
  shows "find_answer (pre @ concat (map enc_rr rs) @ post) (length rs) a =
    Some (case find is_address rs of Some r \<Rightarrow> Address (rr_data r) | None \<Rightarrow> No_Address)"
  using assms
proof (induction rs arbitrary: pre a)
  case (Cons r rs)
  have "find_answer (pre @ concat (map enc_rr (r # rs)) @ post) (length (r # rs)) a =
      (if is_address r then Some (Address (rr_data r))
       else find_answer ((pre @ enc_rr r) @ concat (map enc_rr rs) @ post) (length rs) (a + length (enc_rr r)))"
    using find_answer_step [of r pre a "concat (map enc_rr rs) @ post" "length rs"] Cons.prems by simp
  also have "find_answer ((pre @ enc_rr r) @ concat (map enc_rr rs) @ post) (length rs) (a + length (enc_rr r)) =
      Some (case find is_address rs of Some r \<Rightarrow> Address (rr_data r) | None \<Rightarrow> No_Address)"
    using Cons.prems by (intro Cons.IH) auto
  finally show ?case by simp
qed simp

definition enc_question :: "dname \<times> bytes \<Rightarrow> bytes" where
  "enc_question q = enc_name (fst q) @ snd q"

lemma skip_questions_enc:
  assumes "\<forall>q \<in> set qs. name_ok (fst q) \<and> length (snd q) = 4" "length pre = a"
  shows "skip_questions (pre @ concat (map enc_question qs) @ post) (length qs) a =
    Some (Some (a + length (concat (map enc_question qs))))"
  using assms
proof (induction qs arbitrary: pre a)
  case (Cons q qs)
  let ?rest = "concat (map enc_question qs) @ post"
  have "skip_name (pre @ concat (map enc_question (q # qs)) @ post) a = Some (Some (a + length (enc_name (fst q))))"
    using skip_name_enc [of "fst q" pre "snd q @ ?rest"] Cons.prems by (simp add: enc_question_def)
  moreover have "skip_questions ((pre @ enc_question q) @ ?rest) (length qs) (a + length (enc_question q)) =
      Some (Some (a + length (enc_question q) + length (concat (map enc_question qs))))"
    using Cons.prems by (intro Cons.IH) auto
  moreover have "length (enc_question q) = length (enc_name (fst q)) + 4" using Cons.prems by (simp add: enc_question_def)
  ultimately show ?case by (simp add: add.assoc)
qed simp

definition dns_response :: "u16 \<Rightarrow> u8 \<Rightarrow> u8 \<Rightarrow> bytes \<Rightarrow> (dname \<times> bytes) list \<Rightarrow> rr list \<Rightarrow> bytes \<Rightarrow> bytes" where
  "dns_response ident b2 b3 counts qs rs post =
     to_be16 ident @ [b2, b3] @ to_be16 (of_nat (length qs)) @ to_be16 (of_nat (length rs)) @ counts @
     concat (map enc_question qs) @ concat (map enc_rr rs) @ post"

text \<open>
  C33: a well-formed answer to the outstanding query, with any questions and any records, names ended
  by the root or by a compression pointer, sets the result to the first IPv4 address among the records
  and, when there is none, marks the query as failed.
\<close>

theorem dns_handle_response:
  assumes st: "DNS_STATE (DNS s) = 1" "QUERY_ID (DNS s) = ident"
    and fl: "b2 AND 0x80 \<noteq> 0" "b3 AND 0x0F = 0" "length counts = 4"
    and qs: "\<forall>q \<in> set qs. name_ok (fst q) \<and> length (snd q) = 4" "length qs < 2 ^ 16"
    and rs: "\<forall>r \<in> set rs. rr_ok r" "length rs < 2 ^ 16"
  shows "dns_handle (dns_response ident b2 b3 counts qs rs post) s =
    Some (case find is_address rs of
        Some r \<Rightarrow> s\<lparr>DNS := (DNS s)\<lparr>DNS_RESULT := ip_to_u32 (rr_data r), DNS_STATE := 2, ANSWERS := wadd64 (ANSWERS (DNS s)) 1\<rparr>\<rparr>
      | None \<Rightarrow> s\<lparr>DNS := (DNS s)\<lparr>DNS_STATE := 3\<rparr>\<rparr>)"
proof -
  let ?qd = "of_nat (length qs) :: u16" and ?an = "of_nat (length rs) :: u16"
  let ?q = "concat (map enc_question qs)" and ?r = "concat (map enc_rr rs)"
  let ?m = "dns_response ident b2 b3 counts qs rs post"
  let ?h = "to_be16 ident @ [b2, b3] @ to_be16 ?qd @ to_be16 ?an @ counts"
  have h: "length ?h = 12" using fl(3) by simp
  have m: "?m = ?h @ ?q @ ?r @ post" by (simp add: dns_response_def)
  have cnt: "unat ?qd = length qs" "unat ?an = length rs" using qs(2) rs(2) by (simp_all add: unat_of_nat)
  have rd: "u16_at ?m 0 = Some ident" "u16_at ?m 4 = Some ?qd" "u16_at ?m 6 = Some ?an"
    using u16_at_parts [of "[]" 0 ident] u16_at_parts [of "to_be16 ident @ [b2, b3]" 4 ?qd]
      u16_at_parts [of "to_be16 ident @ [b2, b3] @ to_be16 ?qd" 6 ?an] by (simp_all add: dns_response_def)
  have rb: "u8_at ?m 2 = Some b2" "u8_at ?m 3 = Some b3"
    by (simp_all add: dns_response_def u8_at_def nth_append)
  have q: "skip_questions ?m (length qs) 12 = Some (Some (12 + length ?q))"
    unfolding m by (rule skip_questions_enc [OF qs(1) h])
  have a: "find_answer ?m (length rs) (12 + length ?q) =
      Some (case find is_address rs of Some r \<Rightarrow> Address (rr_data r) | None \<Rightarrow> No_Address)"
    using find_answer_enc [OF rs(1), of "?h @ ?q" "12 + length ?q" post] h by (simp add: m)
  have big: "\<not> length ?m < 12" using h m by simp
  show ?thesis
    using st fl big by (auto simp: dns_handle_def rd rb cnt q a split: option.split)
qed

theorem dns_handle_response_witness:
  "\<exists>s'. dns_handle (dns_response 7 0x81 0x80 [0, 0, 0, 0] [(([[97], [98]], None), [0, 1, 0, 1])]
       [\<lparr>rr_name = ([], Some (0xC0, 12)), rr_type = 5, rr_mid = [0, 1, 0, 0, 0, 60], rr_data = [1, 99, 0]\<rparr>,
        \<lparr>rr_name = ([[99]], None), rr_type = 1, rr_mid = [0, 1, 0, 0, 0, 60], rr_data = [93, 184, 216, 34]\<rparr>] []) asking = Some s' \<and>
     DNS_STATE (DNS s') = 2 \<and> u32_to_ip (DNS_RESULT (DNS s')) = [93, 184, 216, 34]"
  using dns_handle_response [of asking 7 "0x81" "0x80" "[0, 0, 0, 0]" "[(([[97], [98]], None), [0, 1, 0, 1])]"
      "[\<lparr>rr_name = ([], Some (0xC0, 12)), rr_type = 5, rr_mid = [0, 1, 0, 0, 0, 60], rr_data = [1, 99, 0]\<rparr>,
        \<lparr>rr_name = ([[99]], None), rr_type = 1, rr_mid = [0, 1, 0, 0, 0, 60], rr_data = [93, 184, 216, 34]\<rparr>]" "[]"]
  by (simp add: asking_def idle_stack_def name_ok_def rr_ok_def is_address_def ip_to_u32_def u32_to_ip_def)

text \<open>The query for a name of at most 63 bytes.\<close>

definition labels :: "bytes \<Rightarrow> bytes list" where
  "labels text = filter (\<lambda>l. l \<noteq> []) (split_on 46 text)"

lemma length_enc_label [simp]: "length (enc_label l) = length l + 1"
  by (simp add: enc_label_def)

lemma put_at_prefix: "length p = a \<Longrightarrow> put_at a xs (p @ q) = p @ xs @ drop (length xs) q"
  by (simp add: put_at_def)

lemma put_at_split:
  "a + length xs + length ys \<le> length buf \<Longrightarrow> put_at (a + length xs) ys (put_at a xs buf) = put_at a (xs @ ys) buf"
  by (simp add: put_at_def ac_simps)

lemma put_labels_eq:
  assumes "a + length (concat (map enc_label (filter (\<lambda>l. l \<noteq> []) ls))) < length buf"
  shows "put_labels ls a buf = Some (a + length (concat (map enc_label (filter (\<lambda>l. l \<noteq> []) ls))),
    put_at a (concat (map enc_label (filter (\<lambda>l. l \<noteq> []) ls))) buf)"
  using assms
proof (induction ls a buf rule: put_labels.induct)
  case (1 a buf)
  then show ?case by (simp add: put_at_def)
next
  case (2 l ls a buf)
  show ?case
  proof (cases "l = []")
    case False
    let ?rest = "concat (map enc_label (filter (\<lambda>l. l \<noteq> []) ls))"
    have fit: "a + length (enc_label l) + length ?rest < length buf" using "2.prems" False by simp
    have one: "put_at (a + 1) l (buf[a := of_nat (length l)]) = put_at a (enc_label l) buf"
      using fit by (simp add: put_at_def enc_label_def upd_conv_take_nth_drop ac_simps)
    have "put_labels ls (a + 1 + length l) (put_at a (enc_label l) buf) =
        Some (a + 1 + length l + length ?rest, put_at (a + 1 + length l) ?rest (put_at a (enc_label l) buf))"
      using "2.IH"(2) [OF False] fit one by simp
    also have "put_at (a + 1 + length l) ?rest (put_at a (enc_label l) buf) = put_at a (enc_label l @ ?rest) buf"
      using put_at_split [of a "enc_label l" ?rest buf] fit by simp
    finally show ?thesis using False fit one by simp
  qed (use 2 in simp)
qed

lemma split_on_length: "length (concat (map enc_label (filter (\<lambda>l. l \<noteq> []) (split_on c xs)))) \<le> length xs + 1"
proof -
  have "sum_list (map (\<lambda>l. length l + 1) (split_on c xs)) = length xs + 1"
    by (induction xs) (auto split: list.splits)
  moreover have "length (concat (map enc_label (filter (\<lambda>l. l \<noteq> []) ls))) \<le> sum_list (map (\<lambda>l. length l + 1) ls)" for ls
    by (induction ls) simp_all
  ultimately show ?thesis by metis
qed

lemma query_tail:
  assumes "length p = n"
  shows "take (n + 5) (put_at (n + 3) (to_be16 1) (put_at (n + 1) (to_be16 1) ((p @ [0, 0, 0, 0, 0] @ q)[n := 0]))) =
    p @ [0, 0, 1, 0, 1]"
proof -
  have "(p @ [0, 0, 0, 0, 0] @ q)[n := 0] = p @ [0, 0, 0, 0, 0] @ q"
    using assms by (simp add: list_update_append)
  then show ?thesis using assms by (simp add: put_at_def to_be16_def)
qed

lemma dns_query_eq:
  assumes "length text \<le> 63"
  shows "dns_query ident text =
    Some (to_be16 ident @ [1, 0, 0, 1, 0, 0, 0, 0, 0, 0] @ enc_name (labels text, None) @ [0, 1, 0, 1])"
proof -
  let ?l = "concat (map enc_label (labels text))" and ?h = "to_be16 ident @ [1, 0, 0, 1, 0, 0, 0, 0, 0, 0]"
  let ?b = "?h @ replicate 244 0"
  have len: "length ?l \<le> 64" using split_on_length [of 46 "text"] assms by (simp add: labels_def)
  define k where "k = 239 - length ?l"
  have k: "244 - length ?l = Suc (Suc (Suc (Suc (Suc k))))" using len by (simp add: k_def)
  have b: "put_at 4 (to_be16 1) (put_at 2 (to_be16 0x0100) (put_at 0 (to_be16 ident) (replicate 256 0))) = ?b"
  proof -
    have "replicate 256 (0 :: u8) = replicate (Suc (Suc (Suc (Suc (Suc (Suc (Suc (Suc (Suc (Suc (Suc (Suc 244)))))))))))) 0" by simp
    then show ?thesis unfolding replicate_Suc by (simp add: put_at_def to_be16_def)
  qed
  have "put_labels (split_on 46 text) 12 ?b = Some (12 + length ?l, put_at 12 ?l ?b)"
    using put_labels_eq [of 12 "split_on 46 text" ?b] len by (simp add: labels_def)
  moreover have "put_at 12 ?l ?b = (?h @ ?l) @ [0, 0, 0, 0, 0] @ replicate k 0"
    using k put_at_prefix [of ?h 12 ?l "replicate 244 0"] by simp
  moreover have "length (?h @ ?l) = 12 + length ?l" by simp
  note query_tail [OF this, of "replicate k 0"]
  ultimately show ?thesis
    unfolding dns_query_def Let_def b by (simp only: option.map prod.case) (simp add: enc_name_def)
qed

section \<open>Well-formed DHCP messages\<close>

definition enc_opt :: "u8 \<times> bytes \<Rightarrow> bytes" where
  "enc_opt x = fst x # of_nat (length (snd x)) # snd x"

definition opt_ok :: "u8 \<times> bytes \<Rightarrow> bool" where
  "opt_ok x \<longleftrightarrow> fst x \<noteq> 0 \<and> fst x \<noteq> OPT_END \<and> length (snd x) < 256"

abbreviation no_opts :: dhcp_opts where
  "no_opts \<equiv> \<lparr>o_type = 0, o_mask = None, o_router = None, o_dns = None, o_server = None, o_lease = None\<rparr>"

definition read_opts :: "(u8 \<times> bytes) list \<Rightarrow> dhcp_opts \<Rightarrow> dhcp_opts" where
  "read_opts os r = fold (\<lambda>(c, d). take_option c d) os r"

lemma u8_at_parts: "length pre = i \<Longrightarrow> u8_at (pre @ x # post) i = Some x"
  by (simp add: u8_at_def nth_append)

lemma dhcp_options_enc:
  assumes "\<forall>x \<in> set os. opt_ok x" "length pre = a"
  shows "dhcp_options (pre @ concat (map enc_opt os) @ OPT_END # post) a r = Some (read_opts os r)"
  using assms
proof (induction os arbitrary: pre a r)
  case Nil
  then show ?case by (subst dhcp_options.simps) (simp add: u8_at_parts read_opts_def)
next
  case (Cons x os)
  obtain c d where x: "x = (c, d)" by (cases x)
  let ?post = "concat (map enc_opt os) @ OPT_END # post"
  let ?msg = "pre @ concat (map enc_opt (x # os)) @ OPT_END # post"
  have m: "?msg = pre @ c # of_nat (length d) # d @ ?post" by (simp add: x enc_opt_def)
  have ok: "c \<noteq> 0" "c \<noteq> OPT_END" "length d < 256" using Cons.prems(1) by (simp_all add: x opt_ok_def)
  have len: "unat (of_nat (length d) :: u8) = length d" using ok(3) by (simp add: unat_of_nat)
  have rd: "u8_at ?msg a = Some c" "u8_at ?msg (a + 1) = Some (of_nat (length d))"
    "slice_at ?msg (a + 2) (a + 2 + length d) = Some d"
    using u8_at_parts [OF Cons.prems(2)] u8_at_parts [of "pre @ [c]" "a + 1"]
      slice_at_parts [OF refl refl, where pre = "pre @ [c, of_nat (length d)]" and xs = d and post = ?post] Cons.prems(2)
    unfolding m by simp_all
  have "dhcp_options ?msg a r = dhcp_options ?msg (a + 2 + length d) (take_option c d r)"
    using rd ok len Cons.prems(2) unfolding m by (subst dhcp_options.simps) simp
  also have "\<dots> = dhcp_options ((pre @ enc_opt x) @ ?post) (a + 2 + length d) (take_option c d r)"
    by (simp add: x enc_opt_def)
  also have "\<dots> = Some (read_opts os (take_option c d r))"
    using Cons.prems by (intro Cons.IH) (simp_all add: x enc_opt_def)
  finally show ?case by (simp add: x read_opts_def)
qed

definition dhcp_reply :: "u32 \<Rightarrow> u32 \<Rightarrow> bytes \<Rightarrow> bytes \<Rightarrow> bytes \<Rightarrow> bytes" where
  "dhcp_reply xid yiaddr a b c =
     [2] @ a @ to_be32 xid @ b @ to_be32 yiaddr @ c @ MAGIC_COOKIE"

lemma u32_at_parts: "length pre = i \<Longrightarrow> u32_at (pre @ to_be32 w @ post) i = Some w"
  using slice_at_parts [of pre i "i + 4" "to_be32 w" post]
  by (simp add: u32_at_def) (simp add: be32_at_def to_be32_def from_be32_to_be32)

text \<open>
  What the options of a message say, independent of how they are read: for a kind of option the last
  one present counts.  A lease or a message type of the wrong length is passed over; an address of the
  wrong length counts as absent.
\<close>

definition last_of :: "(u8 \<times> bytes \<Rightarrow> bool) \<Rightarrow> (u8 \<times> bytes) list \<Rightarrow> bytes option" where
  "last_of P os = (if filter P os = [] then None else Some (snd (last (filter P os))))"

definition addr_in :: "u8 \<Rightarrow> (u8 \<times> bytes) list \<Rightarrow> u32 option" where
  "addr_in c os = (case last_of (\<lambda>x. fst x = c) os of
     Some d \<Rightarrow> if length d = 4 then Some (be32_at d 0) else None
   | None \<Rightarrow> None)"

definition lease_in :: "(u8 \<times> bytes) list \<Rightarrow> u32 option" where
  "lease_in os = map_option (\<lambda>d. be32_at d 0) (last_of (\<lambda>x. fst x = 51 \<and> length (snd x) = 4) os)"

definition type_in :: "(u8 \<times> bytes) list \<Rightarrow> u8" where
  "type_in os = (case last_of (\<lambda>x. fst x = 53 \<and> length (snd x) = 1) os of Some d \<Rightarrow> d ! 0 | None \<Rightarrow> 0)"

definition or_else :: "'a option \<Rightarrow> 'a \<Rightarrow> 'a" where
  "or_else v old = (case v of Some w \<Rightarrow> w | None \<Rightarrow> old)"

lemma last_of_snoc: "last_of P (os @ [x]) = (if P x then Some (snd x) else last_of P os)"
  by (simp add: last_of_def)

lemma read_opts_values:
  "o_type (read_opts os no_opts) = type_in os"
  "map_option ip_to_u32 (o_mask (read_opts os no_opts)) = addr_in 1 os"
  "map_option ip_to_u32 (o_router (read_opts os no_opts)) = addr_in 3 os"
  "map_option ip_to_u32 (o_dns (read_opts os no_opts)) = addr_in 6 os"
  "map_option ip_to_u32 (o_server (read_opts os no_opts)) = addr_in 54 os"
  "o_lease (read_opts os no_opts) = lease_in os"
proof -
  have be: "ip_to_u32 d = be32_at d 0" for d
    by (simp add: ip_to_u32_def be32_at_def from_be32_def numeral_eq_Suc)
  note defs = type_in_def addr_in_def lease_in_def last_of_snoc read_opts_def take_option_def four_def be
  show "o_type (read_opts os no_opts) = type_in os"
    by (induction os rule: rev_induct) (auto simp: defs, simp add: last_of_def)
  show "map_option ip_to_u32 (o_mask (read_opts os no_opts)) = addr_in 1 os"
    by (induction os rule: rev_induct) (auto simp: defs, simp add: last_of_def)
  show "map_option ip_to_u32 (o_router (read_opts os no_opts)) = addr_in 3 os"
    by (induction os rule: rev_induct) (auto simp: defs, simp add: last_of_def)
  show "map_option ip_to_u32 (o_dns (read_opts os no_opts)) = addr_in 6 os"
    by (induction os rule: rev_induct) (auto simp: defs, simp add: last_of_def)
  show "map_option ip_to_u32 (o_server (read_opts os no_opts)) = addr_in 54 os"
    by (induction os rule: rev_induct) (auto simp: defs, simp add: last_of_def)
  show "o_lease (read_opts os no_opts) = lease_in os"
    by (induction os rule: rev_induct) (auto simp: defs, simp add: last_of_def)
qed

text \<open>The request on the wire: a BOOTP message of 300 bytes with four options.\<close>

definition request_msg :: "u32 \<Rightarrow> bytes option \<Rightarrow> u32 \<Rightarrow> u32 \<Rightarrow> bytes" where
  "request_msg xid mac offered server =
     [1, 1, 6, 0] @ to_be32 xid @ [0, 0, 0x80, 0] @ replicate 16 0 @ or_else mac (replicate 6 0) @ replicate 202 0 @ MAGIC_COOKIE @
     [53, 1, 3] @ [50, 4] @ to_be32 offered @ [54, 4] @ to_be32 server @ [55, 4, 1, 3, 6, 51] @ [255] @ replicate 38 0"

definition bound_by :: "u32 \<Rightarrow> (u8 \<times> bytes) list \<Rightarrow> 'c net \<Rightarrow> 'c net" where
  "bound_by yiaddr os s = s\<lparr>
     ARP := (ARP s)\<lparr>OUR_IP := yiaddr\<rparr>,
     IP := (IP s)\<lparr>IP_MASK := or_else (addr_in 1 os) (IP_MASK (IP s)), GATEWAY := or_else (addr_in 3 os) (GATEWAY (IP s))\<rparr>,
     DNS := (DNS s)\<lparr>DNS_SERVER := or_else (addr_in 6 os) (DNS_SERVER (DNS s))\<rparr>,
     DHCP := (DHCP s)\<lparr>DHCP_STATE := Bound, LEASE_SECS := or_else (lease_in os) (LEASE_SECS (DHCP s)),
       ACKS_SEEN := (ACKS_SEEN (DHCP s) + 1) mod 2 ^ 64\<rparr>\<rparr>"

definition offer_by :: "u32 \<Rightarrow> (u8 \<times> bytes) list \<Rightarrow> 'c net \<Rightarrow> 'c net" where
  "offer_by yiaddr os s = s\<lparr>
     DHCP := (DHCP s)\<lparr>OFFERS_SEEN := (OFFERS_SEEN (DHCP s) + 1) mod 2 ^ 64, OFFERED_IP := yiaddr,
       SERVER_ID := or_else (addr_in 54 os) (SERVER_ID (DHCP s)), DHCP_STATE := Requesting, DHCP_ATTEMPTS := 0,
       DHCP_LAST_SEND := TIMER_TICKS s\<rparr>\<rparr>"

lemma apply_addr:
  "apply_opt set_mask v s = s\<lparr>IP := (IP s)\<lparr>IP_MASK := or_else (map_option ip_to_u32 v) (IP_MASK (IP s))\<rparr>\<rparr>"
  "apply_opt set_gateway v s = s\<lparr>IP := (IP s)\<lparr>GATEWAY := or_else (map_option ip_to_u32 v) (GATEWAY (IP s))\<rparr>\<rparr>"
  "apply_opt set_server v s = s\<lparr>DNS := (DNS s)\<lparr>DNS_SERVER := or_else (map_option ip_to_u32 v) (DNS_SERVER (DNS s))\<rparr>\<rparr>"
  "apply_opt (\<lambda>v s. s\<lparr>DHCP := (DHCP s)\<lparr>SERVER_ID := ip_to_u32 v\<rparr>\<rparr>) v s =
     s\<lparr>DHCP := (DHCP s)\<lparr>SERVER_ID := or_else (map_option ip_to_u32 v) (SERVER_ID (DHCP s))\<rparr>\<rparr>"
  "apply_opt (\<lambda>l s. s\<lparr>DHCP := (DHCP s)\<lparr>LEASE_SECS := l\<rparr>\<rparr>) w s =
     s\<lparr>DHCP := (DHCP s)\<lparr>LEASE_SECS := or_else w (LEASE_SECS (DHCP s))\<rparr>\<rparr>"
  by (cases v; cases w; simp add: apply_opt_def or_else_def set_mask_def set_gateway_def set_server_def)+

lemma dhcp_ack_bound: "dhcp_ack yiaddr (read_opts os no_opts) s = bound_by yiaddr os s"
  by (simp add: dhcp_ack_def bound_by_def apply_addr read_opts_values Let_def set_dhcp_def set_our_ip_def u32_ip wadd64_def)

lemma base_packet_eq:
  "base_packet s = [1, 1, 6, 0] @ to_be32 (XID (DHCP s)) @ [0, 0, 0x80, 0] @ replicate 16 0 @
     or_else (nic_mac (NIC s)) (replicate 6 0) @ replicate 202 0 @ MAGIC_COOKIE @ replicate 60 0"
proof -
  let ?h = "[1, 1, 6, 0] @ to_be32 (XID (DHCP s)) @ [0, 0, 0x80, 0] @ replicate 16 (0 :: u8)"
  let ?mac = "or_else (nic_mac (NIC s)) (replicate 6 0)"
  have mac: "length ?mac = 6" by (simp add: nic_mac_def or_else_def)
  have b0: "(replicate 300 (0 :: u8))[0 := 1, 1 := 1, 2 := 6, 3 := 0] = [1, 1, 6, 0] @ replicate 296 0"
    by (simp add: list_eq_iff_nth_eq nth_list_update nth_append nth_Cons' less_Suc_eq)
  have b1: "put_at 10 (to_be16 0x8000) (put_at 8 (to_be16 0) (put_at 4 (to_be32 (XID (DHCP s))) ([1, 1, 6, 0] @ replicate 296 0))) =
      ?h @ replicate 272 0"
    by (simp add: put_at_def to_be16_def to_be32_def flip: replicate_add)
  have b2: "(case nic_mac (NIC s) of Some mac \<Rightarrow> put_at 28 mac (?h @ replicate 272 0) | None \<Rightarrow> ?h @ replicate 272 0) =
      ?h @ ?mac @ replicate 266 0"
    using mac by (cases "nic_mac (NIC s)") (simp_all add: put_at_def or_else_def flip: replicate_add)
  have b3: "put_at 236 MAGIC_COOKIE (?h @ ?mac @ replicate 266 0) = ?h @ ?mac @ replicate 202 0 @ MAGIC_COOKIE @ replicate 60 0"
    using mac by (simp add: put_at_def)
  show ?thesis unfolding base_packet_def Let_def b0 b1 b2 b3 by simp
qed

lemma push_option_eq:
  assumes "length pre = a" "2 + length d < k"
  shows "push_option code d (pre @ replicate k 0, a) =
    (pre @ (code # of_nat (length d) # d) @ replicate (k - 2 - length d) 0, a + 2 + length d)"
proof -
  obtain j where k: "k = Suc (Suc j)" using assms(2) by (cases k; cases "k - 1") auto
  show ?thesis
    using assms by (simp add: push_option_def k list_update_append put_at_def)
qed

lemma end_option: "length pre = a \<Longrightarrow> (pre @ replicate 39 0)[a := x] = pre @ x # replicate 38 0"
  by (simp add: list_update_append numeral_eq_Suc)

lemma send_request_eq:
  "send_request cd s = snd (udp_send_from cd [0, 0, 0, 0] BROADCAST SERVER_PORT CLIENT_PORT
     (request_msg (XID (DHCP s)) (nic_mac (NIC s)) (OFFERED_IP (DHCP s)) (SERVER_ID (DHCP s)))
     (s\<lparr>DHCP := (DHCP s)\<lparr>DHCP_LAST_SEND := TIMER_TICKS s\<rparr>\<rparr>))"
proof -
  define h where "h = [1, 1, 6, 0] @ to_be32 (XID (DHCP s)) @ [0, 0, 0x80, 0] @ replicate 16 0 @
     or_else (nic_mac (NIC s)) (replicate 6 0) @ replicate 202 0 @ MAGIC_COOKIE"
  have l: "length h = 240" by (simp add: h_def nic_mac_def or_else_def)
  have b: "base_packet s = h @ replicate 60 0" by (simp add: base_packet_eq h_def)
  let ?o = "h @ [53, 1, 3]"
  let ?o2 = "?o @ [50, 4] @ to_be32 (OFFERED_IP (DHCP s))"
  let ?o3 = "?o2 @ [54, 4] @ to_be32 (SERVER_ID (DHCP s))"
  have "push_option 53 [3] (base_packet s, 240) = (?o @ replicate 57 0, 243)"
    using push_option_eq [OF l, of "[3]" 60 53] by (simp add: b)
  moreover have "push_option 50 (to_be32 (OFFERED_IP (DHCP s))) (?o @ replicate 57 0, 243) = (?o2 @ replicate 51 0, 249)"
    using push_option_eq [of ?o 243 "to_be32 (OFFERED_IP (DHCP s))" 57 50] l by simp
  moreover have "push_option 54 (to_be32 (SERVER_ID (DHCP s))) (?o2 @ replicate 51 0, 249) = (?o3 @ replicate 45 0, 255)"
    using push_option_eq [of ?o2 249 "to_be32 (SERVER_ID (DHCP s))" 51 54] l by simp
  moreover have "push_option 55 [1, 3, 6, 51] (?o3 @ replicate 45 0, 255) = ((?o3 @ [55, 4, 1, 3, 6, 51]) @ replicate 39 0, 261)"
    using push_option_eq [of ?o3 255 "[1, 3, 6, 51]" 45 55] l by simp
  moreover have "length (?o3 @ [55, 4, 1, 3, 6, 51]) = 261" using l by simp
  then have "((?o3 @ [55, 4, 1, 3, 6, 51]) @ replicate 39 0)[261 := 255] =
      request_msg (XID (DHCP s)) (nic_mac (NIC s)) (OFFERED_IP (DHCP s)) (SERVER_ID (DHCP s))"
    by (simp only: end_option) (simp add: request_msg_def h_def)
  ultimately show ?thesis by (simp add: send_request_def dhcp_send_def Let_def)
qed

lemma dhcp_offer_sends:
  "dhcp_offer cd yiaddr (read_opts os no_opts) s = snd (udp_send_from cd [0, 0, 0, 0] BROADCAST SERVER_PORT CLIENT_PORT
     (request_msg (XID (DHCP s)) (nic_mac (NIC s)) yiaddr (or_else (addr_in 54 os) (SERVER_ID (DHCP s)))) (offer_by yiaddr os s))"
  by (simp add: dhcp_offer_def offer_by_def apply_addr read_opts_values Let_def set_dhcp_def send_request_eq wadd64_def)

text \<open>
  C34: a DHCP message for the current transaction, with any well-formed options in any order.  An
  acknowledgement sets our address to the one assigned, the mask, gateway and name server to those
  options 1, 3 and 6 give and the lease to that of option 51, each kept as it was when its option is
  absent, and binds.  An offer records the address offered and the server of option 54, restarts the
  attempts, and broadcasts from port 68 to port 67 the request message with this transaction, our
  hardware address, the offered address and the server.  Any other message changes nothing.  The right
  side is the whole new state, so nothing else changes.
\<close>

theorem dhcp_handle_reply:
  assumes len: "length a = 3" "length b = 8" "length c = 216" and os: "\<forall>x \<in> set os. opt_ok x"
  shows "dhcp_handle cd (dhcp_reply (XID (DHCP s)) yiaddr a b c @ concat (map enc_opt os) @ OPT_END # post) s =
    Some (if type_in os = 2 then
            snd (udp_send_from cd [0, 0, 0, 0] [255, 255, 255, 255] 67 68
              (request_msg (XID (DHCP s)) (nic_mac (NIC s)) yiaddr (or_else (addr_in 54 os) (SERVER_ID (DHCP s)))) (offer_by yiaddr os s))
          else if type_in os = 5 then bound_by yiaddr os s
          else s)"
proof -
  let ?x = "XID (DHCP s)" and ?o = "concat (map enc_opt os) @ OPT_END # post"
  let ?m = "dhcp_reply ?x yiaddr a b c @ ?o"
  have l: "length (dhcp_reply ?x yiaddr a b c) = 240" using len by (simp add: dhcp_reply_def)
  have rd: "u8_at ?m 0 = Some 2" "u32_at ?m 4 = Some ?x" "u32_at ?m 16 = Some yiaddr" "slice_at ?m 236 240 = Some MAGIC_COOKIE"
    using u32_at_parts [of "[2] @ a" 4 ?x] u32_at_parts [of "[2] @ a @ to_be32 ?x @ b" 16 yiaddr]
      slice_at_parts [OF refl refl, where pre = "[2] @ a @ to_be32 ?x @ b @ to_be32 yiaddr @ c" and xs = MAGIC_COOKIE and post = ?o] len
    by (simp_all add: dhcp_reply_def u8_at_def)
  have op: "dhcp_options ?m 240 no_opts = Some (read_opts os no_opts)"
    by (rule dhcp_options_enc [OF os l])
  have big: "\<not> length ?m < 240" using l by simp
  show ?thesis
    using big rd op by (simp add: dhcp_handle_def dhcp_ack_bound dhcp_offer_sends [where os = os] read_opts_values(1))
qed

theorem dhcp_handle_reply_witness:
  "\<exists>s'. dhcp_handle quiet_card (dhcp_reply 9 0x0A00000F [1, 6, 0] (replicate 8 0) (replicate 216 0) @
       concat (map enc_opt [(53, [5]), (3, [10, 0, 0, 1]), (6, [8, 8, 8, 8])]) @ OPT_END # []) (idle_stack\<lparr>DHCP := (DHCP idle_stack)\<lparr>XID := 9\<rparr>\<rparr>) = Some s' \<and>
     our_ip s' = [10, 0, 0, 15] \<and> gateway s' = [10, 0, 0, 1] \<and> dns_server s' = [8, 8, 8, 8] \<and> DHCP_STATE (DHCP s') = Bound"
proof -
  let ?os = "[(53, [5]), (3, [10, 0, 0, 1]), (6, [8, 8, 8, 8])] :: (u8 \<times> bytes) list"
  let ?s = "idle_stack\<lparr>DHCP := (DHCP idle_stack)\<lparr>XID := 9\<rparr>\<rparr>"
  have v: "type_in ?os = 5" "addr_in 3 ?os = Some 0x0A000001" "addr_in 6 ?os = Some 0x08080808"
    by (simp_all add: type_in_def addr_in_def last_of_def be32_at_def from_be32_def)
  have x: "XID (DHCP ?s) = 9" by (simp add: idle_stack_def)
  have "dhcp_handle quiet_card (dhcp_reply (XID (DHCP ?s)) 0x0A00000F [1, 6, 0] (replicate 8 0) (replicate 216 0) @
      concat (map enc_opt ?os) @ OPT_END # []) ?s = Some (bound_by 0x0A00000F ?os ?s)"
    by (subst dhcp_handle_reply) (simp_all add: opt_ok_def v)
  moreover have "our_ip (bound_by 0x0A00000F ?os ?s) = [10, 0, 0, 15]" "gateway (bound_by 0x0A00000F ?os ?s) = [10, 0, 0, 1]"
    "dns_server (bound_by 0x0A00000F ?os ?s) = [8, 8, 8, 8]" "DHCP_STATE (DHCP (bound_by 0x0A00000F ?os ?s)) = Bound"
    by (simp_all add: bound_by_def our_ip_def gateway_def dns_server_def v or_else_def u32_to_ip_def)
  ultimately show ?thesis unfolding x by blast
qed

end
