(* ===== verification/Net_Tcp.thy ===== *)
theory Net_Tcp
  imports Net_Udp
begin

text \<open>
  The TCP client, \<open>kernel/src/net/tcp.rs\<close>: one connection, its transmit queue of eight segments, the
  256 KiB receive ring, the segment handler and the retransmission timer.  Sequence numbers and ring
  positions are 32-bit words and wrap.
\<close>

section \<open>Receive ring\<close>

abbreviation (input) MAX_SEG :: nat where "MAX_SEG \<equiv> 1460"
abbreviation (input) RX_CAP :: nat where "RX_CAP \<equiv> 262144"
abbreviation (input) TX_SLOTS :: nat where "TX_SLOTS \<equiv> 8"

definition rx_len :: "tcb \<Rightarrow> nat" where
  "rx_len t = unat (RX_TAIL t - RX_HEAD t)"

definition window :: "tcb \<Rightarrow> u16" where
  "window t = of_nat (min (RX_CAP - rx_len t) 0xFFFF)"

text \<open>\<open>out\<close> has room for \<open>cap\<close> bytes.\<close>

definition rx_read_at :: "nat \<Rightarrow> nat \<Rightarrow> tcb \<Rightarrow> bytes" where
  "rx_read_at offset cap t =
     (let tot = rx_len t in
      if offset \<ge> tot then []
      else
        let n = min (tot - offset) cap; head = unat (RX_HEAD t) mod RX_CAP in
        map (\<lambda>i. RX_BUF t ((head + offset + i) mod RX_CAP)) [0..<n])"

definition append_rx :: "bytes \<Rightarrow> tcb \<Rightarrow> nat \<times> tcb" where
  "append_rx data t =
     (let used = rx_len t in
      if used \<ge> RX_CAP then (0, t)
      else
        let n = min (length data) (RX_CAP - used);
            tail = unat (RX_TAIL t) mod RX_CAP;
            buf = fold (\<lambda>i b. b((tail + i) mod RX_CAP := data ! i)) [0..<n] (RX_BUF t)
        in (n, t\<lparr>RX_BUF := buf, RX_TAIL := RX_TAIL t + of_nat n\<rparr>))"

definition tcp_reset :: "tcb \<Rightarrow> tcb" where
  "tcp_reset t = t\<lparr>ACTIVE := False, STATE := Closed, RX_HEAD := 0, RX_TAIL := 0, RX_TRUNCATED := False,
     PEER_CLOSED := False, TX_HEAD := 0, TX_TAIL := 0, RETRIES := 0\<rparr>"

section \<open>Segments out\<close>

definition tcp_upd :: "(tcb \<Rightarrow> tcb) \<Rightarrow> 'c net \<Rightarrow> 'c net" where
  "tcp_upd f s = s\<lparr>TCP := f (TCP s)\<rparr>"

definition tcp_segment :: "bytes \<Rightarrow> u32 \<Rightarrow> u8 \<Rightarrow> bytes \<Rightarrow> tcb \<Rightarrow> bytes" where
  "tcp_segment src seq flags payload t =
     (let dst = u32_to_ip (REMOTE_IP t);
          g = put_at 0 (to_be16 (LOCAL_PORT t)) (replicate (20 + MAX_SEG) 0);
          g = put_at 2 (to_be16 (REMOTE_PORT t)) g;
          g = put_at 4 (to_be32 seq) g;
          g = put_at 8 (to_be32 (RCV_NXT t)) g;
          g = g[12 := 0x50, 13 := flags];
          g = put_at 14 (to_be16 (window t)) g;
          g = (if length payload > 0 then put_at 20 payload g else g);
          n = 20 + length payload;
          ck = transport_checksum PROTO_TCP src dst (take n g)
      in take n (put_at 16 (to_be16 (if ck = 0 then 0xFFFF else ck)) g))"

definition emit :: "'c card \<Rightarrow> u32 \<Rightarrow> u8 \<Rightarrow> bytes \<Rightarrow> 'c net \<Rightarrow> bool \<times> 'c net" where
  "emit cd seq flags payload s =
     (let seg = tcp_segment (our_ip s) seq flags payload (TCP s);
          s = tcp_upd (\<lambda>t. t\<lparr>LAST_SEND := TIMER_TICKS s\<rparr>) s
      in ip_send cd (u32_to_ip (REMOTE_IP (TCP s))) PROTO_TCP seg s)"

definition send_ack :: "'c card \<Rightarrow> 'c net \<Rightarrow> 'c net" where
  "send_ack cd s =
     (if STATE (TCP s) \<notin> {Established, FinWait, FinSent} then s
      else snd (emit cd (SND_NXT (TCP s)) 0x10 [] s))"

definition rx_release :: "'c card \<Rightarrow> nat \<Rightarrow> 'c net \<Rightarrow> 'c net" where
  "rx_release cd n s =
     (let tot = rx_len (TCP s); n = min n tot in
      if n = 0 then s
      else
        let s' = tcp_upd (\<lambda>t. t\<lparr>RX_HEAD := RX_HEAD t + of_nat n\<rparr>) s in
        if tot \<ge> RX_CAP then send_ack cd s' else s')"

text \<open>\<open>tsc\<close> and \<open>tsc'\<close> are the two readings of the cycle counter.\<close>

definition tcp_connect :: "'c card \<Rightarrow> u64 \<Rightarrow> u64 \<Rightarrow> bytes \<Rightarrow> u16 \<Rightarrow> 'c net \<Rightarrow> bool \<times> 'c net" where
  "tcp_connect cd tsc tsc' ip port s =
     (let s = tcp_upd tcp_reset s;
          s = tcp_upd (\<lambda>t. t\<lparr>REMOTE_IP := ip_to_u32 ip, REMOTE_PORT := port\<rparr>) s;
          (p, s) = alloc_port tsc s;
          iss = word_rotl 13 (ucast tsc' :: u32) XOR (of_nat (TIMER_TICKS s) * 0x9E3779B9);
          s = tcp_upd (\<lambda>t. t\<lparr>LOCAL_PORT := p, ISS := iss, SND_UNA := iss, SND_NXT := iss + 1, RCV_NXT := 0,
                STATE := SynSent, ACTIVE := True, CONNECTS := wadd64 (CONNECTS t) 1\<rparr>) s
      in emit cd iss 0x02 [] s)"

definition queue_slot :: "u32 \<Rightarrow> nat \<Rightarrow> bool \<Rightarrow> tcb \<Rightarrow> nat \<times> tcb" where
  "queue_slot seq len fin t =
     (let slot = unat (TX_TAIL t mod 8) in
      (slot, t\<lparr>TX_SLOT_SEQ := (TX_SLOT_SEQ t)[slot := seq], TX_SLOT_LEN := (TX_SLOT_LEN t)[slot := len],
               TX_SLOT_FIN := (TX_SLOT_FIN t)[slot := fin], TX_TAIL := TX_TAIL t + 1\<rparr>))"

definition payload_of :: "nat \<Rightarrow> nat \<Rightarrow> tcb \<Rightarrow> bytes" where
  "payload_of slot len t = map (TX_BUF t) [slot * MAX_SEG ..< slot * MAX_SEG + len]"

definition emit_slot :: "'c card \<Rightarrow> u32 \<Rightarrow> 'c net \<Rightarrow> bool \<times> 'c net" where
  "emit_slot cd slot s =
     (let t = TCP s; i = unat (slot mod 8) in
      emit cd (TX_SLOT_SEQ t ! i) (0x10 OR (if TX_SLOT_FIN t ! i then 0x01 else 0)) (payload_of i (TX_SLOT_LEN t ! i) t) s)"

definition tcp_send :: "'c card \<Rightarrow> bytes \<Rightarrow> 'c net \<Rightarrow> bool \<times> 'c net" where
  "tcp_send cd data s =
     (let t = TCP s in
      if STATE t \<noteq> Established then (False, s)
      else if data = [] \<or> length data > MAX_SEG then (False, s)
      else if TX_TAIL t - TX_HEAD t \<ge> 8 then (False, s)
      else
        let seq = SND_NXT t;
            t = t\<lparr>SND_NXT := seq + of_nat (length data)\<rparr>;
            (slot, t) = queue_slot seq (length data) False t;
            a = slot * MAX_SEG;
            t = t\<lparr>TX_BUF := (\<lambda>x. if a \<le> x \<and> x < a + length data then data ! (x - a) else TX_BUF t x), RETRIES := 0\<rparr>
        in emit_slot cd (of_nat slot) (s\<lparr>TCP := t\<rparr>))"

definition tcp_close :: "'c card \<Rightarrow> 'c net \<Rightarrow> 'c net" where
  "tcp_close cd s =
     (let t = TCP s in
      if STATE t \<noteq> Established then s
      else
        let seq = SND_NXT t;
            (slot, t) = queue_slot seq 0 True (t\<lparr>SND_NXT := seq + 1\<rparr>);
            t = t\<lparr>STATE := FinWait, RETRIES := 0\<rparr>
        in snd (emit_slot cd (of_nat slot) (s\<lparr>TCP := t\<rparr>)))"

section \<open>Acknowledgements\<close>

text \<open>A queued segment occupies its payload and, for a FIN, one number more.\<close>

definition slot_span :: "tcb \<Rightarrow> nat \<Rightarrow> u32" where
  "slot_span t i = of_nat (TX_SLOT_LEN t ! i) + (if TX_SLOT_FIN t ! i then 1 else 0)"

function retire :: "tcb \<Rightarrow> u32 \<Rightarrow> u32 \<Rightarrow> u32 \<Rightarrow> u32" where
  "retire t ack head tail =
     (if head \<noteq> tail then
        let i = unat (head mod 8) in
        if ack - TX_SLOT_SEQ t ! i \<ge> slot_span t i then retire t ack (head + 1) tail else head
      else head)"
  by pat_completeness auto
termination
proof (relation "measure (\<lambda>(t, ack, head, tail). unat (tail - head))")
  fix head tail :: u32
  assume "head \<noteq> tail"
  then have "tail - head \<noteq> 0" by simp
  then have "unat (tail - head - 1) = unat (tail - head) - 1" "0 < unat (tail - head)"
    by (simp_all add: unat_minus_one unat_gt_0)
  then show "((t, ack, head + 1, tail), t, ack, head, tail) \<in> measure (\<lambda>(t, ack, head, tail). unat (tail - head))" for t ack
    by (simp add: diff_diff_eq)
qed simp

declare retire.simps [simp del]

definition ack_advance :: "u32 \<Rightarrow> tcb \<Rightarrow> tcb" where
  "ack_advance ack t =
     (let head = retire t ack (TX_HEAD t) (TX_TAIL t) in
      t\<lparr>TX_HEAD := head,
        SND_UNA := (if head = TX_TAIL t then SND_NXT t else TX_SLOT_SEQ t ! unat (head mod 8))\<rparr>)"

definition fin_acked :: "tcb \<Rightarrow> bool" where
  "fin_acked t \<longleftrightarrow> TX_HEAD t = TX_TAIL t"

section \<open>Segments in\<close>

definition take_payload :: "u32 \<Rightarrow> bytes \<Rightarrow> tcb \<Rightarrow> tcb" where
  "take_payload seq payload t =
     (if payload = [] then t
      else if seq = RCV_NXT t then
        let (n, t) = append_rx payload t;
            t = t\<lparr>RCV_NXT := RCV_NXT t + of_nat n\<rparr>
        in if n < length payload
           then t\<lparr>RCV_NXT := RCV_NXT t + of_nat (length payload - n), RX_TRUNCATED := True\<rparr>
           else t
      else t)"

definition open_segment :: "'c card \<Rightarrow> u32 \<Rightarrow> bool \<Rightarrow> bytes \<Rightarrow> 'c net \<Rightarrow> 'c net" where
  "open_segment cd seq fin payload s =
     (let s = tcp_upd (take_payload seq payload) s in
      if fin then
        let s = send_ack cd (tcp_upd (\<lambda>t. t\<lparr>PEER_CLOSED := True, RCV_NXT := RCV_NXT t + 1\<rparr>) s) in
        if STATE (TCP s) = FinWait \<or> STATE (TCP s) = FinSent
        then tcp_upd (\<lambda>t. t\<lparr>STATE := Closed, ACTIVE := False\<rparr>) s
        else tcp_upd (\<lambda>t. t\<lparr>STATE := FinSent\<rparr>) s
      else
        let s = (if payload \<noteq> [] then send_ack cd s else s) in
        if STATE (TCP s) = FinWait \<and> fin_acked (TCP s) then tcp_upd (\<lambda>t. t\<lparr>STATE := FinSent\<rparr>) s else s)"

definition by_state :: "'c card \<Rightarrow> u32 \<Rightarrow> u32 \<Rightarrow> u8 \<Rightarrow> bytes \<Rightarrow> 'c net \<Rightarrow> 'c net" where
  "by_state cd seq ack flags payload s =
     (case STATE (TCP s) of
        SynSent \<Rightarrow>
          if flags AND 0x02 \<noteq> 0 \<and> flags AND 0x10 \<noteq> 0
          then send_ack cd (tcp_upd (\<lambda>t. t\<lparr>RCV_NXT := seq + 1, SND_UNA := ack, SND_NXT := ack, STATE := Established\<rparr>) s)
          else s
      | Established \<Rightarrow> open_segment cd seq (flags AND 0x01 \<noteq> 0) payload s
      | FinWait \<Rightarrow> open_segment cd seq (flags AND 0x01 \<noteq> 0) payload s
      | FinSent \<Rightarrow> open_segment cd seq (flags AND 0x01 \<noteq> 0) payload s
      | _ \<Rightarrow> s)"

definition tcp_input :: "'c card \<Rightarrow> u32 \<Rightarrow> u32 \<Rightarrow> u8 \<Rightarrow> bytes \<Rightarrow> 'c net \<Rightarrow> 'c net" where
  "tcp_input cd seq ack flags payload s =
     (let s = tcp_upd (\<lambda>t. t\<lparr>SEGMENTS_IN := wadd64 (SEGMENTS_IN t) 1\<rparr>) s in
      if flags AND 0x04 \<noteq> 0 then tcp_upd (\<lambda>t. t\<lparr>STATE := Failed\<rparr>) s
      else if flags AND 0x10 \<noteq> 0 \<and> ack - SND_UNA (TCP s) < 0x80000000
      then by_state cd seq ack flags payload (tcp_upd (\<lambda>t. (ack_advance ack t)\<lparr>RETRIES := 0\<rparr>) s)
      else by_state cd seq ack flags payload s)"

definition tcp_handle :: "'c card \<Rightarrow> bytes \<Rightarrow> bytes \<Rightarrow> 'c net \<Rightarrow> 'c net option" where
  "tcp_handle cd src body s =
     (if \<not> ACTIVE (TCP s) \<or> length body < 20 then Some s
      else if ip_to_u32 src \<noteq> REMOTE_IP (TCP s) then Some s
      else do {
        dst_port \<leftarrow> u16_at body 2;
        if dst_port \<noteq> LOCAL_PORT (TCP s) then Some s
        else do {
          src_port \<leftarrow> u16_at body 0;
          if src_port \<noteq> REMOTE_PORT (TCP s) then Some s
          else do {
            b12 \<leftarrow> u8_at body 12;
            let data_off = unat (drop_bit 4 b12) * 4;
            if data_off < 20 \<or> length body < data_off then Some s
            else do {
              flags \<leftarrow> u8_at body 13;
              seq \<leftarrow> u32_at body 4;
              ack \<leftarrow> u32_at body 8;
              payload \<leftarrow> slice_at body data_off (length body);
              Some (tcp_input cd seq ack flags payload s)
            }
          }
        }
      })"

section \<open>The timer\<close>

text \<open>Resend the queue from \<open>i\<close> on; the flag says whether any segment went out.\<close>

function resend :: "'c card \<Rightarrow> u32 \<Rightarrow> u32 \<Rightarrow> bool \<Rightarrow> 'c net \<Rightarrow> bool \<times> 'c net" where
  "resend cd i tail sent s =
     (if i \<noteq> tail then
        let (ok, s) = emit_slot cd i s in
        if ok then resend cd (i + 1) tail True s else (sent, s)
      else (sent, s))"
  by pat_completeness auto
termination
proof (relation "measure (\<lambda>(cd, i, tail, sent, s). unat (tail - i))")
  fix i tail :: u32
  assume "i \<noteq> tail"
  then have "tail - i \<noteq> 0" by simp
  then have "unat (tail - i - 1) = unat (tail - i) - 1" "0 < unat (tail - i)"
    by (simp_all add: unat_minus_one unat_gt_0)
  then show "((cd, i + 1, tail, True, s'), cd, i, tail, sent, s) \<in> measure (\<lambda>(cd, i, tail, sent, s). unat (tail - i))"
    for cd :: "'c card" and s' sent s by (simp add: diff_diff_eq)
qed simp

declare resend.simps [simp del]

definition tcp_tick :: "'c card \<Rightarrow> 'c net \<Rightarrow> 'c net" where
  "tcp_tick cd s =
     (let t = TCP s in
      if \<not> ACTIVE t then s
      else if TIMER_TICKS s - LAST_SEND t < 100 then s
      else
        let (sent, s) =
              (if STATE t = SynSent then emit cd (ISS t) 0x02 [] s
               else if TX_HEAD t = TX_TAIL t then (False, s)
               else resend cd (TX_HEAD t) (TX_TAIL t) False s)
        in if \<not> sent then s
           else
             let n = RETRIES (TCP s) + 1; s = tcp_upd (\<lambda>t. t\<lparr>RETRIES := n\<rparr>) s in
             if n > 5 then tcp_upd (\<lambda>t. t\<lparr>STATE := Failed, ACTIVE := False\<rparr>) s
             else tcp_upd (\<lambda>t. t\<lparr>RETRANSMITS := wadd64 (RETRANSMITS t) 1\<rparr>) s)"

end
