(* ===== verification/Tcp_Stream.thy ===== *)
theory Tcp_Stream
  imports Net_Tcp Net_Wire
begin

text \<open>
  The receiving half of the TCP client of \<open>Net_Tcp\<close>: the receive ring is a bounded byte queue, also
  where its 32-bit positions wrap, and what the consumer reads is a prefix of what the peer sent,
  however segments are lost, repeated and reordered on the way.
\<close>

section \<open>The ring as a queue\<close>

definition rx_data :: "tcb \<Rightarrow> bytes" where
  "rx_data t = map (\<lambda>i. RX_BUF t ((unat (RX_HEAD t) + i) mod RX_CAP)) [0..<rx_len t]"

definition ring_ok :: "tcb \<Rightarrow> bool" where
  "ring_ok t \<longleftrightarrow> rx_len t \<le> RX_CAP"

lemma length_rx_data [simp]: "length (rx_data t) = rx_len t"
  by (simp add: rx_data_def)

lemma nth_rx_data: "i < rx_len t \<Longrightarrow> rx_data t ! i = RX_BUF t ((unat (RX_HEAD t) + i) mod RX_CAP)"
  by (simp add: rx_data_def)

lemma rx_len_less: "rx_len t < 2 ^ 32"
  using unsigned_less [of "RX_TAIL t - RX_HEAD t", where ?'a = nat] by (simp add: rx_len_def)

text \<open>The capacity divides \<open>2 ^ 32\<close>, so a position and its distance from the head agree.\<close>

lemma ring_pos: "unat (h + of_nat k :: u32) mod RX_CAP = (unat h + k) mod RX_CAP"
proof -
  have "h + of_nat k = (of_nat (unat h + k) :: u32)" by simp
  then have "unat (h + of_nat k) = (unat h + k) mod 2 ^ 32" by (simp only: unat_of_nat) simp
  moreover have "(unat h + k) mod 2 ^ 32 mod RX_CAP = (unat h + k) mod RX_CAP"
    by (rule mod_mod_cancel) simp
  ultimately show ?thesis by simp
qed

lemma tail_pos: "unat (RX_TAIL t) mod RX_CAP = (unat (RX_HEAD t) + rx_len t) mod RX_CAP"
proof -
  have "RX_TAIL t = RX_HEAD t + of_nat (rx_len t)" by (simp add: rx_len_def)
  then show ?thesis using ring_pos [of "RX_HEAD t" "rx_len t"] by simp
qed

lemma fold_ring_upd:
  assumes "n \<le> C" "0 < C"
  shows "(\<forall>i < n. fold (\<lambda>i b. b((a + i) mod C := d i)) [0..<n] f ((a + i) mod C) = d i) \<and>
    (\<forall>x. (\<forall>i < n. x \<noteq> (a + i) mod C) \<longrightarrow> fold (\<lambda>i b. b((a + i) mod C := d i)) [0..<n] f x = f x)"
  using assms(1)
proof (induction n)
  case (Suc n)
  then show ?case using mod_add_inj [of _ C n a] by (auto simp: less_Suc_eq)
qed simp

lemma rx_len_append:
  assumes "rx_len t + n < 2 ^ 32"
  shows "rx_len (t\<lparr>RX_BUF := b, RX_TAIL := RX_TAIL t + of_nat n\<rparr>) = rx_len t + n"
proof -
  have "RX_TAIL t + of_nat n - RX_HEAD t = of_nat (rx_len t + n)" by (simp add: rx_len_def)
  then show ?thesis using assms by (simp add: rx_len_def unat_of_nat del: of_nat_add)
qed

lemma append_rx_law:
  assumes "ring_ok t"
  obtains n b where "append_rx d t = (n, t\<lparr>RX_BUF := b, RX_TAIL := RX_TAIL t + of_nat n\<rparr>)"
    "n = min (length d) (RX_CAP - rx_len t)" "rx_data (snd (append_rx d t)) = rx_data t @ take n d"
    "ring_ok (snd (append_rx d t))"
proof (cases "rx_len t < RX_CAP")
  case False
  then have "append_rx d t = (0, t\<lparr>RX_BUF := RX_BUF t, RX_TAIL := RX_TAIL t + of_nat 0\<rparr>)" by (simp add: append_rx_def)
  then show ?thesis
    using assms False by (intro that [of 0 "RX_BUF t"]) (simp_all add: ring_ok_def)
next
  case True
  let ?l = "rx_len t" and ?h = "unat (RX_HEAD t)"
  let ?n = "min (length d) (RX_CAP - ?l)" and ?a = "unat (RX_TAIL t) mod RX_CAP"
  let ?b = "fold (\<lambda>i b. b((?a + i) mod RX_CAP := d ! i)) [0..<?n] (RX_BUF t)"
  let ?t = "t\<lparr>RX_BUF := ?b, RX_TAIL := RX_TAIL t + of_nat ?n\<rparr>"
  have ap: "append_rx d t = (?n, ?t)" using True by (simp add: append_rx_def Let_def)
  have len: "rx_len ?t = ?l + ?n" using True by (intro rx_len_append) simp
  have at: "(?a + i) mod RX_CAP = (?h + (?l + i)) mod RX_CAP" for i
    unfolding tail_pos by (simp add: mod_add_left_eq add.assoc)
  have upd: "\<And>i. i < ?n \<Longrightarrow> ?b ((?h + (?l + i)) mod RX_CAP) = d ! i"
    "\<And>x. (\<forall>i < ?n. x \<noteq> (?h + (?l + i)) mod RX_CAP) \<Longrightarrow> ?b x = RX_BUF t x"
    using fold_ring_upd [of ?n RX_CAP ?a "(!) d" "RX_BUF t"] unfolding at by auto
  have "rx_data ?t = rx_data t @ take ?n d"
  proof (rule nth_equalityI)
    fix j assume "j < length (rx_data ?t)"
    then have j: "j < ?l + ?n" using len by simp
    have nth: "rx_data ?t ! j = ?b ((?h + j) mod RX_CAP)" using j len by (simp add: rx_data_def)
    show "rx_data ?t ! j = (rx_data t @ take ?n d) ! j"
    proof (cases "j < ?l")
      case True
      have "?b ((?h + j) mod RX_CAP) = RX_BUF t ((?h + j) mod RX_CAP)"
        using True j by (intro upd(2)) (auto simp: mod_add_inj)
      then show ?thesis unfolding nth using True by (simp add: nth_append rx_data_def)
    next
      case False
      then have k: "j - ?l < ?n" using j by linarith
      have "?b ((?h + j) mod RX_CAP) = d ! (j - ?l)" using upd(1) [OF k] False by simp
      moreover have "take ?n d ! (j - ?l) = d ! (j - ?l)" by (rule nth_take [OF k])
      ultimately show ?thesis unfolding nth using False by (simp add: nth_append)
    qed
  qed (simp add: len)
  moreover have "ring_ok ?t" using True len by (simp add: ring_ok_def)
  ultimately show ?thesis by (intro that [of ?n ?b]) (simp_all add: ap)
qed

lemma rx_read_at_data: "rx_read_at off cap t = take cap (drop off (rx_data t))"
proof (cases "off < rx_len t")
  case True
  have "(unat (RX_HEAD t) mod RX_CAP + off + i) mod RX_CAP = (unat (RX_HEAD t) + (off + i)) mod RX_CAP" for i
    by (simp add: mod_add_left_eq add.assoc)
  then show ?thesis
    using True by (intro nth_equalityI) (auto simp: rx_read_at_def nth_rx_data Let_def)
qed (simp add: rx_read_at_def)

lemma rx_release_data:
  assumes "n \<le> rx_len t"
  shows "rx_data (t\<lparr>RX_HEAD := RX_HEAD t + of_nat n\<rparr>) = drop n (rx_data t)"
proof -
  let ?t = "t\<lparr>RX_HEAD := RX_HEAD t + of_nat n\<rparr>"
  have "RX_TAIL t - (RX_HEAD t + of_nat n) = of_nat (rx_len t - n)"
    using assms by (simp add: rx_len_def of_nat_diff)
  then have len: "rx_len ?t = rx_len t - n"
    using rx_len_less [of t] by (simp add: rx_len_def unat_of_nat del: of_nat_diff)
  have "(unat (RX_HEAD t + of_nat n) + i) mod RX_CAP = (unat (RX_HEAD t) + (n + i)) mod RX_CAP" for i
    using mod_add_left_eq [of "unat (RX_HEAD t + of_nat n)" RX_CAP i] mod_add_left_eq [of "unat (RX_HEAD t) + n" RX_CAP i]
    by (simp only: ring_pos) (simp only: add.assoc)
  then show ?thesis
    using assms len by (intro nth_equalityI) (auto simp: nth_rx_data)
qed

section \<open>Sending does not touch the receiving half\<close>

lemma nic_send_TCP [simp]: "TCP (snd (nic_send cd f s)) = TCP s"
  by (simp add: nic_send_def case_prod_unfold Let_def)

lemma arp_request_TCP [simp]: "TCP (snd (arp_request cd ip s)) = TCP s"
  by (simp add: arp_request_def case_prod_unfold Let_def split: option.split)

lemma send_ip_frame_TCP [simp]: "TCP (snd (send_ip_frame cd f s)) = TCP s"
  by (simp add: send_ip_frame_def case_prod_unfold Let_def)

lemma ip_send_TCP [simp]: "TCP (snd (ip_send cd dst proto p s)) = TCP s"
  by (simp add: ip_send_def next_ip_id_def case_prod_unfold Let_def split: option.split)

lemma emit_TCP: "TCP (snd (emit cd seq flags p s)) = (TCP s)\<lparr>LAST_SEND := TIMER_TICKS s\<rparr>"
  by (simp add: emit_def tcp_upd_def Let_def)

lemma TCP_upd [simp]: "TCP (tcp_upd f s) = f (TCP s)"
  by (simp add: tcp_upd_def)

text \<open>The receiving half of a control block, and that two blocks agree on it.\<close>

definition rx_same :: "tcb \<Rightarrow> tcb \<Rightarrow> bool" where
  "rx_same t t' \<longleftrightarrow> RX_BUF t = RX_BUF t' \<and> RX_HEAD t = RX_HEAD t' \<and> RX_TAIL t = RX_TAIL t' \<and> RX_TRUNCATED t = RX_TRUNCATED t' \<and>
     PEER_CLOSED t = PEER_CLOSED t' \<and> RCV_NXT t = RCV_NXT t' \<and> (STATE t = SynSent \<longleftrightarrow> STATE t' = SynSent)"

lemma rx_same_refl [simp]: "rx_same t t"
  by (simp add: rx_same_def)

lemma rx_same_trans: "rx_same t t' \<Longrightarrow> rx_same t' t'' \<Longrightarrow> rx_same t t''"
  by (simp add: rx_same_def)

lemma rx_same_data: "rx_same t t' \<Longrightarrow> rx_data t' = rx_data t \<and> rx_len t' = rx_len t"
  by (simp add: rx_same_def rx_data_def rx_len_def)

lemma emit_same: "rx_same (TCP s) (TCP (snd (emit cd seq flags p s)))"
  by (simp add: emit_TCP rx_same_def)

lemma emit_slot_same: "rx_same (TCP s) (TCP (snd (emit_slot cd i s)))"
  by (simp add: emit_slot_def Let_def emit_same)

lemma send_ack_same: "rx_same (TCP s) (TCP (send_ack cd s))"
  by (simp add: send_ack_def emit_same)

lemma send_ack_STATE [simp]: "STATE (TCP (send_ack cd s)) = STATE (TCP s)"
  by (simp add: send_ack_def emit_TCP)

lemma tcp_send_same: "rx_same (TCP s) (TCP (snd (tcp_send cd d s)))"
proof -
  have "rx_same (TCP s) t \<Longrightarrow> rx_same (TCP s) (TCP (snd (emit_slot cd i (s\<lparr>TCP := t\<rparr>))))" for t i
    using emit_slot_same [of "s\<lparr>TCP := t\<rparr>" cd i] rx_same_trans by fastforce
  then show ?thesis
    by (auto simp: tcp_send_def Let_def queue_slot_def rx_same_def)
qed

lemma tcp_close_same: "rx_same (TCP s) (TCP (tcp_close cd s))"
proof -
  have "rx_same (TCP s) t \<Longrightarrow> rx_same (TCP s) (TCP (snd (emit_slot cd i (s\<lparr>TCP := t\<rparr>))))" for t i
    using emit_slot_same [of "s\<lparr>TCP := t\<rparr>" cd i] rx_same_trans by fastforce
  then show ?thesis
    by (auto simp: tcp_close_def Let_def queue_slot_def rx_same_def)
qed

lemma resend_same: "rx_same (TCP s) (TCP (snd (resend cd i tail sent s)))"
proof (induction cd i tail sent s rule: resend.induct)
  case (1 cd i tail sent s)
  obtain ok s' where e: "emit_slot cd i s = (ok, s')" by fastforce
  have "rx_same (TCP s) (TCP s')" using emit_slot_same [of s cd i] e by simp
  then show ?case
    using 1 [OF _ e [symmetric] refl] e rx_same_trans by (auto simp: resend.simps [of cd i tail sent s])
qed

lemma tcp_tick_same: "STATE (TCP s) \<noteq> SynSent \<Longrightarrow> rx_same (TCP s) (TCP (tcp_tick cd s))"
  using resend_same [of s cd "TX_HEAD (TCP s)" "TX_TAIL (TCP s)" False]
  by (auto simp: tcp_tick_def case_prod_unfold Let_def rx_same_def)

section \<open>In-order delivery\<close>

text \<open>
  The peer sends the byte stream \<open>D\<close>, its first byte under sequence number \<open>irs + 1\<close>.  A segment is a
  piece of that stream under the number of its first byte.
\<close>

definition piece_of :: "bytes \<Rightarrow> u32 \<Rightarrow> u32 \<Rightarrow> bytes \<Rightarrow> bool" where
  "piece_of D irs seq payload \<longleftrightarrow>
     (\<exists>off. off + length payload \<le> length D \<and> seq = irs + 1 + of_nat off \<and> payload = take (length payload) (drop off D))"

text \<open>
  \<open>got\<close> is what the consumer has released.  Until the peer's FIN or an overflow of the ring has been
  noted, it continues with the ring as a prefix of the stream, and \<open>RCV_NXT\<close> numbers the next byte.
\<close>

definition stream_inv :: "bytes \<Rightarrow> u32 \<Rightarrow> bytes \<Rightarrow> tcb \<Rightarrow> bool" where
  "stream_inv D irs got t \<longleftrightarrow> ring_ok t \<and> STATE t \<noteq> SynSent \<and>
     (\<not> RX_TRUNCATED t \<and> \<not> PEER_CLOSED t \<longrightarrow>
        (\<exists>k \<le> length D. got @ rx_data t = take k D \<and> RCV_NXT t = irs + 1 + of_nat k))"

lemma stream_inv_same: "rx_same t t' \<Longrightarrow> stream_inv D irs got t \<Longrightarrow> stream_inv D irs got t'"
  using rx_same_data [of t t'] by (auto simp: stream_inv_def rx_same_def ring_ok_def)

lemma of_nat_inj32:
  assumes "a < 2 ^ 32" "b < 2 ^ 32"
  shows "(of_nat a :: u32) = of_nat b \<longleftrightarrow> a = b"
proof
  assume "(of_nat a :: u32) = of_nat b"
  then have "unat (of_nat a :: u32) = unat (of_nat b :: u32)" by (rule arg_cong)
  with assms show "a = b" by (simp add: unat_of_nat)
qed simp

lemma take_payload_inv:
  assumes inv: "stream_inv D irs got t" and D: "length D < 2 ^ 32" and p: "piece_of D irs seq payload"
  shows "stream_inv D irs got (take_payload seq payload t)"
proof (cases "payload = [] \<or> seq \<noteq> RCV_NXT t")
  case True
  with inv show ?thesis by (auto simp: take_payload_def)
next
  case False
  have ok: "ring_ok t" using inv by (simp add: stream_inv_def)
  obtain n b where ap: "append_rx payload t = (n, t\<lparr>RX_BUF := b, RX_TAIL := RX_TAIL t + of_nat n\<rparr>)"
    and n: "n = min (length payload) (RX_CAP - rx_len t)"
    and data: "rx_data (snd (append_rx payload t)) = rx_data t @ take n payload" and ok': "ring_ok (snd (append_rx payload t))"
    by (rule append_rx_law [OF ok])
  let ?t = "take_payload seq payload t" and ?t1 = "t\<lparr>RX_BUF := b, RX_TAIL := RX_TAIL t + of_nat n\<rparr>"
  have t: "?t = (if n < length payload then ?t1\<lparr>RCV_NXT := RCV_NXT t + of_nat n + of_nat (length payload - n), RX_TRUNCATED := True\<rparr>
      else ?t1\<lparr>RCV_NXT := RCV_NXT t + of_nat n\<rparr>)"
    using False ap by (simp add: take_payload_def)
  have len: "rx_len ?t = rx_len ?t1" "rx_data ?t = rx_data ?t1"
    unfolding t by (simp_all add: rx_len_def rx_data_def)
  have rx: "ring_ok ?t" using ok' ap len by (simp add: ring_ok_def)
  have "\<exists>k \<le> length D. got @ rx_data ?t = take k D \<and> RCV_NXT ?t = irs + 1 + of_nat k"
    if clean: "\<not> RX_TRUNCATED ?t" "\<not> PEER_CLOSED ?t"
  proof -
    have full: "n = length payload" "\<not> RX_TRUNCATED t" "\<not> PEER_CLOSED t"
      using clean n unfolding t by (auto split: if_splits)
    obtain k where k: "k \<le> length D" "got @ rx_data t = take k D" "RCV_NXT t = irs + 1 + of_nat k"
      using inv full by (auto simp: stream_inv_def)
    obtain off where off: "off + length payload \<le> length D" "seq = irs + 1 + of_nat off"
      "payload = take (length payload) (drop off D)"
      using p by (auto simp: piece_of_def)
    have "off = k" using False off(1,2) k(1,3) D of_nat_inj32 [of off k] by simp
    then have "got @ rx_data ?t = take (k + length payload) D"
      using k(2) off(3) data ap full(1) len(2) by (simp add: take_add)
    moreover have "RCV_NXT ?t = irs + 1 + of_nat (k + length payload)"
      using k(3) full(1) unfolding t by (simp add: add.assoc)
    ultimately show ?thesis using off(1) \<open>off = k\<close> by (intro exI [of _ "k + length payload"]) simp
  qed
  moreover have "STATE ?t \<noteq> SynSent" using inv unfolding t by (simp add: stream_inv_def)
  ultimately show ?thesis using rx by (simp add: stream_inv_def)
qed

text \<open>Changes that only close, or that only touch the sending half, keep the invariant.\<close>

lemma stream_inv_close:
  assumes "stream_inv D irs got t" "RX_BUF t' = RX_BUF t" "RX_HEAD t' = RX_HEAD t" "RX_TAIL t' = RX_TAIL t"
    "STATE t' \<noteq> SynSent" "PEER_CLOSED t'"
  shows "stream_inv D irs got t'"
  using assms by (simp add: stream_inv_def ring_ok_def rx_len_def)

lemma open_segment_inv:
  assumes "stream_inv D irs got (TCP s)" "length D < 2 ^ 32" "piece_of D irs seq payload"
  shows "stream_inv D irs got (TCP (open_segment cd seq fin payload s))"
proof -
  let ?s = "tcp_upd (take_payload seq payload) s"
  have inv: "stream_inv D irs got (TCP ?s)" using take_payload_inv [OF assms] by simp
  show ?thesis
  proof (cases fin)
    case True
    let ?s1 = "tcp_upd (\<lambda>t. t\<lparr>PEER_CLOSED := True, RCV_NXT := RCV_NXT t + 1\<rparr>) ?s"
    have "stream_inv D irs got (TCP ?s1)"
      using inv by (rule stream_inv_close) (use inv in \<open>simp_all add: stream_inv_def\<close>)
    then have "stream_inv D irs got (TCP (send_ack cd ?s1))" by (rule stream_inv_same [OF send_ack_same])
    moreover have "PEER_CLOSED (TCP (send_ack cd ?s1))" using send_ack_same [of ?s1 cd] by (simp add: rx_same_def)
    ultimately show ?thesis
      using True by (auto simp: open_segment_def Let_def intro!: stream_inv_close [of D irs got "TCP (send_ack cd ?s1)"])
  next
    case False
    have "stream_inv D irs got (TCP (send_ack cd ?s))" by (rule stream_inv_same [OF send_ack_same inv])
    then have inv2: "stream_inv D irs got (TCP (if payload \<noteq> [] then send_ack cd ?s else ?s))" (is "stream_inv D irs got (TCP ?s2)")
      using inv by (cases "payload = []") simp_all
    have "stream_inv D irs got ((TCP ?s2)\<lparr>STATE := FinSent\<rparr>)" if "STATE (TCP ?s2) = FinWait"
      using that by (intro stream_inv_same [OF _ inv2]) (simp add: rx_same_def)
    with inv2 show ?thesis
      using False by (simp add: open_segment_def Let_def)
  qed
qed

lemma ack_advance_same: "rx_same t ((ack_advance ack t)\<lparr>RETRIES := 0\<rparr>)"
  by (simp add: ack_advance_def rx_same_def Let_def)

lemma tcp_input_inv:
  assumes inv: "stream_inv D irs got (TCP s)" and D: "length D < 2 ^ 32" "piece_of D irs seq payload"
  shows "stream_inv D irs got (TCP (tcp_input cd seq ack flags payload s))"
proof -
  let ?s = "tcp_upd (\<lambda>t. t\<lparr>SEGMENTS_IN := wadd64 (SEGMENTS_IN t) 1\<rparr>) s"
  let ?a = "tcp_upd (\<lambda>t. (ack_advance ack t)\<lparr>RETRIES := 0\<rparr>) ?s"
  have inv1: "stream_inv D irs got (TCP ?s)" by (rule stream_inv_same [OF _ inv]) (simp add: rx_same_def)
  have inv2: "stream_inv D irs got (TCP ?a)" using stream_inv_same [OF ack_advance_same inv1] by simp
  have rst: "stream_inv D irs got ((TCP ?s)\<lparr>STATE := Failed\<rparr>)"
    using inv1 by (simp add: stream_inv_def ring_ok_def rx_len_def rx_data_def)
  have step: "stream_inv D irs got (TCP (by_state cd seq ack flags payload x))" if "stream_inv D irs got (TCP x)" for x
    using that open_segment_inv [OF that D] by (cases "STATE (TCP x)") (simp_all add: by_state_def stream_inv_def)
  show ?thesis
    using rst step [OF inv1] step [OF inv2] by (simp add: tcp_input_def Let_def)
qed

text \<open>The common part of the handler only touches the sending half; a segment that fits and is next is taken whole.\<close>

lemma tcp_input_by_state:
  assumes "flags AND 0x04 = 0"
  obtains x where "tcp_input cd seq ack flags p s = by_state cd seq ack flags p x" "rx_same (TCP s) (TCP x)" "STATE (TCP x) = STATE (TCP s)"
proof -
  let ?s = "tcp_upd (\<lambda>t. t\<lparr>SEGMENTS_IN := wadd64 (SEGMENTS_IN t) 1\<rparr>) s"
  let ?a = "tcp_upd (\<lambda>t. (ack_advance ack t)\<lparr>RETRIES := 0\<rparr>) ?s"
  let ?x = "if flags AND 0x10 \<noteq> 0 \<and> ack - SND_UNA (TCP s) < 0x80000000 then ?a else ?s"
  have "tcp_input cd seq ack flags p s = by_state cd seq ack flags p ?x"
    using assms by (simp add: tcp_input_def Let_def)
  moreover have "rx_same (TCP s) (TCP ?x)" "STATE (TCP ?x) = STATE (TCP s)"
    by (simp_all add: rx_same_def ack_advance_def Let_def)
  ultimately show ?thesis by (rule that)
qed

lemma tcp_input_in_order:
  assumes st: "STATE (TCP s) \<in> {Established, FinWait, FinSent}" and ok: "ring_ok (TCP s)" and p: "p \<noteq> []"
    and fit: "length p \<le> RX_CAP - rx_len (TCP s)"
  shows "rx_data (TCP (tcp_input cd (RCV_NXT (TCP s)) ack 0x10 p s)) = rx_data (TCP s) @ p"
proof -
  obtain x where x: "tcp_input cd (RCV_NXT (TCP s)) ack 0x10 p s = by_state cd (RCV_NXT (TCP s)) ack 0x10 p x"
    "rx_same (TCP s) (TCP x)" "STATE (TCP x) = STATE (TCP s)"
    using tcp_input_by_state [of "0x10" cd "RCV_NXT (TCP s)" ack p s] by auto
  have rx: "RCV_NXT (TCP x) = RCV_NXT (TCP s)" "ring_ok (TCP x)" "rx_len (TCP x) = rx_len (TCP s)" "rx_data (TCP x) = rx_data (TCP s)"
    using x(2) ok rx_same_data [OF x(2)] by (auto simp: rx_same_def ring_ok_def)
  let ?y = "tcp_upd (take_payload (RCV_NXT (TCP s)) p) x"
  obtain n b where ap: "append_rx p (TCP x) = (n, (TCP x)\<lparr>RX_BUF := b, RX_TAIL := RX_TAIL (TCP x) + of_nat n\<rparr>)"
    and n: "n = min (length p) (RX_CAP - rx_len (TCP x))" and d: "rx_data (snd (append_rx p (TCP x))) = rx_data (TCP x) @ take n p"
    by (rule append_rx_law [OF rx(2)])
  have "n = length p" using n fit rx(3) by simp
  then have y: "rx_data (TCP ?y) = rx_data (TCP s) @ p"
    using ap d p rx by (simp add: take_payload_def) (simp add: rx_data_def rx_len_def)
  have "open_segment cd (RCV_NXT (TCP s)) False p x =
      (let z = send_ack cd ?y in if STATE (TCP z) = FinWait \<and> fin_acked (TCP z) then tcp_upd (\<lambda>t. t\<lparr>STATE := FinSent\<rparr>) z else z)"
    using p by (simp add: open_segment_def Let_def)
  moreover have "rx_data ((TCP (send_ack cd ?y))\<lparr>STATE := FinSent\<rparr>) = rx_data (TCP ?y)" "rx_data (TCP (send_ack cd ?y)) = rx_data (TCP ?y)"
    using send_ack_same [of ?y cd] by (simp_all add: rx_same_def rx_data_def rx_len_def)
  ultimately have "rx_data (TCP (open_segment cd (RCV_NXT (TCP s)) False p x)) = rx_data (TCP s) @ p"
    using y by (simp add: Let_def)
  moreover have "by_state cd (RCV_NXT (TCP s)) ack 0x10 p x = open_segment cd (RCV_NXT (TCP s)) False p x"
    using st x(3) by (auto simp: by_state_def)
  ultimately show ?thesis using x(1) by simp
qed

lemma rx_release_inv:
  assumes "stream_inv D irs got (TCP s)"
  shows "stream_inv D irs (got @ rx_read_at 0 n (TCP s)) (TCP (rx_release cd n s))"
proof (cases "min n (rx_len (TCP s)) = 0")
  case True
  then have "n = 0 \<or> rx_data (TCP s) = []"
    unfolding length_0_conv [symmetric] by (simp add: min_def split: if_splits)
  then have "rx_read_at 0 n (TCP s) = []" by (auto simp: rx_read_at_data)
  with True assms show ?thesis by (simp add: rx_release_def Let_def)
next
  case False
  let ?k = "min n (rx_len (TCP s))" and ?t = "TCP s"
  let ?t1 = "?t\<lparr>RX_HEAD := RX_HEAD ?t + of_nat (min n (rx_len ?t))\<rparr>"
  let ?s1 = "tcp_upd (\<lambda>t. t\<lparr>RX_HEAD := RX_HEAD t + of_nat (min n (rx_len (TCP s)))\<rparr>) s"
  have d: "rx_data ?t1 = drop ?k (rx_data ?t)" by (rule rx_release_data) simp
  have rd: "rx_read_at 0 n ?t = take ?k (rx_data ?t)" by (simp add: rx_read_at_data min_def)
  have "rx_len ?t1 \<le> rx_len ?t" using arg_cong [OF d, of length] by simp
  then have "stream_inv D irs (got @ rx_read_at 0 n ?t) ?t1"
    using assms unfolding stream_inv_def ring_ok_def d rd by simp
  then have inv: "stream_inv D irs (got @ rx_read_at 0 n ?t) (TCP ?s1)" by simp
  have "rx_release cd n s = (if rx_len ?t \<ge> RX_CAP then send_ack cd ?s1 else ?s1)"
    unfolding rx_release_def Let_def using False by (simp only: if_False)
  then show ?thesis
    using inv stream_inv_same [OF send_ack_same inv] by simp
qed

section \<open>Runs\<close>

text \<open>
  What can happen to the connection: a segment of the peer arrives (with any flags and acknowledgement
  number, in any order, any number of times), the consumer reads and releases, the client sends, closes
  or ticks, or something happens elsewhere in the kernel.
\<close>

inductive tcp_step :: "'c card \<Rightarrow> bytes \<Rightarrow> u32 \<Rightarrow> bytes \<times> 'c net \<Rightarrow> bytes \<times> 'c net \<Rightarrow> bool" for cd D irs where
  segment: "piece_of D irs seq payload \<Longrightarrow> tcp_step cd D irs (got, s) (got, tcp_input cd seq ack flags payload s)"
| consume: "tcp_step cd D irs (got, s) (got @ rx_read_at 0 n (TCP s), rx_release cd n s)"
| send: "tcp_step cd D irs (got, s) (got, snd (tcp_send cd d s))"
| close: "tcp_step cd D irs (got, s) (got, tcp_close cd s)"
| tick: "tcp_step cd D irs (got, s) (got, tcp_tick cd s)"
| other: "TCP s' = TCP s \<Longrightarrow> tcp_step cd D irs (got, s) (got, s')"

lemma tcp_step_inv:
  assumes "tcp_step cd D irs x y" "length D < 2 ^ 32" "stream_inv D irs (fst x) (TCP (snd x))"
  shows "stream_inv D irs (fst y) (TCP (snd y))"
  using assms
proof (induction rule: tcp_step.induct)
  case (segment seq payload got s ack flags)
  then show ?case by (simp add: tcp_input_inv)
next
  case (tick got s)
  then have "STATE (TCP s) \<noteq> SynSent" by (simp add: stream_inv_def)
  from stream_inv_same [OF tcp_tick_same [OF this]] tick show ?case by simp
qed (simp_all add: rx_release_inv stream_inv_same [OF tcp_send_same] stream_inv_same [OF tcp_close_same])

lemma tcp_run_inv:
  assumes "(tcp_step cd D irs)\<^sup>*\<^sup>* x y" "length D < 2 ^ 32" "stream_inv D irs (fst x) (TCP (snd x))"
  shows "stream_inv D irs (fst y) (TCP (snd y))"
  using assms by (induction rule: rtranclp_induct) (auto dest: tcp_step_inv)

definition fresh_stream :: "u32 \<Rightarrow> tcb \<Rightarrow> bool" where
  "fresh_stream irs t \<longleftrightarrow> STATE t = Established \<and> RX_HEAD t = RX_TAIL t \<and> \<not> RX_TRUNCATED t \<and> \<not> PEER_CLOSED t \<and> RCV_NXT t = irs + 1"

lemma fresh_stream_inv: "fresh_stream irs t \<Longrightarrow> stream_inv D irs [] t"
  by (auto simp: fresh_stream_def stream_inv_def ring_ok_def rx_len_def rx_data_def intro!: exI [of _ "0 :: nat"])

text \<open>The state of the witnesses: a connection just established.\<close>

definition sample_tcb :: tcb where
  "sample_tcb = \<lparr>ACTIVE = True, STATE = Established, REMOTE_IP = 0x0A000002, REMOTE_PORT = 80, LOCAL_PORT = 0xC001,
     SND_UNA = 1, SND_NXT = 1, RCV_NXT = 0xFFFFFFFF, LAST_SEND = 0, RETRIES = 0, ISS = 0, TX_BUF = (\<lambda>_. 0),
     TX_SLOT_SEQ = replicate 8 0, TX_SLOT_LEN = replicate 8 0, TX_SLOT_FIN = replicate 8 False, TX_HEAD = 0, TX_TAIL = 0,
     RX_BUF = (\<lambda>_. 0), RX_HEAD = 0, RX_TAIL = 0, RX_TRUNCATED = False, PEER_CLOSED = False,
     CONNECTS = 1, SEGMENTS_IN = 0, RETRANSMITS = 0\<rparr>"

definition sample_net :: "unit net" where
  "sample_net = idle_stack\<lparr>TCP := sample_tcb\<rparr>"

lemma sample_emit: "\<not> NIC_PRESENT (NIC s) \<Longrightarrow> emit cd seq flags p s = (False, tcp_upd (\<lambda>t. t\<lparr>LAST_SEND := TIMER_TICKS s\<rparr>) s)"
  by (simp add: emit_def ip_send_def nic_mac_def tcp_upd_def Let_def)

section \<open>Properties\<close>

text \<open>
  C23: from a fresh connection, whatever the network does to the segments of a stream of fewer than
  \<open>2 ^ 32\<close> bytes, and however reads, sends, timer ticks and the rest of the kernel are interleaved,
  what the consumer has read followed by what is in the receive ring is a prefix of the stream, until
  the peer's FIN or an overflow of the ring is noted; and the next byte expected is the next byte of
  the stream.  The 32-bit ring positions and sequence numbers may wrap.
\<close>

theorem tcp_stream_prefix:
  assumes "fresh_stream irs (TCP s)" "length D < 2 ^ 32" "(tcp_step cd D irs)\<^sup>*\<^sup>* ([], s) (got, s')"
    "\<not> RX_TRUNCATED (TCP s')" "\<not> PEER_CLOSED (TCP s')"
  shows "\<exists>k \<le> length D. got @ rx_data (TCP s') = take k D \<and> RCV_NXT (TCP s') = irs + 1 + of_nat k"
  using tcp_run_inv [OF assms(3,2)] fresh_stream_inv [OF assms(1)] assms(4,5) by (simp add: stream_inv_def)

theorem tcp_stream_prefix_witness:
  "\<exists>s' k. s' = tcp_input quiet_card 0xFFFFFFFF 1 0x10 [1, 2] (tcp_input quiet_card 0 1 0x10 [2, 3] sample_net) \<and>
     k \<le> 3 \<and> rx_data (TCP s') = take k [1, 2, 3] \<and> RCV_NXT (TCP s') = 0xFFFFFFFE + 1 + of_nat k"
proof -
  let ?s1 = "tcp_input quiet_card 0 1 0x10 [2, 3] sample_net"
  let ?s2 = "tcp_input quiet_card 0xFFFFFFFF 1 0x10 [1, 2] ?s1"
  have "piece_of [1, 2, 3] 0xFFFFFFFE 0 [2, 3]" by (auto simp: piece_of_def intro!: exI [of _ "1 :: nat"])
  then have a: "tcp_step quiet_card [1, 2, 3] 0xFFFFFFFE ([], sample_net) ([], ?s1)" by (rule segment)
  have "piece_of [1, 2, 3] 0xFFFFFFFE 0xFFFFFFFF [1, 2]" by (auto simp: piece_of_def intro!: exI [of _ "0 :: nat"])
  then have b: "tcp_step quiet_card [1, 2, 3] 0xFFFFFFFE ([], ?s1) ([], ?s2)" by (rule segment)
  have fresh: "fresh_stream 0xFFFFFFFE (TCP sample_net)" by (simp add: fresh_stream_def sample_net_def idle_stack_def sample_tcb_def)
  have clean: "\<not> RX_TRUNCATED (TCP ?s2)" "\<not> PEER_CLOSED (TCP ?s2)"
    by (simp_all add: tcp_input_def Let_def by_state_def open_segment_def take_payload_def append_rx_def rx_len_def send_ack_def
        sample_emit ack_advance_def retire.simps sample_net_def idle_stack_def sample_tcb_def tcp_upd_def)
  have run: "(tcp_step quiet_card [1, 2, 3] 0xFFFFFFFE)\<^sup>*\<^sup>* ([], sample_net) ([], ?s2)"
    by (rule converse_rtranclp_into_rtranclp, rule a, rule converse_rtranclp_into_rtranclp, rule b, rule rtranclp.rtrancl_refl)
  from tcp_stream_prefix [OF fresh _ run clean] show ?thesis by (simp add: numeral_3_eq_3)
qed

text \<open>
  C35: a FIN is not checked against the expected sequence number.  On an established connection a FIN
  that arrives early, under any number, advances the expected number by one, so that a segment that
  starts one byte later than the data received so far is then taken as its continuation: the stream
  read by the consumer misses a byte.
\<close>

theorem tcp_fin_skips_byte:
  assumes "STATE (TCP s) = Established" "ring_ok (TCP s)" "p \<noteq> []" "length p \<le> RX_CAP - rx_len (TCP s)"
  shows "rx_data (TCP (tcp_input cd (RCV_NXT (TCP s) + 1) a' 0x10 p (tcp_input cd q a 0x11 [] s))) = rx_data (TCP s) @ p"
proof -
  obtain x where x: "tcp_input cd q a 0x11 [] s = by_state cd q a 0x11 [] x" "rx_same (TCP s) (TCP x)" "STATE (TCP x) = Established"
    using tcp_input_by_state [of "0x11" cd q a "[]" s] assms(1) by auto
  let ?x1 = "tcp_upd (\<lambda>t. t\<lparr>PEER_CLOSED := True, RCV_NXT := RCV_NXT t + 1\<rparr>) x"
  let ?s1 = "tcp_upd (\<lambda>t. t\<lparr>STATE := FinSent\<rparr>) (send_ack cd ?x1)"
  have fin: "tcp_input cd q a 0x11 [] s = ?s1"
    using x by (simp add: by_state_def open_segment_def take_payload_def Let_def tcp_upd_def)
  have same: "rx_same (TCP ?x1) (TCP (send_ack cd ?x1))" by (rule send_ack_same)
  have s1: "RCV_NXT (TCP ?s1) = RCV_NXT (TCP s) + 1" "rx_data (TCP ?s1) = rx_data (TCP s)" "rx_len (TCP ?s1) = rx_len (TCP s)" "STATE (TCP ?s1) = FinSent"
    using same x(2) by (simp_all add: rx_same_def rx_data_def rx_len_def)
  have "rx_data (TCP (tcp_input cd (RCV_NXT (TCP ?s1)) a' 0x10 p ?s1)) = rx_data (TCP ?s1) @ p"
    using assms s1 by (intro tcp_input_in_order) (auto simp: ring_ok_def)
  then show ?thesis unfolding fin using s1 by simp
qed

theorem tcp_fin_skips_byte_witness:
  "rx_data (TCP (tcp_input quiet_card 0 1 0x10 [2, 3] (tcp_input quiet_card 2 1 0x11 [] sample_net))) = [2, 3]"
proof -
  have s: "RCV_NXT (TCP sample_net) + 1 = 0" "rx_data (TCP sample_net) = []" "STATE (TCP sample_net) = Established"
    "ring_ok (TCP sample_net)" "rx_len (TCP sample_net) = 0"
    by (simp_all add: sample_net_def idle_stack_def sample_tcb_def rx_data_def rx_len_def ring_ok_def)
  show ?thesis
    using tcp_fin_skips_byte [of sample_net "[2, 3]" quiet_card 1 2 1] by (simp add: s)
qed

text \<open>
  A probe of a closed window loses its byte.  When the receive ring is full the advertised window
  is zero and a peer probes it with the next byte of its stream; the handler drops the byte but counts
  it as received and acknowledges it, so that the peer never sends it again.
\<close>

theorem tcp_probe_lost:
  assumes "STATE (TCP s) = Established" "rx_len (TCP s) = RX_CAP"
  shows "window (TCP s) = 0 \<and> rx_data (TCP (tcp_input cd (RCV_NXT (TCP s)) a 0x10 [x] s)) = rx_data (TCP s) \<and>
    RCV_NXT (TCP (tcp_input cd (RCV_NXT (TCP s)) a 0x10 [x] s)) = RCV_NXT (TCP s) + 1"
proof -
  let ?q = "RCV_NXT (TCP s)"
  obtain y where y: "tcp_input cd ?q a 0x10 [x] s = by_state cd ?q a 0x10 [x] y" "rx_same (TCP s) (TCP y)" "STATE (TCP y) = Established"
    using tcp_input_by_state [of "0x10" cd ?q a "[x]" s] assms(1) by auto
  let ?z = "tcp_upd (take_payload ?q [x]) y"
  have full: "rx_len (TCP y) = RX_CAP" "RCV_NXT (TCP y) = ?q" "rx_data (TCP y) = rx_data (TCP s)"
    using y(2) assms(2) rx_same_data [OF y(2)] by (simp_all add: rx_same_def)
  then have z: "TCP ?z = (TCP y)\<lparr>RCV_NXT := ?q + 1, RX_TRUNCATED := True\<rparr>"
    by (simp add: take_payload_def append_rx_def)
  have "tcp_input cd ?q a 0x10 [x] s = send_ack cd ?z"
    using y z by (simp add: by_state_def open_segment_def Let_def)
  moreover have "rx_same (TCP ?z) (TCP (send_ack cd ?z))" by (rule send_ack_same)
  ultimately show ?thesis
    using z full assms(2) rx_same_data [of "TCP ?z" "TCP (send_ack cd ?z)"]
    by (simp add: rx_same_def window_def rx_data_def rx_len_def)
qed

theorem tcp_probe_lost_witness:
  "\<exists>s. window (TCP s) = 0 \<and> RCV_NXT (TCP (tcp_input quiet_card (RCV_NXT (TCP s)) 1 0x10 [7] s)) = RCV_NXT (TCP s) + 1"
proof -
  let ?s = "sample_net\<lparr>TCP := sample_tcb\<lparr>RX_TAIL := 262144\<rparr>\<rparr>"
  have "STATE (TCP ?s) = Established" "rx_len (TCP ?s) = RX_CAP" by (simp_all add: sample_tcb_def rx_len_def)
  from tcp_probe_lost [OF this, of quiet_card 1 7] show ?thesis by blast
qed

end
