(* ===== verification/Tcp_Queue.thy ===== *)
theory Tcp_Queue
  imports Tcp_Stream
begin

text \<open>
  The sending half of \<open>net/tcp.rs\<close>.  The eight transmit slots between \<open>TX_HEAD\<close> and \<open>TX_TAIL\<close> are a
  queue of segments; \<open>tcp_send\<close> and \<open>tcp_close\<close> append to it, an acknowledgement drops the segments it
  covers, the timer leaves it alone.  The main result is retention: what the peer has not acknowledged
  is still queued, in order and under its sequence numbers.
\<close>

section \<open>The slots as a queue\<close>

text \<open>A segment is its sequence number and the octets it occupies; a FIN is the octet \<open>None\<close>.\<close>

type_synonym segment = "u32 \<times> u8 option list"

definition seg_at :: "tcb \<Rightarrow> u32 \<Rightarrow> segment" where
  "seg_at t h = (let i = unat (h mod 8) in
     (TX_SLOT_SEQ t ! i, map Some (payload_of i (TX_SLOT_LEN t ! i) t) @ (if TX_SLOT_FIN t ! i then [None] else [])))"

definition segs_from :: "tcb \<Rightarrow> u32 \<Rightarrow> u32 \<Rightarrow> segment list" where
  "segs_from t h e = map (\<lambda>k. seg_at t (h + of_nat k)) [0..<unat (e - h)]"

definition txq :: "tcb \<Rightarrow> segment list" where
  "txq t = segs_from t (TX_HEAD t) (TX_TAIL t)"

definition slots_ok :: "tcb \<Rightarrow> bool" where
  "slots_ok t \<longleftrightarrow> length (TX_SLOT_SEQ t) = 8 \<and> length (TX_SLOT_LEN t) = 8 \<and> length (TX_SLOT_FIN t) = 8 \<and>
     (\<forall>n \<in> set (TX_SLOT_LEN t). n \<le> MAX_SEG) \<and> TX_TAIL t - TX_HEAD t \<le> 8"

lemma segs_from_nil [simp]: "segs_from t h h = []"
  by (simp add: segs_from_def)

lemma segs_from_Cons:
  assumes "h \<noteq> e"
  shows "segs_from t h e = seg_at t h # segs_from t (h + 1) e"
proof -
  have "e - h \<noteq> 0" using assms by simp
  then obtain n where n: "unat (e - h) = Suc n" using not0_implies_Suc unat_eq_zero by blast
  have "unat (e - (h + 1)) = n"
    using n \<open>e - h \<noteq> 0\<close> by (simp add: diff_diff_eq [symmetric] unat_minus_one)
  then show ?thesis
    unfolding segs_from_def n by (simp add: upt_conv_Cons map_Suc_upt [symmetric] add.assoc del: upt_Suc)
qed

lemma segs_from_snoc:
  assumes "e - h < 8"
  shows "segs_from t h (e + 1) = segs_from t h e @ [seg_at t e]"
proof -
  have "unat (e - h) < 8" using assms by (simp add: word_less_nat_alt)
  moreover have "e + 1 - h = (e - h) + 1" by simp
  ultimately have "unat (e + 1 - h) = Suc (unat (e - h))" by (simp only: unat_word_ariths) simp
  then show ?thesis by (simp add: segs_from_def)
qed

lemma mod8_index:
  fixes h :: u32
  shows "unat ((h + of_nat k) mod 8) = (unat h + k) mod 8"
proof -
  have "unat (h + of_nat k) mod 8 = (unat h + k) mod 8"
    by (simp add: unat_word_ariths unat_of_nat mod_simps) (simp add: mod_mod_cancel)
  then show ?thesis by (simp add: unat_mod)
qed

text \<open>The retirement loop drops the acknowledged front of the queue.\<close>

definition covers :: "u32 \<Rightarrow> segment \<Rightarrow> bool" where
  "covers ack g \<longleftrightarrow> of_nat (length (snd g)) \<le> ack - fst g"

lemma covers_seg_at: "covers ack (seg_at t h) \<longleftrightarrow> slot_span t (unat (h mod 8)) \<le> ack - TX_SLOT_SEQ t ! unat (h mod 8)"
  by (simp add: covers_def seg_at_def slot_span_def payload_of_def Let_def)

lemma retire_law: "segs_from t (retire t ack h e) e = dropWhile (covers ack) (segs_from t h e)"
proof (induction t ack h e rule: retire.induct)
  case (1 t ack h e)
  show ?case
  proof (cases "h = e")
    case False
    with 1 show ?thesis
      by (simp add: retire.simps [of t ack h e] segs_from_Cons [of h e] covers_seg_at Let_def)
  qed (simp add: retire.simps)
qed

lemma retire_le: "unat (e - retire t ack h e) \<le> unat (e - h)"
proof -
  have "length (segs_from t (retire t ack h e) e) \<le> length (segs_from t h e)"
    unfolding retire_law by (rule length_dropWhile_le)
  then show ?thesis by (simp add: segs_from_def)
qed

section \<open>Sequence numbers\<close>

text \<open>The queue runs without a gap from \<open>una\<close> to \<open>nxt\<close>.\<close>

fun chain :: "u32 \<Rightarrow> segment list \<Rightarrow> u32 \<Rightarrow> bool" where
  "chain una [] nxt \<longleftrightarrow> una = nxt"
| "chain una (g # gs) nxt \<longleftrightarrow> fst g = una \<and> chain (una + of_nat (length (snd g))) gs nxt"

lemma chain_snoc: "chain una gs nxt \<Longrightarrow> chain una (gs @ [(nxt, os)]) (nxt + of_nat (length os))"
  by (induction una gs nxt rule: chain.induct) simp_all

lemma chain_ack:
  assumes "chain (base + of_nat k) gs nxt" "concat (map snd gs) = drop k S" "k \<le> j" "j \<le> length S" "length S < 2 ^ 31"
  shows "\<exists>k'. k \<le> k' \<and> k' \<le> j \<and> chain (base + of_nat k') (dropWhile (covers (base + of_nat j)) gs) nxt \<and>
    concat (map snd (dropWhile (covers (base + of_nat j)) gs)) = drop k' S"
  using assms
proof (induction gs arbitrary: k)
  case Nil
  then show ?case by (intro exI [of _ k]) simp
next
  case (Cons g gs)
  show ?case
  proof (cases "covers (base + of_nat j) g")
    case False
    with Cons.prems show ?thesis by (intro exI [of _ k]) simp
  next
    case True
    let ?n = "length (snd g)"
    have "length (snd g @ concat (map snd gs)) = length S - k" using Cons.prems(2) by simp
    then have n: "?n \<le> length S - k" by simp
    have "fst g = base + of_nat k" using Cons.prems(1) by simp
    then have "base + of_nat j - fst g = (of_nat (j - k) :: u32)" using Cons.prems(3) by (simp add: of_nat_diff)
    then have "(of_nat ?n :: u32) \<le> of_nat (j - k)" using True by (simp add: covers_def)
    moreover have "unat (of_nat (j - k) :: u32) = j - k" "unat (of_nat ?n :: u32) = ?n"
      using n Cons.prems(4,5) by (simp_all only: unat_of_nat) (simp_all add: take_bit_nat_eq_self)
    ultimately have le: "k + ?n \<le> j"
      using Cons.prems(3) by (simp only: word_le_nat_alt)
    have S: "drop k S = snd g @ concat (map snd gs)" using Cons.prems(2) by simp
    have "concat (map snd gs) = drop (k + ?n) S"
      by (metis S append_eq_conv_conj drop_drop add.commute)
    then obtain k' where "k + ?n \<le> k'" "k' \<le> j" "chain (base + of_nat k') (dropWhile (covers (base + of_nat j)) gs) nxt"
      "concat (map snd (dropWhile (covers (base + of_nat j)) gs)) = drop k' S"
      using Cons.IH [of "k + ?n"] Cons.prems le by (auto simp: add.assoc)
    with True show ?thesis by (intro exI [of _ k']) simp
  qed
qed

section \<open>Operations on the queue\<close>

lemma tx_slot_bound [simp]: "unat ((h :: u32) mod 8) < 8"
  using mod8_index [of h 0] by simp

lemma segs_from_cong: "(\<And>k. k < unat (e - h) \<Longrightarrow> seg_at t (h + of_nat k) = seg_at t' (h + of_nat k)) \<Longrightarrow> segs_from t h e = segs_from t' h e"
  by (simp add: segs_from_def)

lemma slot_distinct:
  fixes h e :: u32
  assumes "k < unat (e - h)" "e - h < 8"
  shows "unat ((h + of_nat k) mod 8) \<noteq> unat (e mod 8)"
proof -
  let ?n = "unat (e - h)"
  have n: "?n < 8" using assms(2) by (simp add: word_less_nat_alt)
  have "e = h + of_nat ?n" by simp
  then have "unat (e mod 8) = (unat h + ?n) mod 8" using mod8_index [of h ?n] by simp
  moreover have "(unat h + k) mod 8 \<noteq> (unat h + ?n) mod 8"
    using assms(1) n mod_add_inj [of k 8 ?n "unat h"] by auto
  ultimately show ?thesis by (simp add: mod8_index)
qed

text \<open>Filling the slot at \<open>TX_TAIL\<close> appends a segment and leaves the others alone.\<close>

lemma queue_slot_law:
  assumes ok: "slots_ok t" and room: "TX_TAIL t - TX_HEAD t < 8" and n: "length d \<le> MAX_SEG"
    and i: "i = unat (TX_TAIL t mod 8)"
    and t': "t' = t\<lparr>TX_SLOT_SEQ := (TX_SLOT_SEQ t)[i := seq], TX_SLOT_LEN := (TX_SLOT_LEN t)[i := length d],
      TX_SLOT_FIN := (TX_SLOT_FIN t)[i := fin], TX_TAIL := TX_TAIL t + 1, SND_NXT := nxt, STATE := st, RETRIES := r,
      TX_BUF := (\<lambda>x. if i * MAX_SEG \<le> x \<and> x < i * MAX_SEG + length d then d ! (x - i * MAX_SEG) else TX_BUF t x)\<rparr>"
  shows "txq t' = txq t @ [(seq, map Some d @ (if fin then [None] else []))]" "slots_ok t'"
proof -
  have i8: "i < 8" using i by simp
  have at: "TX_SLOT_SEQ t' ! i = seq" "TX_SLOT_LEN t' ! i = length d" "TX_SLOT_FIN t' ! i = fin"
    using ok i8 by (simp_all add: t' slots_ok_def)
  have pl: "payload_of i (length d) t' = d"
    by (rule nth_equalityI) (simp_all add: payload_of_def t')
  have here: "seg_at t' (TX_TAIL t) = (seq, map Some d @ (if fin then [None] else []))"
    using pl by (simp add: seg_at_def i [symmetric] Let_def at)
  have "seg_at t' (TX_HEAD t + of_nat k) = seg_at t (TX_HEAD t + of_nat k)" if k: "k < unat (TX_TAIL t - TX_HEAD t)" for k
  proof -
    let ?j = "unat ((TX_HEAD t + of_nat k) mod 8)"
    have j: "?j \<noteq> i" using slot_distinct [OF k room] i by simp
    have "TX_SLOT_LEN t ! ?j \<le> MAX_SEG" using ok by (auto simp: slots_ok_def)
    then have "payload_of ?j (TX_SLOT_LEN t ! ?j) t' = payload_of ?j (TX_SLOT_LEN t ! ?j) t"
      using j n by (auto simp: payload_of_def t')
    then show ?thesis using j by (simp add: seg_at_def Let_def) (simp add: t')
  qed
  then have "segs_from t' (TX_HEAD t) (TX_TAIL t) = txq t" unfolding txq_def by (rule segs_from_cong)
  then show "txq t' = txq t @ [(seq, map Some d @ (if fin then [None] else []))]"
    using here segs_from_snoc [OF room, of t'] by (simp add: txq_def t')
  have "TX_TAIL t + 1 - TX_HEAD t = (TX_TAIL t - TX_HEAD t) + 1" by simp
  moreover have "unat (TX_TAIL t - TX_HEAD t) < 8" using room by (simp add: word_less_nat_alt)
  ultimately have "unat (TX_TAIL t + 1 - TX_HEAD t) \<le> 8" by (simp only: unat_word_ariths) simp
  then have "TX_TAIL t + 1 - TX_HEAD t \<le> 8" by (simp add: word_le_nat_alt)
  then show "slots_ok t'"
    using ok n set_update_subset_insert [of "TX_SLOT_LEN t" i "length d"] by (auto simp: slots_ok_def t')
qed

text \<open>The sending half of a control block, and that two blocks agree on it.\<close>

definition tx_same :: "tcb \<Rightarrow> tcb \<Rightarrow> bool" where
  "tx_same t t' \<longleftrightarrow> TX_BUF t = TX_BUF t' \<and> TX_SLOT_SEQ t = TX_SLOT_SEQ t' \<and> TX_SLOT_LEN t = TX_SLOT_LEN t' \<and>
     TX_SLOT_FIN t = TX_SLOT_FIN t' \<and> TX_HEAD t = TX_HEAD t' \<and> TX_TAIL t = TX_TAIL t' \<and> SND_UNA t = SND_UNA t' \<and>
     SND_NXT t = SND_NXT t' \<and> (STATE t = SynSent \<longleftrightarrow> STATE t' = SynSent)"

lemma tx_same_refl [simp]: "tx_same t t"
  by (simp add: tx_same_def)

lemma tx_same_trans: "tx_same t t' \<Longrightarrow> tx_same t' t'' \<Longrightarrow> tx_same t t''"
  by (simp add: tx_same_def)

lemma seg_at_same: "tx_same t t' \<Longrightarrow> seg_at t' h = seg_at t h"
  by (simp add: tx_same_def seg_at_def payload_of_def)

lemma tx_same_txq: "tx_same t t' \<Longrightarrow> txq t' = txq t \<and> slots_ok t' = slots_ok t"
  using seg_at_same [of t t'] by (simp add: txq_def segs_from_def slots_ok_def tx_same_def)

lemma emit_tx: "tx_same (TCP s) (TCP (snd (emit cd seq flags p s)))"
  by (simp add: emit_TCP tx_same_def)

lemma emit_slot_tx: "tx_same (TCP s) (TCP (snd (emit_slot cd i s)))"
  by (simp add: emit_slot_def Let_def emit_tx)

lemma send_ack_tx: "tx_same (TCP s) (TCP (send_ack cd s))"
  by (simp add: send_ack_def emit_tx)

lemma rx_release_tx: "tx_same (TCP s) (TCP (rx_release cd n s))"
proof -
  let ?s = "tcp_upd (\<lambda>t. t\<lparr>RX_HEAD := RX_HEAD t + of_nat (min n (rx_len (TCP s)))\<rparr>) s"
  have "tx_same (TCP s) (TCP ?s)" by (simp add: tx_same_def)
  then show ?thesis using send_ack_tx [of ?s cd] tx_same_trans by (auto simp: rx_release_def Let_def)
qed

lemma resend_tx: "tx_same (TCP s) (TCP (snd (resend cd i tail sent s)))"
proof (induction cd i tail sent s rule: resend.induct)
  case (1 cd i tail sent s)
  obtain ok s' where e: "emit_slot cd i s = (ok, s')" by fastforce
  have "tx_same (TCP s) (TCP s')" using emit_slot_tx [of s cd i] e by simp
  then show ?case
    using 1 [OF _ e [symmetric] refl] e tx_same_trans by (auto simp: resend.simps [of cd i tail sent s])
qed

lemma tcp_tick_tx: "STATE (TCP s) \<noteq> SynSent \<Longrightarrow> tx_same (TCP s) (TCP (tcp_tick cd s))"
  using resend_tx [of s cd "TX_HEAD (TCP s)" "TX_TAIL (TCP s)" False]
  by (auto simp: tcp_tick_def case_prod_unfold Let_def tx_same_def)

lemma take_payload_tx: "tx_same t (take_payload seq p t)"
  by (simp add: take_payload_def append_rx_def tx_same_def Let_def)

lemma open_segment_tx: "STATE (TCP s) \<noteq> SynSent \<Longrightarrow> tx_same (TCP s) (TCP (open_segment cd seq fin p s))"
proof -
  assume st: "STATE (TCP s) \<noteq> SynSent"
  let ?s = "tcp_upd (take_payload seq p) s"
  let ?f = "tcp_upd (\<lambda>t. t\<lparr>PEER_CLOSED := True, RCV_NXT := RCV_NXT t + 1\<rparr>) ?s"
  have a: "tx_same (TCP s) (TCP ?s)" using take_payload_tx by simp
  have "tx_same (TCP s) (TCP ?f)" using a by (simp add: tx_same_def)
  then have b: "tx_same (TCP s) (TCP (send_ack cd ?f))" by (rule tx_same_trans [OF _ send_ack_tx])
  have c: "tx_same (TCP s) (TCP (send_ack cd ?s))" by (rule tx_same_trans [OF a send_ack_tx])
  have close: "tx_same (TCP s) (t\<lparr>STATE := Closed, ACTIVE := False\<rparr>)" "tx_same (TCP s) (t\<lparr>STATE := FinSent\<rparr>)"
    if "tx_same (TCP s) t" for t using that st by (simp_all add: tx_same_def)
  show ?thesis
    using a b c close [OF a] close [OF b] close [OF c] by (cases fin; cases "p = []") (simp_all add: open_segment_def Let_def)
qed

section \<open>Retention\<close>

text \<open>
  \<open>S\<close> is what has been queued since the handshake, its first octet under the number \<open>base\<close>; the
  peer's acknowledgements reach at most octet \<open>R\<close>.
\<close>

definition tx_inv :: "u32 \<Rightarrow> u8 option list \<Rightarrow> nat \<Rightarrow> tcb \<Rightarrow> bool" where
  "tx_inv base S R t \<longleftrightarrow> slots_ok t \<and> STATE t \<noteq> SynSent \<and> R \<le> length S \<and> length S < 2 ^ 31 \<and> SND_NXT t = base + of_nat (length S) \<and>
     (\<exists>k \<le> R. SND_UNA t = base + of_nat k \<and> chain (SND_UNA t) (txq t) (SND_NXT t) \<and> concat (map snd (txq t)) = drop k S)"

lemma tx_inv_same: "tx_same t t' \<Longrightarrow> tx_inv base S R t \<Longrightarrow> tx_inv base S R t'"
  using tx_same_txq [of t t'] by (auto simp: tx_inv_def tx_same_def)

lemma tx_inv_append:
  assumes inv: "tx_inv base S R t" and len: "length S + length os < 2 ^ 31" and q: "txq t' = txq t @ [(SND_NXT t, os)]" "slots_ok t'"
    and eqs: "SND_UNA t' = SND_UNA t" "SND_NXT t' = SND_NXT t + of_nat (length os)" "STATE t' \<noteq> SynSent"
  shows "tx_inv base (S @ os) R t'"
proof -
  obtain k where k: "k \<le> R" "SND_UNA t = base + of_nat k" "chain (SND_UNA t) (txq t) (SND_NXT t)" "concat (map snd (txq t)) = drop k S"
    using inv by (auto simp: tx_inv_def)
  have "R \<le> length S" using inv by (simp add: tx_inv_def)
  with k(1,4) have "concat (map snd (txq t')) = drop k (S @ os)" by (simp add: q)
  moreover have "chain (SND_UNA t') (txq t') (SND_NXT t')" using chain_snoc [OF k(3)] by (simp add: q eqs)
  ultimately show ?thesis
    using inv len k(1,2) q(2) eqs by (auto simp: tx_inv_def add.assoc)
qed

text \<open>What a call of \<open>tcp_send\<close> adds to the stream: all of its data, or nothing.\<close>

definition accepted :: "bytes \<Rightarrow> tcb \<Rightarrow> bool" where
  "accepted d t \<longleftrightarrow> STATE t = Established \<and> d \<noteq> [] \<and> length d \<le> MAX_SEG \<and> TX_TAIL t - TX_HEAD t < 8"

lemma tcp_send_refused: "\<not> accepted d (TCP s) \<Longrightarrow> tcp_send cd d s = (False, s)"
  by (auto simp: tcp_send_def accepted_def Let_def not_less)

lemma tcp_send_law:
  assumes ok: "slots_ok (TCP s)" and acc: "accepted d (TCP s)"
  obtains "txq (TCP (snd (tcp_send cd d s))) = txq (TCP s) @ [(SND_NXT (TCP s), map Some d)]" "slots_ok (TCP (snd (tcp_send cd d s)))"
    "SND_UNA (TCP (snd (tcp_send cd d s))) = SND_UNA (TCP s)" "STATE (TCP (snd (tcp_send cd d s))) = Established"
    "SND_NXT (TCP (snd (tcp_send cd d s))) = SND_NXT (TCP s) + of_nat (length d)"
proof -
  let ?t = "TCP s"
  define i where "i = unat (TX_TAIL ?t mod 8)"
  define t' where "t' = ?t\<lparr>TX_SLOT_SEQ := (TX_SLOT_SEQ ?t)[i := SND_NXT ?t], TX_SLOT_LEN := (TX_SLOT_LEN ?t)[i := length d],
      TX_SLOT_FIN := (TX_SLOT_FIN ?t)[i := False], TX_TAIL := TX_TAIL ?t + 1, SND_NXT := SND_NXT ?t + of_nat (length d), STATE := STATE ?t, RETRIES := 0,
      TX_BUF := (\<lambda>x. if i * MAX_SEG \<le> x \<and> x < i * MAX_SEG + length d then d ! (x - i * MAX_SEG) else TX_BUF ?t x)\<rparr>"
  have e: "tcp_send cd d s = emit_slot cd (of_nat i) (s\<lparr>TCP := t'\<rparr>)"
  proof -
    let ?q = "snd (queue_slot (SND_NXT ?t) (length d) False (?t\<lparr>SND_NXT := SND_NXT ?t + of_nat (length d)\<rparr>))"
    have "?q\<lparr>TX_BUF := (\<lambda>x. if i * MAX_SEG \<le> x \<and> x < i * MAX_SEG + length d then d ! (x - i * MAX_SEG) else TX_BUF ?q x), RETRIES := 0\<rparr> = t'"
      by (rule tcb.equality) (simp_all cong: if_cong add: t'_def queue_slot_def Let_def i_def)
    moreover have "fst (queue_slot (SND_NXT ?t) (length d) False (?t\<lparr>SND_NXT := SND_NXT ?t + of_nat (length d)\<rparr>)) = i"
      by (simp add: queue_slot_def Let_def i_def)
    ultimately show ?thesis
      using acc by (auto cong: if_cong simp: tcp_send_def Let_def accepted_def case_prod_unfold)
  qed
  have q: "txq t' = txq ?t @ [(SND_NXT ?t, map Some d @ (if False then [None] else []))]" "slots_ok t'"
    using queue_slot_law [OF ok _ _ i_def t'_def] acc by (simp_all add: accepted_def)
  have "tx_same t' (TCP (snd (tcp_send cd d s)))" using emit_slot_tx [of "s\<lparr>TCP := t'\<rparr>" cd "of_nat i"] e by simp
  moreover have "STATE (TCP (snd (tcp_send cd d s))) = Established"
    using acc unfolding e by (simp add: emit_slot_def emit_TCP Let_def t'_def accepted_def)
  moreover have "SND_UNA t' = SND_UNA ?t" "SND_NXT t' = SND_NXT ?t + of_nat (length d)" by (simp_all add: t'_def)
  ultimately show ?thesis
    using q tx_same_txq [of t' "TCP (snd (tcp_send cd d s))"] by (intro that) (simp_all add: tx_same_def)
qed

lemma tcp_close_law:
  assumes ok: "slots_ok (TCP s)" and st: "STATE (TCP s) = Established" and room: "TX_TAIL (TCP s) - TX_HEAD (TCP s) < 8"
  obtains "txq (TCP (tcp_close cd s)) = txq (TCP s) @ [(SND_NXT (TCP s), [None])]" "slots_ok (TCP (tcp_close cd s))"
    "SND_UNA (TCP (tcp_close cd s)) = SND_UNA (TCP s)" "STATE (TCP (tcp_close cd s)) = FinWait"
    "SND_NXT (TCP (tcp_close cd s)) = SND_NXT (TCP s) + 1"
proof -
  let ?t = "TCP s"
  define i where "i = unat (TX_TAIL ?t mod 8)"
  define t' where "t' = ?t\<lparr>TX_SLOT_SEQ := (TX_SLOT_SEQ ?t)[i := SND_NXT ?t], TX_SLOT_LEN := (TX_SLOT_LEN ?t)[i := length ([] :: bytes)],
      TX_SLOT_FIN := (TX_SLOT_FIN ?t)[i := True], TX_TAIL := TX_TAIL ?t + 1, SND_NXT := SND_NXT ?t + 1, STATE := FinWait, RETRIES := 0,
      TX_BUF := (\<lambda>x. if i * MAX_SEG \<le> x \<and> x < i * MAX_SEG + length ([] :: bytes) then [] ! (x - i * MAX_SEG) else TX_BUF ?t x)\<rparr>"
  let ?q = "queue_slot (SND_NXT ?t) 0 True (?t\<lparr>SND_NXT := SND_NXT ?t + 1\<rparr>)"
  have "(snd ?q)\<lparr>STATE := FinWait, RETRIES := 0\<rparr> = t'"
    by (rule tcb.equality) (auto simp: t'_def queue_slot_def Let_def i_def fun_eq_iff)
  then have "tcp_close cd s = snd (emit_slot cd (of_nat (fst ?q)) (s\<lparr>TCP := t'\<rparr>))"
    using st by (simp add: tcp_close_def Let_def case_prod_unfold)
  then have e: "TCP (tcp_close cd s) = t'\<lparr>LAST_SEND := TIMER_TICKS s\<rparr>"
    by (simp add: emit_slot_def emit_TCP Let_def)
  have q: "txq t' = txq ?t @ [(SND_NXT ?t, map Some [] @ (if True then [None] else []))]" "slots_ok t'"
    using queue_slot_law [OF ok room _ i_def t'_def] by simp_all
  have "tx_same t' (TCP (tcp_close cd s))" unfolding e by (simp add: tx_same_def)
  moreover have "STATE t' = FinWait" "SND_UNA t' = SND_UNA ?t" "SND_NXT t' = SND_NXT ?t + 1" by (simp_all add: t'_def)
  ultimately show ?thesis
    using q e tx_same_txq [of t' "TCP (tcp_close cd s)"] by (intro that) (simp_all add: tx_same_def)
qed

lemma tcp_send_inv:
  assumes inv: "tx_inv base S R (TCP s)" and len: "length S + length d < 2 ^ 31"
  shows "tx_inv base (S @ (if accepted d (TCP s) then map Some d else [])) R (TCP (snd (tcp_send cd d s)))"
proof (cases "accepted d (TCP s)")
  case True
  have "slots_ok (TCP s)" using inv by (simp add: tx_inv_def)
  then have "tx_inv base (S @ map Some d) R (TCP (snd (tcp_send cd d s)))"
    by (rule tcp_send_law [OF _ True, of cd]) (rule tx_inv_append [OF inv], use len in simp_all)
  with True show ?thesis by simp
qed (simp add: tcp_send_refused inv)

lemma tcp_close_inv:
  assumes inv: "tx_inv base S R (TCP s)" and "length S + 1 < 2 ^ 31" "STATE (TCP s) = Established" "TX_TAIL (TCP s) - TX_HEAD (TCP s) < 8"
  shows "tx_inv base (S @ [None]) R (TCP (tcp_close cd s))"
proof -
  have "slots_ok (TCP s)" using inv by (simp add: tx_inv_def)
  then show ?thesis
    by (rule tcp_close_law [OF _ assms(3,4), of cd]) (rule tx_inv_append [OF inv], use assms(2) in simp_all)
qed

text \<open>An acknowledgement of octet \<open>j\<close> that passes the window test is not an old one.\<close>

lemma ack_not_old:
  assumes "(base + of_nat j) - (base + of_nat k) < (0x80000000 :: u32)" "j < 2 ^ 31" "k < 2 ^ 31"
  shows "k \<le> j"
proof (rule ccontr)
  assume old: "\<not> k \<le> j"
  define n where "n = k - j"
  have n: "0 < n" "n < 2 ^ 31" using old assms(3) by (simp_all add: n_def)
  define w :: u32 where "w = (base + of_nat j) - (base + of_nat k)"
  have "w + of_nat n = 0" using old by (simp add: w_def n_def of_nat_diff)
  then have "unat (w + of_nat n) = 0" by simp
  moreover have "unat w < 2 ^ 31" using assms(1) by (simp add: w_def word_less_nat_alt)
  ultimately show False using n by (simp add: unat_word_ariths unat_of_nat)
qed

lemma ack_advance_inv:
  assumes inv: "tx_inv base S R t" and j: "j \<le> length S" and guard: "base + of_nat j - SND_UNA t < 0x80000000"
  shows "tx_inv base S (max R j) ((ack_advance (base + of_nat j) t)\<lparr>RETRIES := 0\<rparr>)"
proof -
  let ?ack = "base + of_nat j :: u32"
  let ?h = "retire t ?ack (TX_HEAD t) (TX_TAIL t)"
  obtain k where k: "k \<le> R" "SND_UNA t = base + of_nat k" "chain (SND_UNA t) (txq t) (SND_NXT t)" "concat (map snd (txq t)) = drop k S"
    using inv by (auto simp: tx_inv_def)
  have S: "R \<le> length S" "length S < 2 ^ 31" "slots_ok t" "SND_NXT t = base + of_nat (length S)" "STATE t \<noteq> SynSent"
    using inv by (simp_all add: tx_inv_def)
  have "k \<le> j" using ack_not_old [of base j k] guard k(1,2) S(1,2) j by simp
  then obtain k' where k': "k' \<le> j" "chain (base + of_nat k') (dropWhile (covers ?ack) (txq t)) (SND_NXT t)"
    "concat (map snd (dropWhile (covers ?ack) (txq t))) = drop k' S"
    using chain_ack [of base k "txq t" "SND_NXT t" S j] k j S by auto
  define t' where "t' = (ack_advance ?ack t)\<lparr>RETRIES := 0\<rparr>"
  have seg: "seg_at t' = seg_at t" by (simp add: fun_eq_iff seg_at_def payload_of_def t'_def ack_advance_def Let_def)
  have q: "txq t' = dropWhile (covers ?ack) (txq t)"
    using retire_law [of t ?ack "TX_HEAD t" "TX_TAIL t"] seg
    by (simp add: txq_def segs_from_def) (simp add: t'_def ack_advance_def Let_def)
  have una: "SND_UNA t' = base + of_nat k'"
  proof (cases "?h = TX_TAIL t")
    case True
    then have "txq t' = []" by (simp add: txq_def t'_def ack_advance_def Let_def)
    then show ?thesis using k'(2) q True by (simp add: t'_def ack_advance_def Let_def)
  next
    case False
    have "txq t' = segs_from t' ?h (TX_TAIL t)" by (simp add: txq_def t'_def ack_advance_def Let_def)
    then have "txq t' = seg_at t ?h # segs_from t' (?h + 1) (TX_TAIL t)" using segs_from_Cons [OF False, of t'] seg by simp
    then have "fst (seg_at t ?h) = base + of_nat k'" using k'(2) q by simp
    then show ?thesis using False by (simp add: t'_def ack_advance_def Let_def seg_at_def)
  qed
  have "unat (TX_TAIL t - ?h) \<le> unat (TX_TAIL t - TX_HEAD t)" by (rule retire_le)
  then have "slots_ok t'" using S(3) by (auto simp: slots_ok_def t'_def ack_advance_def Let_def word_le_nat_alt)
  moreover have "SND_NXT t' = SND_NXT t" "STATE t' = STATE t" by (simp_all add: t'_def ack_advance_def Let_def)
  ultimately have "tx_inv base S (max R j) t'"
    using S j k' q una by (auto simp: tx_inv_def intro!: exI [of _ k'])
  then show ?thesis by (simp add: t'_def)
qed

lemma by_state_tx: "STATE (TCP x) \<noteq> SynSent \<Longrightarrow> tx_same (TCP x) (TCP (by_state cd seq ack flags p x))"
  using open_segment_tx [of x cd seq "flags AND 0x01 \<noteq> 0" p] by (cases "STATE (TCP x)") (simp_all add: by_state_def)

lemma tx_inv_mono: "tx_inv base S R t \<Longrightarrow> R \<le> R' \<Longrightarrow> R' \<le> length S \<Longrightarrow> tx_inv base S R' t"
  unfolding tx_inv_def using le_trans by blast

lemma tcp_input_tx_inv:
  assumes inv: "tx_inv base S R (TCP s)" and j: "j \<le> length S" and ack: "flags AND 0x10 \<noteq> 0 \<Longrightarrow> ack = base + of_nat j"
  shows "tx_inv base S (max R j) (TCP (tcp_input cd seq ack flags p s))"
proof -
  let ?s = "tcp_upd (\<lambda>t. t\<lparr>SEGMENTS_IN := wadd64 (SEGMENTS_IN t) 1\<rparr>) s"
  let ?a = "tcp_upd (\<lambda>t. (ack_advance ack t)\<lparr>RETRIES := 0\<rparr>) ?s"
  have inv1: "tx_inv base S R (TCP ?s)" by (rule tx_inv_same [OF _ inv]) (simp add: tx_same_def)
  have inv1': "tx_inv base S (max R j) (TCP ?s)"
    using tx_inv_mono [OF inv1, of "max R j"] inv1 j by (simp add: tx_inv_def)
  have inv2: "tx_inv base S (max R j) (TCP ?a)" if "flags AND 0x10 \<noteq> 0" "ack - SND_UNA (TCP s) < 0x80000000"
    using ack_advance_inv [OF inv1 j] that ack by simp
  have rst: "tx_inv base S (max R j) ((TCP ?s)\<lparr>STATE := Failed\<rparr>)"
    by (rule tx_inv_same [OF _ inv1']) (use inv in \<open>simp add: tx_same_def tx_inv_def\<close>)
  have step: "tx_inv base S (max R j) (TCP (by_state cd seq ack flags p x))" if "tx_inv base S (max R j) (TCP x)" for x
    by (rule tx_inv_same [OF by_state_tx that]) (use that in \<open>simp add: tx_inv_def\<close>)
  show ?thesis
    using rst step [OF inv1'] step [OF inv2] by (simp add: tcp_input_def Let_def)
qed

text \<open>
  The life of a connection as the sender sees it: the stream queued, the octet acknowledged, and
  whether a close has found all eight slots outstanding.  Acknowledgements name octets that have been
  sent; they may be old, repeated or out of order.
\<close>

type_synonym 'c tx_state = "u8 option list \<times> nat \<times> bool \<times> 'c net"

inductive tx_step :: "'c card \<Rightarrow> u32 \<Rightarrow> 'c tx_state \<Rightarrow> 'c tx_state \<Rightarrow> bool" for cd base where
  tx_send: "length S + length d < 2 ^ 31 \<Longrightarrow>
    tx_step cd base (S, R, ov, s) (S @ (if accepted d (TCP s) then map Some d else []), R, ov, snd (tcp_send cd d s))"
| tx_close: "length S + 1 < 2 ^ 31 \<Longrightarrow>
    tx_step cd base (S, R, ov, s)
      (S @ (if STATE (TCP s) = Established then [None] else []), R,
       ov \<or> STATE (TCP s) = Established \<and> \<not> TX_TAIL (TCP s) - TX_HEAD (TCP s) < 8, tcp_close cd s)"
| tx_acked: "j \<le> length S \<Longrightarrow> tx_step cd base (S, R, ov, s) (S, max R j, ov, tcp_input cd seq (base + of_nat j) flags p s)"
| tx_segment: "flags AND 0x10 = 0 \<Longrightarrow> tx_step cd base (S, R, ov, s) (S, R, ov, tcp_input cd seq ack flags p s)"
| tx_tick: "tx_step cd base (S, R, ov, s) (S, R, ov, tcp_tick cd s)"
| tx_read: "tx_step cd base (S, R, ov, s) (S, R, ov, rx_release cd n s)"
| tx_other: "TCP s' = TCP s \<Longrightarrow> tx_step cd base (S, R, ov, s) (S, R, ov, s')"

fun tx_state_ok :: "u32 \<Rightarrow> 'c tx_state \<Rightarrow> bool" where
  "tx_state_ok base (S, R, ov, s) \<longleftrightarrow> (ov \<longrightarrow> None \<in> set S) \<and> (\<not> ov \<longrightarrow> tx_inv base S R (TCP s))"

lemma tcp_close_closed: "STATE (TCP s) \<noteq> Established \<Longrightarrow> tcp_close cd s = s"
  by (simp add: tcp_close_def)

lemma tx_step_inv:
  assumes "tx_step cd base x y" "tx_state_ok base x"
  shows "tx_state_ok base y"
  using assms
proof (induction rule: tx_step.induct)
  case (tx_send S d R ov s)
  then show ?case using tcp_send_inv [of base S R s d cd] by auto
next
  case (tx_close S R ov s)
  then show ?case using tcp_close_inv [of base S R s cd] by (auto simp: tcp_close_closed)
next
  case (tx_acked j S R ov s seq flags p)
  then show ?case using tcp_input_tx_inv [of base S R s j] by simp
next
  case (tx_segment flags S R ov s seq ack p)
  then show ?case using tcp_input_tx_inv [of base S R s 0] by simp
next
  case (tx_tick S R ov s)
  have "tx_inv base S R (TCP (tcp_tick cd s))" if inv: "tx_inv base S R (TCP s)"
  proof -
    have "STATE (TCP s) \<noteq> SynSent" using inv by (simp add: tx_inv_def)
    from tx_inv_same [OF tcp_tick_tx [OF this] inv] show ?thesis .
  qed
  with tx_tick show ?case by simp
next
  case (tx_read S R ov s n)
  then show ?case using tx_inv_same [OF rx_release_tx] by auto
qed simp

lemma tx_run_inv: "(tx_step cd base)\<^sup>*\<^sup>* x y \<Longrightarrow> tx_state_ok base x \<Longrightarrow> tx_state_ok base y"
  by (induction rule: rtranclp_induct) (auto dest: tx_step_inv)

definition fresh_queue :: "u32 \<Rightarrow> tcb \<Rightarrow> bool" where
  "fresh_queue base t \<longleftrightarrow> STATE t = Established \<and> slots_ok t \<and> TX_HEAD t = TX_TAIL t \<and> SND_UNA t = base \<and> SND_NXT t = base"

lemma fresh_queue_inv: "fresh_queue base t \<Longrightarrow> tx_inv base [] 0 t"
  by (simp add: fresh_queue_def tx_inv_def txq_def)

section \<open>Properties\<close>

text \<open>
  C24: retention.  Whatever is sent, acknowledged, retransmitted and read on an established connection,
  in whatever order and also across a close, every octet queued and not acknowledged by the peer is
  still in the transmit slots, in order, under its own sequence number and without a gap: the queue is
  the stream from an octet \<open>k\<close> on, where the peer has acknowledged at least \<open>k\<close>, and \<open>SND_UNA\<close> and
  \<open>SND_NXT\<close> are its two ends.  The one exception is a close that finds eight segments outstanding,
  which \<open>tcp::close\<close> does not check for (\<open>tcp_close_overwrites\<close> below says what it does to the queue):
  the guarantee holds for every run in which no close did so, and in particular as long as the
  connection has not been closed.
\<close>

theorem tcp_retention:
  assumes "fresh_queue base (TCP s)" "(tx_step cd base)\<^sup>*\<^sup>* ([], 0, False, s) (S, R, ov, s')"
  shows "(ov \<longrightarrow> None \<in> set S) \<and>
    (\<not> ov \<longrightarrow> (\<exists>k \<le> R. concat (map snd (txq (TCP s'))) = drop k S \<and> SND_UNA (TCP s') = base + of_nat k \<and>
      SND_NXT (TCP s') = base + of_nat (length S) \<and> chain (SND_UNA (TCP s')) (txq (TCP s')) (SND_NXT (TCP s'))))"
proof -
  have "tx_state_ok base (S, R, ov, s')" using tx_run_inv [OF assms(2)] fresh_queue_inv [OF assms(1)] by simp
  then show ?thesis by (auto simp: tx_inv_def)
qed

theorem tcp_retention_witness:
  "\<exists>s' k. s' = tcp_input quiet_card 0 (1 + of_nat 2) 0x10 [] (snd (tcp_send quiet_card [8] (snd (tcp_send quiet_card [5, 6] sample_net)))) \<and>
     k \<le> 2 \<and> concat (map snd (txq (TCP s'))) = drop k [Some 5, Some 6, Some 8] \<and> SND_UNA (TCP s') = 1 + of_nat k"
proof -
  let ?s1 = "snd (tcp_send quiet_card [5, 6] sample_net)"
  let ?s2 = "snd (tcp_send quiet_card [8] ?s1)"
  let ?s3 = "tcp_input quiet_card 0 (1 + of_nat 2) 0x10 [] ?s2"
  have acc: "accepted [5, 6] (TCP sample_net)" by (simp add: accepted_def sample_net_def idle_stack_def sample_tcb_def)
  have acc2: "accepted [8] (TCP ?s1)"
    by (simp add: accepted_def tcp_send_def queue_slot_def emit_slot_def emit_TCP Let_def sample_net_def idle_stack_def sample_tcb_def)
  have a: "tx_step quiet_card 1 ([], 0, False, sample_net) ([Some 5, Some 6], 0, False, ?s1)"
    using tx_send [of "[]" "[5, 6]" quiet_card 1 0 False sample_net] acc by simp
  have b: "tx_step quiet_card 1 ([Some 5, Some 6], 0, False, ?s1) ([Some 5, Some 6, Some 8], 0, False, ?s2)"
    using tx_send [of "[Some 5, Some 6]" "[8]" quiet_card 1 0 False ?s1] acc2 by simp
  have c: "tx_step quiet_card 1 ([Some 5, Some 6, Some 8], 0, False, ?s2) ([Some 5, Some 6, Some 8], 2, False, ?s3)"
    using tx_acked [of 2 "[Some 5, Some 6, Some 8]" quiet_card 1 0 False ?s2 0 "0x10" "[]"] by simp
  have fresh: "fresh_queue 1 (TCP sample_net)" by (simp add: fresh_queue_def slots_ok_def sample_net_def idle_stack_def sample_tcb_def)
  have run: "(tx_step quiet_card 1)\<^sup>*\<^sup>* ([], 0, False, sample_net) ([Some 5, Some 6, Some 8], 2, False, ?s3)"
    by (rule converse_rtranclp_into_rtranclp, rule a, rule converse_rtranclp_into_rtranclp, rule b,
        rule converse_rtranclp_into_rtranclp, rule c, rule rtranclp.rtrancl_refl)
  from tcp_retention [OF fresh run] show ?thesis by auto
qed

text \<open>
  A call of \<open>tcp::send\<close> that cannot resolve the next hop reports failure although it has queued
  the data.  A caller that tries again, as the HTTP client does on every tick, queues it a second time,
  and the retransmission timer sends both copies.
\<close>

theorem tcp_send_false_queued:
  assumes "slots_ok (TCP s)" "accepted d (TCP s)" "arp_lookup (next_hop (u32_to_ip (REMOTE_IP (TCP s))) s) s = None"
  shows "\<not> fst (tcp_send cd d s) \<and> txq (TCP (snd (tcp_send cd d s))) = txq (TCP s) @ [(SND_NXT (TCP s), map Some d)]"
proof -
  have frame: "arp_lookup h (x\<lparr>TCP := t\<rparr>) = arp_lookup h x" "next_hop ip (x\<lparr>TCP := t\<rparr>) = next_hop ip x" for h ip t and x :: "'a net"
    by (simp_all add: arp_lookup_def next_hop_def on_link_def our_ip_def gateway_def)
  have no: "\<not> fst (ip_send cd (u32_to_ip (REMOTE_IP (TCP s))) PROTO_TCP p (s\<lparr>TCP := t\<rparr>))" for p t
    using assms(3) by (simp add: ip_send_def frame Let_def split: option.split)
  have "\<not> fst (emit cd q f p (s\<lparr>TCP := t\<rparr>))" if "REMOTE_IP t = REMOTE_IP (TCP s)" for q f p t
    using no [of _ "t\<lparr>LAST_SEND := TIMER_TICKS s\<rparr>"] that by (simp add: emit_def tcp_upd_def Let_def)
  then have "\<not> fst (tcp_send cd d s)"
    using assms(2) by (simp add: tcp_send_def accepted_def queue_slot_def emit_slot_def Let_def)
  moreover have "txq (TCP (snd (tcp_send cd d s))) = txq (TCP s) @ [(SND_NXT (TCP s), map Some d)]"
    by (rule tcp_send_law [OF assms(1,2)])
  ultimately show ?thesis by blast
qed

theorem tcp_send_false_queued_witness:
  "\<not> fst (tcp_send quiet_card [5] sample_net) \<and> txq (TCP (snd (tcp_send quiet_card [5] sample_net))) = [(1, [Some 5])]"
proof -
  have s: "slots_ok (TCP sample_net)" "accepted [5] (TCP sample_net)" "txq (TCP sample_net) = []" "SND_NXT (TCP sample_net) = 1"
    by (simp_all add: slots_ok_def accepted_def txq_def sample_net_def idle_stack_def sample_tcb_def)
  have "arp_lookup h sample_net = None" for h
    by (simp add: arp_lookup_eq first_from_None_iff holds_ip_def sample_net_def idle_stack_def)
  from tcp_send_false_queued [OF s(1,2) this, of quiet_card] show ?thesis by (simp add: s)
qed

text \<open>
  \<open>tcp::close\<close> does not check that a transmit slot is free.  With eight segments outstanding the
  FIN is written over the oldest unacknowledged one: its data is gone from the queue, which now starts
  and ends with the FIN.
\<close>

theorem tcp_close_overwrites:
  assumes "slots_ok (TCP s)" "STATE (TCP s) = Established" "TX_TAIL (TCP s) - TX_HEAD (TCP s) = 8"
  shows "txq (TCP (tcp_close cd s)) = (SND_NXT (TCP s), [None]) # tl (txq (TCP s)) @ [(SND_NXT (TCP s), [None])]"
proof -
  let ?t = "TCP s" and ?t' = "TCP (tcp_close cd s)"
  let ?i = "unat (TX_TAIL ?t mod 8)"
  have fields: "TX_SLOT_SEQ ?t' = (TX_SLOT_SEQ ?t)[?i := SND_NXT ?t]" "TX_SLOT_LEN ?t' = (TX_SLOT_LEN ?t)[?i := 0]"
    "TX_SLOT_FIN ?t' = (TX_SLOT_FIN ?t)[?i := True]" "TX_BUF ?t' = TX_BUF ?t" "TX_HEAD ?t' = TX_HEAD ?t" "TX_TAIL ?t' = TX_TAIL ?t + 1"
    using assms(2) by (simp_all add: tcp_close_def queue_slot_def emit_slot_def emit_TCP Let_def)
  have tail: "TX_TAIL ?t = TX_HEAD ?t + of_nat 8" using assms(3) by (simp add: algebra_simps)
  have i: "?i = unat (TX_HEAD ?t) mod 8" unfolding tail by (subst mod8_index) simp
  have fin: "seg_at ?t' h = (SND_NXT ?t, [None])" if "unat (h mod 8) = ?i" for h
    using that assms(1) by (simp add: seg_at_def fields Let_def payload_of_def slots_ok_def)
  have keep: "seg_at ?t' h = seg_at ?t h" if "unat (h mod 8) \<noteq> ?i" for h
    using that by (simp add: seg_at_def fields Let_def payload_of_def)
  have n: "unat (TX_TAIL ?t + 1 - TX_HEAD ?t) = 9" unfolding tail by simp
  have "txq ?t' = map (\<lambda>k. seg_at ?t' (TX_HEAD ?t + of_nat k)) [0..<9]"
    unfolding txq_def segs_from_def fields n by (rule refl)
  also have "\<dots> = seg_at ?t' (TX_HEAD ?t + of_nat 0) # map (\<lambda>k. seg_at ?t' (TX_HEAD ?t + of_nat k)) [1..<8] @ [seg_at ?t' (TX_HEAD ?t + of_nat 8)]"
    by (simp add: upt_rec)
  also have "map (\<lambda>k. seg_at ?t' (TX_HEAD ?t + of_nat k)) [1..<8] = map (\<lambda>k. seg_at ?t (TX_HEAD ?t + of_nat k)) [1..<8]"
  proof (rule map_cong [OF refl])
    fix k assume "k \<in> set [1..<8 :: nat]"
    then have "(unat (TX_HEAD ?t) + k) mod 8 \<noteq> unat (TX_HEAD ?t) mod 8"
      using mod_add_inj [of k 8 0 "unat (TX_HEAD ?t)"] by auto
    then show "seg_at ?t' (TX_HEAD ?t + of_nat k) = seg_at ?t (TX_HEAD ?t + of_nat k)"
      by (intro keep) (simp only: mod8_index i, simp)
  qed
  also have "\<dots> = tl (txq ?t)" using assms(3) by (simp add: txq_def segs_from_def upt_rec)
  also have "seg_at ?t' (TX_HEAD ?t + of_nat 0) = (SND_NXT ?t, [None])" by (rule fin) (simp only: mod8_index i, simp)
  also have "seg_at ?t' (TX_HEAD ?t + of_nat 8) = (SND_NXT ?t, [None])" by (rule fin) (simp only: mod8_index i, simp)
  finally show ?thesis .
qed

definition sample_full :: "unit net" where
  "sample_full = sample_net\<lparr>TCP := sample_tcb\<lparr>TX_SLOT_SEQ := [1, 2, 3, 4, 5, 6, 7, 8], TX_SLOT_LEN := replicate 8 1, TX_TAIL := 8, SND_NXT := 9\<rparr>\<rparr>"

theorem tcp_close_overwrites_witness:
  "map fst (txq (TCP sample_full)) = [1, 2, 3, 4, 5, 6, 7, 8] \<and> map fst (txq (TCP (tcp_close quiet_card sample_full))) = [9, 2, 3, 4, 5, 6, 7, 8, 9]"
proof -
  have s: "slots_ok (TCP sample_full)" "STATE (TCP sample_full) = Established" "TX_TAIL (TCP sample_full) - TX_HEAD (TCP sample_full) = 8"
    "SND_NXT (TCP sample_full) = 9"
    by (simp_all add: slots_ok_def sample_full_def sample_tcb_def)
  have q: "map fst (txq (TCP sample_full)) = [1, 2, 3, 4, 5, 6, 7, 8]"
    by (simp add: txq_def segs_from_def seg_at_def Let_def upt_rec sample_full_def sample_tcb_def)
  then have "map fst (tl (txq (TCP sample_full))) = [2, 3, 4, 5, 6, 7, 8]" by (simp add: map_tl)
  with q tcp_close_overwrites [OF s(1-3), of quiet_card] s(4) show ?thesis by simp
qed

end
