(* ===== verification/Net_Stack.thy ===== *)
theory Net_Stack
  imports Net_Wire Tcp_Queue
begin

text \<open>
  The stack put together, \<open>kernel/src/net/mod.rs\<close> and the delivery of \<open>ipv4.rs\<close>: start-up, routing of
  a received frame to its protocol, the poll loop and the timers.  The HTTP client runs at the end of
  every tick; it is an argument here, with a state of its own.
\<close>

section \<open>Delivery\<close>

definition ip_deliver :: "'c card \<Rightarrow> bytes \<Rightarrow> u8 \<Rightarrow> bytes \<Rightarrow> 'c net \<Rightarrow> 'c net option" where
  "ip_deliver cd src proto body s =
     (if proto = PROTO_ICMP then icmp_handle cd src body s
      else if proto = PROTO_UDP then udp_handle cd src body s
      else if proto = PROTO_TCP then tcp_handle cd src body s
      else Some s)"

definition ip_handle_frame :: "'c card \<Rightarrow> bytes \<Rightarrow> 'c net \<Rightarrow> (bool \<times> 'c net) option" where
  "ip_handle_frame cd frame s = do {
     v \<leftarrow> ip_classify (our_ip s) frame;
     case v of
       Ip_Drop \<Rightarrow> Some (False, s)
     | Ip_Bad_Checksum \<Rightarrow> Some (False, s\<lparr>IP := (IP s)\<lparr>BAD_CHECKSUM := wadd64 (BAD_CHECKSUM (IP s)) 1\<rparr>\<rparr>)
     | Ip_Fragment \<Rightarrow> Some (False, s\<lparr>IP := (IP s)\<lparr>FRAGMENTS := wadd64 (FRAGMENTS (IP s)) 1\<rparr>\<rparr>)
     | Ip_Accept src proto body \<Rightarrow> do {
         s \<leftarrow> ip_deliver cd src proto body (s\<lparr>IP := (IP s)\<lparr>IP_RECEIVED := wadd64 (IP_RECEIVED (IP s)) 1\<rparr>\<rparr>);
         Some (True, s)
       }
   }"

definition dispatch :: "'c card \<Rightarrow> bytes \<Rightarrow> 'c net \<Rightarrow> 'c net option" where
  "dispatch cd frame s =
     (if length frame < 14 then Some s
      else do {
        ethertype \<leftarrow> u16_at frame 12;
        if ethertype = 0x0806 then arp_handle_frame cd frame s
        else if ethertype = 0x0800 then map_option snd (ip_handle_frame cd frame s)
        else Some s
      })"

section \<open>Polling and timers\<close>

fun poll_frames :: "'c card \<Rightarrow> nat \<Rightarrow> 'c net \<Rightarrow> 'c net option" where
  "poll_frames cd 0 s = Some s"
| "poll_frames cd (Suc k) s =
     (case recv_frame cd BUF_SIZE (NIC s) of
        (Some frame, n) \<Rightarrow> do { s \<leftarrow> dispatch cd frame (s\<lparr>NIC := n\<rparr>); poll_frames cd k s }
      | (None, n) \<Rightarrow> Some (s\<lparr>NIC := n\<rparr>))"

abbreviation (input) UNCONFIGURED :: bytes where "UNCONFIGURED \<equiv> [0, 0, 0, 0]"
abbreviation (input) FALLBACK_IP :: bytes where "FALLBACK_IP \<equiv> [192, 168, 1, 100]"

definition net_tick :: "'c card \<Rightarrow> ('w \<times> 'c net \<Rightarrow> 'w \<times> 'c net) \<Rightarrow> 'w \<times> 'c net \<Rightarrow> 'w \<times> 'c net" where
  "net_tick cd http_tick ws =
     (let (w, s) = ws in
      if \<not> NIC_PRESENT (NIC s) then (w, s)
      else
        let (w, s) = http_tick (w, tcp_tick cd (dns_tick cd (dhcp_tick cd s))) in
        if \<not> FALLBACK_APPLIED s \<and> DHCP_STATE (DHCP s) = Dhcp_Failed
        then (w, set_our_ip FALLBACK_IP (s\<lparr>FALLBACK_APPLIED := True\<rparr>))
        else (w, s))"

definition net_poll :: "'c card \<Rightarrow> ('w \<times> 'c net \<Rightarrow> 'w \<times> 'c net) \<Rightarrow> 'w \<times> 'c net \<Rightarrow> ('w \<times> 'c net) option" where
  "net_poll cd http_tick ws =
     (let (w, s) = ws in do {
        s \<leftarrow> (if NIC_PRESENT (NIC s) then poll_frames cd RX_DESC s else Some s);
        Some (net_tick cd http_tick (w, s))
      })"

definition net_configured :: "'c net \<Rightarrow> bool" where
  "net_configured s \<longleftrightarrow> our_ip s \<noteq> UNCONFIGURED"

text \<open>Start-up, once the adapter has been probed; \<open>tsc\<close> is the cycle counter.\<close>

definition net_init :: "'c card \<Rightarrow> u64 \<Rightarrow> 'c net \<Rightarrow> 'c net" where
  "net_init cd tsc s =
     (if \<not> NIC_PRESENT (NIC s) then s
      else dns_init tsc (dhcp_start cd (dhcp_init (set_our_ip UNCONFIGURED s))))"

section \<open>No frame makes the stack panic\<close>

lemma tcp_handle_total: "tcp_handle cd src body s \<noteq> None"
proof (cases "length body < 20")
  case False
  then show ?thesis by (simp add: tcp_handle_def reads Let_def)
qed (simp add: tcp_handle_def)

lemma ip_deliver_total: "ip_deliver cd src proto body s \<noteq> None"
  unfolding ip_deliver_def
  using icmp_handle_total [of cd src body s] udp_handle_total [of cd src body s] tcp_handle_total [of cd src body s] by simp

lemma ip_handle_total: "ip_handle_frame cd frame s \<noteq> None"
proof -
  obtain v where v: "ip_classify (our_ip s) frame = Some v" using ip_classify_total by blast
  show ?thesis
  proof (cases v)
    case (Ip_Accept src proto body)
    obtain s' where "ip_deliver cd src proto body (s\<lparr>IP := (IP s)\<lparr>IP_RECEIVED := wadd64 (IP_RECEIVED (IP s)) 1\<rparr>\<rparr>) = Some s'"
      using ip_deliver_total by blast
    with v Ip_Accept show ?thesis by (simp add: ip_handle_frame_def)
  qed (use v in \<open>simp_all add: ip_handle_frame_def\<close>)
qed

lemma dispatch_total: "dispatch cd frame s \<noteq> None"
  using arp_handle_total [of cd frame s] ip_handle_total [of cd frame s] by (auto simp: dispatch_def reads)

lemma poll_frames_total: "poll_frames cd k s \<noteq> None"
proof (induction k arbitrary: s)
  case (Suc k)
  obtain r n where r: "recv_frame cd BUF_SIZE (NIC s) = (r, n)" by fastforce
  show ?case
  proof (cases r)
    case (Some frame)
    obtain s' where "dispatch cd frame (s\<lparr>NIC := n\<rparr>) = Some s'" using dispatch_total by blast
    with Suc r Some show ?thesis by simp
  qed (use r in simp)
qed simp

section \<open>Sizes and indices\<close>

text \<open>
  The static arrays keep their declared lengths and the indices kept beside them stay inside: the
  address cache, the port table, the name buffer, the transmit slots and the receive ring.  At most
  eight segments are outstanding while more can be sent; a close may add a ninth.
\<close>

definition arp_wf :: "arp_state \<Rightarrow> bool" where
  "arp_wf a \<longleftrightarrow> length (CACHE a) = CACHE_SIZE \<and> (\<forall>e \<in> set (CACHE a). length (e_mac e) = 6)"

definition udp_wf :: "udp_state \<Rightarrow> bool" where
  "udp_wf u \<longleftrightarrow> length (LISTENERS u) = MAX_LISTENERS \<and> LISTENER_COUNT u \<le> MAX_LISTENERS \<and> (\<forall>i < LISTENER_COUNT u. LISTENERS u ! i \<noteq> None)"

definition dns_wf :: "dns_state \<Rightarrow> bool" where
  "dns_wf d \<longleftrightarrow> length (DNS_NAME d) = 64 \<and> NAME_LEN d \<le> 63 \<and> DNS_STATE d \<le> 3"

definition tcb_wf :: "tcb \<Rightarrow> bool" where
  "tcb_wf t \<longleftrightarrow> length (TX_SLOT_SEQ t) = TX_SLOTS \<and> length (TX_SLOT_LEN t) = TX_SLOTS \<and> length (TX_SLOT_FIN t) = TX_SLOTS \<and>
     (\<forall>n \<in> set (TX_SLOT_LEN t). n \<le> MAX_SEG) \<and>
     unat (TX_TAIL t - TX_HEAD t) \<le> (if STATE t \<in> {SynSent, Established} then 8 else 9) \<and> rx_len t \<le> RX_CAP"

definition net_wf :: "'c net \<Rightarrow> bool" where
  "net_wf s \<longleftrightarrow> arp_wf (ARP s) \<and> udp_wf (UDP s) \<and> dns_wf (DNS s) \<and> tcb_wf (TCP s)"

subsection \<open>Transmission\<close>

lemma nic_send_wf [simp]: "net_wf (snd (nic_send cd f s)) = net_wf s"
  by (simp add: nic_send_def net_wf_def case_prod_unfold Let_def)

lemma counters_wf [simp]:
  "net_wf (s\<lparr>NIC := n\<rparr>) = net_wf s" "net_wf (s\<lparr>IP := p\<rparr>) = net_wf s" "net_wf (s\<lparr>ICMP := c\<rparr>) = net_wf s"
  "net_wf (s\<lparr>DHCP := d\<rparr>) = net_wf s" "net_wf (s\<lparr>TIMER_TICKS := t\<rparr>) = net_wf s" "net_wf (s\<lparr>FALLBACK_APPLIED := b\<rparr>) = net_wf s"
  by (simp_all add: net_wf_def)

lemma arp_counters_wf [simp]: "arp_wf (a\<lparr>REQUESTS_SENT := x\<rparr>) = arp_wf a" "arp_wf (a\<lparr>REPLIES_SEEN := x\<rparr>) = arp_wf a" "arp_wf (a\<lparr>OUR_IP := i\<rparr>) = arp_wf a"
  by (simp_all add: arp_wf_def)

lemma udp_counters_wf [simp]:
  "udp_wf (u\<lparr>UDP_SENT := x\<rparr>) = udp_wf u" "udp_wf (u\<lparr>UDP_RECEIVED := x\<rparr>) = udp_wf u" "udp_wf (u\<lparr>NO_LISTENER := x\<rparr>) = udp_wf u"
  "udp_wf (u\<lparr>NEXT_PORT := p\<rparr>) = udp_wf u"
  by (simp_all add: udp_wf_def)

lemma net_wf_ARP: "arp_wf a = arp_wf (ARP s) \<Longrightarrow> net_wf (s\<lparr>ARP := a\<rparr>) = net_wf s"
  by (auto simp: net_wf_def)

lemma net_wf_UDP: "udp_wf u = udp_wf (UDP s) \<Longrightarrow> net_wf (s\<lparr>UDP := u\<rparr>) = net_wf s"
  by (auto simp: net_wf_def)

lemma arp_request_wf [simp]: "net_wf (snd (arp_request cd h s)) = net_wf s"
proof -
  have "net_wf (r\<lparr>ARP := (ARP r)\<lparr>REQUESTS_SENT := x\<rparr>\<rparr>) = net_wf r" for r :: "'a net" and x by (rule net_wf_ARP) simp
  then show ?thesis by (simp add: arp_request_def case_prod_unfold Let_def split: option.split)
qed

lemma send_ip_frame_wf [simp]: "net_wf (snd (send_ip_frame cd f s)) = net_wf s"
  by (simp add: send_ip_frame_def case_prod_unfold Let_def)

lemma ip_send_wf [simp]: "net_wf (snd (ip_send cd d p b s)) = net_wf s"
  by (simp add: ip_send_def next_ip_id_def case_prod_unfold Let_def split: option.split)

lemma send_broadcast_wf [simp]: "net_wf (snd (send_broadcast cd a d p b s)) = net_wf s"
  by (simp add: send_broadcast_def next_ip_id_def case_prod_unfold Let_def split: option.split)

lemma udp_send_from_wf [simp]: "net_wf (snd (udp_send_from cd a d dp sp b s)) = net_wf s"
proof -
  have "net_wf (r\<lparr>UDP := (UDP r)\<lparr>UDP_SENT := x\<rparr>\<rparr>) = net_wf r" for r :: "'a net" and x by (rule net_wf_UDP) simp
  then show ?thesis by (simp add: udp_send_from_def case_prod_unfold Let_def)
qed

lemma udp_send_wf [simp]: "net_wf (snd (udp_send cd d dp sp b s)) = net_wf s"
  by (simp add: udp_send_def)

lemma dhcp_send_wf [simp]: "net_wf (dhcp_send cd ba s) = net_wf s"
  by (simp add: dhcp_send_def case_prod_unfold Let_def)

lemma dhcp_out_wf [simp]: "net_wf (send_discover cd s) = net_wf s" "net_wf (send_request cd s) = net_wf s" "net_wf (set_dhcp st s) = net_wf s"
  by (simp_all add: send_discover_def send_request_def set_dhcp_def)

subsection \<open>Datagram handlers\<close>

text \<open>What holds of the result of a handler, if it has one, by the structure of the handler.\<close>

named_theorems outcome

lemma outcome_rules [outcome]:
  "P x \<Longrightarrow> pred_option P (Some x)"
  "(\<And>v. m = Some v \<Longrightarrow> pred_option P (f v)) \<Longrightarrow> pred_option P (Option.bind m f)"
  "(b \<Longrightarrow> pred_option P y) \<Longrightarrow> (\<not> b \<Longrightarrow> pred_option P z) \<Longrightarrow> pred_option P (if b then y else z)"
  "(\<And>v. q = Some v \<Longrightarrow> pred_option P (g v)) \<Longrightarrow> (q = None \<Longrightarrow> pred_option P z) \<Longrightarrow> pred_option P (case q of None \<Rightarrow> z | Some v \<Rightarrow> g v)"
  "pred_option P (k e) \<Longrightarrow> pred_option P (let v = e in k v)"
  by simp (cases m, auto, cases q, auto)

lemma remember_wf: "net_wf s \<Longrightarrow> length mac = 6 \<Longrightarrow> net_wf (remember ip mac s)"
  using set_update_subset_insert [of "CACHE (ARP s)"]
  by (fastforce simp: remember_def net_wf_def arp_wf_def Let_def)

lemma slice_at_length: "slice_at b i j = Some x \<Longrightarrow> length x = j - i"
  by (auto simp: slice_at_def bslice_def split: if_splits)

lemma reply_to_wf: "net_wf s \<Longrightarrow> pred_option net_wf (reply_to cd f s)"
  unfolding reply_to_def by (intro outcome) simp_all

lemma arp_handle_wf: "net_wf s \<Longrightarrow> pred_option net_wf (arp_handle_frame cd f s)"
  unfolding arp_handle_frame_def
  by (intro outcome remember_wf reply_to_wf) (simp_all add: net_wf_ARP slice_at_length)

lemma update_filled: "\<forall>i < n. l ! i \<noteq> None \<Longrightarrow> n \<le> length l \<Longrightarrow> i < n \<or> i = k \<and> k < length l \<Longrightarrow> l[k := Some x] ! i \<noteq> None"
  by (cases "i = k") auto

lemma udp_listen_wf:
  assumes "net_wf s"
  shows "net_wf (udp_listen port h s)"
proof -
  let ?u = "UDP s" and ?n = "LISTENER_COUNT (UDP s)"
  have wf: "udp_wf ?u" using assms by (simp add: net_wf_def)
  have "udp_wf (?u\<lparr>LISTENERS := (LISTENERS ?u)[i := Some (port, h)]\<rparr>)" for i
    using wf update_filled [of ?n "LISTENERS ?u"] by (simp add: udp_wf_def)
  moreover have "udp_wf (?u\<lparr>LISTENERS := (LISTENERS ?u)[?n := Some (port, h)], LISTENER_COUNT := ?n + 1\<rparr>)" if "?n < 6"
    using wf that update_filled [of ?n "LISTENERS ?u"] by (simp add: udp_wf_def less_Suc_eq)
  ultimately show ?thesis
    using assms by (auto simp: udp_listen_def net_wf_def Let_def split: option.split)
qed

lemma alloc_port_wf [simp]: "net_wf (snd (alloc_port tsc s)) = net_wf s"
  by (simp add: alloc_port_def Let_def net_wf_UDP)

lemma dns_update_wf: "dns_wf d = dns_wf (DNS s) \<Longrightarrow> net_wf (s\<lparr>DNS := d\<rparr>) = net_wf s"
  by (auto simp: net_wf_def)

lemma dns_fields_wf [simp]:
  "dns_wf (d\<lparr>DNS_SERVER := x\<rparr>) = dns_wf d" "dns_wf (d\<lparr>DNS_LOCAL_PORT := y\<rparr>) = dns_wf d" "dns_wf (d\<lparr>DNS_LAST_SEND := n\<rparr>) = dns_wf d"
  "dns_wf (d\<lparr>DNS_ATTEMPTS := x\<rparr>) = dns_wf d" "dns_wf (d\<lparr>QUERIES := n\<rparr>) = dns_wf d" "dns_wf (d\<lparr>ANSWERS := n\<rparr>) = dns_wf d"
  "dns_wf (d\<lparr>DNS_RESULT := x\<rparr>) = dns_wf d" "dns_wf (d\<lparr>QUERY_ID := y\<rparr>) = dns_wf d"
  by (simp_all add: dns_wf_def)

lemma dns_state_wf: "net_wf s \<Longrightarrow> st \<le> 3 \<Longrightarrow> net_wf (s\<lparr>DNS := (DNS s)\<lparr>DNS_STATE := st\<rparr>\<rparr>)"
  by (simp add: net_wf_def dns_wf_def)

lemma send_query_wf: "net_wf s \<Longrightarrow> net_wf (send_query cd s)"
  by (auto simp: send_query_def Let_def case_prod_unfold dns_update_wf dns_state_wf split: option.split)

lemma dns_start_wf:
  assumes "net_wf s"
  shows "net_wf (snd (dns_start cd name s))"
proof (cases "length name > 63 \<or> name = [] \<or> DNS_SERVER (DNS s) = 0")
  case False
  let ?d = "(DNS s)\<lparr>NAME_LEN := length name, DNS_NAME := put_at 0 (map to_ascii_lowercase name) (DNS_NAME (DNS s)),
      QUERY_ID := (QUERY_ID (DNS s) + 1) OR 0x0100, DNS_ATTEMPTS := 0, DNS_STATE := 1\<rparr>"
  have "net_wf (s\<lparr>DNS := ?d\<rparr>)" using assms False by (simp add: net_wf_def dns_wf_def)
  then have "net_wf (send_query cd (s\<lparr>DNS := ?d\<rparr>))" by (rule send_query_wf)
  with False show ?thesis by (simp add: dns_start_def)
qed (use assms in \<open>auto simp: dns_start_def\<close>)

lemma dns_tick_wf:
  assumes "net_wf s"
  shows "net_wf (dns_tick cd s)"
proof -
  let ?s = "s\<lparr>DNS := (DNS s)\<lparr>DNS_ATTEMPTS := DNS_ATTEMPTS (DNS s) + 1\<rparr>\<rparr>"
  have wf: "net_wf ?s" using assms by (simp add: dns_update_wf)
  have "net_wf (?s\<lparr>DNS := (DNS ?s)\<lparr>DNS_STATE := 3\<rparr>\<rparr>)" "net_wf (send_query cd ?s)"
    using dns_state_wf [OF wf, of 3] send_query_wf [OF wf] by simp_all
  then show ?thesis using assms unfolding dns_tick_def Let_def by simp
qed

lemma dns_handle_wf:
  assumes "net_wf s"
  shows "pred_option net_wf (dns_handle msg s)"
proof -
  have "net_wf (s\<lparr>DNS := (DNS s)\<lparr>DNS_RESULT := x, DNS_STATE := 2, ANSWERS := n\<rparr>\<rparr>)" for x n
    using assms by (simp add: net_wf_def dns_wf_def)
  then show ?thesis
    unfolding dns_handle_def using assms by (intro outcome) (simp_all add: dns_state_wf split: dns_answer.split)
qed

lemma set_ip_wf [simp]:
  "net_wf (set_our_ip i s) = net_wf s" "net_wf (set_mask i s) = net_wf s" "net_wf (set_gateway i s) = net_wf s" "net_wf (set_server i s) = net_wf s"
  by (simp_all add: set_our_ip_def set_mask_def set_gateway_def set_server_def net_wf_ARP dns_update_wf)

lemma apply_opt_wf: "(\<And>v s. net_wf (f v s) = net_wf s) \<Longrightarrow> net_wf (apply_opt f x s) = net_wf s"
  by (simp add: apply_opt_def split: option.split)

lemma dhcp_ack_wf: "net_wf (dhcp_ack y r s) = net_wf s"
  by (simp add: dhcp_ack_def Let_def apply_opt_wf)

lemma dhcp_offer_wf: "net_wf (dhcp_offer cd y r s) = net_wf s"
  by (simp add: dhcp_offer_def Let_def apply_opt_wf)

lemma dhcp_handle_wf: "net_wf s \<Longrightarrow> pred_option net_wf (dhcp_handle cd p s)"
  unfolding dhcp_handle_def by (intro outcome) (simp_all add: dhcp_ack_wf dhcp_offer_wf)

lemma dhcp_timer_wf [simp]: "net_wf (dhcp_tick cd s) = net_wf s" "net_wf (dhcp_start cd s) = net_wf s"
  by (simp_all add: dhcp_tick_def dhcp_start_def Let_def)

lemma dhcp_init_wf: "net_wf s \<Longrightarrow> net_wf (dhcp_init s)"
  by (simp add: dhcp_init_def Let_def udp_listen_wf)

lemma dns_init_wf: "net_wf s \<Longrightarrow> net_wf (dns_init tsc s)"
  by (simp add: dns_init_def case_prod_unfold Let_def udp_listen_wf dns_update_wf)

lemma icmp_handle_wf: "net_wf s \<Longrightarrow> pred_option net_wf (icmp_handle cd src b s)"
  unfolding icmp_handle_def by (intro outcome) simp_all

lemma udp_handle_wf: "net_wf s \<Longrightarrow> pred_option net_wf (udp_handle cd src b s)"
  unfolding udp_handle_def
  by (intro outcome) (simp_all add: net_wf_UDP dhcp_handle_wf dns_handle_wf split: option.split prod.split handler.split)

subsection \<open>The connection\<close>

lemma net_wf_upd: "net_wf s \<Longrightarrow> tcb_wf (f (TCP s)) \<Longrightarrow> net_wf (tcp_upd f s)"
  by (simp add: net_wf_def tcp_upd_def)

lemma tcb_of_wf: "net_wf s \<Longrightarrow> tcb_wf (TCP s)"
  by (simp add: net_wf_def)

lemma tcb_fields_wf [simp]:
  "tcb_wf (t\<lparr>LAST_SEND := n\<rparr>) = tcb_wf t" "tcb_wf (t\<lparr>RETRIES := x\<rparr>) = tcb_wf t" "tcb_wf (t\<lparr>SEGMENTS_IN := n\<rparr>) = tcb_wf t"
  "tcb_wf (t\<lparr>RETRANSMITS := n\<rparr>) = tcb_wf t" "tcb_wf (t\<lparr>ACTIVE := b\<rparr>) = tcb_wf t" "tcb_wf (t\<lparr>RCV_NXT := x\<rparr>) = tcb_wf t"
  "tcb_wf (t\<lparr>PEER_CLOSED := b\<rparr>) = tcb_wf t" "tcb_wf (t\<lparr>SND_NXT := x\<rparr>) = tcb_wf t" "tcb_wf (t\<lparr>SND_UNA := x\<rparr>) = tcb_wf t"
  "tcb_wf (t\<lparr>RX_TRUNCATED := b\<rparr>) = tcb_wf t" "tcb_wf (t\<lparr>CONNECTS := n\<rparr>) = tcb_wf t" "tcb_wf (t\<lparr>ISS := x\<rparr>) = tcb_wf t"
  "tcb_wf (t\<lparr>REMOTE_IP := x\<rparr>) = tcb_wf t" "tcb_wf (t\<lparr>REMOTE_PORT := p\<rparr>) = tcb_wf t" "tcb_wf (t\<lparr>LOCAL_PORT := p\<rparr>) = tcb_wf t"
  "tcb_wf (t\<lparr>TX_BUF := g\<rparr>) = tcb_wf t"
  by (simp_all add: tcb_wf_def rx_len_def)

lemma tcb_state_wf: "tcb_wf t \<Longrightarrow> st \<noteq> SynSent \<Longrightarrow> st \<noteq> Established \<or> STATE t \<in> {SynSent, Established} \<Longrightarrow> tcb_wf (t\<lparr>STATE := st\<rparr>)"
  by (auto simp: tcb_wf_def rx_len_def split: if_splits)

lemma emit_wf [simp]: "net_wf (snd (emit cd q f p s)) = net_wf s"
proof -
  have "net_wf (tcp_upd (\<lambda>t. t\<lparr>LAST_SEND := n\<rparr>) s) = net_wf s" for n by (simp add: net_wf_def tcp_upd_def)
  then show ?thesis by (simp add: emit_def Let_def)
qed

lemma emit_slot_wf [simp]: "net_wf (snd (emit_slot cd i s)) = net_wf s"
  by (simp add: emit_slot_def Let_def)

lemma send_ack_wf [simp]: "net_wf (send_ack cd s) = net_wf s"
  by (simp add: send_ack_def)

lemma queue_slot_wf:
  assumes "tcb_wf t" "n \<le> MAX_SEG" "unat (TX_TAIL t - TX_HEAD t) \<le> 8"
    and "st \<notin> {SynSent, Established} \<or> unat (TX_TAIL t - TX_HEAD t) < 8"
  shows "tcb_wf ((snd (queue_slot q n f t))\<lparr>STATE := st\<rparr>)"
proof -
  have "TX_TAIL t + 1 - TX_HEAD t = (TX_TAIL t - TX_HEAD t) + 1" by simp
  then have "unat (TX_TAIL t + 1 - TX_HEAD t) = unat (TX_TAIL t - TX_HEAD t) + 1"
    using assms(3) by (simp only: unat_word_ariths) simp
  then have "unat (TX_TAIL t + 1 - TX_HEAD t) \<le> (if st \<in> {SynSent, Established} then 8 else 9)"
    using assms(3,4) by auto
  moreover have "\<forall>m \<in> set ((TX_SLOT_LEN t)[i := n]). m \<le> MAX_SEG" for i
    using assms(1,2) set_update_subset_insert [of "TX_SLOT_LEN t" i n] unfolding tcb_wf_def by blast
  ultimately show ?thesis
    using assms(1) by (simp add: queue_slot_def Let_def tcb_wf_def rx_len_def)
qed

lemma tcp_send_wf:
  assumes "net_wf s"
  shows "net_wf (snd (tcp_send cd d s))"
proof (cases "accepted d (TCP s)")
  case True
  let ?t = "(TCP s)\<lparr>SND_NXT := SND_NXT (TCP s) + of_nat (length d)\<rparr>"
  let ?q = "queue_slot (SND_NXT (TCP s)) (length d) False ?t"
  have "unat (TX_TAIL (TCP s) - TX_HEAD (TCP s)) < 8" using True by (simp add: accepted_def word_less_nat_alt)
  then have "tcb_wf ((snd ?q)\<lparr>STATE := STATE (snd ?q)\<rparr>)"
    using tcb_of_wf [OF assms] True by (intro queue_slot_wf) (simp_all add: accepted_def)
  then have "tcb_wf (snd ?q)" by simp
  then have "net_wf (s\<lparr>TCP := (snd ?q)\<lparr>TX_BUF := g, RETRIES := 0\<rparr>\<rparr>)" for g using assms by (simp add: net_wf_def)
  then show ?thesis using True by (auto simp: tcp_send_def accepted_def Let_def case_prod_unfold)
qed (simp add: tcp_send_refused assms)

lemma tcp_close_wf:
  assumes "net_wf s"
  shows "net_wf (tcp_close cd s)"
proof (cases "STATE (TCP s) = Established")
  case True
  let ?q = "queue_slot (SND_NXT (TCP s)) 0 True ((TCP s)\<lparr>SND_NXT := SND_NXT (TCP s) + 1\<rparr>)"
  have "tcb_wf ((snd ?q)\<lparr>STATE := FinWait\<rparr>)"
    using tcb_of_wf [OF assms] True by (intro queue_slot_wf) (auto simp: tcb_wf_def rx_len_def)
  then have "net_wf (s\<lparr>TCP := (snd ?q)\<lparr>STATE := FinWait, RETRIES := 0\<rparr>\<rparr>)" using assms by (simp add: net_wf_def)
  then show ?thesis using True by (simp add: tcp_close_def Let_def case_prod_unfold)
qed (simp add: tcp_close_def assms)

lemma take_payload_wf:
  assumes "tcb_wf t"
  shows "tcb_wf (take_payload q p t)"
proof -
  have "ring_ok t" using assms by (simp add: tcb_wf_def ring_ok_def)
  then obtain n b where ap: "append_rx p t = (n, t\<lparr>RX_BUF := b, RX_TAIL := RX_TAIL t + of_nat n\<rparr>)"
    and ok: "ring_ok (snd (append_rx p t))" by (rule append_rx_law)
  have "tcb_wf (t\<lparr>RX_BUF := b, RX_TAIL := RX_TAIL t + of_nat n\<rparr>)"
    using assms ok by (simp add: ap tcb_wf_def ring_ok_def)
  then show ?thesis using assms by (simp add: take_payload_def ap Let_def)
qed

lemma ack_advance_wf: "tcb_wf t \<Longrightarrow> tcb_wf (ack_advance a t)"
  using retire_le [of "TX_TAIL t" t a "TX_HEAD t"] by (auto simp: ack_advance_def Let_def tcb_wf_def rx_len_def split: if_splits)

lemma open_segment_wf:
  assumes "net_wf s"
  shows "net_wf (open_segment cd q fin p s)"
proof -
  let ?s = "tcp_upd (take_payload q p) s"
  let ?f = "tcp_upd (\<lambda>t. t\<lparr>PEER_CLOSED := True, RCV_NXT := RCV_NXT t + 1\<rparr>) ?s"
  have a: "net_wf ?s" using assms by (intro net_wf_upd take_payload_wf tcb_of_wf)
  have b: "net_wf (send_ack cd ?f)" using a tcb_of_wf [OF a] by (simp add: net_wf_upd)
  have c: "net_wf (send_ack cd ?s)" using a by simp
  have shut: "net_wf (tcp_upd (\<lambda>t. t\<lparr>STATE := Closed, ACTIVE := False\<rparr>) x)" "net_wf (tcp_upd (\<lambda>t. t\<lparr>STATE := FinSent\<rparr>) x)"
    if "net_wf x" for x :: "'a net" using that tcb_of_wf [OF that] by (simp_all add: net_wf_upd tcb_state_wf)
  show ?thesis
    using a b c shut [OF a] shut [OF b] shut [OF c] by (cases fin; cases "p = []") (simp_all add: open_segment_def Let_def)
qed

lemma by_state_wf:
  assumes "net_wf s"
  shows "net_wf (by_state cd q a f p s)"
proof -
  let ?s = "tcp_upd (\<lambda>t. t\<lparr>RCV_NXT := q + 1, SND_UNA := a, SND_NXT := a, STATE := Established\<rparr>) s"
  have "net_wf (send_ack cd ?s)" if "STATE (TCP s) = SynSent"
    using assms that tcb_of_wf [OF assms] by (simp add: net_wf_upd tcb_state_wf)
  then show ?thesis using assms open_segment_wf [OF assms] by (cases "STATE (TCP s)") (simp_all add: by_state_def)
qed

lemma tcp_input_wf:
  assumes "net_wf s"
  shows "net_wf (tcp_input cd q a f p s)"
proof -
  let ?s = "tcp_upd (\<lambda>t. t\<lparr>SEGMENTS_IN := wadd64 (SEGMENTS_IN t) 1\<rparr>) s"
  have s: "net_wf ?s" using assms tcb_of_wf [OF assms] by (simp add: net_wf_upd)
  have "net_wf (tcp_upd (\<lambda>t. t\<lparr>STATE := Failed\<rparr>) ?s)" "net_wf (tcp_upd (\<lambda>t. (ack_advance a t)\<lparr>RETRIES := 0\<rparr>) ?s)"
    using s tcb_of_wf [OF s] by (simp_all add: net_wf_upd tcb_state_wf ack_advance_wf)
  then show ?thesis using s by (simp add: tcp_input_def Let_def by_state_wf)
qed

lemma tcp_handle_wf: "net_wf s \<Longrightarrow> pred_option net_wf (tcp_handle cd src b s)"
  unfolding tcp_handle_def by (intro outcome tcp_input_wf)

lemma resend_wf: "net_wf s \<Longrightarrow> net_wf (snd (resend cd i e sent s))"
proof (induction cd i e sent s rule: resend.induct)
  case (1 cd i e sent s)
  obtain ok s' where r: "emit_slot cd i s = (ok, s')" by fastforce
  have "net_wf s'" using emit_slot_wf [of cd i s] r "1.prems" by simp
  then show ?case using "1.IH" [OF _ r [symmetric] refl] r "1.prems" by (auto simp: resend.simps [of cd i e sent s])
qed

lemma tcp_tick_wf:
  assumes "net_wf s"
  shows "net_wf (tcp_tick cd s)"
proof -
  have up: "net_wf (tcp_upd (\<lambda>t. t\<lparr>RETRIES := n\<rparr>) x)" "net_wf (tcp_upd (\<lambda>t. t\<lparr>STATE := Failed, ACTIVE := False\<rparr>) x)"
    "net_wf (tcp_upd (\<lambda>t. t\<lparr>RETRANSMITS := wadd64 (RETRANSMITS t) 1\<rparr>) x)" if "net_wf x" for x :: "'a net" and n
    using that tcb_of_wf [OF that] by (simp_all add: net_wf_upd tcb_state_wf)
  have "net_wf (snd (emit cd (ISS (TCP s)) 2 [] s))" using assms by simp
  moreover have "net_wf (snd (resend cd (TX_HEAD (TCP s)) (TX_TAIL (TCP s)) False s))" using assms by (rule resend_wf)
  ultimately show ?thesis
    using assms up by (simp add: tcp_tick_def case_prod_unfold Let_def)
qed

lemma rx_release_wf:
  assumes "net_wf s"
  shows "net_wf (rx_release cd n s)"
proof -
  let ?n = "min n (rx_len (TCP s))"
  let ?t = "(TCP s)\<lparr>RX_HEAD := RX_HEAD (TCP s) + of_nat ?n\<rparr>"
  have "length (rx_data ?t) \<le> rx_len (TCP s)" using rx_release_data [of ?n "TCP s"] by simp
  then have "tcb_wf ?t" using tcb_of_wf [OF assms] by (auto simp: tcb_wf_def)
  then have "net_wf (tcp_upd (\<lambda>t. t\<lparr>RX_HEAD := RX_HEAD t + of_nat ?n\<rparr>) s)" using assms by (simp add: net_wf_upd)
  then show ?thesis using assms by (simp add: rx_release_def Let_def)
qed

lemma tcp_reset_wf: "net_wf s \<Longrightarrow> net_wf (tcp_upd tcp_reset s)"
  by (rule net_wf_upd) (auto simp: net_wf_def tcp_reset_def tcb_wf_def rx_len_def)

lemma tcp_connect_wf:
  assumes "net_wf s"
  shows "net_wf (snd (tcp_connect cd c c' ip port s))"
proof -
  let ?r = "tcp_upd (\<lambda>t. t\<lparr>REMOTE_IP := ip_to_u32 ip, REMOTE_PORT := port\<rparr>) (tcp_upd tcp_reset s)"
  have r: "net_wf ?r" using tcp_reset_wf [OF assms] by (simp add: net_wf_def tcp_upd_def)
  define x where "x = snd (alloc_port c ?r)"
  have x: "net_wf x" "TX_TAIL (TCP x) = TX_HEAD (TCP x)"
    using r by (simp_all add: x_def) (simp add: alloc_port_def Let_def tcp_upd_def tcp_reset_def)
  have syn: "tcb_wf (t\<lparr>STATE := SynSent\<rparr>)" if "tcb_wf t" "TX_TAIL t = TX_HEAD t" for t
    using that by (simp add: tcb_wf_def rx_len_def)
  show ?thesis
    unfolding tcp_connect_def case_prod_unfold Let_def x_def [symmetric] emit_wf
    using x tcb_of_wf [OF x(1)] by (simp add: net_wf_upd syn)
qed

subsection \<open>The stack\<close>

lemma ip_deliver_wf: "net_wf s \<Longrightarrow> pred_option net_wf (ip_deliver cd src p b s)"
  unfolding ip_deliver_def by (intro outcome icmp_handle_wf udp_handle_wf tcp_handle_wf)

lemma ip_handle_wf:
  assumes "net_wf s"
  shows "pred_option (\<lambda>r. net_wf (snd r)) (ip_handle_frame cd f s)"
proof -
  obtain v where v: "ip_classify (our_ip s) f = Some v" using ip_classify_total by blast
  show ?thesis
  proof (cases v)
    case (Ip_Accept src p b)
    let ?s = "s\<lparr>IP := (IP s)\<lparr>IP_RECEIVED := wadd64 (IP_RECEIVED (IP s)) 1\<rparr>\<rparr>"
    have "pred_option net_wf (ip_deliver cd src p b ?s)" using assms by (simp add: ip_deliver_wf)
    with v Ip_Accept show ?thesis by (cases "ip_deliver cd src p b ?s") (simp_all add: ip_handle_frame_def)
  qed (use v assms in \<open>simp_all add: ip_handle_frame_def\<close>)
qed

lemma dispatch_wf: "net_wf s \<Longrightarrow> pred_option net_wf (dispatch cd f s)"
  unfolding dispatch_def using ip_handle_wf [of s cd f]
  by (intro outcome arp_handle_wf) (simp_all add: option.pred_map comp_def)

lemma poll_frames_wf: "net_wf s \<Longrightarrow> pred_option net_wf (poll_frames cd k s)"
proof (induction k arbitrary: s)
  case (Suc k)
  obtain r n where r: "recv_frame cd BUF_SIZE (NIC s) = (r, n)" by fastforce
  show ?case
  proof (cases r)
    case (Some f)
    have "pred_option net_wf (dispatch cd f (s\<lparr>NIC := n\<rparr>))" using Suc.prems by (simp add: dispatch_wf)
    with Suc.IH r Some show ?thesis by (cases "dispatch cd f (s\<lparr>NIC := n\<rparr>)") simp_all
  qed (use r Suc.prems in simp)
qed simp

text \<open>What the rest of the kernel does to the stack.\<close>

inductive net_step :: "'c card \<Rightarrow> 'c net \<Rightarrow> 'c net \<Rightarrow> bool" for cd where
  frame_in: "dispatch cd f s = Some s' \<Longrightarrow> net_step cd s s'"
| clock: "net_step cd s (s\<lparr>TIMER_TICKS := t\<rparr>)"
| adapter: "net_step cd s (s\<lparr>NIC := n\<rparr>)"
| timers: "net_step cd s (tcp_tick cd (dns_tick cd (dhcp_tick cd s)))"
| fallback: "net_step cd s (set_our_ip FALLBACK_IP (s\<lparr>FALLBACK_APPLIED := True\<rparr>))"
| start_up: "net_step cd s (net_init cd tsc s)"
| ping: "net_step cd s (snd (icmp_request cd ip q s))"
| ping_reply: "net_step cd s (snd (take_reply s))"
| resolve_name: "net_step cd s (snd (dns_start cd name s))"
| name_result: "net_step cd s (snd (take_result s))"
| datagram: "net_step cd s (snd (udp_send cd ip dp sp b s))"
| reset_connection: "net_step cd s (tcp_upd tcp_reset s)"
| open_connection: "net_step cd s (snd (tcp_connect cd c c' ip port s))"
| write_data: "net_step cd s (snd (tcp_send cd d s))"
| read_data: "net_step cd s (rx_release cd n s)"
| close_connection: "net_step cd s (tcp_close cd s)"

lemma net_init_wf: "net_wf s \<Longrightarrow> net_wf (net_init cd tsc s)"
  by (simp add: net_init_def dns_init_wf dhcp_init_wf)

lemma icmp_request_wf: "net_wf (snd (icmp_request cd ip q s)) = net_wf s"
  by (simp add: icmp_request_def case_prod_unfold Let_def)

lemma take_wf: "net_wf s \<Longrightarrow> net_wf (snd (take_reply s))" "net_wf s \<Longrightarrow> net_wf (snd (take_result s))"
  by (simp_all add: take_reply_def take_result_def dns_state_wf)

lemma net_step_wf: "net_step cd s s' \<Longrightarrow> net_wf s \<Longrightarrow> net_wf s'"
proof (induction rule: net_step.induct)
  case (frame_in f s s')
  then show ?case using dispatch_wf [of s cd f] by simp
qed (simp_all add: tcp_tick_wf dns_tick_wf net_init_wf icmp_request_wf take_wf dns_start_wf tcp_reset_wf tcp_connect_wf
    tcp_send_wf rx_release_wf tcp_close_wf)

lemma net_run_wf: "(net_step cd)\<^sup>*\<^sup>* s s' \<Longrightarrow> net_wf s \<Longrightarrow> net_wf s'"
  by (induction rule: rtranclp_induct) (auto dest: net_step_wf)

section \<open>Properties\<close>

text \<open>
  C30: no received frame makes the kernel panic on an index or a slice, whatever its length and
  contents and whatever the state of the stack: every handler returns, and so does a pass of the poll
  loop over a full receive ring.
\<close>

theorem net_no_panic:
  "\<exists>s' ws'. dispatch cd frame s = Some s' \<and> net_poll cd http_tick ws = Some ws'"
proof -
  obtain s' where s': "dispatch cd frame s = Some s'" using dispatch_total by blast
  obtain p where "poll_frames cd RX_DESC (snd ws) = Some p" using poll_frames_total by blast
  then have "\<exists>ws'. net_poll cd http_tick ws = Some ws'" by (cases ws) (simp add: net_poll_def)
  with s' show ?thesis by blast
qed

text \<open>
  C31: in every run of the stack, under any frames, timers, clock readings and calls from the rest of
  the kernel, the static arrays keep their lengths and the indices beside them stay inside: eight
  cache entries with addresses of six bytes, at most six registered ports each with its handler, a
  name of at most 63 bytes in its buffer, queued segments of at most 1460 bytes in eight slots, and
  never more than 262144 bytes in the receive ring.
\<close>

theorem net_run_typed:
  assumes "net_wf s" "(net_step cd)\<^sup>*\<^sup>* s s'"
  shows "net_wf s'"
  using net_run_wf [OF assms(2,1)] .

theorem net_run_typed_witness:
  "\<exists>s'. s' = tcp_close quiet_card (snd (tcp_send quiet_card [5, 6] sample_net)) \<and> net_wf s'"
proof -
  have wf: "net_wf sample_net"
    by (simp add: net_wf_def arp_wf_def udp_wf_def dns_wf_def tcb_wf_def rx_len_def sample_net_def idle_stack_def sample_tcb_def)
  have "(net_step quiet_card)\<^sup>*\<^sup>* sample_net (tcp_close quiet_card (snd (tcp_send quiet_card [5, 6] sample_net)))"
    by (rule converse_rtranclp_into_rtranclp, rule write_data, rule converse_rtranclp_into_rtranclp, rule close_connection,
        rule rtranclp.rtrancl_refl)
  from net_run_typed [OF wf this] show ?thesis by blast
qed

end
