(* ===== verification/E1000_Card.thy ===== *)
theory E1000_Card
  imports E1000
begin

text \<open>
  A card that follows the legacy descriptor protocol of the 8254x, and the driver of \<open>E1000\<close> over it:
  start-up leaves the rings agreed, frames sent reach the cable in order, and frames that arrive are
  received in order.
\<close>

section \<open>A card\<close>

text \<open>
  A card that follows the legacy descriptor protocol, with the registers the driver programs: for each
  direction the base (two halves), length, head and tail of the ring and the control register, and for
  the card its control register, interrupt mask and hardware address.  On its own and once enabled it
  takes one transmit descriptor between head and tail, reading address, length and command from the
  ring, and it stores one frame that waits on the cable in a free receive descriptor.  The command
  bits decide: a descriptor yields a frame when it is the end of a packet and asks for the check
  sequence, and it is marked done when it asks for the status report.  Received frames pass the
  address filter, and carry their check sequence (\<open>c_fcs\<close>) unless the card is told to strip it.  A reset
  clears the registers but the hardware address, and until it is over, after \<open>c_reset_time\<close> reads of
  the control register, the card ignores what is written.
\<close>

record chip_state =
  c_ring :: nat
  c_tx_len :: nat
  c_head :: nat
  c_tail :: nat
  c_tctl :: u32
  c_wire :: "bytes list"
  c_rx_ring :: nat
  c_rx_len :: nat
  c_rx_head :: nat
  c_rx_tail :: nat
  c_rctl :: u32
  c_in :: "bytes list"
  c_ctrl :: u32
  c_ims :: u32
  c_ral :: u32
  c_rah :: u32
  c_reset :: nat
  c_reset_time :: nat
  c_fcs :: "bytes \<Rightarrow> bytes"

definition tx_desc :: "chip_state \<times> dma \<Rightarrow> chip_state \<times> dma" where
  "tx_desc cm =
     (let (c, m) = cm;
          d = c_ring c + c_head c * 16;
          cmd = m (d + 11);
          frame = peek (unat (from_le64 (peek d 8 m))) (unat (from_le16 (m (d + 8)) (m (d + 9)))) m
      in (c\<lparr>c_head := (c_head c + 1) mod (c_tx_len c div 16),
            c_wire := (if bit cmd 0 \<and> bit cmd 1 then c_wire c @ [frame] else c_wire c)\<rparr>,
          if bit cmd 3 then poke (d + 12) [1] m else m))"

definition tx_run :: "chip_state \<times> dma \<Rightarrow> chip_state \<times> dma" where
  "tx_run cm = (if bit (c_tctl (fst cm)) 1 \<and> c_head (fst cm) \<noteq> c_tail (fst cm) then tx_desc cm else cm)"

definition rx_accepts :: "chip_state \<Rightarrow> bytes \<Rightarrow> bool" where
  "rx_accepts c f =
     (if f \<noteq> [] \<and> bit (hd f) 0 then bit (c_rctl c) 4 \<or> bit (c_rctl c) 15 \<and> take 6 f = replicate 6 255
      else bit (c_rctl c) 3 \<or>
        take 6 f = [ucast (c_ral c), ucast (drop_bit 8 (c_ral c)), ucast (drop_bit 16 (c_ral c)),
                    ucast (drop_bit 24 (c_ral c)), ucast (c_rah c), ucast (drop_bit 8 (c_rah c))])"

definition rx_deliver :: "chip_state \<times> dma \<Rightarrow> chip_state \<times> dma" where
  "rx_deliver cm =
     (let (c, m) = cm; d = c_rx_ring c + c_rx_head c * 16 in
      case c_in c of
        [] \<Rightarrow> (c, m)
      | f # fs \<Rightarrow>
          if \<not> bit (c_rctl c) 1 \<or> c_rx_head c = c_rx_tail c then (c, m)
          else if \<not> rx_accepts c f then (c\<lparr>c_in := fs\<rparr>, m)
          else
            let f = (if bit (c_rctl c) 26 then f else f @ c_fcs c f) in
            (c\<lparr>c_rx_head := (c_rx_head c + 1) mod (c_rx_len c div 16), c_in := fs\<rparr>,
             poke (d + 12) [3] (poke (d + 8) (to_le16 (of_nat (length f)))
               (poke (unat (from_le64 (peek d 8 m))) f m))))"

definition reset_regs :: "chip_state \<Rightarrow> chip_state" where
  "reset_regs c = c\<lparr>c_ring := 0, c_tx_len := 0, c_head := 0, c_tail := 0, c_tctl := 0, c_rx_ring := 0, c_rx_len := 0,
     c_rx_head := 0, c_rx_tail := 0, c_rctl := 0, c_ctrl := 0, c_ims := 0, c_reset := c_reset_time c\<rparr>"

definition reg_effect :: "u32 \<Rightarrow> u32 \<Rightarrow> chip_state \<Rightarrow> chip_state" where
  "reg_effect reg v c =
     (if reg = REG_TDBAL then c\<lparr>c_ring := c_ring c div 2 ^ 32 * 2 ^ 32 + unat v\<rparr>
      else if reg = REG_TDBAH then c\<lparr>c_ring := unat v * 2 ^ 32 + c_ring c mod 2 ^ 32\<rparr>
      else if reg = REG_TDLEN then c\<lparr>c_tx_len := unat v\<rparr>
      else if reg = REG_TDH then c\<lparr>c_head := unat v\<rparr>
      else if reg = REG_TDT then c\<lparr>c_tail := unat v\<rparr>
      else if reg = REG_TCTL then c\<lparr>c_tctl := v\<rparr>
      else if reg = REG_RDBAL then c\<lparr>c_rx_ring := c_rx_ring c div 2 ^ 32 * 2 ^ 32 + unat v\<rparr>
      else if reg = REG_RDBAH then c\<lparr>c_rx_ring := unat v * 2 ^ 32 + c_rx_ring c mod 2 ^ 32\<rparr>
      else if reg = REG_RDLEN then c\<lparr>c_rx_len := unat v\<rparr>
      else if reg = REG_RDH then c\<lparr>c_rx_head := unat v\<rparr>
      else if reg = REG_RDT then c\<lparr>c_rx_tail := unat v\<rparr>
      else if reg = REG_RCTL then c\<lparr>c_rctl := v\<rparr>
      else if reg = REG_IMC then c\<lparr>c_ims := c_ims c AND NOT v\<rparr>
      else if reg = REG_CTRL then (if bit v 26 then reset_regs c else c\<lparr>c_ctrl := v\<rparr>)
      else c)"

definition card_write :: "u32 \<Rightarrow> u32 \<Rightarrow> chip_state \<times> dma \<Rightarrow> chip_state \<times> dma" where
  "card_write reg v cm = (if c_reset (fst cm) \<noteq> 0 then cm else (reg_effect reg v (fst cm), snd cm))"

definition reg_value :: "u32 \<Rightarrow> chip_state \<Rightarrow> u32" where
  "reg_value reg c =
     (if reg = REG_RAL0 then c_ral c else if reg = REG_RAH0 then c_rah c else if reg = REG_CTRL then c_ctrl c
      else if reg = REG_NIC_STATUS then (if bit (c_ctrl c) 6 then STATUS_LU else 0) else 0)"

definition card_read :: "u32 \<Rightarrow> chip_state \<times> dma \<Rightarrow> u32 \<times> (chip_state \<times> dma)" where
  "card_read reg cm =
     (let (c, m) = cm in
      if c_reset c = 0 then (reg_value reg c, cm)
      else if reg = REG_CTRL then (CTRL_RST, (c\<lparr>c_reset := c_reset c - 1\<rparr>, m))
      else (0, cm))"

definition legacy_card :: "chip_state card" where
  "legacy_card = \<lparr>reg_write = card_write, reg_read = card_read, card_runs = (\<lambda>cm. rx_deliver (tx_run cm))\<rparr>"

lemmas card_regs = REG_TDBAL_def REG_TDBAH_def REG_TDLEN_def REG_TDH_def REG_TDT_def REG_TCTL_def REG_RDBAL_def
  REG_RDBAH_def REG_RDLEN_def REG_RDH_def REG_RDT_def REG_RCTL_def REG_CTRL_def REG_NIC_STATUS_def REG_IMC_def
  REG_MTA_def REG_RAL0_def REG_RAH0_def

text \<open>
  The driver's view and the card's agree.  The state of a receive descriptor: free, or holding a frame.
\<close>

definition addrs_ok :: "dma \<Rightarrow> nat \<Rightarrow> nat \<Rightarrow> bool" where
  "addrs_ok m ring bufs \<longleftrightarrow> (\<forall>i < 8. from_le64 (peek (ring + i * 16) 8 m) = of_nat (bufs + i * 2048))"

definition slot_ok :: "dma \<Rightarrow> nat \<Rightarrow> nat \<Rightarrow> nat \<Rightarrow> bytes option \<Rightarrow> bool" where
  "slot_ok m ring bufs i fo \<longleftrightarrow>
     (case fo of
        None \<Rightarrow> m (ring + i * 16 + 12) AND 1 = 0
      | Some f \<Rightarrow> m (ring + i * 16 + 12) AND 1 \<noteq> 0 \<and>
          unat (from_le16 (m (ring + i * 16 + 8)) (m (ring + i * 16 + 9))) = length f \<and>
          peek (bufs + i * 2048) (length f) m = f)"

definition tx_ok :: "chip_state \<Rightarrow> dma \<Rightarrow> nat \<Rightarrow> nat \<Rightarrow> nat \<Rightarrow> bool" where
  "tx_ok c m ring bufs tail \<longleftrightarrow> c_head c = tail \<and> c_tail c = tail \<and> c_ring c = ring \<and> c_tx_len c = 128 \<and>
     bit (c_tctl c) 1 \<and> c_reset c = 0 \<and> tail < 8 \<and> addrs_ok m ring bufs"

definition rx_ok :: "chip_state \<Rightarrow> dma \<Rightarrow> nat \<Rightarrow> nat \<Rightarrow> nat \<Rightarrow> bytes list \<Rightarrow> bool" where
  "rx_ok c m ring bufs cur pend \<longleftrightarrow> (\<forall>b \<in> {1, 3, 4, 26}. bit (c_rctl c) b) \<and> c_rx_ring c = ring \<and>
     c_rx_len c = 128 \<and> cur < 8 \<and> length pend \<le> 7 \<and>
     c_rx_head c = (cur + length pend) mod 8 \<and> c_rx_tail c = (cur + 7) mod 8 \<and> addrs_ok m ring bufs \<and>
     (\<forall>j < 8. slot_ok m ring bufs ((cur + j) mod 8) (if j < length pend then Some (pend ! j) else None))"

definition areas :: "'c nic \<Rightarrow> block list" where
  "areas n = [(unat (TX_RING n), 128), (unat (TX_BUFS n), 16384), (unat (RX_RING n), 128), (unat (RX_BUFS n), 16384)]"

text \<open>The adapter is up, and \<open>q\<close> are the frames it will yield, in the ring or still on the cable.\<close>

definition nic_ok :: "chip_state nic \<Rightarrow> bytes list \<Rightarrow> bool" where
  "nic_ok n q \<longleftrightarrow> NIC_PRESENT n \<and> MMIO_BASE n \<noteq> 0 \<and> TX_RING n \<noteq> 0 \<and> RX_RING n \<noteq> 0 \<and>
     all_apart (areas n) \<and> blocks_below (2 ^ 32) (areas n) \<and> (\<forall>f \<in> set q. length f \<le> 2048) \<and>
     tx_ok (fst (chip n)) (dma_of n) (unat (TX_RING n)) (unat (TX_BUFS n)) (NIC_TX_TAIL n) \<and>
     (\<exists>pend. q = pend @ c_in (fst (chip n)) \<and>
        rx_ok (fst (chip n)) (dma_of n) (unat (RX_RING n)) (unat (RX_BUFS n)) (RX_CUR n) pend)"

section \<open>What does not touch a ring keeps it\<close>

definition same_on :: "nat \<Rightarrow> nat \<Rightarrow> dma \<Rightarrow> dma \<Rightarrow> bool" where
  "same_on a k m m' \<longleftrightarrow> (\<forall>x. a \<le> x \<and> x < a + k \<longrightarrow> m x = m' x)"

lemma same_on_poke:
  assumes "b + k \<le> a \<or> a + length bs \<le> b" "same_on b k m m'"
  shows "same_on b k m (poke a bs m')"
  unfolding same_on_def
proof (intro allI impI)
  fix x assume x: "b \<le> x \<and> x < b + k"
  then have "poke a bs m' x = m' x" using assms(1) by (intro poke_other) auto
  with x assms(2) show "m x = poke a bs m' x" by (simp add: same_on_def)
qed

lemma same_on_refl [simp]: "same_on a k m m"
  by (simp add: same_on_def)

lemma same_on_peek: "same_on a k m m' \<Longrightarrow> a \<le> b \<Longrightarrow> b + l \<le> a + k \<Longrightarrow> peek b l m' = peek b l m"
  by (auto simp: same_on_def peek_def)

lemma addrs_ok_same:
  assumes "same_on ring 128 m m'" "addrs_ok m ring bufs"
  shows "addrs_ok m' ring bufs"
  using assms same_on_peek [OF assms(1)] by (auto simp: addrs_ok_def)

lemma slot_ok_same:
  assumes "same_on ring 128 m m'" "same_on bufs 16384 m m'" "i < 8" "pred_option (\<lambda>f. length f \<le> 2048) fo"
    "slot_ok m ring bufs i fo"
  shows "slot_ok m' ring bufs i fo"
proof -
  have "m' (ring + i * 16 + k) = m (ring + i * 16 + k)" if "k < 16" for k
    using assms(1,3) that by (auto simp: same_on_def)
  moreover have "peek (bufs + i * 2048) (length f) m' = peek (bufs + i * 2048) (length f) m" if "fo = Some f" for f
    using assms(3,4) that by (intro same_on_peek [OF assms(2)]) auto
  ultimately show ?thesis
    using assms(5) by (auto simp: slot_ok_def split: option.splits)
qed

lemma tx_ok_same: "same_on ring 128 m m' \<Longrightarrow> tx_ok c m ring bufs t \<Longrightarrow> tx_ok c m' ring bufs t"
  using addrs_ok_same by (auto simp: tx_ok_def)

lemma rx_ok_same:
  assumes "same_on ring 128 m m'" "same_on bufs 16384 m m'" "\<forall>f \<in> set pend. length f \<le> 2048" "rx_ok c m ring bufs cur pend"
  shows "rx_ok c m' ring bufs cur pend"
proof -
  have "slot_ok m' ring bufs ((cur + j) mod 8) (if j < length pend then Some (pend ! j) else None)" if "j < 8" for j
    using assms that by (intro slot_ok_same [OF assms(1,2)]) (auto simp: rx_ok_def)
  with assms addrs_ok_same [OF assms(1)] show ?thesis by (auto simp: rx_ok_def)
qed


section \<open>The card runs\<close>

lemma apart4:
  assumes "all_apart (areas n)"
  shows "unat (TX_RING n) + 128 \<le> unat (RX_RING n) \<or> unat (RX_RING n) + 128 \<le> unat (TX_RING n)"
    "unat (TX_RING n) + 128 \<le> unat (RX_BUFS n) \<or> unat (RX_BUFS n) + 16384 \<le> unat (TX_RING n)"
    "unat (TX_BUFS n) + 16384 \<le> unat (RX_RING n) \<or> unat (RX_RING n) + 128 \<le> unat (TX_BUFS n)"
    "unat (TX_BUFS n) + 16384 \<le> unat (RX_BUFS n) \<or> unat (RX_BUFS n) + 16384 \<le> unat (TX_BUFS n)"
    "unat (TX_RING n) + 128 \<le> unat (TX_BUFS n) \<or> unat (TX_BUFS n) + 16384 \<le> unat (TX_RING n)"
    "unat (RX_RING n) + 128 \<le> unat (RX_BUFS n) \<or> unat (RX_BUFS n) + 16384 \<le> unat (RX_RING n)"
  using assms by (auto simp: areas_def all_apart_def apart_def)

text \<open>One descriptor of a ring filled or cleared: its own slot changes, the others do not.\<close>

definition rx_fill :: "nat \<Rightarrow> nat \<Rightarrow> bytes \<Rightarrow> dma \<Rightarrow> dma" where
  "rx_fill d buf f m = poke (d + 12) [3] (poke (d + 8) (to_le16 (of_nat (length f))) (poke buf f m))"

lemma slot_ok_fill:
  assumes sep: "ring + 128 \<le> bufs \<or> bufs + 16384 \<le> ring" and i: "i < 8" and f: "length f \<le> 2048"
  shows "slot_ok (rx_fill (ring + i * 16) (bufs + i * 2048) f m) ring bufs i (Some f)"
proof -
  let ?d = "ring + i * 16" and ?b = "bufs + i * 2048"
  let ?m = "rx_fill ?d ?b f m"
  have "?m (?d + 12) = 3" by (simp add: rx_fill_def poke_def)
  moreover have "from_le16 (?m (?d + 8)) (?m (?d + 9)) = of_nat (length f)"
    by (simp add: rx_fill_def poke_def to_le16_def to_be16_def from_le16_def from_be16_to_be16)
  moreover have "peek ?b (length f) ?m = f"
    unfolding rx_fill_def using sep i f
    by (subst peek_poke_other, force, subst peek_poke_other, force) (simp add: peek_poke_same)
  ultimately show ?thesis
    using f by (simp add: slot_ok_def unat_of_nat)
qed

lemma slot_ok_fill_other:
  assumes sep: "ring + 128 \<le> bufs \<or> bufs + 16384 \<le> ring" and i: "i < 8" "i' < 8" "i' \<noteq> i" and f: "length f \<le> 2048"
    and fo: "pred_option (\<lambda>f. length f \<le> 2048) fo" "slot_ok m ring bufs i' fo"
  shows "slot_ok (rx_fill (ring + i * 16) (bufs + i * 2048) f m) ring bufs i' fo"
proof -
  let ?m = "rx_fill (ring + i * 16) (bufs + i * 2048) f m"
  have "i + 1 \<le> i' \<or> i' + 1 \<le> i" using i by arith
  then have far: "i * 16 + 16 \<le> i' * 16 \<or> i' * 16 + 16 \<le> i * 16" "i * 2048 + 2048 \<le> i' * 2048 \<or> i' * 2048 + 2048 \<le> i * 2048"
    by auto
  have "?m (ring + i' * 16 + k) = m (ring + i' * 16 + k)" if "k < 16" for k
    unfolding rx_fill_def using sep i far f that
    by (subst poke_other, force, subst poke_other, force, subst poke_other, force) simp
  moreover have "peek (bufs + i' * 2048) (length g) ?m = peek (bufs + i' * 2048) (length g) m" if "fo = Some g" for g
    unfolding rx_fill_def using sep i far f fo(1) that
    by (subst peek_poke_other, force, subst peek_poke_other, force, subst peek_poke_other, force) simp
  ultimately show ?thesis
    using fo(2) by (auto simp: slot_ok_def split: option.splits)
qed

lemma addrs_ok_fill:
  assumes sep: "ring + 128 \<le> bufs \<or> bufs + 16384 \<le> ring" and i: "i < 8" and f: "length f \<le> 2048" and "addrs_ok m ring bufs"
  shows "addrs_ok (rx_fill (ring + i * 16) (bufs + i * 2048) f m) ring bufs"
proof -
  have "peek (ring + j * 16) 8 (rx_fill (ring + i * 16) (bufs + i * 2048) f m) = peek (ring + j * 16) 8 m" if "j < 8" for j
  proof -
    have far: "j * 16 + 8 \<le> i * 16 + 8 \<or> i * 16 + 16 \<le> j * 16" by (cases "j \<le> i") auto
    have "ring + j * 16 + 8 \<le> bufs + i * 2048 \<or> bufs + i * 2048 + length f \<le> ring + j * 16"
      using sep i f that by auto
    moreover have "peek (ring + j * 16) 8 (poke (ring + i * 16 + 12) [3] x) = peek (ring + j * 16) 8 x"
      "peek (ring + j * 16) 8 (poke (ring + i * 16 + 8) (to_le16 w) x) = peek (ring + j * 16) 8 x" for x w
      using far by (auto intro!: peek_poke_other)
    ultimately show ?thesis by (simp add: rx_fill_def peek_poke_other)
  qed
  with assms(4) show ?thesis by (simp add: addrs_ok_def)
qed

text \<open>Delivering a frame moves it from the cable to the ring.\<close>

lemma mod8_inj: "j < 8 \<Longrightarrow> k < 8 \<Longrightarrow> (c + j) mod 8 = (c + k) mod 8 \<longleftrightarrow> j = (k :: nat)"
  using mod_add_inj [of j 8 k c] by simp

lemma rx_deliver_ok:
  assumes rx: "rx_ok c m ring bufs cur pend" and sep: "ring + 128 \<le> bufs \<or> bufs + 16384 \<le> ring"
    and fit: "bufs + 16384 \<le> 2 ^ 32" and small: "\<forall>f \<in> set (pend @ c_in c). length f \<le> 2048"
  obtains c' m' pend' where "rx_deliver (c, m) = (c', m')" "rx_ok c' m' ring bufs cur pend'"
    "pend' @ c_in c' = pend @ c_in c" "pend' = [] \<longrightarrow> pend @ c_in c = []"
    "\<exists>h i. c' = c\<lparr>c_rx_head := h, c_in := i\<rparr>"
    "\<And>a k. a + k \<le> ring \<or> ring + 128 \<le> a \<Longrightarrow> a + k \<le> bufs \<or> bufs + 16384 \<le> a \<Longrightarrow> same_on a k m m'"
proof (cases "c_in c = [] \<or> c_rx_head c = c_rx_tail c")
  case True
  have "c_rx_head c = cur \<and> c_rx_tail c \<noteq> cur" if "pend = []"
    using rx that by (simp add: rx_ok_def) presburger
  then have "pend = [] \<longrightarrow> pend @ c_in c = []" using True by auto
  moreover have "rx_deliver (c, m) = (c, m)"
    using True by (auto simp: rx_deliver_def Let_def split: list.splits)
  moreover have "\<exists>h i. c = c\<lparr>c_rx_head := h, c_in := i\<rparr>"
    by (rule exI [of _ "c_rx_head c"], rule exI [of _ "c_in c"]) simp
  ultimately show ?thesis
    using rx by (intro that [of c m pend]) simp_all
next
  case False
  then obtain f fs where f: "c_in c = f # fs" and full: "c_rx_head c \<noteq> c_rx_tail c"
    by (cases "c_in c") auto
  let ?h = "(cur + length pend) mod 8" and ?pend = "pend @ [f]"
  let ?m = "rx_fill (ring + ?h * 16) (bufs + ?h * 2048) f m"
  let ?c = "c\<lparr>c_rx_head := (?h + 1) mod 8, c_in := fs\<rparr>"
  have len: "length f \<le> 2048" using small f by simp
  have "length pend \<noteq> 7" using full rx by (auto simp: rx_ok_def)
  then have short: "length pend < 7" using rx by (simp add: rx_ok_def)
  have h: "?h < 8" by simp
  have "bufs + ?h * 2048 < 2 ^ 64" using fit h by simp
  then have "unat (of_nat (bufs + ?h * 2048) :: u64) = bufs + ?h * 2048"
    by (simp add: unat_of_nat del: of_nat_add of_nat_mult)
  then have buf: "unat (from_le64 (peek (ring + ?h * 16) 8 m)) = bufs + ?h * 2048"
    using rx by (simp add: rx_ok_def addrs_ok_def)
  have run: "rx_deliver (c, m) = (?c, ?m)"
    using rx f full buf by (simp add: rx_deliver_def rx_ok_def rx_fill_def rx_accepts_def Let_def)
  have slots: "slot_ok ?m ring bufs ((cur + j) mod 8) (if j < length ?pend then Some (?pend ! j) else None)" if "j < 8" for j
  proof (cases "j = length pend")
    case True
    then show ?thesis using slot_ok_fill [OF sep _ len, of ?h m] by simp
  next
    case False
    then have "(cur + j) mod 8 \<noteq> ?h" using that short mod8_inj by simp
    then show ?thesis
      using False rx that small by (intro slot_ok_fill_other [OF sep _ _ _ len]) (auto simp: rx_ok_def nth_append)
  qed
  have "rx_ok ?c ?m ring bufs cur ?pend"
    using rx short slots addrs_ok_fill [OF sep _ len, of ?h m] by (simp add: rx_ok_def mod_Suc_eq)
  moreover have "same_on a k m ?m" if "a + k \<le> ring \<or> ring + 128 \<le> a" "a + k \<le> bufs \<or> bufs + 16384 \<le> a" for a k
  proof -
    have r: "a + k \<le> ring + ?h * 16 + 8 \<or> ring + ?h * 16 + 16 \<le> a" using that(1) h by (elim disjE) linarith+
    have b: "a + k \<le> bufs + ?h * 2048 \<or> bufs + ?h * 2048 + length f \<le> a" using that(2) h len by (elim disjE) linarith+
    show ?thesis
      unfolding rx_fill_def
    proof (intro same_on_poke same_on_refl)
      show "a + k \<le> ring + ?h * 16 + 12 \<or> ring + ?h * 16 + 12 + length [3 :: u8] \<le> a" using r by (elim disjE) simp_all
      show "a + k \<le> ring + ?h * 16 + 8 \<or> ring + ?h * 16 + 8 + length (to_le16 (of_nat (length f))) \<le> a" using r by (elim disjE) simp_all
    qed (rule b)
  qed
  ultimately show ?thesis
    using run f by (intro that [of ?c ?m ?pend]) (simp_all, blast)
qed

lemma nic_ok_runs:
  assumes ok: "nic_ok n q"
  obtains c' m' pend where "rx_deliver (tx_run (chip n)) = (c', m')" "nic_ok (n\<lparr>chip := (c', m')\<rparr>) q" "q = pend @ c_in c'"
    "rx_ok c' m' (unat (RX_RING n)) (unat (RX_BUFS n)) (RX_CUR n) pend" "pend = [] \<longrightarrow> q = []"
    "c_wire c' = c_wire (fst (chip n))" "same_on (unat (TX_RING n)) 128 (dma_of n) m'"
proof -
  obtain pend where q: "q = pend @ c_in (fst (chip n))"
    and rx: "rx_ok (fst (chip n)) (dma_of n) (unat (RX_RING n)) (unat (RX_BUFS n)) (RX_CUR n) pend"
    using ok by (auto simp: nic_ok_def)
  have ar: "all_apart (areas n)" "blocks_below (2 ^ 32) (areas n)" using ok by (simp_all add: nic_ok_def)
  note ap = apart4 [OF ar(1)]
  have fit: "unat (RX_BUFS n) + 16384 \<le> 2 ^ 32" using ar(2) by (simp add: areas_def blocks_below_def)
  have small: "\<forall>f \<in> set (pend @ c_in (fst (chip n))). length f \<le> 2048" using ok q by (simp add: nic_ok_def)
  obtain c' m' pend' where run: "rx_deliver (fst (chip n), dma_of n) = (c', m')"
    and rx': "rx_ok c' m' (unat (RX_RING n)) (unat (RX_BUFS n)) (RX_CUR n) pend'"
    and q': "pend' @ c_in c' = q" and ne: "pend' = [] \<longrightarrow> q = []"
    and tx: "\<exists>h i. c' = (fst (chip n))\<lparr>c_rx_head := h, c_in := i\<rparr>"
    and same: "\<And>a k. a + k \<le> unat (RX_RING n) \<or> unat (RX_RING n) + 128 \<le> a \<Longrightarrow>
      a + k \<le> unat (RX_BUFS n) \<or> unat (RX_BUFS n) + 16384 \<le> a \<Longrightarrow> same_on a k (dma_of n) m'"
    using rx_deliver_ok [OF rx ap(6) fit small] q by metis
  have st: "same_on (unat (TX_RING n)) 128 (dma_of n) m'" by (rule same [OF ap(1,2)])
  have "tx_ok c' m' (unat (TX_RING n)) (unat (TX_BUFS n)) (NIC_TX_TAIL n)"
    using addrs_ok_same [OF st, of "unat (TX_BUFS n)"] ok tx by (auto simp: nic_ok_def tx_ok_def)
  then have "nic_ok (n\<lparr>chip := (c', m')\<rparr>) q"
    using ok rx' q' by (auto simp: nic_ok_def areas_def dma_of_def)
  moreover have "tx_run (chip n) = chip n" using ok by (simp add: tx_run_def nic_ok_def tx_ok_def)
  moreover have "c_wire c' = c_wire (fst (chip n))" using tx by auto
  ultimately show thesis
    using run rx' q' ne st by (intro that [of c' m' pend']) (simp_all add: dma_of_def)
qed

section \<open>Sending\<close>

lemma fill_tx_reads:
  assumes "frame \<noteq> []" "length frame \<le> 2048" "d + 16 \<le> buf \<or> buf + 2048 \<le> d"
  shows "peek buf (length frame) (fill_tx buf d frame m) = frame"
    "from_le16 (fill_tx buf d frame m (d + 8)) (fill_tx buf d frame m (d + 9)) = of_nat (length frame)"
    "fill_tx buf d frame m (d + 11) = TXD_CMD"
    "\<And>a n. (a + n \<le> buf \<or> buf + 2048 \<le> a) \<Longrightarrow> a + n \<le> d + 8 \<or> d + 16 \<le> a \<Longrightarrow> same_on a n m (fill_tx buf d frame m)"
proof -
  show "peek buf (length frame) (fill_tx buf d frame m) = frame"
    using assms(3,2) unfolding fill_tx_def by (elim disjE) (simp_all add: peek_poke_other peek_poke_same)
  show "from_le16 (fill_tx buf d frame m (d + 8)) (fill_tx buf d frame m (d + 9)) = of_nat (length frame)"
    unfolding fill_tx_def
    by (simp add: poke_def to_le16_def to_be16_def from_le16_def from_be16_to_be16)
  show "fill_tx buf d frame m (d + 11) = TXD_CMD"
    unfolding fill_tx_def by (simp add: poke_def)
  show "same_on a n m (fill_tx buf d frame m)"
    if "a + n \<le> buf \<or> buf + 2048 \<le> a" "a + n \<le> d + 8 \<or> d + 16 \<le> a" for a n
    unfolding fill_tx_def using that assms by (intro same_on_poke same_on_refl) auto
qed

text \<open>The descriptor handed over is transmitted when the card runs next.\<close>

lemma tdt_transmits:
  assumes tx: "tx_ok c m ring bufs t" and sep: "ring + 128 \<le> bufs \<or> bufs + 16384 \<le> ring" and fit: "bufs + 16384 \<le> 2 ^ 32"
    and f: "frame \<noteq> []" "length frame \<le> 2048"
  shows "tx_run (card_write REG_TDT (of_nat ((t + 1) mod 8)) (c, fill_tx (bufs + t * 2048) (ring + t * 16) frame m)) =
    (c\<lparr>c_tail := (t + 1) mod 8, c_head := (t + 1) mod 8, c_wire := c_wire c @ [frame]\<rparr>,
     poke (ring + t * 16 + 12) [1] (fill_tx (bufs + t * 2048) (ring + t * 16) frame m))"
proof -
  let ?d = "ring + t * 16" and ?buf = "bufs + t * 2048" and ?next = "(t + 1) mod 8"
  let ?m' = "fill_tx ?buf ?d frame m"
  have t: "t < 8" using tx by (simp add: tx_ok_def)
  have far: "?d + 16 \<le> ?buf \<or> ?buf + 2048 \<le> ?d" using sep t by auto
  note fill = fill_tx_reads [OF f far, where m = m]
  have "peek ?d 8 ?m' = peek ?d 8 m" by (rule same_on_peek [OF fill(4) [of ?d 8]]) (use far in auto)
  moreover have "from_le64 (peek ?d 8 m) = of_nat ?buf" using tx t by (simp add: tx_ok_def addrs_ok_def)
  moreover have "unat (of_nat ?buf :: u64) = ?buf" using fit t by (simp add: unat_of_nat del: of_nat_add of_nat_mult)
  ultimately have addr: "unat (from_le64 (peek ?d 8 ?m')) = ?buf" by simp
  have len: "unat (of_nat (length frame) :: u16) = length frame" using f by (simp add: unat_of_nat)
  have nx: "?next \<noteq> t" using t by (cases "t = 7") auto
  have "?next < 8" by simp
  then have un: "unat (of_nat ?next :: u32) = ?next" by (simp add: unat_of_nat)
  have "bit TXD_CMD 0" "bit TXD_CMD 1" "bit TXD_CMD 3" by (simp_all add: TXD_CMD_def bit_iff_odd_drop_bit)
  with tx addr len fill(1,2,3)
  have desc: "tx_desc (c\<lparr>c_tail := ?next\<rparr>, ?m') =
      (c\<lparr>c_tail := ?next, c_head := ?next, c_wire := c_wire c @ [frame]\<rparr>, poke (?d + 12) [1] ?m')"
    by (simp add: tx_desc_def tx_ok_def Let_def)
  have "card_write REG_TDT (of_nat ?next) (c, ?m') = (c\<lparr>c_tail := ?next\<rparr>, ?m')"
    using tx un by (simp add: card_write_def tx_ok_def reg_effect_def REG_TDT_def REG_TDBAL_def REG_TDBAH_def REG_TDLEN_def REG_TDH_def)
  with tx nx desc show ?thesis by (simp add: tx_run_def tx_ok_def)
qed

lemma send_frame_ok:
  assumes ok: "nic_ok n q" and f: "frame \<noteq> []" "length frame \<le> 2048"
  obtains n' where "send_frame legacy_card frame n = (True, n')" "nic_ok n' q"
    "c_wire (fst (chip n')) = c_wire (fst (chip n)) @ [frame]" "TX_STALLS n' = TX_STALLS n"
    "TX_FRAMES n' = TX_FRAMES n + 1" "MAC_LO n' = MAC_LO n" "MAC_HI n' = MAC_HI n"
proof -
  let ?t = "NIC_TX_TAIL n" and ?r = "unat (TX_RING n)" and ?b = "unat (TX_BUFS n)" and ?c = "fst (chip n)"
  let ?d = "?r + ?t * 16" and ?buf = "?b + ?t * 2048" and ?next = "(?t + 1) mod 8"
  let ?m' = "fill_tx ?buf ?d frame (dma_of n)"
  let ?m2 = "poke (?d + 12) [1] ?m'" and ?c' = "?c\<lparr>c_tail := ?next, c_head := ?next, c_wire := c_wire ?c @ [frame]\<rparr>"
  let ?cw = "card_write REG_TDT (of_nat ?next) (?c, ?m')"
  let ?n = "n\<lparr>NIC_TX_TAIL := ?next, chip := (?c', ?m2), TX_FRAMES := TX_FRAMES n + 1\<rparr>"
  have tx: "tx_ok ?c (dma_of n) ?r ?b ?t" and ar: "all_apart (areas n)" "blocks_below (2 ^ 32) (areas n)"
    using ok by (simp_all add: nic_ok_def)
  note ap = apart4 [OF ar(1)]
  have fit: "?b + 16384 \<le> 2 ^ 32" using ar(2) by (simp add: areas_def blocks_below_def)
  have t: "?t < 8" using tx by (simp add: tx_ok_def)
  have buf: "unat (TX_BUFS n + of_nat (?t * 2048)) = ?buf"
    using fit t by (subst unat_add_lem [THEN iffD1]) (simp_all add: unat_of_nat del: of_nat_mult)
  have far: "?d + 16 \<le> ?buf \<or> ?buf + 2048 \<le> ?d" using ap(5) t by auto
  note fill = fill_tx_reads(4) [OF f far, where m = "dma_of n"]
  have other: "same_on a k (dma_of n) ?m2" if "a + k \<le> ?r \<or> ?r + 128 \<le> a" "a + k \<le> ?b \<or> ?b + 16384 \<le> a" for a k
    using that t by (intro same_on_poke fill) auto
  have "addrs_ok ?m2 ?r ?b"
  proof -
    have "peek (?r + i * 16) 8 ?m2 = peek (?r + i * 16) 8 (dma_of n)" if "i < 8" for i
    proof (rule same_on_peek [where a = "?r + i * 16" and k = 8])
      have "i * 16 + 8 \<le> ?t * 16 + 8 \<or> ?t * 16 + 16 \<le> i * 16" by (cases "i \<le> ?t") auto
      then show "same_on (?r + i * 16) 8 (dma_of n) ?m2"
        using ap(5) that t by (intro same_on_poke fill) auto
    qed simp_all
    with tx show ?thesis by (simp add: tx_ok_def addrs_ok_def)
  qed
  then have tx': "tx_ok ?c' ?m2 ?r ?b ?next" using tx by (simp add: tx_ok_def)
  obtain pend where q: "q = pend @ c_in ?c" and rx: "rx_ok ?c (dma_of n) (unat (RX_RING n)) (unat (RX_BUFS n)) (RX_CUR n) pend"
    using ok by (auto simp: nic_ok_def)
  have "rx_ok ?c ?m2 (unat (RX_RING n)) (unat (RX_BUFS n)) (RX_CUR n) pend"
    using ok q ap by (intro rx_ok_same [OF other other _ rx]) (auto simp: nic_ok_def)
  then have rx': "rx_ok ?c' ?m2 (unat (RX_RING n)) (unat (RX_BUFS n)) (RX_CUR n) pend" by (simp add: rx_ok_def)
  have okn: "nic_ok ?n q"
    using ok tx' rx' q by (auto simp: nic_ok_def areas_def dma_of_def)
  obtain c3 m3 where run0: "rx_deliver (tx_run (chip ?n)) = (c3, m3)" and ok3: "nic_ok (?n\<lparr>chip := (c3, m3)\<rparr>) q"
    and w0: "c_wire c3 = c_wire (fst (chip ?n))" and same0: "same_on (unat (TX_RING ?n)) 128 (dma_of ?n) m3"
    by (rule nic_ok_runs [OF okn])
  have "tx_run (?c', ?m2) = (?c', ?m2)" by (simp add: tx_run_def)
  with run0 tdt_transmits [OF tx ap(5) fit f] have run: "rx_deliver (tx_run ?cw) = (c3, m3)" by simp
  have w3: "c_wire c3 = c_wire ?c @ [frame]" and same3: "same_on ?r 128 ?m2 m3"
    using w0 same0 by (simp_all add: dma_of_def)
  have "m3 (?d + 12) = ?m2 (?d + 12)" using same3 t by (auto simp: same_on_def)
  then have dd: "m3 (?d + 12) = 1" by (simp add: poke_def)
  have wait: "tx_wait legacy_card (?d + 12) 1000000 (n\<lparr>NIC_TX_TAIL := ?next, chip := ?cw, TX_FRAMES := TX_FRAMES n + 1\<rparr>) = ?n\<lparr>chip := (c3, m3)\<rparr>"
    using run dd by (subst tx_wait.simps) (simp add: legacy_card_def dma_of_def TXD_STAT_DD_def)
  have send: "send_frame legacy_card frame n = (True, ?n\<lparr>chip := (c3, m3)\<rparr>)"
    using ok f wait buf
    by (simp add: send_frame_def nic_ok_def BUF_SIZE_def TX_DESC_def mmio_write_def set_dma_def Let_def dma_of_def legacy_card_def)
  show thesis
    by (rule that [OF send ok3]) (simp_all add: w3)
qed

section \<open>Receiving\<close>

lemma take_peek: "take k (peek a l m) = peek a (min k l) m"
  by (rule nth_equalityI) (simp_all add: peek_def)

lemma slot_ok_clear:
  "slot_ok (poke (ring + i * 16 + 12) [0] m) ring bufs i None"
  by (simp add: slot_ok_def poke_def)

lemma slot_ok_clear_other:
  assumes "ring + 128 \<le> bufs \<or> bufs + 16384 \<le> ring" "i < 8" "i' < 8" "i' \<noteq> i"
    "pred_option (\<lambda>f. length f \<le> 2048) fo" "slot_ok m ring bufs i' fo"
  shows "slot_ok (poke (ring + i * 16 + 12) [0] m) ring bufs i' fo"
proof -
  let ?m = "poke (ring + i * 16 + 12) [0] m"
  have "i + 1 \<le> i' \<or> i' + 1 \<le> i" using assms(4) by arith
  then have far: "i * 16 + 16 \<le> i' * 16 \<or> i' * 16 + 16 \<le> i * 16" by auto
  have "?m (ring + i' * 16 + k) = m (ring + i' * 16 + k)" if "k < 16" for k
    using far that by (intro poke_other) auto
  moreover have "peek (bufs + i' * 2048) (length g) ?m = peek (bufs + i' * 2048) (length g) m" if "fo = Some g" for g
    using assms that by (intro peek_poke_other) auto
  ultimately show ?thesis
    using assms(6) by (auto simp: slot_ok_def split: option.splits)
qed

lemma rx_ok_next:
  assumes rx: "rx_ok c m ring bufs cur (f # ps)" and sep: "ring + 128 \<le> bufs \<or> bufs + 16384 \<le> ring"
    and small: "\<forall>g \<in> set (f # ps). length g \<le> 2048"
  shows "rx_ok (c\<lparr>c_rx_tail := cur\<rparr>) (poke (ring + cur * 16 + 12) [0] m) ring bufs ((cur + 1) mod 8) ps"
proof -
  let ?m = "poke (ring + cur * 16 + 12) [0] m"
  have cur: "cur < 8" and len: "length ps \<le> 6" using rx by (simp_all add: rx_ok_def)
  have sl: "slot_ok m ring bufs ((cur + k) mod 8) (if k < length (f # ps) then Some ((f # ps) ! k) else None)" if "k < 8" for k
    using rx that unfolding rx_ok_def by blast
  have slots: "slot_ok ?m ring bufs (((cur + 1) mod 8 + j) mod 8) (if j < length ps then Some (ps ! j) else None)" if "j < 8" for j
  proof -
    have at: "((cur + 1) mod 8 + j) mod 8 = (cur + (j + 1)) mod 8" by (simp add: mod_add_left_eq)
    show ?thesis
    proof (cases "j = 7")
      case True
      then show ?thesis using cur len slot_ok_clear at by (simp add: mod_add_eq)
    next
      case False
      then have j: "j + 1 < 8" using that by simp
      have "(cur + (j + 1)) mod 8 \<noteq> (cur + 0) mod 8" using mod8_inj [OF j, of 0 cur] by simp
      moreover have "slot_ok m ring bufs ((cur + (j + 1)) mod 8) (if j < length ps then Some (ps ! j) else None)"
        using sl [OF j] by (auto split: if_splits)
      ultimately show ?thesis
        unfolding at using cur small by (intro slot_ok_clear_other [OF sep]) auto
    qed
  qed
  have "peek (ring + i * 16) 8 ?m = peek (ring + i * 16) 8 m" if "i < 8" for i
  proof -
    have "i * 16 + 8 \<le> cur * 16 + 12 \<or> cur * 16 + 13 \<le> i * 16" by (cases "i \<le> cur") auto
    then show ?thesis by (intro peek_poke_other) auto
  qed
  then have "addrs_ok ?m ring bufs" using rx by (simp add: rx_ok_def addrs_ok_def)
  moreover have "(cur + 1 + 7) mod 8 = cur" using cur by simp
  ultimately show ?thesis
    using rx slots len by (simp add: rx_ok_def mod_add_left_eq mod_Suc_eq)
qed

lemma recv_frame_ok:
  assumes ok: "nic_ok n q"
  obtains n' where "recv_frame legacy_card cap n = (case q of [] \<Rightarrow> None | f # _ \<Rightarrow> Some (take cap f), n')"
    "nic_ok n' (tl q)" "c_wire (fst (chip n')) = c_wire (fst (chip n))" "TX_STALLS n' = TX_STALLS n"
    "RX_FRAMES n' = RX_FRAMES n + (if q = [] then 0 else 1)" "MAC_LO n' = MAC_LO n" "MAC_HI n' = MAC_HI n"
proof -
  let ?r = "unat (RX_RING n)" and ?b = "unat (RX_BUFS n)" and ?cur = "RX_CUR n"
  obtain c m pend where run: "rx_deliver (tx_run (chip n)) = (c, m)" and ok1: "nic_ok (n\<lparr>chip := (c, m)\<rparr>) q"
    and q: "q = pend @ c_in c" and rx: "rx_ok c m ?r ?b ?cur pend" and ne: "pend = [] \<longrightarrow> q = []"
    and wire: "c_wire c = c_wire (fst (chip n))"
    by (rule nic_ok_runs [OF ok])
  have pres: "NIC_PRESENT n" "RX_RING n \<noteq> 0" "MMIO_BASE n \<noteq> 0" and ar: "all_apart (areas n)" "blocks_below (2 ^ 32) (areas n)"
    using ok by (simp_all add: nic_ok_def)
  note ap = apart4 [OF ar(1)]
  have cur: "?cur < 8" using rx by (simp add: rx_ok_def)
  have slot: "slot_ok m ?r ?b ?cur (if 0 < length pend then Some (pend ! 0) else None)"
    using rx cur unfolding rx_ok_def by (metis add_0_right mod_less zero_less_numeral)
  have fit: "?b + 16384 \<le> 2 ^ 32" using ar(2) by (simp add: areas_def blocks_below_def)
  have buf: "unat (RX_BUFS n + of_nat (?cur * 2048)) = ?b + ?cur * 2048"
    using fit cur by (subst unat_add_lem [THEN iffD1]) (simp_all add: unat_of_nat del: of_nat_mult)
  show thesis
  proof (cases pend)
    case Nil
    then have "recv_frame legacy_card cap n = (None, n\<lparr>chip := (c, m)\<rparr>)"
      using pres run slot by (simp add: recv_frame_def legacy_card_def dma_of_def slot_ok_def RXD_STAT_DD_def Let_def)
    with ok1 Nil ne wire show ?thesis by (intro that [of "n\<lparr>chip := (c, m)\<rparr>"]) simp_all
  next
    case (Cons f ps)
    let ?m = "poke (?r + ?cur * 16 + 12) [0] m" and ?c = "c\<lparr>c_rx_tail := ?cur\<rparr>"
    let ?n = "n\<lparr>RX_CUR := (?cur + 1) mod 8, chip := (?c, ?m), RX_FRAMES := RX_FRAMES n + 1\<rparr>"
    have small: "\<forall>g \<in> set q. length g \<le> 2048" using ok by (simp add: nic_ok_def)
    have sl: "m (?r + ?cur * 16 + 12) AND 1 \<noteq> 0" "unat (from_le16 (m (?r + ?cur * 16 + 8)) (m (?r + ?cur * 16 + 9))) = length f"
      "peek (?b + ?cur * 2048) (length f) m = f"
      using slot Cons by (simp_all add: slot_ok_def)
    have out: "peek (?b + ?cur * 2048) (min (length f) cap) m = take cap f"
      using arg_cong [OF sl(3), of "take cap"] by (simp add: take_peek min.commute)
    have rdt: "card_write REG_RDT (of_nat ?cur) (c, ?m) = (?c, ?m)"
      using cur ok1 by (simp add: card_write_def nic_ok_def tx_ok_def reg_effect_def card_regs unat_of_nat)
    have recv: "recv_frame legacy_card cap n = (Some (take cap f), ?n)"
      using pres run sl(1,2) out buf rdt
      by (simp add: recv_frame_def legacy_card_def dma_of_def set_dma_def mmio_write_def RXD_STAT_DD_def RX_DESC_def BUF_SIZE_def Let_def)
    have "tx_ok ?c ?m (unat (TX_RING n)) (unat (TX_BUFS n)) (NIC_TX_TAIL n)"
    proof -
      have "same_on (unat (TX_RING n)) 128 m ?m" using ap(1) cur by (intro same_on_poke same_on_refl) auto
      from tx_ok_same [OF this] ok1 have "tx_ok c ?m (unat (TX_RING n)) (unat (TX_BUFS n)) (NIC_TX_TAIL n)"
        by (simp add: nic_ok_def dma_of_def)
      then show ?thesis by (simp add: tx_ok_def)
    qed
    moreover have "rx_ok ?c ?m ?r ?b ((?cur + 1) mod 8) ps"
      using rx Cons small q by (intro rx_ok_next [OF _ ap(6)]) auto
    ultimately have "nic_ok ?n (tl q)"
      using ok small Cons q by (auto simp: nic_ok_def areas_def dma_of_def)
    with recv Cons q wire show ?thesis by (intro that [of ?n]) simp_all
  qed
qed

section \<open>Start-up\<close>

lemma alloc_lowest:
  assumes "0 < k" "run_free fa s k" "\<forall>j < s. \<not> frame_free fa j"
  obtains fa' where "fa_alloc_contig k fa = (s * 4096, fa')"
    "\<And>j. frame_free fa' j \<longleftrightarrow> frame_free fa j \<and> \<not> (s \<le> j \<and> j < s + k)"
proof (cases fa rule: fa_alloc_contig_cases [OF assms(1)])
  case (1 s')
  have "s' = s"
  proof (rule linorder_cases [of s' s])
    assume "s' < s"
    with 1(1) assms(1,3) show ?thesis by (auto simp: run_free_def)
  qed (use 1(2) assms(2) in auto)
  then show ?thesis by (intro that [OF 1(3)[unfolded \<open>s' = s\<close>]]) (simp add: frame_free_set_run)
qed (use assms(2) in auto)

lemma init_descs:
  assumes "m' = fold (init_desc ring bufs) [0..<k] m"
  shows "(\<forall>i < k. peek (ring + i * 16) 8 m' = to_le64 (of_nat (bufs + i * 2048)) \<and> m' (ring + i * 16 + 12) = 0) \<and>
    (\<forall>a l. a + l \<le> ring \<or> ring + k * 16 \<le> a \<longrightarrow> same_on a l m m')"
  using assms
proof (induction k arbitrary: m')
  case (Suc k)
  let ?m = "fold (init_desc ring bufs) [0..<k] m" and ?d = "ring + k * 16"
  let ?v = "to_le64 (of_nat (bufs + k * 2048))"
  have m': "m' = poke (?d + 8) (replicate 8 0) (poke ?d ?v ?m)"
    using Suc.prems by (simp add: init_desc_def [where i = k] BUF_SIZE_def)
  have "peek (ring + i * 16) 8 m' = to_le64 (of_nat (bufs + i * 2048)) \<and> m' (ring + i * 16 + 12) = 0" if "i < Suc k" for i
  proof (cases "i = k")
    case True
    have "peek ?d 8 m' = ?v" unfolding m' by (subst peek_poke_other) (simp_all add: peek_poke_same)
    moreover have "m' (?d + 12) = 0" by (simp add: m' poke_def)
    ultimately show ?thesis using True by simp
  next
    case False
    then have i: "i < k" "i * 16 + 16 \<le> k * 16" using that by auto
    have "peek (ring + i * 16) 8 m' = peek (ring + i * 16) 8 ?m" unfolding m' using i(2) by (simp add: peek_poke_other)
    moreover have "m' (ring + i * 16 + 12) = ?m (ring + i * 16 + 12)" unfolding m' using i(2) by (simp add: poke_other)
    ultimately show ?thesis using Suc.IH [of ?m] i(1) by simp
  qed
  moreover have "same_on a l m m'" if "a + l \<le> ring \<or> ring + Suc k * 16 \<le> a" for a l
    unfolding m' using that Suc.IH [of ?m] by (intro same_on_poke) auto
  ultimately show ?case by blast
qed simp

lemma init_descs_8:
  shows "addrs_ok (fold (init_desc ring bufs) [0..<8] m) ring bufs"
    "i < 8 \<Longrightarrow> slot_ok (fold (init_desc ring bufs) [0..<8] m) ring bufs i None"
    "a + l \<le> ring \<or> ring + 128 \<le> a \<Longrightarrow> same_on a l m (fold (init_desc ring bufs) [0..<8] m)"
  using init_descs [OF refl, where k = 8, of ring bufs m]
  by (auto simp: addrs_ok_def slot_ok_def from_le64_to_le64 simp del: upt_rec_numeral)

abbreviation settled :: "chip_state nic \<Rightarrow> bool" where
  "settled n \<equiv> MMIO_BASE n \<noteq> 0 \<and> c_reset (fst (chip n)) = 0"

lemma legacy_read: "settled n \<Longrightarrow> mmio_read legacy_card reg n = (reg_value reg (fst (chip n)), n)"
  by (simp add: mmio_read_def legacy_card_def card_read_def case_prod_unfold Let_def)

lemma legacy_write:
  "settled n \<Longrightarrow> mmio_write legacy_card reg v n = n\<lparr>chip := (reg_effect reg v (fst (chip n)), snd (chip n))\<rparr>"
  by (simp add: mmio_write_def legacy_card_def card_write_def)

lemma legacy_idle:
  assumes "settled n" "0x5200 \<le> reg"
  shows "mmio_write legacy_card reg v n = n"
proof -
  have "reg \<noteq> r" if "r < 0x5200" for r using assms(2) that leD by blast
  then have "reg_effect reg v (fst (chip n)) = fst (chip n)" by (simp add: reg_effect_def card_regs)
  with assms(1) show ?thesis by (simp add: legacy_write)
qed

lemma legacy_mta:
  assumes "settled n" "k \<le> 128"
  shows "fold (\<lambda>i. mmio_write legacy_card (REG_MTA + of_nat i * 4) 0) [0..<k] n = n"
  using assms(2)
proof (induction k)
  case (Suc k)
  have "unat (REG_MTA + of_nat k * 4) = 0x5200 + k * 4"
    using Suc.prems unat_of_nat [of "0x5200 + k * 4", where ?'a = 32] by (simp add: REG_MTA_def)
  then have "0x5200 \<le> REG_MTA + of_nat k * 4" by (simp add: word_le_nat_alt)
  with Suc assms(1) show ?case by (simp add: legacy_idle)
qed simp

lemma legacy_poll: "settled n \<Longrightarrow> 0 < k \<Longrightarrow> P (reg_value reg (fst (chip n))) \<Longrightarrow> mmio_poll legacy_card reg P k n = n"
  by (subst mmio_poll.simps) (simp add: legacy_read)

text \<open>The loop after a reset ends with the card settled, when it allows enough reads.\<close>

lemma reset_over: "c_reset (fst (chip n)) = 0 \<Longrightarrow> n\<lparr>chip := ((fst (chip n))\<lparr>c_reset := 0\<rparr>, snd (chip n))\<rparr> = n"
proof -
  assume "c_reset (fst (chip n)) = 0"
  then have "(fst (chip n))\<lparr>c_reset := 0\<rparr> = fst (chip n)" by (cases "fst (chip n)") simp
  then show ?thesis by (cases n) simp
qed

lemma legacy_reset_poll:
  assumes "MMIO_BASE n \<noteq> 0" "c_reset (fst (chip n)) \<le> k" "c_ctrl (fst (chip n)) = 0"
  shows "mmio_poll legacy_card REG_CTRL (\<lambda>v. v AND CTRL_RST = 0) k n = n\<lparr>chip := ((fst (chip n))\<lparr>c_reset := 0\<rparr>, snd (chip n))\<rparr>"
  using assms
proof (induction k arbitrary: n)
  case 0
  then show ?case by (subst mmio_poll.simps) (simp add: reset_over)
next
  case (Suc k)
  show ?case
  proof (cases "c_reset (fst (chip n)) = 0")
    case True
    with Suc.prems show ?thesis
      by (subst legacy_poll) (simp_all add: reg_value_def card_regs reset_over)
  next
    case False
    let ?n = "n\<lparr>chip := ((fst (chip n))\<lparr>c_reset := c_reset (fst (chip n)) - 1\<rparr>, snd (chip n))\<rparr>"
    have "mmio_read legacy_card REG_CTRL n = (CTRL_RST, ?n)"
      using False Suc.prems(1) by (simp add: mmio_read_def legacy_card_def card_read_def case_prod_unfold Let_def)
    with Suc.IH [of ?n] Suc.prems show ?thesis by (subst mmio_poll.simps) (simp add: CTRL_RST_def)
  qed
qed

lemma legacy_reset:
  assumes "settled n" "c_reset_time (fst (chip n)) \<le> 1000000"
  shows "reset_card legacy_card n = n\<lparr>chip := ((reset_regs (fst (chip n)))\<lparr>c_reset := 0\<rparr>, snd (chip n))\<rparr>"
proof -
  let ?c = "fst (chip n)" and ?m = "snd (chip n)"
  let ?a = "n\<lparr>chip := (?c\<lparr>c_ims := 0\<rparr>, ?m)\<rparr>" and ?b = "n\<lparr>chip := (reset_regs ?c, ?m)\<rparr>"
  have all: "(0xFFFFFFFF :: u32) = - 1" by simp
  have 1: "mmio_write legacy_card REG_IMC 0xFFFFFFFF n = ?a"
    using assms(1) unfolding all by (simp add: legacy_write reg_effect_def card_regs)
  have "bit CTRL_RST 26" by (simp add: CTRL_RST_def bit_iff_odd_drop_bit)
  then have "bit (c_ctrl ?c OR CTRL_RST) 26" by (simp add: bit_or_iff)
  then have 2: "mmio_write legacy_card REG_CTRL (c_ctrl ?c OR CTRL_RST) ?a = ?b"
    using assms(1) by (simp add: legacy_write reg_effect_def card_regs reset_regs_def)
  have 3: "mmio_poll legacy_card REG_CTRL (\<lambda>v. v AND CTRL_RST = 0) 1000000 ?b =
      n\<lparr>chip := ((reset_regs ?c)\<lparr>c_reset := 0\<rparr>, ?m)\<rparr>" (is "_ = ?d")
    using assms by (subst legacy_reset_poll) (simp_all add: reset_regs_def)
  have 4: "mmio_write legacy_card REG_IMC 0xFFFFFFFF ?d = ?d"
    using assms(1) unfolding all by (simp add: legacy_write reg_effect_def card_regs reset_regs_def)
  have 5: "mmio_write legacy_card REG_MTA 0 ?d = ?d"
    using assms(1) by (intro legacy_idle) (simp_all add: REG_MTA_def)
  have "mmio_read legacy_card REG_CTRL ?a = (c_ctrl ?c, ?a)"
    using assms(1) by (simp add: legacy_read reg_value_def card_regs)
  with 1 2 3 4 5 show ?thesis by (simp add: reset_card_def Let_def)
qed

lemma legacy_bring_up:
  assumes "settled n" "c_ctrl (fst (chip n)) = 0" "NIC_PRESENT n"
  shows "bring_up legacy_card n = n\<lparr>chip := ((fst (chip n))\<lparr>c_ctrl := CTRL_SLU\<rparr>, snd (chip n))\<rparr>" (is "_ = ?n")
proof -
  have b: "bit CTRL_SLU 6" "\<not> bit CTRL_SLU 26" by (simp_all add: CTRL_SLU_def bit_iff_odd_drop_bit)
  have "mmio_read legacy_card REG_CTRL n = (0, n)" using assms by (simp add: legacy_read reg_value_def card_regs)
  moreover have "mmio_write legacy_card REG_CTRL CTRL_SLU n = ?n"
    using assms b by (simp add: legacy_write reg_effect_def card_regs)
  moreover have st: "mmio_read legacy_card REG_NIC_STATUS ?n = (STATUS_LU, ?n)"
    using assms b by (simp add: legacy_read reg_value_def card_regs)
  moreover have "mmio_poll legacy_card REG_NIC_STATUS (\<lambda>v. v AND STATUS_LU \<noteq> 0) 1000000 ?n = ?n"
    by (subst mmio_poll.simps) (simp add: st STATUS_LU_def)
  ultimately show ?thesis using assms(3) by (simp add: bring_up_def link_up_def Let_def)
qed

text \<open>The ring set-up over memory whose lowest ten free frames are consecutive.\<close>

lemma rings_init_alloc:
  assumes run: "run_free fa s 10" and low: "\<forall>k < s. \<not> frame_free fa k"
  obtains fa1 fa2 fa3 fa4 where "fa_alloc_contig 1 fa = (s * 4096, fa1)" "fa_alloc_contig 1 fa1 = ((s + 1) * 4096, fa2)"
    "fa_alloc_contig 4 fa2 = ((s + 2) * 4096, fa3)" "fa_alloc_contig 4 fa3 = ((s + 6) * 4096, fa4)"
    "\<And>k. frame_free fa4 k \<longleftrightarrow> frame_free fa k \<and> \<not> (s \<le> k \<and> k < s + 10)"
proof -
  have p4: "0 < (4 :: nat)" by simp
  have above: "s \<le> k" if "frame_free fa k" for k using low that not_le by blast
  have r1: "run_free fa s 1" using run by (simp add: run_free_def)
  obtain fa1 where 1: "fa_alloc_contig 1 fa = (s * 4096, fa1)"
    and f1: "\<And>k. frame_free fa1 k \<longleftrightarrow> frame_free fa k \<and> \<not> (s \<le> k \<and> k < s + 1)"
    by (rule alloc_lowest [OF zero_less_one r1 low]) blast
  have r2: "run_free fa1 (s + 1) 1" and l2: "\<forall>k < s + 1. \<not> frame_free fa1 k"
    using run by (auto simp: run_free_def f1 dest: above)
  obtain fa2 where 2: "fa_alloc_contig 1 fa1 = ((s + 1) * 4096, fa2)"
    and f2: "\<And>k. frame_free fa2 k \<longleftrightarrow> frame_free fa1 k \<and> \<not> (s + 1 \<le> k \<and> k < s + 1 + 1)"
    by (rule alloc_lowest [OF zero_less_one r2 l2]) blast
  have r3: "run_free fa2 (s + 2) 4" and l3: "\<forall>k < s + 2. \<not> frame_free fa2 k"
    using run by (auto simp: run_free_def f1 f2 dest: above)
  obtain fa3 where 3: "fa_alloc_contig 4 fa2 = ((s + 2) * 4096, fa3)"
    and f3: "\<And>k. frame_free fa3 k \<longleftrightarrow> frame_free fa2 k \<and> \<not> (s + 2 \<le> k \<and> k < s + 2 + 4)"
    by (rule alloc_lowest [OF p4 r3 l3]) blast
  have r4: "run_free fa3 (s + 6) 4" and l4: "\<forall>k < s + 6. \<not> frame_free fa3 k"
    using run by (auto simp: run_free_def f1 f2 f3 dest: above)
  obtain fa4 where 4: "fa_alloc_contig 4 fa3 = ((s + 6) * 4096, fa4)"
    and f4: "\<And>k. frame_free fa4 k \<longleftrightarrow> frame_free fa3 k \<and> \<not> (s + 6 \<le> k \<and> k < s + 6 + 4)"
    by (rule alloc_lowest [OF p4 r4 l4]) blast
  have "frame_free fa4 k \<longleftrightarrow> frame_free fa k \<and> \<not> (s \<le> k \<and> k < s + 10)" for k
    unfolding f1 f2 f3 f4 by auto
  then show thesis by (rule that [OF 1 2 3 4])
qed

lemma legacy_rings_regs:
  assumes "settled n" "rx < 2 ^ 32" "tx < 2 ^ 32"
  shows "fold (\<lambda>(r, v). mmio_write legacy_card r v) (rings_regs rx tx) n =
    n\<lparr>chip := ((fst (chip n))\<lparr>c_ring := tx, c_tx_len := 128, c_head := 0, c_tail := 0, c_tctl := TCTL_ON,
      c_rx_ring := rx, c_rx_len := 128, c_rx_head := 0, c_rx_tail := 7, c_rctl := RCTL_ON\<rparr>, snd (chip n))\<rparr>"
  using assms by (simp add: rings_regs_def legacy_write reg_effect_def card_regs RX_DESC_def TX_DESC_def unat_of_nat)

lemma rings_init_ok:
  assumes run: "run_free fa s 10" and low: "\<forall>k < s. \<not> frame_free fa k" and s: "0 < s"
    and n: "NIC_PRESENT n" "settled n" "\<forall>f \<in> set (c_in (fst (chip n))). length f \<le> 2048"
  obtains n' fa' where "rings_init legacy_card fa n = ((True, n'), fa')" "nic_ok n' (c_in (fst (chip n)))"
    "c_wire (fst (chip n')) = c_wire (fst (chip n))" "MAC_LO n' = MAC_LO n" "MAC_HI n' = MAC_HI n"
    "c_ctrl (fst (chip n')) = c_ctrl (fst (chip n))" "c_ims (fst (chip n')) = c_ims (fst (chip n))"
    "\<And>k. frame_free fa' k \<longleftrightarrow> frame_free fa k \<and> \<not> (s \<le> k \<and> k < s + 10)"
proof -
  define rr tr rb tb where defs: "rr = s * 4096" "tr = (s + 1) * 4096" "rb = (s + 2) * 4096" "tb = (s + 6) * 4096"
  obtain fa1 fa2 fa3 fa4 where al: "fa_alloc_contig 1 fa = (rr, fa1)" "fa_alloc_contig 1 fa1 = (tr, fa2)"
    "fa_alloc_contig 4 fa2 = (rb, fa3)" "fa_alloc_contig 4 fa3 = (tb, fa4)"
    and fr: "\<And>k. frame_free fa4 k \<longleftrightarrow> frame_free fa k \<and> \<not> (s \<le> k \<and> k < s + 10)"
    unfolding defs by (rule rings_init_alloc [OF run low]) blast
  have "s + 10 \<le> 65536" using run by (simp add: run_free_def MAX_FRAMES_val)
  then have at: "0 < rr" "rr + 4096 \<le> tr" "tr + 4096 \<le> rb" "rb + 16384 \<le> tb" "tb + 16384 \<le> 2 ^ 28"
    using s by (simp_all add: defs)
  have un: "unat (of_nat rr :: u32) = rr" "unat (of_nat tr :: u32) = tr" "unat (of_nat rb :: u32) = rb" "unat (of_nat tb :: u32) = tb"
    using at by (simp_all add: unat_of_nat)
  have nz: "(of_nat rr :: u32) \<noteq> 0" "(of_nat tr :: u32) \<noteq> 0" using un(1,2) at by (metis unat_0 less_not_refl less_le_trans le_add1 add_gr_0)+
  let ?m1 = "fold (init_desc rr rb) [0..<8] (dma_of n)"
  let ?m2 = "fold (init_desc tr tb) [0..<8] ?m1"
  let ?c = "(fst (chip n))\<lparr>c_ring := tr, c_tx_len := 128, c_head := 0, c_tail := 0, c_tctl := TCTL_ON,
    c_rx_ring := rr, c_rx_len := 128, c_rx_head := 0, c_rx_tail := 7, c_rctl := RCTL_ON\<rparr>"
  let ?n = "n\<lparr>RX_RING := of_nat rr, TX_RING := of_nat tr, RX_BUFS := of_nat rb, TX_BUFS := of_nat tb,
    chip := (?c, ?m2), RX_CUR := 0, NIC_TX_TAIL := 0\<rparr>"
  have "rings_init legacy_card fa n = ((True, ?n), fa4)"
    using al at n(2) legacy_rings_regs [of _ rr tr]
    by (simp add: rings_init_def set_dma_def dma_of_def RX_DESC_def TX_DESC_def del: upt_rec_numeral)
  moreover have "bit TCTL_ON 1" by (simp add: TCTL_ON_def bit_iff_odd_drop_bit)
  then have "tx_ok ?c ?m2 tr tb 0" using n(2) by (simp add: tx_ok_def init_descs_8(1) del: upt_rec_numeral)
  moreover have "rx_ok ?c ?m2 rr rb 0 []"
  proof -
    have sm: "same_on rr 128 ?m1 ?m2" "same_on rb 16384 ?m1 ?m2" using at by (intro init_descs_8(3), simp)+
    have "slot_ok ?m2 rr rb j None" if "j < 8" for j
      by (rule slot_ok_same [OF sm that _ init_descs_8(2) [OF that]]) simp
    moreover have "\<forall>b \<in> {1, 3, 4, 26}. bit RCTL_ON b" by (simp add: RCTL_ON_def bit_iff_odd_drop_bit)
    ultimately show ?thesis using addrs_ok_same [OF sm(1) init_descs_8(1)] by (simp add: rx_ok_def del: upt_rec_numeral)
  qed
  ultimately show thesis
    using n nz un fr at by (intro that [of ?n fa4]) (simp_all add: nic_ok_def areas_def all_apart_def apart_def blocks_below_def dma_of_def del: upt_rec_numeral)
qed

section \<open>The adapter as a link\<close>

text \<open>
  What the layers above see: a cable that takes frames in order, and a queue of frames that arrive.
\<close>

datatype nic_op = Send_Op bytes | Recv_Op nat
datatype nic_out = Sent bool | Received "bytes option"

definition link_step :: "nic_op \<Rightarrow> bytes list \<times> bytes list \<Rightarrow> nic_out \<times> (bytes list \<times> bytes list)" where
  "link_step x l =
     (let (wire, q) = l in
      case x of
        Send_Op f \<Rightarrow> if f = [] \<or> length f > 2048 then (Sent False, l) else (Sent True, (wire @ [f], q))
      | Recv_Op cap \<Rightarrow> (case q of [] \<Rightarrow> (Received None, l) | f # fs \<Rightarrow> (Received (Some (take cap f)), (wire, fs))))"

definition nic_step :: "'c card \<Rightarrow> nic_op \<Rightarrow> 'c nic \<Rightarrow> nic_out \<times> 'c nic" where
  "nic_step cd x n =
     (case x of
        Send_Op f \<Rightarrow> (let (ok, n) = send_frame cd f n in (Sent ok, n))
      | Recv_Op cap \<Rightarrow> (let (r, n) = recv_frame cd cap n in (Received r, n)))"

fun run_ops :: "('x \<Rightarrow> 's \<Rightarrow> 'y \<times> 's) \<Rightarrow> 'x list \<Rightarrow> 's \<Rightarrow> 'y list \<times> 's" where
  "run_ops f [] s = ([], s)"
| "run_ops f (x # xs) s = (let (y, s) = f x s; (ys, s) = run_ops f xs s in (y # ys, s))"

definition nic_link :: "chip_state nic \<Rightarrow> bytes list \<times> bytes list \<Rightarrow> bool" where
  "nic_link n l \<longleftrightarrow> nic_ok n (snd l) \<and> fst l = c_wire (fst (chip n))"

lemma nic_step_link:
  assumes "nic_link n l"
  shows "fst (nic_step legacy_card x n) = fst (link_step x l) \<and> nic_link (snd (nic_step legacy_card x n)) (snd (link_step x l))"
proof -
  obtain wire q where l: "l = (wire, q)" and ok: "nic_ok n q" and w: "wire = c_wire (fst (chip n))"
    using assms by (cases l) (auto simp: nic_link_def)
  show ?thesis
  proof (cases x)
    case (Send_Op f)
    show ?thesis
    proof (cases "f = [] \<or> length f > 2048")
      case True
      then have "send_frame legacy_card f n = (False, n)" by (auto simp: send_frame_def BUF_SIZE_def)
      with True assms l Send_Op show ?thesis by (simp add: nic_step_def link_step_def)
    next
      case False
      then have f: "f \<noteq> []" "length f \<le> 2048" by auto
      obtain n' where "send_frame legacy_card f n = (True, n')" "nic_ok n' q" "c_wire (fst (chip n')) = c_wire (fst (chip n)) @ [f]"
        by (rule send_frame_ok [OF ok f])
      with False l w Send_Op show ?thesis by (simp add: nic_step_def link_step_def nic_link_def)
    qed
  next
    case (Recv_Op cap)
    obtain n' where "recv_frame legacy_card cap n = (case q of [] \<Rightarrow> None | f # _ \<Rightarrow> Some (take cap f), n')"
      "nic_ok n' (tl q)" "c_wire (fst (chip n')) = c_wire (fst (chip n))"
      by (rule recv_frame_ok [OF ok])
    with l w Recv_Op show ?thesis by (cases q) (simp_all add: nic_step_def link_step_def nic_link_def)
  qed
qed

lemma run_ops_simulates:
  assumes "\<And>x s t. R s t \<Longrightarrow> fst (f x s) = fst (g x t) \<and> R (snd (f x s)) (snd (g x t))" "R s t"
  shows "fst (run_ops f xs s) = fst (run_ops g xs t) \<and> R (snd (run_ops f xs s)) (snd (run_ops g xs t))"
  using assms(2)
proof (induction xs arbitrary: s t)
  case (Cons x xs)
  from Cons.IH [OF assms(1) [OF Cons.prems, THEN conjunct2, of x]] assms(1) [OF Cons.prems, of x]
  show ?case by (simp add: case_prod_unfold Let_def)
qed simp

text \<open>The state of the witnesses: the frames free after a BIOS start, and a card with one frame waiting.\<close>

definition bios_frames :: frame_allocator where
  "bios_frames = fa_init bios_fallback frame_allocator_new"

definition sample_adapter :: pci_device where
  "sample_adapter = \<lparr>pd_bus = 0, pd_dev = 3, pd_func = 0, pd_vendor = 0x8086, pd_device = 0x100E, pd_class = 2,
     pd_subclass = 0, pd_prog_if = 0, pd_bar0 = 0xFEB80000, pd_bar0_addr = 0xFEB80000, pd_bar0_size = 0x20000\<rparr>"

definition sample_nic :: "chip_state nic" where
  "sample_nic = \<lparr>NIC_PRESENT = True, MMIO_BASE = 0xFEB80000, MAC_LO = 0x12005452, MAC_HI = 0x5634, RX_RING = 0, RX_BUFS = 0,
     RX_CUR = 0, TX_RING = 0, TX_BUFS = 0, NIC_TX_TAIL = 0, TX_FRAMES = 0, RX_FRAMES = 0, TX_STALLS = 0,
     chip = (\<lparr>c_ring = 0x7000, c_tx_len = 4096, c_head = 3, c_tail = 3, c_tctl = 2, c_wire = [], c_rx_ring = 0x8000,
       c_rx_len = 4096, c_rx_head = 5, c_rx_tail = 9, c_rctl = 2, c_in = [[1, 2, 3]], c_ctrl = 0x40000000, c_ims = 0x9D,
       c_ral = 0x12005452, c_rah = 0x80005634, c_reset = 0, c_reset_time = 20, c_fcs = (\<lambda>_. [0, 0, 0, 0])\<rparr>, \<lambda>_. 0)\<rparr>"

lemma bios_run: "run_free bios_frames 4096 10" "\<forall>k < 4096. \<not> frame_free bios_frames k" "frame_free bios_frames 4096"
  by (auto simp: bios_frames_def run_free_def frame_free_bios MAX_FRAMES_val)

lemma sample_link: "nic_link (snd (fst (rings_init legacy_card bios_frames sample_nic))) ([], [[1, 2, 3]])"
proof -
  obtain n' fa' where "rings_init legacy_card bios_frames sample_nic = ((True, n'), fa')"
    "nic_ok n' (c_in (fst (chip sample_nic)))" "c_wire (fst (chip n')) = c_wire (fst (chip sample_nic))"
    by (rule rings_init_ok [OF bios_run(1,2), of sample_nic]) (simp_all add: sample_nic_def)
  then show ?thesis by (simp add: nic_link_def sample_nic_def)
qed

section \<open>Properties\<close>

text \<open>
  C21: over a card that follows the legacy descriptor protocol, any sequence of sends and receives
  behaves as the abstract link.  A frame of 1 to 2048 bytes is put on the cable unchanged and in
  order, any other is refused; a receive yields the oldest frame that has arrived, cut to the caller's
  buffer, or nothing when none is waiting.  The rings stay in agreement throughout, across the wrap of
  both of them.
\<close>

theorem nic_refines_link:
  assumes "nic_link n l"
  shows "fst (run_ops (nic_step legacy_card) ops n) = fst (run_ops link_step ops l) \<and>
    nic_link (snd (run_ops (nic_step legacy_card) ops n)) (snd (run_ops link_step ops l))"
  using run_ops_simulates [where R = nic_link, OF nic_step_link assms] .

theorem nic_refines_link_witness:
  "\<exists>n. nic_link n ([], [[1, 2, 3]]) \<and> n = snd (fst (rings_init legacy_card bios_frames sample_nic)) \<and>
     fst (run_ops (nic_step legacy_card) [Recv_Op 1514, Send_Op [7], Recv_Op 1514, Send_Op []] n) =
       [Received (Some [1, 2, 3]), Sent True, Received None, Sent False]"
proof -
  let ?n = "snd (fst (rings_init legacy_card bios_frames sample_nic))"
  have "nic_link ?n ([], [[1, 2, 3]])" by (rule sample_link)
  from nic_refines_link [OF this, of "[Recv_Op 1514, Send_Op [7], Recv_Op 1514, Send_Op []]"] this
  show ?thesis by (simp add: link_step_def)
qed

text \<open>
  C22: starting the adapter that the PCI table names, with a non-zero memory BAR.  Whatever the
  firmware left in the registers of a card that follows the protocol and completes a reset within a
  million polls, start-up leaves the adapter present with the hardware address of the card's address
  registers, both sides agreed on rings of eight descriptors, the transmit ring empty, every receive
  descriptor free, both directions enabled, every interrupt masked, nothing but the link request in
  the control register, and the link up.  It takes the ten lowest free frames for rings and buffers,
  under the assumption that these are consecutive, and it is assumed that the address registers are
  loaded (not all zero), so that the EEPROM is not consulted.
\<close>

theorem e1000_init_ready:
  assumes "find_adapter ds = Some d" "(of_nat (pd_bar0_addr d) :: u32) \<noteq> 0"
    "0 < s" "run_free fa s 10" "\<forall>k < s. \<not> frame_free fa k"
    "\<forall>f \<in> set (c_in (fst (chip n))). length f \<le> 2048"
    "c_ral (fst (chip n)) \<noteq> 0 \<or> c_rah (fst (chip n)) AND 0xFFFF \<noteq> 0"
    "c_reset (fst (chip n)) = 0" "c_reset_time (fst (chip n)) \<le> 1000000"
  shows "\<exists>p' n' fa'. e1000_init io legacy_card ds p n fa = ((p', n'), fa') \<and>
    nic_link n' (c_wire (fst (chip n)), c_in (fst (chip n))) \<and>
    MAC_LO n' = c_ral (fst (chip n)) \<and> MAC_HI n' = c_rah (fst (chip n)) \<and>
    c_ims (fst (chip n')) = 0 \<and> c_ctrl (fst (chip n')) = CTRL_SLU \<and> link_up legacy_card n' = (True, n') \<and>
    (\<forall>k. frame_free fa' k \<longleftrightarrow> frame_free fa k \<and> \<not> (s \<le> k \<and> k < s + 10))"
proof -
  let ?bar = "of_nat (pd_bar0_addr d) :: u32" and ?c = "fst (chip n)"
  let ?reset = "n\<lparr>MMIO_BASE := ?bar, chip := ((reset_regs ?c)\<lparr>c_reset := 0\<rparr>, snd (chip n))\<rparr>"
  let ?n = "?reset\<lparr>MAC_LO := c_ral ?c, MAC_HI := c_rah ?c, NIC_PRESENT := True\<rparr>"
  have rst: "reset_card legacy_card (n\<lparr>MMIO_BASE := ?bar\<rparr>) = ?reset"
    using assms(2,8,9) by (subst legacy_reset) simp_all
  have mac: "read_mac legacy_card ?reset = (Some (c_ral ?c, c_rah ?c), ?reset)"
    using assms(2,7) by (auto simp: read_mac_def legacy_read reg_value_def reset_regs_def card_regs)
  obtain n' fa' where ri: "rings_init legacy_card fa ?n = ((True, n'), fa')" and ok: "nic_ok n' (c_in (fst (chip ?n)))"
    and w: "c_wire (fst (chip n')) = c_wire (fst (chip ?n))" "MAC_LO n' = MAC_LO ?n" "MAC_HI n' = MAC_HI ?n"
      "c_ctrl (fst (chip n')) = c_ctrl (fst (chip ?n))" "c_ims (fst (chip n')) = c_ims (fst (chip ?n))"
    and fr: "\<And>k. frame_free fa' k \<longleftrightarrow> frame_free fa k \<and> \<not> (s \<le> k \<and> k < s + 10)"
    using assms(2,6) by (elim rings_init_ok [OF assms(4,5,3), of ?n, rotated 3]) (simp_all add: reset_regs_def)
  let ?n' = "n'\<lparr>chip := ((fst (chip n'))\<lparr>c_ctrl := CTRL_SLU\<rparr>, snd (chip n'))\<rparr>"
  have st: "settled n'" "NIC_PRESENT n'" "c_ctrl (fst (chip n')) = 0"
    using ok w by (simp_all add: nic_ok_def tx_ok_def reset_regs_def)
  have "e1000_init io legacy_card ds p n fa =
    ((config_write_u32 io (pd_bus d) (pd_dev d) (pd_func d) 4
        (ucast (fst (config_read_u16 io (pd_bus d) (pd_dev d) (pd_func d) 4 p) OR 6))
        (snd (config_read_u16 io (pd_bus d) (pd_dev d) (pd_func d) 4 p)), ?n'), fa')"
    using assms(1,2) rst mac ri legacy_mta [of ?n 128] legacy_bring_up [OF st(1,3,2)]
    by (simp add: e1000_init_def case_prod_unfold Let_def reset_regs_def del: upt_rec_numeral)
  moreover have "nic_ok ?n' (c_in (fst (chip ?n)))"
    using ok by (auto simp: nic_ok_def areas_def dma_of_def tx_ok_def rx_ok_def)
  moreover have "link_up legacy_card ?n' = (True, ?n')"
    using st by (simp add: link_up_def legacy_read reg_value_def card_regs CTRL_SLU_def STATUS_LU_def bit_iff_odd_drop_bit)
  ultimately show ?thesis using w fr by (simp add: nic_link_def reset_regs_def)
qed

theorem e1000_init_ready_witness:
  "\<exists>p' n' fa'. e1000_init host_bridge legacy_card [sample_adapter] \<lparr>latch = 0, dword = (\<lambda>_. 0), writable = (\<lambda>_. 0)\<rparr>
       (sample_nic\<lparr>NIC_PRESENT := False, MMIO_BASE := 0\<rparr>) bios_frames = ((p', n'), fa') \<and>
     nic_link n' ([], [[1, 2, 3]]) \<and> MAC_LO n' = 0x12005452 \<and> \<not> frame_free fa' 4096"
proof -
  have ad: "find_adapter [sample_adapter] = Some sample_adapter"
    by (simp add: find_adapter_def pci_find_eq ADAPTER_IDS_def INTEL_def sample_adapter_def List.map_filter_def)
  from e1000_init_ready [OF ad, where s = 4096 and fa = bios_frames and io = host_bridge
      and p = "\<lparr>latch = 0, dword = (\<lambda>_. 0), writable = (\<lambda>_. 0)\<rparr>" and n = "sample_nic\<lparr>NIC_PRESENT := False, MMIO_BASE := 0\<rparr>"]
  show ?thesis by (fastforce simp: bios_run sample_nic_def sample_adapter_def)
qed

end
