(* ===== verification/Net_Link.thy ===== *)
theory Net_Link
  imports Net_Stack E1000_Card
begin

text \<open>
  From one machine to another: a datagram handed to \<open>ipv4::send\<close> goes through the adapter onto the
  cable as a frame that the stack of the addressed machine accepts and delivers unchanged, and the TCP
  segments written by \<open>emit\<close> are read back by \<open>tcp::handle\<close>.  On top of this the retransmission
  timer is shown to put the whole queue on the cable.
\<close>

section \<open>Datagrams\<close>

text \<open>The next hop towards \<open>dst\<close> is known, with hardware address \<open>mac\<close>.\<close>

definition routed :: "bytes \<Rightarrow> bytes \<Rightarrow> 'c net \<Rightarrow> bool" where
  "routed dst mac s \<longleftrightarrow> arp_lookup (next_hop dst s) s = Some mac \<and> length mac = 6 \<and> length dst = 4"

lemma routed_cong: "ARP s' = ARP s \<Longrightarrow> IP_MASK (IP s') = IP_MASK (IP s) \<Longrightarrow> GATEWAY (IP s') = GATEWAY (IP s) \<Longrightarrow>
    routed dst mac s' = routed dst mac s"
  by (simp add: routed_def arp_lookup_def next_hop_def on_link_def our_ip_def gateway_def)

lemma ip_send_link:
  assumes link: "nic_link (NIC s) (w, q)" and r: "routed dst mac s" and len: "length payload \<le> 1480"
  obtains our ident s' where "ip_send legacy_card dst proto payload s = (True, s')" "length our = 6"
    "nic_link (NIC s') (w @ [ip_frame mac our ident proto (our_ip s) dst payload], q)"
    "ARP s' = ARP s" "TCP s' = TCP s" "TIMER_TICKS s' = TIMER_TICKS s" "\<And>d m. routed d m s' = routed d m s"
proof -
  have ok: "nic_ok (NIC s) q" and w: "w = c_wire (fst (chip (NIC s)))" using link by (simp_all add: nic_link_def)
  then obtain our where our: "nic_mac (NIC s) = Some our" "length our = 6" by (simp add: nic_ok_def nic_mac_def)
  define f where "f = ip_frame mac our (IP_ID (IP s)) proto (our_ip s) dst payload"
  have "length (our_ip s) = 4" by (simp add: our_ip_def)
  then have "f = mac @ our @ [8, 0] @ ip_header (of_nat (20 + length payload)) (IP_ID (IP s)) proto (our_ip s) dst @ payload"
    and "length (ip_header (of_nat (20 + length payload)) (IP_ID (IP s)) proto (our_ip s) dst) = 20"
    using r len our(2) by (simp_all add: f_def routed_def ip_frame_eq ip_header_eq)
  then have f: "f \<noteq> []" "length f \<le> 2048" using r len our(2) by (simp_all add: routed_def)
  obtain n where n: "send_frame legacy_card f (NIC s) = (True, n)" "nic_ok n q" "c_wire (fst (chip n)) = c_wire (fst (chip (NIC s))) @ [f]"
    by (rule send_frame_ok [OF ok f])
  let ?s = "s\<lparr>IP := (IP s)\<lparr>IP_ID := IP_ID (IP s) + 1, IP_SENT := wadd64 (IP_SENT (IP s)) 1\<rparr>, NIC := n\<rparr>"
  have send: "ip_send legacy_card dst proto payload s = (True, ?s)"
    using r our(1) len n(1)
    by (simp add: ip_send_def routed_def next_ip_id_def send_ip_frame_def nic_send_def Let_def f_def our_ip_def)
  show ?thesis
    by (rule that [OF send our(2)])
      (use n w in \<open>simp_all add: nic_link_def f_def routed_def arp_lookup_def next_hop_def on_link_def our_ip_def gateway_def\<close>)
qed

text \<open>The frame as the addressed machine takes it.\<close>

lemma dispatch_frame:
  assumes "length mac = 6" "length our = 6" "length src = 4" "length payload \<le> 1480" "length dst = 4" "our_ip b = dst"
  shows "dispatch cd (ip_frame mac our ident proto src dst payload) b =
    ip_deliver cd src proto payload (b\<lparr>IP := (IP b)\<lparr>IP_RECEIVED := wadd64 (IP_RECEIVED (IP b)) 1\<rparr>\<rparr>)"
proof -
  let ?f = "ip_frame mac our ident proto src dst payload"
  have f: "?f = mac @ our @ [8, 0] @ ip_header (of_nat (20 + length payload)) ident proto src dst @ payload"
    using assms by (simp add: ip_frame_eq)
  have "be16_at ?f 12 = 0x0800" "14 \<le> length ?f"
    unfolding f using assms by (simp_all add: be16_at_def nth_append from_be16_def)
  moreover have "ip_classify (our_ip b) ?f = Some (Ip_Accept src proto payload)"
    using assms by (intro classify_frame) simp_all
  ultimately show ?thesis
    by (cases "ip_deliver cd src proto payload (b\<lparr>IP := (IP b)\<lparr>IP_RECEIVED := wadd64 (IP_RECEIVED (IP b)) 1\<rparr>\<rparr>)")
      (simp_all add: dispatch_def reads ip_handle_frame_def)
qed

section \<open>Segments\<close>

lemma tcp_segment_eq:
  assumes "length payload \<le> MAX_SEG"
  obtains ck where "tcp_segment src seq flags payload t =
    to_be16 (LOCAL_PORT t) @ to_be16 (REMOTE_PORT t) @ to_be32 seq @ to_be32 (RCV_NXT t) @ [0x50, flags] @ to_be16 (window t) @
      to_be16 ck @ [0, 0] @ payload"
proof -
  define rest :: bytes where "rest = replicate MAX_SEG 0"
  have "replicate (20 + MAX_SEG) 0 = replicate 20 (0 :: u8) @ rest" by (simp only: replicate_add rest_def)
  then have buf: "replicate (20 + MAX_SEG) 0 = 0 # 0 # 0 # 0 # 0 # 0 # 0 # 0 # 0 # 0 # 0 # 0 # 0 # 0 # 0 # 0 # 0 # 0 # 0 # (0 :: u8) # rest"
    by (simp add: layout)
  define g where "g = to_be16 (LOCAL_PORT t) @ to_be16 (REMOTE_PORT t) @ to_be32 seq @ to_be32 (RCV_NXT t) @ [0x50, flags] @
    to_be16 (window t) @ [0, 0, 0, 0] @ payload @ drop (length payload) rest"
  have len: "length payload \<le> length rest" using assms by (simp add: rest_def)
  have put: "put_at 0 payload rest = payload @ drop (length payload) rest" using len by (simp add: put_at_def)
  define ck where "ck = (let c = transport_checksum PROTO_TCP src (u32_to_ip (REMOTE_IP t)) (take (20 + length payload) g) in if c = 0 then 0xFFFF else c)"
  have "tcp_segment src seq flags payload t = take (20 + length payload) (put_at 16 (to_be16 ck) g)"
    unfolding tcp_segment_def Let_def buf ck_def g_def
    by (simp add: layout to_be16_def to_be32_def put del: take_Suc_Cons)
  moreover define h where "h = to_be16 (LOCAL_PORT t) @ to_be16 (REMOTE_PORT t) @ to_be32 seq @ to_be32 (RCV_NXT t) @ [0x50, flags] @
    to_be16 (window t) @ to_be16 ck @ [0, 0]"
  have "put_at 16 (to_be16 ck) g = h @ payload @ drop (length payload) rest"
    by (simp add: g_def h_def layout to_be16_def to_be32_def)
  moreover have "length h = 20" by (simp add: h_def)
  ultimately have "tcp_segment src seq flags payload t = h @ payload" by simp
  then show ?thesis by (intro that [of ck]) (simp add: h_def)
qed

text \<open>The two ends of a connection: \<open>b\<close> talks to the owner of the control block \<open>t\<close> at \<open>src\<close>.\<close>

definition peer_of :: "bytes \<Rightarrow> tcb \<Rightarrow> 'c net \<Rightarrow> bool" where
  "peer_of src t b \<longleftrightarrow> ACTIVE (TCP b) \<and> REMOTE_IP (TCP b) = ip_to_u32 src \<and> LOCAL_PORT (TCP b) = REMOTE_PORT t \<and> REMOTE_PORT (TCP b) = LOCAL_PORT t"

lemma tcp_handle_segment:
  assumes "length payload \<le> MAX_SEG" "peer_of src t b"
  shows "tcp_handle cd src (tcp_segment src seq flags payload t) b = Some (tcp_input cd seq (RCV_NXT t) flags payload b)"
proof -
  obtain ck where seg: "tcp_segment src seq flags payload t = to_be16 (LOCAL_PORT t) @ to_be16 (REMOTE_PORT t) @ to_be32 seq @
      to_be32 (RCV_NXT t) @ [0x50, flags] @ to_be16 (window t) @ to_be16 ck @ [0, 0] @ payload" (is "_ = ?g")
    by (rule tcp_segment_eq [OF assms(1)])
  have "length ?g = 20 + length payload" by simp
  moreover have "u16_at ?g 0 = Some (LOCAL_PORT t)" "u16_at ?g 2 = Some (REMOTE_PORT t)" "u32_at ?g 4 = Some seq" "u32_at ?g 8 = Some (RCV_NXT t)"
    using u16_at_parts [of "[]" 0 "LOCAL_PORT t"] u16_at_parts [of "to_be16 (LOCAL_PORT t)" 2 "REMOTE_PORT t"]
      u32_at_parts [of "to_be16 (LOCAL_PORT t) @ to_be16 (REMOTE_PORT t)" 4 seq]
      u32_at_parts [of "to_be16 (LOCAL_PORT t) @ to_be16 (REMOTE_PORT t) @ to_be32 seq" 8 "RCV_NXT t"] by simp_all
  moreover have "u8_at ?g 12 = Some 0x50" "u8_at ?g 13 = Some flags"
    using u8_at_parts [of "to_be16 (LOCAL_PORT t) @ to_be16 (REMOTE_PORT t) @ to_be32 seq @ to_be32 (RCV_NXT t)" 12 "0x50"]
      u8_at_parts [of "to_be16 (LOCAL_PORT t) @ to_be16 (REMOTE_PORT t) @ to_be32 seq @ to_be32 (RCV_NXT t) @ [0x50]" 13 flags] by simp_all
  moreover have "slice_at ?g 20 (20 + length payload) = Some payload"
    using slice_at_parts [of "to_be16 (LOCAL_PORT t) @ to_be16 (REMOTE_PORT t) @ to_be32 seq @ to_be32 (RCV_NXT t) @ [0x50, flags] @
        to_be16 (window t) @ to_be16 ck @ [0, 0]" 20 "20 + length payload" payload "[]"] by simp
  ultimately show ?thesis
    using assms(2) unfolding tcp_handle_def seg peer_of_def by simp
qed

text \<open>
  The frame \<open>f\<close> carries the queued segment \<open>g\<close> of the connection \<open>t\<close> to the machine at \<open>dst\<close>: its stack
  takes in the sequence number, the acknowledgement, the flags and the data.
\<close>

definition received :: "'c net \<Rightarrow> 'c net" where
  "received b = b\<lparr>IP := (IP b)\<lparr>IP_RECEIVED := wadd64 (IP_RECEIVED (IP b)) 1\<rparr>\<rparr>"

definition carries :: "bytes \<Rightarrow> bytes \<Rightarrow> tcb \<Rightarrow> bytes \<Rightarrow> segment \<Rightarrow> bool" where
  "carries src dst t f g \<longleftrightarrow>
     (\<forall>(cd :: chip_state card) b. our_ip b = dst \<and> peer_of src t b \<longrightarrow>
        dispatch cd f b = Some (tcp_input cd (fst g) (RCV_NXT t) (0x10 OR (if None \<in> set (snd g) then 1 else 0))
          (List.map_filter id (snd g)) (received b)))"

lemma carries_cong: "REMOTE_PORT t' = REMOTE_PORT t \<Longrightarrow> LOCAL_PORT t' = LOCAL_PORT t \<Longrightarrow> RCV_NXT t' = RCV_NXT t \<Longrightarrow> carries src dst t' = carries src dst t"
  by (simp add: carries_def peer_of_def fun_eq_iff)

lemma octets_of: "List.map_filter id (map Some p @ (if fin then [None] else [])) = p" "None \<in> set (map Some p @ (if fin then [None] else [])) = fin"
proof -
  have "List.map_filter id (map Some p) = p" by (induction p) (simp_all add: map_filter_simps)
  then show "List.map_filter id (map Some p @ (if fin then [None] else [])) = p"
    by (simp add: List.map_filter_def)
qed auto

lemma emit_slot_link:
  assumes link: "nic_link (NIC s) (w, q)" and r: "routed dst mac s" and dst: "dst = u32_to_ip (REMOTE_IP (TCP s))" and ok: "slots_ok (TCP s)"
  obtains f s' where "emit_slot legacy_card i s = (True, s')" "nic_link (NIC s') (w @ [f], q)" "carries (our_ip s) dst (TCP s) f (seg_at (TCP s) i)"
    "TCP s' = (TCP s)\<lparr>LAST_SEND := TIMER_TICKS s\<rparr>" "ARP s' = ARP s" "TIMER_TICKS s' = TIMER_TICKS s" "routed dst mac s'"
proof -
  let ?t = "TCP s" and ?i = "unat (i mod 8)"
  let ?fl = "0x10 OR (if TX_SLOT_FIN ?t ! ?i then 0x01 else 0) :: u8" and ?p = "payload_of ?i (TX_SLOT_LEN ?t ! ?i) ?t"
  let ?seg = "tcp_segment (our_ip s) (TX_SLOT_SEQ ?t ! ?i) ?fl ?p ?t"
  let ?s = "tcp_upd (\<lambda>t. t\<lparr>LAST_SEND := TIMER_TICKS s\<rparr>) s"
  have "TX_SLOT_LEN ?t ! ?i \<le> MAX_SEG" using ok by (auto simp: slots_ok_def)
  then have p: "length ?p \<le> MAX_SEG" by (simp add: payload_of_def)
  obtain ck where "?seg = to_be16 (LOCAL_PORT ?t) @ to_be16 (REMOTE_PORT ?t) @ to_be32 (TX_SLOT_SEQ ?t ! ?i) @ to_be32 (RCV_NXT ?t) @ [0x50, ?fl] @
      to_be16 (window ?t) @ to_be16 ck @ [0, 0] @ ?p" by (rule tcp_segment_eq [OF p])
  then have seg: "length ?seg \<le> 1480" using p by (simp only:) simp
  have up: "NIC ?s = NIC s" "ARP ?s = ARP s" "our_ip ?s = our_ip s" "TIMER_TICKS ?s = TIMER_TICKS s" "TCP ?s = ?t\<lparr>LAST_SEND := TIMER_TICKS s\<rparr>"
    by (simp_all add: tcp_upd_def our_ip_def)
  have r': "routed dst mac ?s" using r routed_cong [of ?s s] by (simp add: tcp_upd_def)
  obtain our ident s' where send: "ip_send legacy_card dst PROTO_TCP ?seg ?s = (True, s')" "length our = 6"
    "nic_link (NIC s') (w @ [ip_frame mac our ident PROTO_TCP (our_ip ?s) dst ?seg], q)"
    "ARP s' = ARP ?s" "TCP s' = TCP ?s" "TIMER_TICKS s' = TIMER_TICKS ?s" and rt: "\<And>d m. routed d m s' = routed d m ?s"
    using ip_send_link [OF _ r' seg, of w q PROTO_TCP] link up by metis
  let ?f = "ip_frame mac our ident PROTO_TCP (our_ip s) dst ?seg"
  have "carries (our_ip s) dst ?t ?f (seg_at ?t i)"
    unfolding carries_def
  proof (intro allI impI)
    fix cd :: "chip_state card" and b :: "chip_state net"
    assume b: "our_ip b = dst \<and> peer_of (our_ip s) ?t b"
    have "peer_of (our_ip s) ?t (received b)" using b by (simp add: peer_of_def received_def)
    from tcp_handle_segment [OF p this] b
    have "dispatch cd ?f b = Some (tcp_input cd (TX_SLOT_SEQ ?t ! ?i) (RCV_NXT ?t) ?fl ?p (received b))"
      using r send(2) seg by (subst dispatch_frame) (simp_all add: routed_def our_ip_def received_def ip_deliver_def)
    then show "dispatch cd ?f b = Some (tcp_input cd (fst (seg_at ?t i)) (RCV_NXT ?t)
        (0x10 OR (if None \<in> set (snd (seg_at ?t i)) then 1 else 0)) (List.map_filter id (snd (seg_at ?t i))) (received b))"
      by (simp add: seg_at_def Let_def octets_of)
  qed
  moreover have "emit_slot legacy_card i s = (True, s')"
    using send(1) dst by (simp add: emit_slot_def emit_def Let_def tcp_upd_def)
  ultimately show ?thesis using send up rt r' by (intro that [of s' ?f]) simp_all
qed

lemma resend_link:
  assumes "nic_link (NIC s) (w, q)" "routed dst mac s" "dst = u32_to_ip (REMOTE_IP (TCP s))" "slots_ok (TCP s)"
  shows "\<exists>fs. nic_link (NIC (snd (resend legacy_card i e sent s))) (w @ fs, q) \<and>
    list_all2 (carries (our_ip s) dst (TCP s)) fs (segs_from (TCP s) i e) \<and> fst (resend legacy_card i e sent s) = (sent \<or> i \<noteq> e)"
  using assms
proof (induction "unat (e - i)" arbitrary: i s w sent)
  case 0
  then have "i = e" by (simp add: unat_eq_zero)
  then show ?case using 0 by (intro exI [of _ "[]"]) (simp add: resend.simps)
next
  case (Suc k)
  have ne: "i \<noteq> e" using Suc(2) by auto
  then have "e - i \<noteq> 0" by simp
  then have k: "k = unat (e - (i + 1))" using Suc(2) by (simp add: diff_diff_eq [symmetric] unat_minus_one)
  obtain f s1 where em: "emit_slot legacy_card i s = (True, s1)" and s1: "nic_link (NIC s1) (w @ [f], q)"
    "TCP s1 = (TCP s)\<lparr>LAST_SEND := TIMER_TICKS s\<rparr>" "ARP s1 = ARP s" "routed dst mac s1" and f: "carries (our_ip s) dst (TCP s) f (seg_at (TCP s) i)"
    by (rule emit_slot_link [OF Suc.prems])
  have same: "our_ip s1 = our_ip s" "carries (our_ip s1) dst (TCP s1) = carries (our_ip s) dst (TCP s)" "segs_from (TCP s1) = segs_from (TCP s)"
    using s1(2,3) carries_cong [of "TCP s1" "TCP s"]
    by (simp_all add: our_ip_def segs_from_def seg_at_def payload_of_def fun_eq_iff)
  have "slots_ok (TCP s1)" using Suc.prems(4) s1(2) by (simp add: slots_ok_def)
  then obtain fs where "nic_link (NIC (snd (resend legacy_card (i + 1) e True s1))) ((w @ [f]) @ fs, q)"
    "list_all2 (carries (our_ip s) dst (TCP s)) fs (segs_from (TCP s) (i + 1) e)" "fst (resend legacy_card (i + 1) e True s1)"
    using Suc.hyps(1) [OF k s1(1,4), of True] Suc.prems(3) s1(2) same by auto
  with f em ne show ?case
    by (intro exI [of _ "f # fs"]) (simp add: resend.simps [of legacy_card i e] segs_from_Cons)
qed

section \<open>Properties\<close>

text \<open>
  C26: a datagram of at most 1480 bytes, sent to an address whose next hop is in the cache, over an
  adapter that follows the descriptor protocol, is put on the cable as exactly one frame, and a
  machine with that address that receives the frame delivers the same bytes to the same protocol as
  coming from the sender's address.
\<close>

theorem ip_end_to_end:
  assumes "nic_link (NIC s) (w, q)" "routed dst mac s" "length payload \<le> 1480"
  shows "\<exists>s' f. ip_send legacy_card dst proto payload s = (True, s') \<and> nic_link (NIC s') (w @ [f], q) \<and> take 6 f = mac \<and>
    (\<forall>(cd :: chip_state card) b. our_ip b = dst \<longrightarrow> dispatch cd f b = ip_deliver cd (our_ip s) proto payload (received b))"
proof -
  obtain our ident s' where s': "ip_send legacy_card dst proto payload s = (True, s')" "length our = 6"
    "nic_link (NIC s') (w @ [ip_frame mac our ident proto (our_ip s) dst payload], q)"
    by (rule ip_send_link [OF assms])
  let ?f = "ip_frame mac our ident proto (our_ip s) dst payload"
  have l: "length mac = 6" "length dst = 4" "length (our_ip s) = 4" using assms(2) by (simp_all add: routed_def our_ip_def)
  then have "take 6 ?f = mac" using s'(2) assms(3) by (simp add: ip_frame_eq)
  moreover have "dispatch cd ?f b = ip_deliver cd (our_ip s) proto payload (received b)" if "our_ip b = dst"
    for cd :: "chip_state card" and b :: "chip_state net"
    using dispatch_frame [OF l(1) s'(2) l(3) assms(3) l(2) that] by (simp add: received_def)
  ultimately show ?thesis using s' by blast
qed

text \<open>
  C25: when the timer of an open connection has run for 100 ticks since the last segment and the next
  hop is known, a tick puts every unacknowledged segment on the cable, in order, and each frame brings
  its sequence number, flags and data to the other end of the connection.
\<close>

theorem tcp_tick_resends:
  assumes "nic_link (NIC s) (w, q)" "routed dst mac s" "dst = u32_to_ip (REMOTE_IP (TCP s))" "slots_ok (TCP s)"
    "ACTIVE (TCP s)" "STATE (TCP s) \<noteq> SynSent" "100 \<le> TIMER_TICKS s - LAST_SEND (TCP s)"
  shows "\<exists>fs. nic_link (NIC (tcp_tick legacy_card s)) (w @ fs, q) \<and> list_all2 (carries (our_ip s) dst (TCP s)) fs (txq (TCP s))"
proof -
  let ?t = "TCP s"
  obtain fs where fs: "nic_link (NIC (snd (resend legacy_card (TX_HEAD ?t) (TX_TAIL ?t) False s))) (w @ fs, q)"
    "list_all2 (carries (our_ip s) dst ?t) fs (segs_from ?t (TX_HEAD ?t) (TX_TAIL ?t))"
    using resend_link [OF assms(1-4), of "TX_HEAD ?t" "TX_TAIL ?t" False] by blast
  have none: "resend legacy_card e e False s = (False, s)" for e by (subst resend.simps) simp
  have "NIC (tcp_tick legacy_card s) = NIC (snd (resend legacy_card (TX_HEAD ?t) (TX_TAIL ?t) False s))"
    using assms(5-7) none by (simp add: tcp_tick_def case_prod_unfold Let_def tcp_upd_def)
  with fs show ?thesis by (auto simp: txq_def)
qed

text \<open>The machine of the witnesses: a started adapter and a connection to \<open>10.0.0.2\<close> with one segment queued.\<close>

definition sample_host :: "chip_state net" where
  "sample_host = \<lparr>NIC = snd (fst (rings_init legacy_card bios_frames sample_nic)), TIMER_TICKS = 100,
     ARP = (ARP sample_net)\<lparr>CACHE := \<lparr>e_ip = 0x0A000002, e_mac = [1, 2, 3, 4, 5, 6], e_valid = True\<rparr> # replicate 7 \<lparr>e_ip = 0, e_mac = replicate 6 0, e_valid = False\<rparr>\<rparr>,
     IP = IP sample_net, ICMP = ICMP sample_net, UDP = UDP sample_net, DHCP = DHCP sample_net, DNS = DNS sample_net,
     TCP = sample_tcb\<lparr>TX_SLOT_SEQ := [1, 0, 0, 0, 0, 0, 0, 0], TX_SLOT_LEN := [2, 0, 0, 0, 0, 0, 0, 0], TX_TAIL := 1, SND_NXT := 3\<rparr>,
     FALLBACK_APPLIED = False\<rparr>"

lemma sample_host_link: "nic_link (NIC sample_host) ([], [[1, 2, 3]])"
  using sample_link by (simp add: sample_host_def)

lemma sample_host_routed: "routed [10, 0, 0, 2] [1, 2, 3, 4, 5, 6] sample_host"
proof -
  have "next_hop [10, 0, 0, 2] sample_host = [10, 0, 0, 2]"
    by (simp add: next_hop_def on_link_def gateway_def our_ip_def u32_ip ip_to_u32_def sample_host_def sample_net_def idle_stack_def u32_to_ip_def)
  moreover have "ip_to_u32 [10, 0, 0, 2] = 0x0A000002" by (simp add: ip_to_u32_def)
  ultimately show ?thesis
    by (simp add: routed_def arp_lookup_eq sample_host_def holds_ip_def first_from_hit)
qed

theorem ip_end_to_end_witness:
  "\<exists>s' f. ip_send legacy_card [10, 0, 0, 2] 17 [7, 8, 9] sample_host = (True, s') \<and> nic_link (NIC s') ([f], [[1, 2, 3]]) \<and> take 6 f = [1, 2, 3, 4, 5, 6]"
  using ip_end_to_end [OF sample_host_link sample_host_routed, of "[7, 8, 9]" 17] by fastforce

theorem tcp_tick_resends_witness:
  "\<exists>f. nic_link (NIC (tcp_tick legacy_card sample_host)) ([f], [[1, 2, 3]]) \<and>
     carries [10, 0, 0, 1] [10, 0, 0, 2] (TCP sample_host) f (1, [Some 0, Some 0])"
proof -
  have "[10, 0, 0, 2] = u32_to_ip (REMOTE_IP (TCP sample_host))" "our_ip sample_host = [10, 0, 0, 1]"
    by (simp_all add: sample_host_def sample_tcb_def sample_net_def idle_stack_def our_ip_def u32_to_ip_def)
  moreover have "txq (TCP sample_host) = [(1, [Some 0, Some 0])]"
    by (simp add: txq_def segs_from_def seg_at_def payload_of_def Let_def sample_host_def sample_tcb_def upt_rec)
  moreover have "slots_ok (TCP sample_host)" "ACTIVE (TCP sample_host)" "STATE (TCP sample_host) \<noteq> SynSent" "100 \<le> TIMER_TICKS sample_host - LAST_SEND (TCP sample_host)"
    by (simp_all add: slots_ok_def sample_host_def sample_tcb_def)
  ultimately show ?thesis
    using tcp_tick_resends [OF sample_host_link sample_host_routed] by (auto simp: list_all2_Cons2)
qed

end
