(* ===== verification/Hmac.thy ===== *)
theory Hmac
  imports Sha256
begin

text \<open>
  \<open>kernel/src/crypto/hmac.rs\<close> and \<open>hkdf.rs\<close>: HMAC-SHA256 over a sequence of chunks, HKDF and the label
  wrapping of TLS 1.3, against the definitions of RFC 2104, RFC 5869 and RFC 8446.
\<close>

section \<open>HMAC (hmac.rs)\<close>

definition hmac_parts :: "bytes \<Rightarrow> bytes list \<Rightarrow> bytes" where
  "hmac_parts key parts =
     (let k = (if length key > 64 then put_at 0 (sha256_hash key) (replicate 64 0) else put_at 0 key (replicate 64 0));
          ipad = map2 (XOR) (replicate 64 0x36) k;
          opad = map2 (XOR) (replicate 64 0x5C) k;
          ih = sha256_finish (fold sha256_update parts (sha256_update ipad sha256_new))
      in sha256_finish (sha256_update ih (sha256_update opad sha256_new)))"

definition hmac :: "bytes \<Rightarrow> bytes \<Rightarrow> bytes" where
  "hmac key data = hmac_parts key [data]"

section \<open>HKDF (hkdf.rs)\<close>

definition hkdf_extract :: "bytes \<Rightarrow> bytes \<Rightarrow> bytes" where
  "hkdf_extract salt ikm = (if salt = [] then hmac (replicate 32 0) ikm else hmac salt ikm)"

text \<open>The loop of \<open>expand\<close>: \<open>t_len\<close> is 0 as long as there is no previous block.\<close>

function expand_loop :: "bytes \<Rightarrow> bytes \<Rightarrow> bytes \<Rightarrow> nat \<Rightarrow> nat \<Rightarrow> u8 \<Rightarrow> bytes \<Rightarrow> bytes" where
  "expand_loop prk info t t_len written counter out =
     (if written < length out then
        let t = (if t_len = 0 then hmac_parts prk [info, [counter]] else hmac_parts prk [t, info, [counter]]);
            n = min (length out - written) 32;
            out = put_at written (take n t) out;
            written = written + n;
            counter = counter + 1
        in if counter = 0 then out else expand_loop prk info t 32 written counter out
      else out)"
  by pat_completeness auto
termination
  by (relation "measure (\<lambda>(_, _, _, _, written, _, out). length out - written)") auto

declare expand_loop.simps [simp del]

definition hkdf_expand :: "bytes \<Rightarrow> bytes \<Rightarrow> bytes \<Rightarrow> bytes" where
  "hkdf_expand prk info out = expand_loop prk info (replicate 32 0) 0 0 1 out"

text \<open>None where the kernel would panic: label and context together do not fit the buffer.\<close>

definition expand_label :: "bytes \<Rightarrow> bytes \<Rightarrow> bytes \<Rightarrow> bytes \<Rightarrow> bytes option" where
  "expand_label secret label context out =
     (let l = min (length label) 249; c = min (length context) 255 in
      if 10 + l + c > 329 then None
      else
        let info = put_at 0 (to_be16 (of_nat (length out))) (replicate 329 0);
            info = info[2 := of_nat (6 + length label)];
            info = put_at 3 (str ''tls13 '') info;
            info = put_at 9 (take l label) info;
            info = info[9 + l := of_nat c];
            info = put_at (10 + l) (take c context) info
        in Some (hkdf_expand secret (take (10 + l + c) info) out))"

definition derive_secret :: "bytes \<Rightarrow> bytes \<Rightarrow> bytes \<Rightarrow> bytes option" where
  "derive_secret secret label transcript = expand_label secret label transcript (replicate 32 0)"

section \<open>The standards\<close>

text \<open>RFC 2104, for a hash of block size 64.\<close>

definition key_block :: "bytes \<Rightarrow> bytes" where
  "key_block key = (let k = (if length key > 64 then sha256_spec key else key) in k @ replicate (64 - length k) 0)"

definition rfc2104 :: "bytes \<Rightarrow> bytes \<Rightarrow> bytes" where
  "rfc2104 key m =
     sha256_spec (map (\<lambda>b. 0x5C XOR b) (key_block key) @ sha256_spec (map (\<lambda>b. 0x36 XOR b) (key_block key) @ m))"

text \<open>RFC 5869: \<open>T(0)\<close> is empty, \<open>T(i) = HMAC(PRK, T(i - 1) | info | i)\<close>.\<close>

fun rfc5869_T :: "bytes \<Rightarrow> bytes \<Rightarrow> nat \<Rightarrow> bytes" where
  "rfc5869_T prk info 0 = []"
| "rfc5869_T prk info (Suc i) = rfc2104 prk (rfc5869_T prk info i @ info @ [of_nat (Suc i)])"

definition rfc5869_expand :: "bytes \<Rightarrow> bytes \<Rightarrow> nat \<Rightarrow> bytes" where
  "rfc5869_expand prk info L = take L (concat (map (rfc5869_T prk info) [1..<Suc ((L + 31) div 32)]))"

text \<open>RFC 8446, section 7.1: the structure \<open>HkdfLabel\<close> on the wire.\<close>

definition hkdf_label :: "nat \<Rightarrow> bytes \<Rightarrow> bytes \<Rightarrow> bytes" where
  "hkdf_label L label context =
     to_be16 (of_nat L) @ [of_nat (6 + length label)] @ str ''tls13 '' @ label @ [of_nat (length context)] @ context"

section \<open>Equivalence\<close>

lemma length_key_block [simp]: "length (key_block key) = 64"
  by (simp add: key_block_def Let_def)

lemma map2_const: "length xs = n \<Longrightarrow> map2 f (replicate n c) xs = map (f c) xs"
  by (induction xs arbitrary: n) (auto simp: replicate_length_same gr0_conv_Suc)

lemma hmac_parts_rfc: "hmac_parts key parts = rfc2104 key (concat parts)"
proof -
  have k: "(if length key > 64 then put_at 0 (sha256_hash key) (replicate 64 0) else put_at 0 key (replicate 64 0)) = key_block key"
    by (simp add: key_block_def put_at_def sha256_hash_spec Let_def)
  have pad: "map2 (XOR) (replicate 64 c) (key_block key) = map (\<lambda>b. c XOR b) (key_block key)" for c
    by (rule map2_const) simp
  have "sha256_finish (fold sha256_update parts (sha256_update p sha256_new)) = sha256_spec (p @ concat parts)" for p
    using sha256_chunks [of "p # parts"] by simp
  moreover have "sha256_finish (sha256_update q (sha256_update p sha256_new)) = sha256_spec (p @ q)" for p q
    using sha256_chunks [of "[p, q]"] by simp
  ultimately show ?thesis
    unfolding hmac_parts_def rfc2104_def Let_def k pad by simp
qed

lemma hmac_rfc: "hmac key data = rfc2104 key data"
  by (simp add: hmac_def hmac_parts_rfc)

lemma length_rfc2104 [simp]: "length (rfc2104 key m) = 32"
  by (simp add: rfc2104_def)

lemma hkdf_extract_rfc: "hkdf_extract salt ikm = rfc2104 (if salt = [] then replicate 32 0 else salt) ikm"
  by (simp add: hkdf_extract_def hmac_rfc)

lemma length_rfc5869_T [simp]: "length (rfc5869_T prk info (Suc i)) = 32"
  by simp

lemma expand_block:
  "(if t_len = 0 then hmac_parts prk [info, [of_nat (Suc i)]] else hmac_parts prk [rfc5869_T prk info i, info, [of_nat (Suc i)]])
     = rfc5869_T prk info (Suc i)" if "t_len = 0 \<longleftrightarrow> i = 0"
  using that by (simp add: hmac_parts_rfc)

lemma expand_loop_blocks:
  assumes "i < 255" "t_len = 0 \<longleftrightarrow> i = 0" "i = 0 \<or> t = rfc5869_T prk info i"
    "written = min (32 * i) (length out)"
  shows "expand_loop prk info t t_len written (of_nat (Suc i)) out =
     take (32 * i) out @ take (length out - 32 * i) (concat (map (rfc5869_T prk info) [Suc i..<256])) @ drop 8160 out"
  using assms
proof (induction "255 - i" arbitrary: i t t_len written out)
  case 0
  then show ?case by simp
next
  case (Suc d)
  show ?case
  proof (cases "32 * i < length out")
    case False
    with Suc.prems show ?thesis by (subst expand_loop.simps) simp
  next
    case True
    define n where "n = min (length out - 32 * i) 32"
    define T where "T = rfc5869_T prk info (Suc i)"
    define out' where "out' = put_at (32 * i) (take n T) out"
    have len: "length T = 32" by (simp add: T_def)
    have out': "out' = take (32 * i) out @ take n T @ drop (32 * i + 32) out" "length out' = length out"
      using True len by (auto simp: out'_def put_at_def n_def min_def)
    have blk: "(if t_len = 0 then hmac_parts prk [info, [of_nat (Suc i)]] else hmac_parts prk [t, info, [of_nat (Suc i)]]) = T"
      using expand_block [OF Suc.prems(2), of prk info] Suc.prems(2,3) unfolding T_def by (simp split: if_splits)
    have w: "written = 32 * i" using True Suc.prems(4) by simp
    have c0: "(of_nat (Suc (Suc i)) :: u8) = 0 \<longleftrightarrow> i = 254"
    proof -
      have "(256::nat) dvd Suc (Suc i) \<longleftrightarrow> i = 254" using Suc.prems(1) by presburger
      then show ?thesis by (simp only: word_of_nat_eq_0_iff) simp
    qed
    have step: "expand_loop prk info t t_len written (of_nat (Suc i)) out =
        (if i = 254 then out' else expand_loop prk info T 32 (32 * i + n) (of_nat (Suc (Suc i))) out')"
      using True by (subst expand_loop.simps) (simp add: w blk c0 [symmetric] n_def [symmetric] out'_def [symmetric] Let_def add.commute)
    have split: "concat (map (rfc5869_T prk info) [Suc i..<256]) = T @ concat (map (rfc5869_T prk info) [Suc (Suc i)..<256])"
      using Suc.prems(1) by (simp add: upt_conv_Cons T_def del: rfc5869_T.simps)
    show ?thesis
    proof (cases "i = 254")
      case True
      then show ?thesis unfolding step split by (simp add: out' n_def len min_def)
    next
      case False
      have "expand_loop prk info T 32 (32 * i + n) (of_nat (Suc (Suc i))) out' =
          take (32 * Suc i) out' @ take (length out' - 32 * Suc i) (concat (map (rfc5869_T prk info) [Suc (Suc i)..<256])) @ drop 8160 out'"
        using Suc.hyps(2) Suc.prems(1) False \<open>32 * i < length out\<close>
        by (intro Suc.hyps(1)) (auto simp: T_def n_def out'(2) simp del: rfc5869_T.simps)
      moreover have "take (32 * Suc i) out' = take (32 * i) out @ take n T"
        using \<open>32 * i < length out\<close> len by (auto simp: out'(1) n_def min_def)
      moreover have "drop 8160 out' = drop 8160 out"
        using \<open>32 * i < length out\<close> len Suc.prems(1) False by (auto simp: out'(1) n_def min_def)
      ultimately show ?thesis
        unfolding step split using False len by (simp add: out'(2) n_def min_def add.commute)
    qed
  qed
qed

lemma hkdf_expand_eq:
  "hkdf_expand prk info out = take (length out) (concat (map (rfc5869_T prk info) [1..<256])) @ drop 8160 out"
  unfolding hkdf_expand_def using expand_loop_blocks [of 0 0 "replicate 32 0" prk info 0 out] by simp

lemma length_blocks: "length (concat (map (rfc5869_T prk info) [Suc 0..<Suc n])) = 32 * n"
  by (induction n) (simp_all del: rfc5869_T.simps)

lemma rfc5869_expand_prefix:
  assumes "L \<le> 8160"
  shows "rfc5869_expand prk info L = take L (concat (map (rfc5869_T prk info) [1..<256]))"
proof -
  define n where "n = (L + 31) div 32"
  have n: "L \<le> 32 * n" "n \<le> 255" using assms by (simp_all add: n_def)
  then have "[1..<256] = [Suc 0..<Suc n] @ [Suc n..<256]"
    using upt_add_eq_append [of "Suc 0" "Suc n" "255 - n"] by simp
  then have "take L (concat (map (rfc5869_T prk info) [1..<256])) = take L (concat (map (rfc5869_T prk info) [Suc 0..<Suc n]))"
    using n(1) length_blocks [of prk info n] by simp
  then show ?thesis by (simp add: rfc5869_expand_def n_def)
qed

lemma hkdf_expand_rfc: "length out \<le> 8160 \<Longrightarrow> hkdf_expand prk info out = rfc5869_expand prk info (length out)"
  by (simp add: hkdf_expand_eq rfc5869_expand_prefix)

lemma put_at_layout: "length a = i \<Longrightarrow> length x \<le> n \<Longrightarrow> put_at i x (a @ replicate n 0) = a @ x @ replicate (n - length x) 0"
  by (simp add: put_at_def)

lemma set_layout: "length a = i \<Longrightarrow> 0 < n \<Longrightarrow> (a @ replicate n 0)[i := x] = a @ [x] @ replicate (n - 1) 0"
  by (cases n) (simp_all add: list_update_append)

lemma take_exact: "length a = n \<Longrightarrow> take n (a @ r) = a"
  by simp

lemma expand_label_rfc:
  assumes "length label \<le> 249" "length context \<le> 255" "length label + length context \<le> 319" "length out \<le> 8160"
  shows "expand_label secret label context out =
    Some (rfc5869_expand secret (hkdf_label (length out) label context) (length out))"
proof -
  let ?L = "to_be16 (of_nat (length out)) :: bytes"
  let ?f = "[of_nat (6 + length label)] :: bytes"
  let ?p = "str ''tls13 ''"
  let ?a = "?L @ ?f @ ?p @ label"
  have len: "length ?L = 2" "length ?p = 6" by (simp_all add: to_be16_def str_def)
  have "put_at 0 ?L (replicate 329 0) = ?L @ replicate 327 0"
    using put_at_layout [of "[]" 0 ?L 329] len by simp
  moreover have "(?L @ replicate 327 0)[2 := of_nat (6 + length label)] = (?L @ ?f) @ replicate 326 0"
    using set_layout [of ?L 2 327 "of_nat (6 + length label)"] len by simp
  moreover have "put_at 3 ?p ((?L @ ?f) @ replicate 326 0) = (?L @ ?f @ ?p) @ replicate 320 0"
    using put_at_layout [of "?L @ ?f" 3 ?p 326] len by simp
  moreover have "put_at 9 label ((?L @ ?f @ ?p) @ replicate 320 0) = ?a @ replicate (320 - length label) 0"
    using put_at_layout [of "?L @ ?f @ ?p" 9 label 320] len assms by simp
  moreover have "(?a @ replicate (320 - length label) 0)[9 + length label := of_nat (length context)] =
      (?a @ [of_nat (length context)]) @ replicate (319 - length label) 0"
    using set_layout [of ?a "9 + length label" "320 - length label" "of_nat (length context)"] len assms by simp
  moreover have "put_at (10 + length label) context ((?a @ [of_nat (length context)]) @ replicate (319 - length label) 0) =
      (?a @ [of_nat (length context)] @ context) @ replicate (319 - length label - length context) 0"
    using put_at_layout [of "?a @ [of_nat (length context)]" "10 + length label" "context" "319 - length label"] len assms by simp
  moreover have "take (10 + length label + length context)
      ((?a @ [of_nat (length context)] @ context) @ replicate (319 - length label - length context) 0) =
        ?a @ [of_nat (length context)] @ context"
    by (rule take_exact) (simp add: len)
  ultimately have "expand_label secret label context out =
      Some (hkdf_expand secret (?a @ [of_nat (length context)] @ context) out)"
    using assms unfolding expand_label_def Let_def by (simp only: min_absorb1 take_all order_refl) simp
  then show ?thesis
    using assms by (simp add: hkdf_expand_rfc hkdf_label_def)
qed

section \<open>Properties\<close>

text \<open>C39: HMAC over a sequence of chunks is RFC 2104's HMAC-SHA256 of their concatenation, for short keys
  and for keys longer than a block.\<close>

theorem hmac_rfc2104: "hmac_parts key parts = rfc2104 key (concat parts)"
  by (rule hmac_parts_rfc)

text \<open>C40: The secrets of the TLS 1.3 key schedule: deriving one gives the HKDF-Expand of RFC 5869 under
  the HkdfLabel structure of RFC 8446, and never overruns the label buffer, for every label and
  transcript whose lengths add up to at most 319.\<close>

theorem derive_secret_rfc8446:
  assumes "length label \<le> 249" "length transcript \<le> 255" "length label + length transcript \<le> 319"
  shows "derive_secret secret label transcript =
    Some (rfc5869_expand secret (hkdf_label 32 label transcript) 32)"
  using expand_label_rfc [OF assms, of "replicate 32 0"] by (simp add: derive_secret_def)

theorem derive_secret_rfc8446_witness:
  "derive_secret (replicate 32 1) (str ''c hs traffic'') (replicate 32 7) =
     Some (rfc5869_expand (replicate 32 1) (hkdf_label 32 (str ''c hs traffic'') (replicate 32 7)) 32)"
  by (rule derive_secret_rfc8446) (simp_all add: str_def)

lemma expand_label_panics:
  assumes "length label \<le> 249" "length context \<le> 255" "length label + length context > 319"
  shows "expand_label secret label context out = None"
  using assms by (simp add: expand_label_def)

end
