(* ===== verification/Bignum.thy ===== *)
theory Bignum
  imports Prelude "HOL-Library.Monad_Syntax"
begin

text \<open>
  \<open>kernel/src/crypto/bignum.rs\<close>: the Montgomery arithmetic under the RSA and elliptic-curve checks.  A
  number is an array of 64 limbs, least significant first, of which a routine reads the first \<open>n\<close>;
  \<open>big_val\<close> is the number they stand for.  The scratch array of a Montgomery product has 130 limbs; a
  carry that would leave it is an out-of-bounds panic, here \<open>None\<close>, and the lemmas show that it never
  happens.
\<close>

type_synonym big = "u64 list"

abbreviation (input) MAX_LIMBS :: nat where "MAX_LIMBS \<equiv> 64"

section \<open>Conversions\<close>

definition big_zero :: big where
  "big_zero = replicate MAX_LIMBS 0"

definition big_one :: big where
  "big_one = big_zero[0 := 1]"

definition be_limb :: "bytes \<Rightarrow> u64" where
  "be_limb bs = fold (\<lambda>b limb. push_bit 8 limb OR ucast b) bs 0"

fun trim_limbs :: "big \<Rightarrow> nat \<Rightarrow> nat" where
  "trim_limbs a 0 = 0"
| "trim_limbs a (Suc u) = (if Suc u > 1 \<and> a ! u = 0 then trim_limbs a u else Suc u)"

definition big_from_be :: "bytes \<Rightarrow> big \<times> nat" where
  "big_from_be bs =
     (let n = min ((length bs + 7) div 8) MAX_LIMBS;
          out = fold (\<lambda>i out. let en = length bs - i * 8; st = en - 8 in out[i := be_limb (bslice st (en - st) bs)])
                  [0..<n] big_zero
      in (out, trim_limbs out n))"

definition big_to_be :: "big \<Rightarrow> nat \<Rightarrow> bytes \<Rightarrow> bytes" where
  "big_to_be a limbs out =
     (let bs = limbs * 8 in
      fold (\<lambda>i out. let from_low = bs - 1 - i in out[i := ucast (drop_bit (from_low mod 8 * 8) (a ! (from_low div 8)))])
        [0..<min (length out) bs] out)"

section \<open>Limb arithmetic\<close>

datatype ordering = Less | Equal | Greater

fun big_cmp :: "big \<Rightarrow> big \<Rightarrow> nat \<Rightarrow> ordering" where
  "big_cmp a b 0 = Equal"
| "big_cmp a b (Suc i) =
     (if a ! i \<noteq> b ! i then if a ! i < b ! i then Less else Greater else big_cmp a b i)"

definition big_is_zero :: "big \<Rightarrow> nat \<Rightarrow> bool" where
  "big_is_zero a n \<longleftrightarrow> list_all (\<lambda>w. w = 0) (take n a)"

definition overflowing_sub :: "u64 \<Rightarrow> u64 \<Rightarrow> u64 \<times> bool" where
  "overflowing_sub a b = (a - b, a < b)"

definition overflowing_add :: "u64 \<Rightarrow> u64 \<Rightarrow> u64 \<times> bool" where
  "overflowing_add a b = (a + b, a + b < a)"

definition sub_limb :: "big \<Rightarrow> big \<Rightarrow> nat \<Rightarrow> big \<times> u64 \<Rightarrow> big \<times> u64" where
  "sub_limb a b i = (\<lambda>(r, borrow).
     let (v, b1) = overflowing_sub (a ! i) (b ! i);
         (v, b2) = overflowing_sub v borrow
     in (r[i := v], of_bool b1 OR of_bool b2))"

definition sub_into :: "big \<Rightarrow> big \<Rightarrow> big \<Rightarrow> nat \<Rightarrow> big" where
  "sub_into r a b n = fst (fold (sub_limb a b) [0..<n] (r, 0))"

definition add_limb :: "big \<Rightarrow> big \<Rightarrow> nat \<Rightarrow> big \<times> u64 \<Rightarrow> big \<times> u64" where
  "add_limb a b i = (\<lambda>(r, carry).
     let (v, c1) = overflowing_add (a ! i) (b ! i);
         (v, c2) = overflowing_add v carry
     in (r[i := v], of_bool c1 OR of_bool c2))"

definition add_mod :: "big \<Rightarrow> big \<Rightarrow> big \<Rightarrow> big \<Rightarrow> nat \<Rightarrow> big" where
  "add_mod r a b m n =
     (let (r, carry) = fold (add_limb a b) [0..<n] (r, 0) in
      if carry \<noteq> 0 \<or> big_cmp r m n \<noteq> Less then sub_into r r m n else r)"

section \<open>The Montgomery product\<close>

text \<open>One pass of either loop of \<open>mont_mul\<close>: \<open>u\<close> times \<open>b\<close>, added at limb \<open>i\<close>, and the carry rippled
  upwards.\<close>

definition mul_limb :: "nat \<Rightarrow> u64 \<Rightarrow> big \<Rightarrow> nat \<Rightarrow> big \<times> 128 word \<Rightarrow> big \<times> 128 word" where
  "mul_limb i u b j = (\<lambda>(t, carry).
     let x = ucast (t ! (i + j)) + ucast u * ucast (b ! j) + carry :: 128 word
     in (t[i + j := ucast x], drop_bit 64 x))"

function ripple :: "big \<Rightarrow> nat \<Rightarrow> 128 word \<Rightarrow> big option" where
  "ripple t k carry =
     (if carry \<noteq> 0 then
        if k < length t then
          let x = ucast (t ! k) + carry :: 128 word in ripple (t[k := ucast x]) (k + 1) (drop_bit 64 x)
        else None
      else Some t)"
  by pat_completeness auto
termination
  by (relation "measure (\<lambda>(t, k, _). length t - k)") auto

declare ripple.simps [simp del]

definition add_row :: "nat \<Rightarrow> u64 \<Rightarrow> big \<Rightarrow> nat \<Rightarrow> big \<Rightarrow> big option" where
  "add_row i u b n t = (let (t, carry) = fold (mul_limb i u b) [0..<n] (t, 0) in ripple t (i + n) carry)"

fun product_rows :: "big \<Rightarrow> big \<Rightarrow> nat \<Rightarrow> nat list \<Rightarrow> big \<Rightarrow> big option" where
  "product_rows a b n [] t = Some t"
| "product_rows a b n (i # is) t = Option.bind (add_row i (a ! i) b n t) (product_rows a b n is)"

fun reduce_rows :: "big \<Rightarrow> u64 \<Rightarrow> nat \<Rightarrow> nat list \<Rightarrow> big \<Rightarrow> big option" where
  "reduce_rows m np0 n [] t = Some t"
| "reduce_rows m np0 n (i # is) t = Option.bind (add_row i (t ! i * np0) m n t) (reduce_rows m np0 n is)"

definition mont_mul :: "big \<Rightarrow> big \<Rightarrow> big \<Rightarrow> u64 \<Rightarrow> nat \<Rightarrow> big option" where
  "mont_mul a b m np0 n = do {
     t \<leftarrow> product_rows a b n [0..<n] (replicate (2 * MAX_LIMBS + 2) 0);
     t \<leftarrow> reduce_rows m np0 n [0..<n] t;
     let r = put_at 0 (bslice n n t) big_zero;
     Some (if t ! (2 * n) \<noteq> 0 \<or> big_cmp r m n \<noteq> Less then sub_into r r m n else r)
   }"

definition mont_np0 :: "big \<Rightarrow> u64" where
  "mont_np0 m = - ((\<lambda>inv. inv * (2 - m ! 0 * inv)) ^^ 6) 1"

section \<open>Modulus\<close>

record modulus =
  md_m :: big
  md_n :: nat
  md_np0 :: u64
  md_rr :: big

definition modulus_new :: "big \<Rightarrow> nat \<Rightarrow> modulus option" where
  "modulus_new m n =
     (if n = 0 \<or> n > MAX_LIMBS \<or> m ! 0 AND 1 = 0 then None
      else Some \<lparr>md_m = m, md_n = n, md_np0 = mont_np0 m,
                 md_rr = ((\<lambda>rr. add_mod big_zero rr rr m n) ^^ (2 * 64 * n)) big_one\<rparr>)"

definition to_mont :: "modulus \<Rightarrow> big \<Rightarrow> big option" where
  "to_mont md a = mont_mul a (md_rr md) (md_m md) (md_np0 md) (md_n md)"

definition from_mont :: "modulus \<Rightarrow> big \<Rightarrow> big option" where
  "from_mont md a = mont_mul a big_one (md_m md) (md_np0 md) (md_n md)"

text \<open>The scan of the exponent, one bit at a time; the state is \<open>acc\<close> and \<open>started\<close>.\<close>

definition pow_bit :: "modulus \<Rightarrow> big \<Rightarrow> u8 \<Rightarrow> nat \<Rightarrow> big \<times> bool \<Rightarrow> (big \<times> bool) option" where
  "pow_bit md x byte k = (\<lambda>(acc, started). do {
     acc \<leftarrow> if started then mont_mul acc acc (md_m md) (md_np0 md) (md_n md) else Some acc;
     if byte AND push_bit k 1 \<noteq> 0 then do {
       acc \<leftarrow> if started then mont_mul acc x (md_m md) (md_np0 md) (md_n md) else Some x;
       Some (acc, True)
     } else Some (acc, started)
   })"

fun pow_bits :: "modulus \<Rightarrow> big \<Rightarrow> (u8 \<times> nat) list \<Rightarrow> big \<times> bool \<Rightarrow> (big \<times> bool) option" where
  "pow_bits md x [] s = Some s"
| "pow_bits md x ((byte, k) # bs) s = Option.bind (pow_bit md x byte k s) (pow_bits md x bs)"

definition big_pow :: "modulus \<Rightarrow> big \<Rightarrow> bytes \<Rightarrow> big option" where
  "big_pow md base exp = do {
     x \<leftarrow> to_mont md base;
     acc \<leftarrow> to_mont md big_one;
     (acc, started) \<leftarrow> pow_bits md x [(byte, k). byte \<leftarrow> exp, k \<leftarrow> rev [0..<8]] (acc, False);
     if \<not> started then Some big_one else from_mont md acc
   }"

definition md_limb :: "modulus \<Rightarrow> nat \<Rightarrow> u64" where
  "md_limb md i = (if i < md_n md then md_m md ! i else 0)"

definition md_ge :: "modulus \<Rightarrow> big \<Rightarrow> bool" where
  "md_ge md a \<longleftrightarrow> big_cmp a (md_m md) (md_n md) \<noteq> Less"

definition md_add :: "modulus \<Rightarrow> big \<Rightarrow> big \<Rightarrow> big" where
  "md_add md a b = add_mod big_zero a b (md_m md) (md_n md)"

definition md_sub :: "modulus \<Rightarrow> big \<Rightarrow> big \<Rightarrow> big" where
  "md_sub md a b = add_mod big_zero a (sub_into big_zero (md_m md) b (md_n md)) (md_m md) (md_n md)"

definition md_double :: "modulus \<Rightarrow> big \<Rightarrow> big" where
  "md_double md a = md_add md a a"

definition md_mul :: "modulus \<Rightarrow> big \<Rightarrow> big \<Rightarrow> big option" where
  "md_mul md a b = do {
     am \<leftarrow> to_mont md a;
     bm \<leftarrow> to_mont md b;
     r \<leftarrow> mont_mul am bm (md_m md) (md_np0 md) (md_n md);
     from_mont md r
   }"

definition md_sq :: "modulus \<Rightarrow> big \<Rightarrow> big option" where
  "md_sq md a = md_mul md a a"

section \<open>Values\<close>

definition limb_base :: nat where
  "limb_base = 2 ^ 64"

definition big_val :: "nat \<Rightarrow> big \<Rightarrow> nat" where
  "big_val n a = (\<Sum>i<n. unat (a ! i) * limb_base ^ i)"

lemma big_val_simps [simp]:
  "big_val 0 a = 0" "big_val (Suc n) a = big_val n a + unat (a ! n) * limb_base ^ n"
  by (simp_all add: big_val_def)

lemma limb_bound: "unat (w :: u64) < limb_base"
  using unsigned_less [of w] by (simp add: limb_base_def)

lemma limb_base_pos [simp]: "0 < limb_base" "limb_base \<noteq> 0" "0 < limb_base ^ k"
  by (simp_all add: limb_base_def)

lemma big_val_bound: "big_val n a < limb_base ^ n"
proof (induction n)
  case (Suc n)
  have "unat (a ! n) * limb_base ^ n + limb_base ^ n \<le> limb_base * limb_base ^ n"
    using mult_le_mono1 [of "Suc (unat (a ! n))" limb_base "limb_base ^ n"] limb_bound [of "a ! n"] by simp
  with Suc show ?case by simp
qed simp

lemma big_val_cong: "(\<And>i. i < n \<Longrightarrow> a ! i = b ! i) \<Longrightarrow> big_val n a = big_val n b"
  by (simp add: big_val_def)

lemma big_val_update_above: "n \<le> k \<Longrightarrow> big_val n (a[k := x]) = big_val n a"
  by (rule big_val_cong) simp

lemma big_val_update:
  "k < n \<Longrightarrow> k < length a \<Longrightarrow>
     big_val n (a[k := x]) + unat (a ! k) * limb_base ^ k = big_val n a + unat x * limb_base ^ k"
proof (induction n)
  case (Suc n)
  then show ?case by (cases "k = n") (simp_all add: big_val_update_above)
qed simp

lemma big_val_split: "i + j \<le> length a \<Longrightarrow> big_val (i + j) a = big_val i a + limb_base ^ i * big_val j (drop i a)"
  by (induction j) (simp_all add: power_add algebra_simps)

lemma big_val_digit:
  assumes "i < n" "n \<le> length a"
  shows "big_val n a div limb_base ^ i mod limb_base = unat (a ! i)"
proof -
  obtain k where n: "n = i + Suc k" using assms(1) less_imp_Suc_add by auto
  have "big_val n a = big_val i a + limb_base ^ i * big_val (Suc k) (drop i a)"
    using big_val_split [of i "Suc k" a] assms(2) n by simp
  then have "big_val n a div limb_base ^ i = big_val (Suc k) (drop i a)"
    using big_val_bound [of i a] by simp
  also have "\<dots> = unat (a ! i) + limb_base * big_val k (drop (Suc i) a)"
    using big_val_split [of 1 k "drop i a"] assms n by simp
  finally show ?thesis using limb_bound by simp
qed

lemma big_cmp_val:
  "big_cmp a b n = (if big_val n a < big_val n b then Less else if big_val n a = big_val n b then Equal else Greater)"
proof (induction n)
  case (Suc n)
  have *: "big_val n x + u * limb_base ^ n < big_val n y + v * limb_base ^ n" if "u < v" for x y u v
  proof -
    have "Suc u * limb_base ^ n \<le> v * limb_base ^ n" using that by (intro mult_le_mono1) simp
    then show ?thesis using big_val_bound [of n x] by simp
  qed
  consider "a ! n = b ! n" | "a ! n < b ! n" | "b ! n < a ! n" by (rule linorder_cases)
  then show ?case
  proof cases
    case 1
    with Suc show ?thesis by simp
  next
    case 2
    then show ?thesis using * [of "unat (a ! n)" "unat (b ! n)" a b] by (auto simp: word_less_nat_alt)
  next
    case 3
    then show ?thesis using * [of "unat (b ! n)" "unat (a ! n)" b a] by (auto simp: word_less_nat_alt)
  qed
qed simp

lemma sub_digit:
  fixes a b bw :: u64
  assumes "bw = 0 \<or> bw = 1"
  shows "unat (a - b - bw) + unat b + unat bw = unat a + unat (of_bool (a < b) OR of_bool (a - b < bw) :: u64) * limb_base"
proof -
  have "unat a < 2 ^ 64" "unat b < 2 ^ 64" using limb_bound [of a] limb_bound [of b] by (simp_all add: limb_base_def)
  then show ?thesis
    using assms by (auto simp: word_less_nat_alt unat_sub_if_size word_size limb_base_def word_le_nat_alt)
qed

lemma add_digit:
  fixes a b c :: u64
  assumes "c = 0 \<or> c = 1"
  shows "unat (a + b + c) + unat (of_bool (a + b < a) OR of_bool (a + b + c < a + b) :: u64) * limb_base = unat a + unat b + unat c"
proof -
  have "unat a < 2 ^ 64" "unat b < 2 ^ 64" using limb_bound [of a] limb_bound [of b] by (simp_all add: limb_base_def)
  then show ?thesis
    using assms by (auto simp: word_less_nat_alt unat_plus_if_size word_size limb_base_def)
qed

section \<open>Addition and subtraction\<close>

lemma sub_loop:
  assumes "fold (sub_limb a b) [0..<j] (r, 0) = (r', bw)" "j \<le> length r"
  shows "length r' = length r \<and> (bw = 0 \<or> bw = 1) \<and>
    big_val j r' + big_val j b = big_val j a + unat bw * limb_base ^ j \<and> (\<forall>i. j \<le> i \<longrightarrow> r' ! i = r ! i)"
  using assms
proof (induction j arbitrary: r' bw)
  case (Suc j)
  obtain r1 bw1 where 1: "fold (sub_limb a b) [0..<j] (r, 0) = (r1, bw1)" by fastforce
  have IH: "length r1 = length r" "bw1 = 0 \<or> bw1 = 1" "big_val j r1 + big_val j b = big_val j a + unat bw1 * limb_base ^ j"
    "\<forall>i. j \<le> i \<longrightarrow> r1 ! i = r ! i"
    using Suc.IH [OF 1] Suc.prems(2) by simp_all
  define v where "v = a ! j - b ! j - bw1"
  have r': "r' = r1[j := v]" "bw = of_bool (a ! j < b ! j) OR of_bool (a ! j - b ! j < bw1)"
  proof -
    have "sub_limb a b j (r1, bw1) = (r', bw)" using Suc.prems(1) 1 by simp
    then show "r' = r1[j := v]" "bw = of_bool (a ! j < b ! j) OR of_bool (a ! j - b ! j < bw1)"
      by (auto simp: sub_limb_def overflowing_sub_def v_def Let_def)
  qed
  have eq: "unat v + unat (b ! j) + unat bw1 = unat (a ! j) + unat bw * limb_base"
    using sub_digit [OF IH(2)] r'(2) by (simp add: v_def)
  have "big_val (Suc j) r' + big_val (Suc j) b = (big_val j r1 + big_val j b) + (unat v + unat (b ! j)) * limb_base ^ j"
    using IH(1) Suc.prems(2) r'(1) by (simp add: big_val_update_above algebra_simps)
  also have "\<dots> = big_val j a + (unat v + unat (b ! j) + unat bw1) * limb_base ^ j"
    using IH(3) by (simp add: algebra_simps)
  finally have "big_val (Suc j) r' + big_val (Suc j) b = big_val (Suc j) a + unat bw * limb_base ^ Suc j"
    unfolding eq by (simp add: algebra_simps)
  moreover have "bw = 0 \<or> bw = 1" using r'(2) by simp
  moreover have "\<forall>i. Suc j \<le> i \<longrightarrow> r' ! i = r ! i" using IH(4) r'(1) by simp
  ultimately show ?case using IH(1) r'(1) by simp
qed simp

lemma add_loop:
  assumes "fold (add_limb a b) [0..<j] (r, 0) = (r', c)" "j \<le> length r"
  shows "length r' = length r \<and> (c = 0 \<or> c = 1) \<and>
    big_val j r' + unat c * limb_base ^ j = big_val j a + big_val j b \<and> (\<forall>i. j \<le> i \<longrightarrow> r' ! i = r ! i)"
  using assms
proof (induction j arbitrary: r' c)
  case (Suc j)
  obtain r1 c1 where 1: "fold (add_limb a b) [0..<j] (r, 0) = (r1, c1)" by fastforce
  have IH: "length r1 = length r" "c1 = 0 \<or> c1 = 1" "big_val j r1 + unat c1 * limb_base ^ j = big_val j a + big_val j b"
    "\<forall>i. j \<le> i \<longrightarrow> r1 ! i = r ! i"
    using Suc.IH [OF 1] Suc.prems(2) by simp_all
  define v where "v = a ! j + b ! j + c1"
  have r': "r' = r1[j := v]" "c = of_bool (a ! j + b ! j < a ! j) OR of_bool (a ! j + b ! j + c1 < a ! j + b ! j)"
  proof -
    have "add_limb a b j (r1, c1) = (r', c)" using Suc.prems(1) 1 by simp
    then show "r' = r1[j := v]" "c = of_bool (a ! j + b ! j < a ! j) OR of_bool (a ! j + b ! j + c1 < a ! j + b ! j)"
      by (auto simp: add_limb_def overflowing_add_def v_def Let_def)
  qed
  have eq: "unat v + unat c * limb_base = unat (a ! j) + unat (b ! j) + unat c1"
    using add_digit [OF IH(2)] r'(2) by (simp add: v_def)
  have "big_val (Suc j) r' + unat c * limb_base ^ Suc j = big_val j r1 + (unat v + unat c * limb_base) * limb_base ^ j"
    using IH(1) Suc.prems(2) r'(1) by (simp add: big_val_update_above algebra_simps)
  also have "\<dots> = (big_val j r1 + unat c1 * limb_base ^ j) + (unat (a ! j) + unat (b ! j)) * limb_base ^ j"
    unfolding eq by (simp add: algebra_simps)
  finally have "big_val (Suc j) r' + unat c * limb_base ^ Suc j = big_val (Suc j) a + big_val (Suc j) b"
    unfolding IH(3) by (simp add: algebra_simps)
  moreover have "c = 0 \<or> c = 1" using r'(2) by simp
  moreover have "\<forall>i. Suc j \<le> i \<longrightarrow> r' ! i = r ! i" using IH(4) r'(1) by simp
  ultimately show ?case using IH(1) r'(1) by simp
qed simp

text \<open>A number of \<open>n\<close> limbs: the array has its 64 places and those above \<open>n\<close> are zero.\<close>

definition limbs_ok :: "nat \<Rightarrow> big \<Rightarrow> bool" where
  "limbs_ok n a \<longleftrightarrow> length a = MAX_LIMBS \<and> (\<forall>i<MAX_LIMBS. n \<le> i \<longrightarrow> a ! i = 0)"

lemma limbs_ok_zero [simp]: "limbs_ok n big_zero"
  by (simp add: limbs_ok_def big_zero_def)

lemma limbs_ok_one [simp]: "0 < n \<Longrightarrow> limbs_ok n big_one"
  by (simp add: limbs_ok_def big_zero_def big_one_def nth_list_update)

lemma big_val_one: "0 < n \<Longrightarrow> n \<le> MAX_LIMBS \<Longrightarrow> big_val n big_one = 1"
proof (induction n)
  case (Suc n)
  then show ?case by (cases "n = 0") (simp_all add: big_one_def big_zero_def)
qed simp

lemma limbs_ok_cong: "length r' = length r \<Longrightarrow> (\<forall>i. n \<le> i \<longrightarrow> r' ! i = r ! i) \<Longrightarrow> limbs_ok n r \<Longrightarrow> limbs_ok n r'"
  by (simp add: limbs_ok_def)

lemma sub_into_val:
  assumes "limbs_ok n r" "n \<le> MAX_LIMBS" "big_val n b \<le> big_val n a + k * limb_base ^ n"
    "big_val n a + k * limb_base ^ n - big_val n b < limb_base ^ n"
  shows "limbs_ok n (sub_into r a b n)" "big_val n (sub_into r a b n) = big_val n a + k * limb_base ^ n - big_val n b"
proof -
  obtain r' bw where f: "fold (sub_limb a b) [0..<n] (r, 0) = (r', bw)" by fastforce
  have len: "n \<le> length r" using assms by (simp add: limbs_ok_def)
  note L = sub_loop [OF f len]
  show "limbs_ok n (sub_into r a b n)"
    using limbs_ok_cong [of r' r n] L assms(1) f by (simp add: sub_into_def)
  let ?v = "big_val n a + k * limb_base ^ n - big_val n b"
  have "big_val n r' + k * limb_base ^ n = ?v + unat bw * limb_base ^ n" using conjunct1 [OF conjunct2 [OF conjunct2 [OF L]]] assms(3) by linarith
  then have "(big_val n r' + k * limb_base ^ n) mod limb_base ^ n = (?v + unat bw * limb_base ^ n) mod limb_base ^ n" by simp
  then show "big_val n (sub_into r a b n) = ?v"
    using assms(4) big_val_bound [of n r'] f by (simp add: sub_into_def)
qed

text \<open>One subtraction of the modulus, as both reductions do it.\<close>

lemma reduce_once:
  assumes "limbs_ok n r" "n \<le> MAX_LIMBS" "big_val n r + k * limb_base ^ n < 2 * big_val n m" "c \<longleftrightarrow> k \<noteq> 0"
  defines "r' \<equiv> if c \<or> big_cmp r m n \<noteq> Less then sub_into r r m n else r"
  shows "limbs_ok n r'" "big_val n r' = (big_val n r + k * limb_base ^ n) mod big_val n m"
    "big_val n r' < big_val n m"
proof -
  let ?q = "big_val n r + k * limb_base ^ n"
  have iff: "c \<or> big_cmp r m n \<noteq> Less \<longleftrightarrow> big_val n m \<le> ?q"
  proof (cases "k = 0")
    case False
    then have "limb_base ^ n \<le> k * limb_base ^ n" by simp
    then have "big_val n m \<le> ?q" using big_val_bound [of n m] by linarith
    then show ?thesis using False assms(4) by simp
  qed (use assms(4) in \<open>auto simp: big_cmp_val\<close>)
  have m: "big_val n m < limb_base ^ n" by (rule big_val_bound)
  have "limbs_ok n r' \<and> big_val n r' = ?q mod big_val n m"
  proof (cases "big_val n m \<le> ?q")
    case True
    have "limbs_ok n r' \<and> big_val n r' = ?q - big_val n m"
      using sub_into_val [OF assms(1,2), of m r k] True assms(3) m iff by (simp add: r'_def)
    moreover have "?q mod big_val n m = ?q - big_val n m" using True assms(3) by (simp add: le_mod_geq)
    ultimately show ?thesis by simp
  next
    case False
    moreover from this have "k = 0" using iff assms(4) by auto
    ultimately show ?thesis using iff assms(1) by (simp add: r'_def)
  qed
  then show "limbs_ok n r'" "big_val n r' = ?q mod big_val n m" "big_val n r' < big_val n m"
    using assms(3) by auto
qed

lemma add_mod_val:
  assumes "limbs_ok n r" "n \<le> MAX_LIMBS" "big_val n a + big_val n b < 2 * big_val n m"
  shows "limbs_ok n (add_mod r a b m n)" "big_val n (add_mod r a b m n) = (big_val n a + big_val n b) mod big_val n m"
    "big_val n (add_mod r a b m n) < big_val n m"
proof -
  obtain r' c where f: "fold (add_limb a b) [0..<n] (r, 0) = (r', c)" by fastforce
  have len: "n \<le> length r" using assms by (simp add: limbs_ok_def)
  note L = add_loop [OF f len]
  have ok: "limbs_ok n r'" using limbs_ok_cong [of r' r n] L assms(1) by simp
  have "c \<noteq> 0 \<longleftrightarrow> unat c \<noteq> 0" by (simp add: unat_eq_0)
  from reduce_once [OF ok assms(2) _ this, of m] L assms(3)
  show "limbs_ok n (add_mod r a b m n)" "big_val n (add_mod r a b m n) = (big_val n a + big_val n b) mod big_val n m"
    "big_val n (add_mod r a b m n) < big_val n m"
    by (simp_all add: add_mod_def f)
qed

section \<open>The Montgomery product\<close>

text \<open>What a wide accumulator splits into: the limb stored and the carry kept.\<close>

lemma split128:
  fixes x :: "128 word"
  shows "unat (ucast x :: u64) + unat (drop_bit 64 x) * limb_base = unat x" "unat (drop_bit 64 x) < limb_base"
proof -
  have lo: "unat (ucast x :: u64) = unat x mod limb_base" by (simp add: unsigned_ucast_eq take_bit_eq_mod limb_base_def)
  have hi: "unat (drop_bit 64 x) = unat x div limb_base" by (subst unat_drop_bit_eq) (simp only: drop_bit_eq_div limb_base_def)
  show "unat (ucast x :: u64) + unat (drop_bit 64 x) * limb_base = unat x" by (simp add: lo hi)
  have "unat x < 2 ^ 128" using unsigned_less [of x] by simp
  then show "unat (drop_bit 64 x) < limb_base" by (simp add: hi limb_base_def)
qed

lemma unat_ucast_128 [simp]: "unat (ucast (w :: u64) :: 128 word) = unat w"
  by (simp add: unsigned_ucast_eq take_bit_nat_eq_self_iff order_less_trans [OF unsigned_less])

lemma unat_mac:
  fixes t u b :: u64 and c :: "128 word"
  assumes "unat c < limb_base"
  shows "unat (ucast t + ucast u * ucast b + c :: 128 word) = unat t + unat u * unat b + unat c"
proof -
  have "unat u * unat b \<le> (limb_base - 1) * (limb_base - 1)"
    using limb_bound [of u] limb_bound [of b] by (intro mult_le_mono) simp_all
  then have lt: "unat t + unat u * unat b + unat c < 2 ^ 128"
    using limb_bound [of t] assms by (simp add: limb_base_def)
  have m: "unat (ucast u * ucast b :: 128 word) = unat u * unat b"
    using lt by (simp add: unat_word_ariths)
  show ?thesis using lt by (simp add: unat_word_ariths m)
qed

lemma mul_loop:
  assumes "fold (mul_limb i u b) [0..<j] (t, 0) = (t', c)" "i + j \<le> length t"
  shows "length t' = length t \<and> unat c < limb_base \<and>
    big_val (length t) t' + unat c * limb_base ^ (i + j) = big_val (length t) t + unat u * big_val j b * limb_base ^ i"
  using assms
proof (induction j arbitrary: t' c)
  case (Suc j)
  obtain t1 c1 where 1: "fold (mul_limb i u b) [0..<j] (t, 0) = (t1, c1)" by fastforce
  have IH: "length t1 = length t" "unat c1 < limb_base"
    "big_val (length t) t1 + unat c1 * limb_base ^ (i + j) = big_val (length t) t + unat u * big_val j b * limb_base ^ i"
    using Suc.IH [OF 1] Suc.prems(2) by simp_all
  define x :: "128 word" where "x = ucast (t1 ! (i + j)) + ucast u * ucast (b ! j) + c1"
  have "mul_limb i u b j (t1, c1) = (t', c)" using Suc.prems(1) 1 by simp
  then have t': "t' = t1[i + j := ucast x]" "c = drop_bit 64 x" by (auto simp: mul_limb_def x_def Let_def)
  have ux: "unat x = unat (t1 ! (i + j)) + unat u * unat (b ! j) + unat c1"
    unfolding x_def by (rule unat_mac [OF IH(2)])
  have "big_val (length t) t' + unat (t1 ! (i + j)) * limb_base ^ (i + j) =
      big_val (length t) t1 + unat (ucast x :: u64) * limb_base ^ (i + j)"
    unfolding t'(1) using Suc.prems(2) IH(1) by (intro big_val_update) simp_all
  moreover have "unat c * limb_base ^ (i + Suc j) + unat (ucast x :: u64) * limb_base ^ (i + j) = unat x * limb_base ^ (i + j)"
    unfolding split128(1) [of x, symmetric] t'(2) by (simp add: algebra_simps)
  ultimately have "big_val (length t) t' + unat c * limb_base ^ (i + Suc j) =
      big_val (length t) t1 + unat c1 * limb_base ^ (i + j) + unat u * unat (b ! j) * limb_base ^ (i + j)"
    unfolding ux by (simp add: algebra_simps)
  then have "big_val (length t) t' + unat c * limb_base ^ (i + Suc j) =
      big_val (length t) t + unat u * big_val (Suc j) b * limb_base ^ i"
    unfolding IH(3) by (simp add: algebra_simps power_add)
  then show ?case using IH(1) split128(2) [of x] t' by simp
qed simp

lemma ripple_val:
  assumes "unat c < limb_base" "k \<le> length t" "big_val (length t) t + unat c * limb_base ^ k < limb_base ^ length t"
  obtains t' where "ripple t k c = Some t'" "length t' = length t"
    "big_val (length t) t' = big_val (length t) t + unat c * limb_base ^ k"
  using assms
proof (induction t k c arbitrary: thesis rule: ripple.induct)
  case (1 t k c)
  show ?case
  proof (cases "c = 0")
    case True
    then show ?thesis using "1.prems"(1) by (simp add: ripple.simps)
  next
    case False
    then have c: "0 < unat c" by (simp add: unat_gt_0)
    have k: "k < length t"
    proof (rule ccontr)
      assume "\<not> ?thesis"
      with "1.prems"(3) have "k = length t" by simp
      with c "1.prems"(4) show False by (cases "unat c") simp_all
    qed
    define x :: "128 word" where "x = ucast (t ! k) + c"
    have ux: "unat x = unat (t ! k) + unat c"
      unfolding x_def using unat_mac [OF "1.prems"(2), of "t ! k" 0 0] by simp
    have "big_val (length t) (t[k := ucast x]) + unat (t ! k) * limb_base ^ k =
        big_val (length t) t + unat (ucast x :: u64) * limb_base ^ k"
      using k by (intro big_val_update)
    moreover have "unat (drop_bit 64 x) * limb_base ^ (k + 1) + unat (ucast x :: u64) * limb_base ^ k = unat x * limb_base ^ k"
      unfolding split128(1) [of x, symmetric] by (simp add: algebra_simps)
    ultimately have v: "big_val (length t) (t[k := ucast x]) + unat (drop_bit 64 x) * limb_base ^ (k + 1) =
        big_val (length t) t + unat c * limb_base ^ k"
      unfolding ux by (simp add: algebra_simps)
    show ?thesis
    proof (rule "1.IH" [OF False k x_def])
      show "unat (drop_bit 64 x) < limb_base" by (rule split128(2))
      show "k + 1 \<le> length (t[k := ucast x])" using k by simp
      show "big_val (length (t[k := ucast x])) (t[k := ucast x]) + unat (drop_bit 64 x) * limb_base ^ (k + 1)
          < limb_base ^ length (t[k := ucast x])" using v "1.prems"(4) by simp
    next
      fix t'
      assume *: "ripple (t[k := ucast x]) (k + 1) (drop_bit 64 x) = Some t'" "length t' = length (t[k := ucast x])"
        "big_val (length (t[k := ucast x])) t' =
           big_val (length (t[k := ucast x])) (t[k := ucast x]) + unat (drop_bit 64 x) * limb_base ^ (k + 1)"
      show ?thesis
        using "1.prems"(1) [of t'] * v False k by (simp add: ripple.simps [of t] x_def [symmetric] Let_def)
    qed
  qed
qed

lemma add_row_val:
  assumes "i + n \<le> length t" "big_val (length t) t + unat u * big_val n b * limb_base ^ i < limb_base ^ length t"
  obtains t' where "add_row i u b n t = Some t'" "length t' = length t"
    "big_val (length t) t' = big_val (length t) t + unat u * big_val n b * limb_base ^ i"
proof -
  obtain t1 c where f: "fold (mul_limb i u b) [0..<n] (t, 0) = (t1, c)" by fastforce
  note L = mul_loop [OF f assms(1)]
  obtain t' where "ripple t1 (i + n) c = Some t'" "length t' = length t1"
    "big_val (length t1) t' = big_val (length t1) t1 + unat c * limb_base ^ (i + n)"
    by (rule ripple_val [of c "i + n" t1]) (use L assms in simp_all)
  then show ?thesis using that [of t'] L f by (simp add: add_row_def)
qed

lemma digit_next: "K < limb_base ^ i \<Longrightarrow> K + unat (u :: u64) * limb_base ^ i < limb_base ^ Suc i"
proof -
  have "Suc (unat u) * limb_base ^ i \<le> limb_base * limb_base ^ i" using limb_bound [of u] by (intro mult_le_mono1) simp
  then show "K < limb_base ^ i \<Longrightarrow> ?thesis" by simp
qed

lemma product_fits:
  assumes "x < limb_base ^ n" "y < limb_base ^ n" "2 * n < l"
  shows "x * y < limb_base ^ l" "P < limb_base ^ (2 * n) \<Longrightarrow> P + x * y < limb_base ^ l"
proof -
  have "x * y < limb_base ^ n * limb_base ^ n" using assms by (intro mult_strict_mono) simp_all
  then have xy: "x * y < limb_base ^ (2 * n)" by (simp add: mult_2 power_add)
  have "2 * limb_base ^ (2 * n) \<le> limb_base * limb_base ^ (2 * n)" by (intro mult_le_mono1) (simp add: limb_base_def)
  also have "\<dots> = limb_base ^ Suc (2 * n)" by simp
  also have "\<dots> \<le> limb_base ^ l" using assms(3) by (intro power_increasing) (simp_all add: limb_base_def)
  finally have "2 * limb_base ^ (2 * n) \<le> limb_base ^ l" .
  with xy show "x * y < limb_base ^ l" "P < limb_base ^ (2 * n) \<Longrightarrow> P + x * y < limb_base ^ l" by simp_all
qed

lemma product_rows_val:
  assumes "i \<le> n" "2 * n < length t" "big_val (length t) t = big_val i a * big_val n b"
  obtains t' where "product_rows a b n [i..<n] t = Some t'" "length t' = length t"
    "big_val (length t) t' = big_val n a * big_val n b"
  using assms
proof (induction "n - i" arbitrary: i t thesis)
  case 0
  then show ?case by (cases "i = n") simp_all
next
  case (Suc d)
  have i: "i < n" using Suc.hyps(2) by simp
  have next_val: "big_val (length t) t + unat (a ! i) * big_val n b * limb_base ^ i = big_val (Suc i) a * big_val n b"
    using Suc.prems(4) by (simp add: algebra_simps)
  have "big_val (Suc i) a < limb_base ^ n"
    using big_val_bound [of "Suc i" a] power_increasing [of "Suc i" n limb_base] i by (simp add: limb_base_def)
  then have fits: "big_val (Suc i) a * big_val n b < limb_base ^ length t"
    using Suc.prems(3) by (intro product_fits(1) [of _ n]) (simp_all only: big_val_bound)
  obtain t1 where t1: "add_row i (a ! i) b n t = Some t1" "length t1 = length t"
    "big_val (length t) t1 = big_val (Suc i) a * big_val n b"
    by (rule add_row_val [of i n t "a ! i" b]) (use i fits Suc.prems(3) next_val in simp_all)
  obtain t' where "product_rows a b n [Suc i..<n] t1 = Some t'" "length t' = length t1"
    "big_val (length t1) t' = big_val n a * big_val n b"
    by (rule Suc.hyps(1) [of "Suc i" t1]) (use Suc.hyps(2) i Suc.prems(3) t1 in simp_all)
  then show ?case using Suc.prems(1) [of t'] t1 i by (simp add: upt_conv_Cons)
qed

text \<open>One pass of the reduction makes one more limb vanish.\<close>

lemma of_nat_big_val: "0 < n \<Longrightarrow> (of_nat (big_val n a) :: u64) = a ! 0"
proof (induction n)
  case (Suc n)
  have z: "(of_nat (limb_base ^ n) :: u64) = 0" if "0 < n"
    using that by (simp only: word_of_nat_eq_0_iff) (simp add: limb_base_def dvd_power)
  then show ?case using Suc by (cases "n = 0") simp_all
qed simp

lemma limb_vanishes:
  assumes "m ! 0 * np0 = -1" "0 < n" "i < l" "l \<le> length t" "limb_base ^ i dvd big_val l t"
  shows "limb_base ^ Suc i dvd big_val l t + unat (t ! i * np0) * big_val n m * limb_base ^ i"
proof -
  obtain q where q: "big_val l t = limb_base ^ i * q" using assms(5) by auto
  have "q mod limb_base = unat (t ! i)" using big_val_digit [OF assms(3,4)] q by simp
  then have tq: "(of_nat q :: u64) = t ! i"
  proof -
    have "(of_nat q :: u64) = of_nat (q mod limb_base)" by (simp add: word_of_nat_eq_iff take_bit_eq_mod limb_base_def)
    then show ?thesis using \<open>q mod limb_base = _\<close> by simp
  qed
  have "(of_nat (q + unat (t ! i * np0) * big_val n m) :: u64) = t ! i + t ! i * (m ! 0 * np0)"
    using tq of_nat_big_val [OF assms(2), of m] by simp
  also have "\<dots> = 0" by (simp add: assms(1))
  finally have "limb_base dvd q + unat (t ! i * np0) * big_val n m"
    by (simp only: word_of_nat_eq_0_iff limb_base_def) simp
  then have "limb_base ^ i * limb_base dvd limb_base ^ i * (q + unat (t ! i * np0) * big_val n m)" by (rule mult_dvd_mono [OF dvd_refl])
  then show ?thesis by (simp add: q algebra_simps)
qed

lemma reduce_rows_val:
  assumes "i \<le> n" "2 * n < length t" "m ! 0 * np0 = -1" "limb_base ^ i dvd big_val (length t) t"
    "big_val (length t) t = P + K * big_val n m" "K < limb_base ^ i" "P < limb_base ^ (2 * n)"
  obtains t' K' where "reduce_rows m np0 n [i..<n] t = Some t'" "length t' = length t"
    "limb_base ^ n dvd big_val (length t) t'" "big_val (length t) t' = P + K' * big_val n m" "K' < limb_base ^ n"
  using assms
proof (induction "n - i" arbitrary: i t K thesis)
  case 0
  then show ?case by (cases "i = n") simp_all
next
  case (Suc d)
  have i: "i < n" using Suc.hyps(2) by simp
  define u where "u = t ! i * np0"
  define K1 where "K1 = K + unat u * limb_base ^ i"
  have val: "big_val (length t) t + unat u * big_val n m * limb_base ^ i = P + K1 * big_val n m"
    using Suc.prems(6) by (simp add: K1_def algebra_simps)
  have K1: "K1 < limb_base ^ Suc i" unfolding K1_def using Suc.prems(7) by (rule digit_next)
  have "K1 < limb_base ^ n"
    using K1 power_increasing [of "Suc i" n limb_base] i by (simp add: limb_base_def)
  then have fits: "P + K1 * big_val n m < limb_base ^ length t"
    using Suc.prems(3,8) by (intro product_fits(2) [of _ n]) (simp_all add: big_val_bound)
  obtain t1 where t1: "add_row i u m n t = Some t1" "length t1 = length t" "big_val (length t) t1 = P + K1 * big_val n m"
    by (rule add_row_val [of i n t u m]) (use i fits Suc.prems(3) val in simp_all)
  have "limb_base ^ Suc i dvd big_val (length t1) t1"
    using limb_vanishes [of m np0 n i "length t" t] Suc.prems(3-5) i val t1 by (simp add: u_def)
  then obtain t' K' where "reduce_rows m np0 n [Suc i..<n] t1 = Some t'" "length t' = length t1"
    "limb_base ^ n dvd big_val (length t1) t'" "big_val (length t1) t' = P + K' * big_val n m" "K' < limb_base ^ n"
    by (rule Suc.hyps(1) [of "Suc i" t1 _ K1, rotated 5]) (use Suc.hyps(2) i Suc.prems(3,4,8) t1 K1 in simp_all)
  then show ?case using Suc.prems(1) [of t' K'] t1 i by (simp add: upt_conv_Cons u_def)
qed

text \<open>Newton's iteration doubles the number of correct low bits, so six rounds from one bit give 64.\<close>

lemma newton_error: "1 - m * ((\<lambda>inv. inv * (2 - m * inv)) ^^ k) 1 = (1 - m :: 'a::comm_ring_1) ^ 2 ^ k"
proof (induction k)
  case (Suc k)
  let ?v = "((\<lambda>inv. inv * (2 - m * inv)) ^^ k) 1"
  have "1 - m * ((\<lambda>inv. inv * (2 - m * inv)) ^^ Suc k) 1 = (1 - m * ?v) ^ 2"
    by (simp add: power2_eq_square algebra_simps)
  then show ?case using Suc by (simp add: mult.commute flip: power_mult)
qed simp

lemma mont_np0_inverse:
  assumes "m ! 0 AND 1 \<noteq> 0"
  shows "m ! 0 * mont_np0 m = -1"
proof -
  have odd: "odd (m ! 0)" using assms by (simp add: and_one_eq odd_iff_mod_2_eq_one)
  then have "even (1 - m ! 0)" by simp
  then obtain y where "1 - m ! 0 = 2 * y" by (rule evenE)
  then have "(1 - m ! 0) ^ 64 = 2 ^ 64 * y ^ 64" by (simp add: power_mult_distrib)
  also have "(2 ^ 64 :: u64) = 0" by simp
  finally have "(1 - m ! 0) ^ 2 ^ 6 = 0" by simp
  with newton_error [of "m ! 0" 6] show ?thesis by (simp add: mont_np0_def)
qed

section \<open>Residues\<close>

lemma mod_cancel:
  fixes x y R m :: nat
  assumes "coprime R m" "x * R mod m = y * R mod m"
  shows "x mod m = y mod m"
proof -
  have "int m dvd (int x - int y) * int R"
    using assms(2) by (simp add: left_diff_distrib mod_eq_dvd_iff [symmetric] flip: of_nat_mult of_nat_mod)
  then have "int m dvd int x - int y"
    using assms(1) by (simp add: coprime_dvd_mult_left_iff coprime_commute)
  then have "int x mod int m = int y mod int m" by (simp add: mod_eq_dvd_iff)
  then show ?thesis by (simp flip: of_nat_mod)
qed

definition modulus_ok :: "big \<Rightarrow> u64 \<Rightarrow> nat \<Rightarrow> bool" where
  "modulus_ok m np0 n \<longleftrightarrow> 0 < n \<and> n \<le> MAX_LIMBS \<and> odd (m ! 0) \<and> m ! 0 * np0 = -1"

lemma coprime_radix:
  assumes "modulus_ok m np0 n"
  shows "coprime (limb_base ^ k) (big_val n m)"
proof -
  have "odd (big_val n m)"
  proof -
    have "odd (of_nat (big_val n m) :: u64)" using assms of_nat_big_val [of n m] by (simp add: modulus_ok_def)
    then show ?thesis by simp
  qed
  then have "coprime 2 (big_val n m)" by simp
  then show ?thesis by (simp only: limb_base_def coprime_power_left_iff) simp
qed

lemma big_val_high:
  assumes "i + j \<le> l" "l \<le> length t" "limb_base ^ i dvd big_val l t"
  shows "big_val l t div limb_base ^ i mod limb_base ^ j = big_val j (drop i t)"
proof -
  have "big_val l t = big_val i t + limb_base ^ i * big_val (l - i) (drop i t)"
    using big_val_split [of i "l - i" t] assms by simp
  then have "big_val l t div limb_base ^ i = big_val (l - i) (drop i t)" using big_val_bound [of i t] by simp
  also have "\<dots> = big_val j (drop i t) + limb_base ^ j * big_val (l - i - j) (drop (i + j) t)"
    using big_val_split [of j "l - i - j" "drop i t"] assms by (simp add: add.commute)
  finally show ?thesis using big_val_bound [of j] by simp
qed

lemma mont_mul_val:
  assumes ok: "modulus_ok m np0 n" and small: "big_val n a * big_val n b < limb_base ^ n * big_val n m"
  obtains r where "mont_mul a b m np0 n = Some r" "limbs_ok n r" "big_val n r < big_val n m"
    "big_val n r * limb_base ^ n mod big_val n m = big_val n a * big_val n b mod big_val n m"
proof -
  let ?P = "big_val n a * big_val n b" and ?m = "big_val n m" and ?R = "limb_base ^ n"
  have n: "0 < n" "n \<le> MAX_LIMBS" "m ! 0 * np0 = -1" using ok by (simp_all add: modulus_ok_def)
  have "big_val k (replicate (2 * MAX_LIMBS + 2) 0) = 0" if "k \<le> 130" for k using that by (induction k) simp_all
  then obtain t where t: "product_rows a b n [0..<n] (replicate (2 * MAX_LIMBS + 2) 0) = Some t" "length t = 130" "big_val 130 t = ?P"
    by (rule_tac product_rows_val [of 0 n "replicate (2 * MAX_LIMBS + 2) 0" a b]) (use n in simp_all)
  have "?P < ?R * ?R" using small big_val_bound [of n m] by (meson less_trans mult_strict_left_mono limb_base_pos(3))
  then have P: "?P < limb_base ^ (2 * n)" by (simp add: mult_2 power_add)
  obtain t' K where t': "reduce_rows m np0 n [0..<n] t = Some t'" "length t' = 130"
    "?R dvd big_val 130 t'" "big_val 130 t' = ?P + K * ?m" "K < ?R"
    by (rule reduce_rows_val [of 0 n t m np0 ?P 0]) (use n t P in simp_all)
  obtain q where q: "big_val 130 t' = ?R * q" using t'(3) by auto
  have "?P + K * ?m < ?R * ?m + ?R * ?m" using small t'(5) by (intro add_less_le_mono mult_le_mono1) simp_all
  then have "?R * q < ?R * (2 * ?m)" using t'(4) q by (simp add: algebra_simps)
  then have q2: "q < 2 * ?m" by simp
  define r where "r = put_at 0 (bslice n n t') big_zero"
  have r: "limbs_ok n r" "big_val n r = big_val n (drop n t')"
    using n t'(2) by (auto simp: r_def limbs_ok_def nth_put_at nth_bslice big_zero_def intro!: big_val_cong)
  have "q mod ?R = big_val n r" using big_val_high [of n n 130 t'] n t'(2,3) q r by simp
  then have split: "big_val n r + q div ?R * ?R = q" using mod_mult_div_eq [of q ?R] by (simp add: mult.commute)
  have "q div ?R < limb_base"
    using q2 big_val_bound [of n m] by (intro less_mult_imp_div_less) (simp add: limb_base_def)
  then have "unat (t' ! (2 * n)) = q div ?R"
    using big_val_digit [of "2 * n" 130 t'] n t'(2) q by (simp add: mult_2 power_add)
  then have "t' ! (2 * n) \<noteq> 0 \<longleftrightarrow> q div ?R \<noteq> 0" by (metis unat_eq_0)
  note once = reduce_once [OF r(1) n(2) _ this, of m, unfolded split, OF q2]
  let ?r = "if t' ! (2 * n) \<noteq> 0 \<or> big_cmp r m n \<noteq> Less then sub_into r r m n else r"
  have "big_val n ?r * ?R mod ?m = q * ?R mod ?m" using once(2) by (simp add: mod_mult_left_eq)
  also have "\<dots> = (?P + K * ?m) mod ?m" unfolding t'(4) [symmetric] q by (simp add: mult.commute)
  also have "\<dots> = ?P mod ?m" by simp
  finally show ?thesis
    using that [of ?r] once(1,3) t(1) t'(1) by (simp add: mont_mul_def r_def Let_def)
qed

section \<open>A prepared modulus\<close>

abbreviation md_val :: "modulus \<Rightarrow> big \<Rightarrow> nat" where
  "md_val md a \<equiv> big_val (md_n md) a"

abbreviation radix :: "modulus \<Rightarrow> nat" where
  "radix md \<equiv> limb_base ^ md_n md"

abbreviation order_of :: "modulus \<Rightarrow> nat" where
  "order_of md \<equiv> md_val md (md_m md)"

definition md_ok :: "modulus \<Rightarrow> bool" where
  "md_ok md \<longleftrightarrow> modulus_ok (md_m md) (md_np0 md) (md_n md) \<and> 1 < order_of md \<and>
     md_val md (md_rr md) = radix md ^ 2 mod order_of md"

definition in_mont :: "modulus \<Rightarrow> big \<Rightarrow> nat \<Rightarrow> bool" where
  "in_mont md a v \<longleftrightarrow> md_val md a = v * radix md mod order_of md"

lemma rr_val:
  assumes "0 < n" "n \<le> MAX_LIMBS" "1 < big_val n m"
  shows "big_val n (((\<lambda>rr. add_mod big_zero rr rr m n) ^^ k) big_one) = 2 ^ k mod big_val n m"
proof (induction k)
  case 0
  then show ?case using assms by (simp add: big_val_one)
next
  case (Suc k)
  let ?r = "((\<lambda>rr. add_mod big_zero rr rr m n) ^^ k) big_one"
  have "big_val n ?r < big_val n m" unfolding Suc using assms(3) by simp
  then have "big_val n (add_mod big_zero ?r ?r m n) = 2 * (2 ^ k mod big_val n m) mod big_val n m"
    using add_mod_val(2) [of n big_zero ?r ?r m] assms(2) Suc by (simp flip: mult_2)
  then show ?case by (simp add: mod_mult_right_eq)
qed

lemma modulus_new_ok:
  assumes "modulus_new m n = Some md" "1 < big_val n m"
  shows "md_ok md" "md_m md = m" "md_n md = n"
proof -
  have n: "0 < n" "n \<le> MAX_LIMBS" "m ! 0 AND 1 \<noteq> 0"
    and md: "md = \<lparr>md_m = m, md_n = n, md_np0 = mont_np0 m,
                 md_rr = ((\<lambda>rr. add_mod big_zero rr rr m n) ^^ (2 * 64 * n)) big_one\<rparr>"
    using assms(1) by (auto simp: modulus_new_def split: if_splits)
  have "(2 :: nat) ^ (2 * 64 * n) = (limb_base ^ n) ^ 2" by (simp only: limb_base_def flip: power_mult) (simp add: ac_simps)
  then show "md_ok md" "md_m md = m" "md_n md = n"
    using rr_val [OF n(1,2) assms(2), of "2 * 64 * n"] n assms(2) mont_np0_inverse [OF n(3)]
    by (simp_all add: md_ok_def md modulus_ok_def and_one_eq odd_iff_mod_2_eq_one)
qed

lemma mont_mul_in:
  assumes "md_ok md" "md_val md a * md_val md b < radix md * order_of md"
    "md_val md a * md_val md b mod order_of md = v * radix md * radix md mod order_of md"
  obtains r where "mont_mul a b (md_m md) (md_np0 md) (md_n md) = Some r" "limbs_ok (md_n md) r" "in_mont md r v"
proof -
  have ok: "modulus_ok (md_m md) (md_np0 md) (md_n md)" using assms(1) by (simp add: md_ok_def)
  obtain r where r: "mont_mul a b (md_m md) (md_np0 md) (md_n md) = Some r" "limbs_ok (md_n md) r"
    "md_val md r < order_of md" "md_val md r * radix md mod order_of md = md_val md a * md_val md b mod order_of md"
    by (rule mont_mul_val [OF ok assms(2)])
  have "md_val md r mod order_of md = v * radix md mod order_of md"
    by (rule mod_cancel [OF coprime_radix [OF ok, of "md_n md"]]) (simp only: r(4) assms(3))
  then show ?thesis using that [OF r(1,2)] r(3) by (simp add: in_mont_def)
qed

lemma mont_times:
  assumes "md_ok md" "in_mont md a v" "in_mont md b w"
  obtains r where "mont_mul a b (md_m md) (md_np0 md) (md_n md) = Some r" "limbs_ok (md_n md) r" "in_mont md r (v * w)"
proof (rule mont_mul_in [OF assms(1)])
  have lt: "md_val md x < order_of md" if "in_mont md x u" for x u
    using that assms(1) by (simp add: in_mont_def md_ok_def)
  have "md_val md a * md_val md b \<le> radix md * md_val md b" using big_val_bound [of "md_n md" a] by (intro mult_le_mono1) simp
  also have "\<dots> < radix md * order_of md" using lt [OF assms(3)] by simp
  finally show "md_val md a * md_val md b < radix md * order_of md" .
  show "md_val md a * md_val md b mod order_of md = v * w * radix md * radix md mod order_of md"
    using assms(2,3) by (simp add: in_mont_def mod_mult_eq ac_simps)
qed (rule that)

lemma to_mont_in:
  assumes "md_ok md"
  obtains r where "to_mont md a = Some r" "limbs_ok (md_n md) r" "in_mont md r (md_val md a)"
proof (rule mont_mul_in [OF assms, of a "md_rr md" "md_val md a"])
  have rr: "md_val md (md_rr md) = radix md ^ 2 mod order_of md" "0 < order_of md" using assms by (simp_all add: md_ok_def)
  have "md_val md a * md_val md (md_rr md) \<le> radix md * md_val md (md_rr md)"
    using big_val_bound [of "md_n md" a] by (intro mult_le_mono1) simp
  also have "\<dots> < radix md * order_of md" using rr by simp
  finally show "md_val md a * md_val md (md_rr md) < radix md * order_of md" .
  show "md_val md a * md_val md (md_rr md) mod order_of md = md_val md a * radix md * radix md mod order_of md"
    using rr by (simp add: mod_mult_right_eq power2_eq_square mult.assoc)
qed (use that in \<open>simp add: to_mont_def\<close>)

lemma from_mont_out:
  assumes "md_ok md" "in_mont md a v"
  obtains r where "from_mont md a = Some r" "limbs_ok (md_n md) r" "md_val md r = v mod order_of md"
proof -
  have ok: "modulus_ok (md_m md) (md_np0 md) (md_n md)" "0 < md_n md" "md_n md \<le> MAX_LIMBS" "1 < order_of md"
    using assms(1) by (simp_all add: md_ok_def modulus_ok_def)
  have "md_val md a * 1 \<le> radix md * 1" using big_val_bound [of "md_n md" a] by simp
  also have "\<dots> < radix md * order_of md" using ok(4) by (intro mult_strict_left_mono) simp_all
  finally have small: "md_val md a * md_val md big_one < radix md * order_of md" using ok by (simp add: big_val_one)
  have a: "md_val md a * md_val md big_one = v * radix md mod order_of md"
    using assms(2) ok by (simp add: in_mont_def big_val_one)
  obtain r where r: "mont_mul a big_one (md_m md) (md_np0 md) (md_n md) = Some r" "limbs_ok (md_n md) r"
    "md_val md r < order_of md" "md_val md r * radix md mod order_of md = md_val md a * md_val md big_one mod order_of md"
    by (rule mont_mul_val [OF ok(1) small])
  have "md_val md r mod order_of md = v mod order_of md"
    by (rule mod_cancel [OF coprime_radix [OF ok(1), of "md_n md"]]) (simp only: r(4) a mod_mod_trivial)
  then show ?thesis using that r by (simp add: from_mont_def)
qed

section \<open>Exponentiation\<close>

definition be_nat :: "bytes \<Rightarrow> nat" where
  "be_nat bs = fold (\<lambda>b v. 256 * v + unat b) bs 0"

definition scan_bits :: "(u8 \<times> nat) list \<Rightarrow> nat \<Rightarrow> nat" where
  "scan_bits bs e = fold (\<lambda>(byte, k) e. 2 * e + of_bool (bit byte k)) bs e"

lemma scan_byte: "scan_bits (map (Pair byte) (rev [0..<8])) e = 256 * e + unat byte"
proof -
  define d where "d k = unat (drop_bit k byte)" for k
  have d: "d k = unat byte div 2 ^ k" for k
    unfolding d_def by (subst unat_drop_bit_eq) (simp only: drop_bit_eq_div)
  have step: "2 * d (Suc k) + of_bool (bit byte k) = d k" for k
  proof -
    have "bit byte k \<longleftrightarrow> bit (unat byte) k" by (simp add: bit_unsigned_iff)
    also have "\<dots> \<longleftrightarrow> odd (d k)" unfolding d by (rule bit_iff_odd)
    finally have "of_bool (bit byte k) = d k mod 2" by (simp add: mod_2_eq_odd)
    moreover have "d (Suc k) = d k div 2" unfolding d by (simp only: div_mult2_eq power_Suc2)
    ultimately show ?thesis by simp
  qed
  have "scan_bits (map (Pair byte) (rev [0..<k])) (c + d k) = c * 2 ^ k + d 0" for c k
  proof (induction k arbitrary: c)
    case (Suc k)
    have "scan_bits (map (Pair byte) (rev [0..<Suc k])) (c + d (Suc k)) =
        scan_bits (map (Pair byte) (rev [0..<k])) (2 * (c + d (Suc k)) + of_bool (bit byte k))"
      by (simp add: scan_bits_def)
    also have "2 * (c + d (Suc k)) + of_bool (bit byte k) = 2 * c + d k" using step [of k] by simp
    finally show ?case unfolding Suc by (simp add: ac_simps)
  qed (simp add: scan_bits_def)
  note this [of 8 e]
  moreover have "d 8 = 0" "d 0 = unat byte" using unsigned_less [of byte, where 'a = nat] by (simp_all add: d)
  ultimately show ?thesis by (simp add: mult.commute)
qed

lemma scan_bytes: "scan_bits [(byte, k). byte \<leftarrow> bs, k \<leftarrow> rev [0..<8]] e = fold (\<lambda>b v. 256 * v + unat b) bs e"
proof (induction bs arbitrary: e)
  case (Cons b bs)
  have "scan_bits [(byte, k). byte \<leftarrow> b # bs, k \<leftarrow> rev [0..<8]] e =
      scan_bits [(byte, k). byte \<leftarrow> bs, k \<leftarrow> rev [0..<8]] (scan_bits (map (Pair b) (rev [0..<8])) e)"
    by (simp add: scan_bits_def)
  then show ?case using Cons by (simp add: scan_byte)
qed (simp add: scan_bits_def)

definition scanned :: "modulus \<Rightarrow> nat \<Rightarrow> nat \<Rightarrow> big \<times> bool \<Rightarrow> bool" where
  "scanned md v e = (\<lambda>(acc, started). (started \<longleftrightarrow> 0 < e) \<and> (started \<longrightarrow> in_mont md acc (v ^ e)))"

lemma pow_bit_step:
  assumes "md_ok md" "in_mont md x v" "scanned md v e s"
  obtains s' where "pow_bit md x byte k s = Some s'" "scanned md v (2 * e + of_bool (bit byte k)) s'"
proof -
  obtain acc started where s: "s = (acc, started)" by fastforce
  have bit: "byte AND 2 ^ k = 0 \<longleftrightarrow> \<not> bit byte k"
    by (rule and_exp_eq_0_iff_not_bit)
  show ?thesis
  proof (cases started)
    case False
    then show ?thesis
      using that [of "(if bit byte k then x else acc, bit byte k)"] assms s by (simp add: pow_bit_def bit scanned_def)
  next
    case True
    then have e: "0 < e" "in_mont md acc (v ^ e)" using assms(3) s by (simp_all add: scanned_def)
    obtain r where r: "mont_mul acc acc (md_m md) (md_np0 md) (md_n md) = Some r" "in_mont md r (v ^ e * v ^ e)"
      by (rule mont_times [OF assms(1) e(2) e(2)])
    obtain r' where r': "mont_mul r x (md_m md) (md_np0 md) (md_n md) = Some r'" "in_mont md r' (v ^ e * v ^ e * v)"
      by (rule mont_times [OF assms(1) r(2) assms(2)])
    have "v ^ e * v ^ e = v ^ (2 * e)" by (simp add: mult_2 power_add)
    then show ?thesis
      using that [of "(if bit byte k then r' else r, True)"] True s r r' e(1)
      by (simp add: pow_bit_def bit scanned_def mult.commute)
  qed
qed

lemma pow_bits_run:
  assumes "md_ok md" "in_mont md x v" "scanned md v e s"
  obtains s' where "pow_bits md x bs s = Some s'" "scanned md v (scan_bits bs e) s'"
  using assms(3)
proof (induction bs arbitrary: e s thesis)
  case Nil
  then show ?case by (simp add: scan_bits_def)
next
  case (Cons c bs)
  obtain byte k where c: "c = (byte, k)" by fastforce
  obtain s1 where s1: "pow_bit md x byte k s = Some s1" "scanned md v (2 * e + of_bool (bit byte k)) s1"
    by (rule pow_bit_step [OF assms(1,2) Cons.prems(2)])
  obtain s' where "pow_bits md x bs s1 = Some s'" "scanned md v (scan_bits bs (2 * e + of_bool (bit byte k))) s'"
    by (rule Cons.IH [OF _ s1(2)])
  then show ?case using Cons.prems(1) [of s'] s1(1) c by (simp add: scan_bits_def)
qed

lemma big_pow_val:
  assumes "md_ok md"
  obtains r where "big_pow md base exp = Some r" "limbs_ok (md_n md) r"
    "md_val md r = md_val md base ^ be_nat exp mod order_of md"
proof -
  have n: "0 < md_n md" "md_n md \<le> MAX_LIMBS" "1 < order_of md" using assms by (simp_all add: md_ok_def modulus_ok_def)
  let ?v = "md_val md base"
  obtain x where x: "to_mont md base = Some x" "in_mont md x ?v" by (rule to_mont_in [OF assms])
  obtain acc where acc: "to_mont md big_one = Some acc" by (rule to_mont_in [OF assms])
  have "scanned md ?v 0 (acc, False)" by (simp add: scanned_def)
  then obtain s where s: "pow_bits md x [(byte, k). byte \<leftarrow> exp, k \<leftarrow> rev [0..<8]] (acc, False) = Some s"
    "scanned md ?v (be_nat exp) s"
    using pow_bits_run [OF assms x(2), of 0 "(acc, False)"] unfolding be_nat_def scan_bytes [symmetric] by metis
  obtain a started where a: "s = (a, started)" by fastforce
  show ?thesis
  proof (cases started)
    case False
    then have "be_nat exp = 0" using s(2) a by (simp add: scanned_def)
    then show ?thesis
      using that [of big_one] False x(1) acc s(1) a n by (simp add: big_pow_def big_val_one)
  next
    case True
    then have "in_mont md a (?v ^ be_nat exp)" using s(2) a by (simp add: scanned_def)
    then obtain r where "from_mont md a = Some r" "limbs_ok (md_n md) r" "md_val md r = ?v ^ be_nat exp mod order_of md"
      by (rule from_mont_out [OF assms])
    then show ?thesis using that [of r] True x(1) acc s(1) a by (simp add: big_pow_def)
  qed
qed

section \<open>Byte strings\<close>

lemma be_nat_snoc: "be_nat (bs @ [b]) = 256 * be_nat bs + unat b"
  by (simp add: be_nat_def)

lemma be_nat_append: "be_nat (xs @ ys) = be_nat xs * 256 ^ length ys + be_nat ys"
proof (induction ys rule: rev_induct)
  case (snoc y ys)
  then show ?case by (simp add: be_nat_snoc algebra_simps flip: append_assoc)
qed (simp add: be_nat_def)

lemma byte_bound: "unat (b :: u8) < 256"
  using unsigned_less [of b, where 'a = nat] by simp

lemma be_nat_bound: "be_nat bs < 256 ^ length bs"
proof (induction bs rule: rev_induct)
  case (snoc b bs)
  then show ?case using byte_bound [of b] by (simp add: be_nat_snoc)
qed (simp add: be_nat_def)

definition i2osp :: "nat \<Rightarrow> nat \<Rightarrow> bytes" where
  "i2osp len v = map (\<lambda>i. of_nat (v div 256 ^ (len - 1 - i))) [0..<len]"

lemma length_i2osp [simp]: "length (i2osp len v) = len"
  by (simp add: i2osp_def)

lemma i2osp_Suc: "i2osp (Suc len) v = i2osp len (v div 256) @ [of_nat v]"
proof -
  have "v div 256 ^ (len - i) = v div 256 div 256 ^ (len - 1 - i)" if "i < len" for i
  proof -
    have "len - i = Suc (len - 1 - i)" using that by simp
    then show ?thesis by (simp add: div_mult2_eq)
  qed
  then show ?thesis by (simp add: i2osp_def)
qed

lemma i2osp_be_nat: "length bs = len \<Longrightarrow> i2osp len (be_nat bs) = bs"
proof (induction bs arbitrary: len rule: rev_induct)
  case (snoc b bs)
  then have len: "len = Suc (length bs)" by simp
  have "(of_nat (256 * be_nat bs + unat b) :: u8) = of_nat (unat b)"
    by (simp only: word_of_nat_eq_iff) (simp add: take_bit_eq_mod)
  then have "(of_nat (256 * be_nat bs + unat b) :: u8) = b" by simp
  then show ?case using snoc.IH [OF refl] byte_bound [of b] by (simp add: len i2osp_Suc be_nat_snoc del: of_nat_add of_nat_mult)
qed (simp add: i2osp_def)

lemma be_nat_i2osp: "v < 256 ^ len \<Longrightarrow> be_nat (i2osp len v) = v"
proof (induction len arbitrary: v)
  case (Suc len)
  have "unat (of_nat v :: u8) = v mod 256" by (simp add: unat_of_nat)
  then show ?case using Suc by (simp add: i2osp_Suc be_nat_snoc less_mult_imp_div_less mult.commute)
qed (simp add: i2osp_def be_nat_def)

lemma be_limb_val: "length bs \<le> 8 \<Longrightarrow> unat (be_limb bs) = be_nat bs"
proof (induction bs rule: rev_induct)
  case (snoc b bs)
  have or: "push_bit 8 w OR ucast b = push_bit 8 w + (ucast b :: u64)" for w
    by (rule disjunctive_add [symmetric]) (auto simp: bit_simps dest: bit_imp_le_length)
  have "be_limb (bs @ [b]) = push_bit 8 (be_limb bs) + ucast b" by (simp add: be_limb_def or)
  also have "\<dots> = of_nat (256 * be_nat bs + unat b)" using snoc by (simp add: push_bit_eq_mult flip: snoc.IH)
  finally have *: "be_limb (bs @ [b]) = of_nat (be_nat (bs @ [b]))" by (simp add: be_nat_snoc)
  have "(256 :: nat) ^ length (bs @ [b]) \<le> 256 ^ 8" using snoc.prems by (intro power_increasing) simp_all
  then have "be_nat (bs @ [b]) < 2 ^ 64" using be_nat_bound [of "bs @ [b]"] by simp
  then show ?case unfolding * by (simp add: unat_of_nat)
qed (simp add: be_limb_def be_nat_def)

lemma fold_store:
  "n \<le> length xs \<Longrightarrow> length (fold (\<lambda>i xs. xs[i := f i]) [0..<n] xs) = length xs \<and>
     (\<forall>j. fold (\<lambda>i xs. xs[i := f i]) [0..<n] xs ! j = (if j < n then f j else xs ! j))"
  by (induction n) (auto simp: nth_list_update)

lemma radix_bytes: "limb_base ^ k = 256 ^ (8 * k)"
proof -
  have "limb_base = 256 ^ 8" by (simp add: limb_base_def)
  then show ?thesis by (simp only: power_mult)
qed

lemma trim_limbs_props:
  "trim_limbs a n \<le> n" "0 < n \<Longrightarrow> 0 < trim_limbs a n" "trim_limbs a n \<le> i \<Longrightarrow> i < n \<Longrightarrow> a ! i = 0"
  by (induction n) (auto simp: less_Suc_eq split: if_splits)

lemma big_val_zeros: "n \<le> k \<Longrightarrow> (\<And>i. n \<le> i \<Longrightarrow> i < k \<Longrightarrow> a ! i = 0) \<Longrightarrow> big_val k a = big_val n a"
  by (induction rule: dec_induct) simp_all

lemma big_from_be_val:
  assumes "big_from_be bs = (a, n)" "length bs \<le> 512"
  shows "limbs_ok n a" "n \<le> MAX_LIMBS" "bs \<noteq> [] \<Longrightarrow> 0 < n" "big_val n a = be_nat bs" "8 * n < length bs + 8"
proof -
  define N where "N = (length bs + 7) div 8"
  define f where "f i = be_limb (bslice (length bs - i * 8 - 8) (length bs - i * 8 - (length bs - i * 8 - 8)) bs)" for i
  have N: "N \<le> 64" "bs \<noteq> [] \<Longrightarrow> 0 < N" "8 * N < length bs + 8" "length bs \<le> 8 * N"
    using assms(2) length_greater_0_conv [of bs] by (auto simp: N_def div_greater_zero_iff Suc_le_eq simp del: length_greater_0_conv)
  have an: "a = fold (\<lambda>i xs. xs[i := f i]) [0..<N] big_zero" "n = trim_limbs a N"
    using assms(1) N(1) by (auto simp: big_from_be_def Let_def N_def f_def)
  have a: "length a = 64" "\<And>j. a ! j = (if j < N then f j else big_zero ! j)"
    using fold_store [of N big_zero f] N(1) by (simp_all add: an(1) big_zero_def)
  note trim = trim_limbs_props [where a = a and n = N, folded an(2)]
  show "limbs_ok n a"
    using a trim(3) by (auto simp: limbs_ok_def big_zero_def)
  show "n \<le> MAX_LIMBS" "bs \<noteq> [] \<Longrightarrow> 0 < n" "8 * n < length bs + 8" using trim(1,2) N by auto
  have "big_val k a = be_nat (drop (length bs - 8 * k) bs)" if "k \<le> N" for k
    using that
  proof (induction k)
    case (Suc k)
    have k: "8 * k \<le> length bs" using Suc.prems by (simp add: N_def)
    define p q where "p = length bs - k * 8 - 8" and "q = length bs - k * 8"
    have "drop p bs = bslice p (q - p) bs @ drop q bs"
    proof -
      have "q - p + p = q" by (simp add: p_def q_def)
      then show ?thesis using append_take_drop_id [of "q - p" "drop p bs"] by (simp add: bslice_def)
    qed
    moreover have "length bs - 8 * Suc k = p" "length bs - 8 * k = q" by (simp_all add: p_def q_def)
    moreover have "unat (a ! k) = be_nat (bslice p (q - p) bs)"
      using a(2) [of k] Suc.prems unfolding f_def p_def q_def by (simp add: be_limb_val)
    moreover have "length bs - q = 8 * k" using k by (simp add: q_def)
    ultimately show ?case using Suc.IH Suc.prems by (simp add: be_nat_append radix_bytes)
  qed (simp add: be_nat_def)
  from this [of N] have "big_val N a = be_nat bs" using N(4) by simp
  moreover have "big_val N a = big_val n a"
    using trim(1,3) by (intro big_val_zeros) auto
  ultimately show "big_val n a = be_nat bs" by simp
qed

text \<open>One byte of a limb, and one byte of the number.\<close>

lemma limb_byte: "unat (ucast (drop_bit (r * 8) w) :: u8) = unat (w :: u64) div 256 ^ r mod 256"
proof -
  have "(2 :: nat) ^ (r * 8) = (2 ^ 8) ^ r" by (simp only: power_mult [symmetric] mult.commute)
  then have "(2 :: nat) ^ (r * 8) = 256 ^ r" by simp
  moreover have "unat (drop_bit (r * 8) w) = unat w div 2 ^ (r * 8)"
    by (subst unat_drop_bit_eq) (simp only: drop_bit_eq_div)
  ultimately show ?thesis by (simp add: unsigned_ucast_eq take_bit_eq_mod)
qed

lemma byte_of_radix:
  assumes "r < 8"
  shows "x div 256 ^ (8 * q + r) mod 256 = x div limb_base ^ q mod limb_base div 256 ^ r mod 256"
proof -
  let ?y = "x div limb_base ^ q"
  have "limb_base = 256 ^ (8 * 1)" using radix_bytes [of 1] by simp
  also have "\<dots> = 256 ^ r * 256 ^ (8 - r)" using assms by (simp flip: power_add)
  finally have base: "limb_base = 256 ^ r * 256 ^ (8 - r)" .
  have "y mod (256 ^ r * 256 ^ (8 - r)) div 256 ^ r = y div 256 ^ r mod 256 ^ (8 - r)" for y :: nat
    by (simp add: mod_mult2_eq)
  then have "?y mod limb_base div 256 ^ r = ?y div 256 ^ r mod 256 ^ (8 - r)" by (simp only: base [symmetric])
  moreover have "(256 :: nat) dvd 256 ^ (8 - r)" using assms by (simp add: dvd_power)
  ultimately have "?y mod limb_base div 256 ^ r mod 256 = ?y div 256 ^ r mod 256" by (simp add: mod_mod_cancel)
  then show ?thesis by (simp add: power_add div_mult2_eq radix_bytes)
qed

lemma big_to_be_val:
  assumes "limbs \<le> MAX_LIMBS" "length a = MAX_LIMBS" "limbs * 8 \<le> length out"
  shows "big_to_be a limbs out = i2osp (limbs * 8) (big_val limbs a) @ drop (limbs * 8) out"
proof -
  define f where "f i = (let fl = limbs * 8 - 1 - i in ucast (drop_bit (fl mod 8 * 8) (a ! (fl div 8))) :: u8)" for i
  have eq: "big_to_be a limbs out = fold (\<lambda>i xs. xs[i := f i]) [0..<limbs * 8] out"
    using assms(3) by (simp add: big_to_be_def f_def Let_def min_def)
  have f: "f i = of_nat (big_val limbs a div 256 ^ (limbs * 8 - 1 - i))" if "i < limbs * 8" for i
  proof -
    let ?fl = "limbs * 8 - 1 - i"
    have "unat (f i) = big_val limbs a div limb_base ^ (?fl div 8) mod limb_base div 256 ^ (?fl mod 8) mod 256"
      using big_val_digit [of "?fl div 8" limbs a] assms that by (simp add: f_def Let_def limb_byte less_mult_imp_div_less)
    also have "\<dots> = big_val limbs a div 256 ^ ?fl mod 256"
      using byte_of_radix [of "?fl mod 8" "big_val limbs a" "?fl div 8"] by simp
    finally show ?thesis by (simp add: word_unat_eq_iff unat_of_nat)
  qed
  show ?thesis
  proof (rule nth_equalityI)
    show "length (big_to_be a limbs out) = length (i2osp (limbs * 8) (big_val limbs a) @ drop (limbs * 8) out)"
      using fold_store [OF assms(3), of f] assms(3) by (simp add: eq)
    fix j
    assume "j < length (big_to_be a limbs out)"
    then show "big_to_be a limbs out ! j = (i2osp (limbs * 8) (big_val limbs a) @ drop (limbs * 8) out) ! j"
      using fold_store [OF assms(3), of f] assms(3) f [of j] by (simp add: eq nth_append i2osp_def)
  qed
qed

section \<open>Field operations\<close>

lemma md_add_val:
  assumes "md_ok md" "md_val md a + md_val md b < 2 * order_of md"
  shows "md_val md (md_add md a b) = (md_val md a + md_val md b) mod order_of md" "limbs_ok (md_n md) (md_add md a b)"
  using add_mod_val [of "md_n md" big_zero a b "md_m md"] assms by (simp_all add: md_add_def md_ok_def modulus_ok_def)

lemma md_sub_val:
  assumes "md_ok md" "md_val md a < order_of md" "md_val md b \<le> order_of md"
  shows "md_val md (md_sub md a b) = (md_val md a + (order_of md - md_val md b)) mod order_of md"
    "limbs_ok (md_n md) (md_sub md a b)"
proof -
  have n: "md_n md \<le> MAX_LIMBS" using assms(1) by (simp add: md_ok_def modulus_ok_def)
  have "md_val md (sub_into big_zero (md_m md) b (md_n md)) = order_of md - md_val md b"
    using sub_into_val(2) [of "md_n md" big_zero b "md_m md" 0] n assms(3) big_val_bound [of "md_n md" "md_m md"] by simp
  then show "md_val md (md_sub md a b) = (md_val md a + (order_of md - md_val md b)) mod order_of md"
    "limbs_ok (md_n md) (md_sub md a b)"
    using add_mod_val [of "md_n md" big_zero a "sub_into big_zero (md_m md) b (md_n md)" "md_m md"] n assms
    by (simp_all add: md_sub_def)
qed

lemma md_mul_val:
  assumes "md_ok md"
  obtains r where "md_mul md a b = Some r" "limbs_ok (md_n md) r" "md_val md r = md_val md a * md_val md b mod order_of md"
proof -
  obtain x where x: "to_mont md a = Some x" "in_mont md x (md_val md a)" by (rule to_mont_in [OF assms])
  obtain y where y: "to_mont md b = Some y" "in_mont md y (md_val md b)" by (rule to_mont_in [OF assms])
  obtain z where z: "mont_mul x y (md_m md) (md_np0 md) (md_n md) = Some z" "in_mont md z (md_val md a * md_val md b)"
    by (rule mont_times [OF assms x(2) y(2)])
  obtain r where "from_mont md z = Some r" "limbs_ok (md_n md) r" "md_val md r = md_val md a * md_val md b mod order_of md"
    by (rule from_mont_out [OF assms z(2)])
  then show ?thesis using that [of r] x y z by (simp add: md_mul_def)
qed

lemma modulus_new_Some:
  assumes "0 < n" "n \<le> MAX_LIMBS" "odd (m ! 0)"
  obtains md where "modulus_new m n = Some md"
  using assms by (simp add: modulus_new_def and_one_eq odd_iff_mod_2_eq_one)

section \<open>Properties\<close>

text \<open>C27: Modular exponentiation is modular exponentiation.  For every odd modulus above one of at most
  64 limbs, preparing it succeeds, and the Montgomery square-and-multiply of any base and any exponent
  returns, without a carry leaving the scratch array, the residue of the power.\<close>

theorem modexp_correct:
  assumes "0 < n" "n \<le> 64" "odd (m ! 0)" "1 < big_val n m"
  shows "\<exists>md r. modulus_new m n = Some md \<and> big_pow md base exp = Some r \<and>
    big_val n r = big_val n base ^ be_nat exp mod big_val n m"
proof -
  obtain md where md: "modulus_new m n = Some md" by (rule modulus_new_Some [OF assms(1-3)])
  note ok = modulus_new_ok [OF md assms(4)]
  obtain r where "big_pow md base exp = Some r" "md_val md r = md_val md base ^ be_nat exp mod order_of md"
    by (rule big_pow_val [OF ok(1)])
  then show ?thesis using md ok by auto
qed

theorem modexp_correct_witness:
  "\<exists>md r. modulus_new (big_zero[0 := 7]) 1 = Some md \<and> big_pow md (big_zero[0 := 3]) [5] = Some r \<and> big_val 1 r = 5"
  using modexp_correct [of 1 "big_zero[0 := 7]" "big_zero[0 := 3]" "[5]"] by (simp add: big_zero_def be_nat_def)

text \<open>The field operations the elliptic curves are written in: for operands below the modulus,
  addition, subtraction and multiplication are those of the residues, and none of them leaves the
  scratch array.\<close>

theorem field_operations:
  assumes "modulus_new m n = Some md" "1 < big_val n m" "big_val n a < big_val n m" "big_val n b < big_val n m"
  shows "big_val n (md_add md a b) = (big_val n a + big_val n b) mod big_val n m \<and>
    (int (big_val n (md_sub md a b)) = (int (big_val n a) - int (big_val n b)) mod int (big_val n m)) \<and>
    (\<exists>r. md_mul md a b = Some r \<and> big_val n r = big_val n a * big_val n b mod big_val n m)"
proof -
  note ok = modulus_new_ok [OF assms(1,2)]
  have "int (big_val n (md_sub md a b)) = int ((big_val n a + (big_val n m - big_val n b)) mod big_val n m)"
    using md_sub_val(1) [OF ok(1), of a b] assms(3,4) ok(2,3) by simp
  also have "\<dots> = (int (big_val n a) - int (big_val n b) + int (big_val n m)) mod int (big_val n m)"
    using assms(4) by (simp add: of_nat_mod of_nat_diff algebra_simps)
  also have "\<dots> = (int (big_val n a) - int (big_val n b)) mod int (big_val n m)" by simp
  finally have sub: "int (big_val n (md_sub md a b)) = \<dots>" .
  obtain r where "md_mul md a b = Some r" "md_val md r = md_val md a * md_val md b mod order_of md"
    by (rule md_mul_val [OF ok(1)])
  then show ?thesis using md_add_val(1) [OF ok(1), of a b] sub assms(3,4) ok(2,3) by simp
qed

theorem field_operations_witness:
  "\<exists>md. modulus_new (big_zero[0 := 7]) 1 = Some md \<and> int (big_val 1 (md_sub md (big_zero[0 := 3]) (big_zero[0 := 5]))) = 5"
proof -
  obtain md where md: "modulus_new (big_zero[0 := 7]) 1 = Some md"
    by (rule modulus_new_Some [of 1 "big_zero[0 := 7]"]) (simp_all add: big_zero_def)
  show ?thesis
    using field_operations [OF md, of "big_zero[0 := 3]" "big_zero[0 := 5]"] md by (simp add: big_zero_def)
qed

text \<open>Reading a big-endian byte string of up to 512 bytes and writing it back over its own width
  gives the same bytes.\<close>

lemma big_bytes_round_trip:
  assumes "length bs = 8 * limbs" "limbs \<le> 64"
  shows "big_to_be (fst (big_from_be bs)) limbs (replicate (8 * limbs) 0) = bs"
proof -
  obtain a n where an: "big_from_be bs = (a, n)" by fastforce
  note v = big_from_be_val [OF an]
  have n: "n \<le> limbs" using v(5) assms by simp
  have "big_val limbs a = big_val n a"
    using v(1) assms n by (intro big_val_zeros) (auto simp: limbs_ok_def)
  then show ?thesis
    using big_to_be_val [of limbs a "replicate (8 * limbs) 0"] v assms an by (simp add: limbs_ok_def mult.commute i2osp_be_nat)
qed

end
