(* ===== verification/Rsa.thy ===== *)
theory Rsa
  imports Bignum Sha256 Sha512
begin

text \<open>
  \<open>kernel/src/crypto/rsa.rs\<close>: RSA signature verification with the two paddings in use, PKCS#1 v1.5 for
  certificates and PSS for the TLS 1.3 handshake, against the encodings of RFC 8017.  A result of
  \<open>None\<close> is a panic in the big-integer arithmetic; the lemmas show that there is none.
\<close>

section \<open>Hash identifiers\<close>

datatype hash_id = Id_Sha256 | Id_Sha384 | Id_Sha512

fun digest_len :: "hash_id \<Rightarrow> nat" where
  "digest_len Id_Sha256 = 32"
| "digest_len Id_Sha384 = 48"
| "digest_len Id_Sha512 = 64"

text \<open>The three prefixes of the source agree but for the two lengths and the last arc of the object
  identifier.\<close>

definition digest_info :: "u8 \<Rightarrow> u8 \<Rightarrow> u8 \<Rightarrow> bytes" where
  "digest_info outer arc len = concat
     [[0x30, outer], [0x30, 0x0d], [0x06, 0x09], [0x60, 0x86, 0x48, 0x01, 0x65, 0x03, 0x04, 0x02, arc],
      [0x05, 0x00], [0x04, len]]"

fun digest_info_prefix :: "hash_id \<Rightarrow> bytes" where
  "digest_info_prefix Id_Sha256 = digest_info 0x31 0x01 0x20"
| "digest_info_prefix Id_Sha384 = digest_info 0x41 0x02 0x30"
| "digest_info_prefix Id_Sha512 = digest_info 0x51 0x03 0x40"

text \<open>The buffer written into and the length written.\<close>

fun id_hash :: "hash_id \<Rightarrow> bytes \<Rightarrow> bytes \<Rightarrow> bytes \<times> nat" where
  "id_hash Id_Sha256 data out = (put_at 0 (sha256_hash data) out, 32)"
| "id_hash Id_Sha384 data out = (put_at 0 (hash384 data) out, 48)"
| "id_hash Id_Sha512 data out = (put_at 0 (hash512 data) out, 64)"

fun id_hash2 :: "hash_id \<Rightarrow> bytes \<Rightarrow> bytes \<Rightarrow> bytes \<Rightarrow> bytes \<times> nat" where
  "id_hash2 Id_Sha256 a b out = (put_at 0 (sha256_finish (sha256_update b (sha256_update a sha256_new))) out, 32)"
| "id_hash2 Id_Sha384 a b out = (put_at 0 (finish384 (sha512_update b (sha512_update a new384))) out, 48)"
| "id_hash2 Id_Sha512 a b out = (put_at 0 (finish512 (sha512_update b (sha512_update a new512))) out, 64)"

section \<open>Public keys\<close>

record rsa_public =
  pk_md :: modulus
  pk_n :: nat
  pk_exp :: bytes
  pk_exp_len :: nat

text \<open>The bytes of a DER integer without the zero that keeps it positive.\<close>

definition der_magnitude :: "bytes \<Rightarrow> bytes" where
  "der_magnitude bs = (if bs ! 0 = 0 then drop 1 bs else bs)"

definition rsa_new :: "bytes \<Rightarrow> bytes \<Rightarrow> rsa_public option" where
  "rsa_new modulus_be exp_be =
     (if modulus_be = [] \<or> exp_be = [] \<or> length exp_be > 8 then None
      else
        let (m, n) = big_from_be (der_magnitude modulus_be) in
        if n = 0 \<or> n > MAX_LIMBS then None
        else do {
          md \<leftarrow> modulus_new m n;
          let e = der_magnitude exp_be;
          let e = drop (length e - 8) e;
          Some \<lparr>pk_md = md, pk_n = n, pk_exp = put_at (8 - length e) e (replicate 8 0), pk_exp_len = length e\<rparr>
        })"

definition modulus_bytes :: "rsa_public \<Rightarrow> nat" where
  "modulus_bytes key = pk_n key * 8"

definition leading_zeros :: "u64 \<Rightarrow> nat" where
  "leading_zeros w = length (takeWhile (\<lambda>i. \<not> bit w i) (rev [0..<64]))"

fun limb_bits :: "modulus \<Rightarrow> nat \<Rightarrow> nat" where
  "limb_bits md 0 = 0"
| "limb_bits md (Suc i) = (if md_limb md i \<noteq> 0 then i * 64 + (64 - leading_zeros (md_limb md i)) else limb_bits md i)"

definition modulus_bits :: "rsa_public \<Rightarrow> nat" where
  "modulus_bits key = limb_bits (pk_md key) (pk_n key)"

text \<open>The inner option is the function's own: None for a signature that is not reduced.\<close>

definition recover :: "rsa_public \<Rightarrow> bytes \<Rightarrow> bytes option option" where
  "recover key sig =
     (let (s, sn) = big_from_be sig in
      if sn > pk_n key \<or> (sn = pk_n key \<and> md_ge (pk_md key) s) then Some None
      else do {
        m \<leftarrow> big_pow (pk_md key) s (drop (8 - pk_exp_len key) (pk_exp key));
        Some (Some (big_to_be m (pk_n key) (replicate (MAX_LIMBS * 8) 0)))
      })"

section \<open>PKCS\#1 v1.5\<close>

text \<open>The scan over the padding, and the checks on the recovered block.\<close>

definition skip_while :: "(u8 \<Rightarrow> bool) \<Rightarrow> bytes \<Rightarrow> nat \<Rightarrow> nat \<Rightarrow> nat" where
  "skip_while P em i n = (case first_from (\<lambda>i. \<not> P (em ! i)) i n of None \<Rightarrow> n | Some j \<Rightarrow> j)"

definition pkcs1_block_ok :: "nat \<Rightarrow> bytes \<Rightarrow> hash_id \<Rightarrow> bytes \<Rightarrow> bool" where
  "pkcs1_block_ok n em h digest =
     (let prefix = digest_info_prefix h; t_len = length prefix + length digest in
      if n < t_len + 11 then False
      else if em ! 0 \<noteq> 0 \<or> em ! 1 \<noteq> 1 then False
      else
        let i = skip_while (\<lambda>b. b = 0xFF) em 2 n in
        if i < 10 \<or> i \<ge> n \<or> em ! i \<noteq> 0 then False
        else
          let i = i + 1 in
          if n - i \<noteq> t_len then False
          else if bslice i (length prefix) em \<noteq> prefix then False
          else bslice (i + length prefix) (length digest) em = digest)"

definition verify_pkcs1_v15 :: "rsa_public \<Rightarrow> bytes \<Rightarrow> hash_id \<Rightarrow> bytes \<Rightarrow> bool option" where
  "verify_pkcs1_v15 key sig h digest =
     (let n = modulus_bytes key in
      if length sig \<noteq> n \<or> length digest \<noteq> digest_len h then Some False
      else do {
        r \<leftarrow> recover key sig;
        case r of None \<Rightarrow> Some False | Some em \<Rightarrow> Some (pkcs1_block_ok n em h digest)
      })"

section \<open>PSS\<close>

text \<open>MGF1, unmasking the block as it goes.\<close>

function unmask :: "hash_id \<Rightarrow> bytes \<Rightarrow> bytes \<Rightarrow> nat \<Rightarrow> nat \<Rightarrow> u32 \<Rightarrow> bytes \<Rightarrow> bytes" where
  "unmask h em mgf_in db_len masked_len counter db =
     (if masked_len < db_len then
        let mgf_in = put_at (digest_len h) (to_be32 counter) mgf_in;
            (block, bl) = id_hash h (take (digest_len h + 4) mgf_in) (replicate 64 0);
            tk = min (db_len - masked_len) bl;
            db = fold (\<lambda>k db. db[masked_len + k := em ! (masked_len + k) XOR block ! k]) [0..<tk] db
        in unmask h em mgf_in db_len (masked_len + tk) (counter + 1) db
      else db)"
  by pat_completeness auto
termination
proof (relation "measure (\<lambda>(_, _, _, db_len, masked_len, _, _). db_len - masked_len)", goal_cases)
  case (2 h em mgf_in db_len masked_len counter db mgf_in' p block bl tk db')
  then have "0 < bl" by (cases h) auto
  with 2 show ?case by simp
qed simp

declare unmask.simps [simp del]

definition pss_hash :: "hash_id \<Rightarrow> bytes \<Rightarrow> bytes \<Rightarrow> bytes" where
  "pss_hash h digest salt =
     (case h of
        Id_Sha256 \<Rightarrow>
          put_at 0 (sha256_finish (sha256_update salt (sha256_update digest (sha256_update (replicate 8 0) sha256_new))))
            (replicate 64 0)
      | _ \<Rightarrow>
          let s = (if h = Id_Sha384 then new384 else new512);
              s = sha512_update salt (sha512_update digest (sha512_update (replicate 8 0) s))
          in if h = Id_Sha384 then put_at 0 (finish384 s) (replicate 64 0) else put_at 0 (finish512 s) (replicate 64 0))"

text \<open>A shift by a full byte is taken modulo 8, as the machine does it.\<close>

definition shr8 :: "u8 \<Rightarrow> nat \<Rightarrow> u8" where
  "shr8 b k = drop_bit (k mod 8) b"

definition pss_block_ok :: "nat \<Rightarrow> nat \<Rightarrow> bytes \<Rightarrow> hash_id \<Rightarrow> bytes \<Rightarrow> bool" where
  "pss_block_ok n em_bits em h digest =
     (let h_len = digest_len h; em_len = (em_bits + 7) div 8 in
      if em_len > n \<or> em_len < h_len + 2 then False
      else if em ! (em_len - 1) \<noteq> 0xbc then False
      else
        let unused = 8 * em_len - em_bits in
        if shr8 (em ! 0) (8 - unused) \<noteq> 0 then False
        else
          let db_len = em_len - h_len - 1;
              mgf_in = put_at 0 (bslice db_len h_len em) (replicate (64 + 4) 0);
              db = unmask h em mgf_in db_len 0 0 (replicate (MAX_LIMBS * 8) 0);
              db = (if unused > 0 then db[0 := db ! 0 AND drop_bit unused 0xFF] else db);
              i = skip_while (\<lambda>b. b = 0) db 0 db_len
          in if i \<ge> db_len \<or> db ! i \<noteq> 1 then False
             else
               let hbuf = pss_hash h digest (bslice (i + 1) (db_len - (i + 1)) db)
               in fold (\<lambda>k diff. diff OR (hbuf ! k XOR em ! (db_len + k))) [0..<h_len] (0 :: u8) = 0)"

definition verify_pss :: "rsa_public \<Rightarrow> bytes \<Rightarrow> hash_id \<Rightarrow> bytes \<Rightarrow> bool option" where
  "verify_pss key sig h digest =
     (let n = modulus_bytes key in
      if length sig \<noteq> n then Some False
      else do {
        r \<leftarrow> recover key sig;
        case r of None \<Rightarrow> Some False | Some em \<Rightarrow> Some (pss_block_ok n (modulus_bits key - 1) em h digest)
      })"

section \<open>Keys\<close>

lemma top_limb: "1 < trim_limbs a n \<Longrightarrow> a ! (trim_limbs a n - 1) \<noteq> 0"
  by (induction n) (auto split: if_splits)

lemma big_from_be_top:
  assumes "big_from_be bs = (a, n)" "length bs \<le> 512" "1 < n"
  shows "limb_base ^ (n - 1) \<le> be_nat bs"
proof -
  have "a ! (n - 1) \<noteq> 0" using assms top_limb by (auto simp: big_from_be_def Let_def)
  then have "0 < unat (a ! (n - 1))" by (simp add: unat_gt_0)
  then have "limb_base ^ (n - 1) \<le> unat (a ! (n - 1)) * limb_base ^ (n - 1)" by simp
  moreover have "big_val n a = big_val (n - 1) a + unat (a ! (n - 1)) * limb_base ^ (n - 1)"
    using assms(3) big_val_simps(2) [of "n - 1" a] by simp
  ultimately show ?thesis using big_from_be_val(4) [OF assms(1,2)] by linarith
qed

lemma be_nat_zero_drop: "bs ! 0 = 0 \<Longrightarrow> be_nat (drop 1 bs) = be_nat bs"
  by (cases bs) (simp_all add: be_nat_def)

lemma be_nat_magnitude [simp]: "be_nat (der_magnitude bs) = be_nat bs"
  by (simp add: der_magnitude_def be_nat_zero_drop del: drop_Suc_Cons One_nat_def)

text \<open>What a key holds: the modulus and the exponent it was made from.\<close>

definition key_for :: "nat \<Rightarrow> nat \<Rightarrow> rsa_public \<Rightarrow> bool" where
  "key_for N e key \<longleftrightarrow> md_ok (pk_md key) \<and> md_n (pk_md key) = pk_n key \<and> order_of (pk_md key) = N \<and>
     limb_base ^ (pk_n key - 1) \<le> N \<and> be_nat (drop (8 - pk_exp_len key) (pk_exp key)) = e"

lemma rsa_new_key:
  assumes "rsa_new modulus_be exp_be = Some key" "length (der_magnitude modulus_be) \<le> 512" "1 < be_nat modulus_be"
  shows "key_for (be_nat modulus_be) (be_nat exp_be) key"
proof -
  obtain m n where mn: "big_from_be (der_magnitude modulus_be) = (m, n)" by fastforce
  define e where "e = der_magnitude exp_be"
  have len: "length exp_be \<le> 8" and "n \<noteq> 0" using assms(1) mn by (auto simp: rsa_new_def split: if_splits)
  have e8: "length e \<le> 8" using len by (auto simp: e_def der_magnitude_def)
  obtain md where md: "modulus_new m n = Some md"
    and key: "key = \<lparr>pk_md = md, pk_n = n, pk_exp = put_at (8 - length e) e (replicate 8 0), pk_exp_len = length e\<rparr>"
    using assms(1) mn e8 by (auto simp: rsa_new_def e_def Let_def bind_eq_Some_conv split: if_splits)
  note v = big_from_be_val [OF mn assms(2)]
  have val: "big_val n m = be_nat modulus_be" using v(4) by simp
  note ok = modulus_new_ok [OF md, unfolded val, OF assms(3)]
  have "limb_base ^ (n - 1) \<le> be_nat modulus_be"
    using big_from_be_top [OF mn assms(2)] \<open>n \<noteq> 0\<close> assms(3) by (cases "n = 1") simp_all
  moreover have "drop (8 - length e) (put_at (8 - length e) e (replicate 8 0)) = e"
    using e8 by (simp add: put_at_def)
  ultimately show ?thesis using ok val key by (simp add: key_for_def e_def)
qed

lemma recover_spec:
  assumes "key_for N e key" "length sig \<le> 512"
  shows "recover key sig = Some (if be_nat sig < N
    then Some (i2osp (modulus_bytes key) (be_nat sig ^ e mod N) @ drop (modulus_bytes key) (replicate 512 0)) else None)"
proof -
  obtain s sn where sn: "big_from_be sig = (s, sn)" by fastforce
  note v = big_from_be_val [OF sn assms(2)]
  let ?md = "pk_md key" and ?n = "pk_n key"
  have ok: "md_ok ?md" "md_n ?md = ?n" "order_of ?md = N" "limb_base ^ (?n - 1) \<le> N"
    and e: "be_nat (drop (8 - pk_exp_len key) (pk_exp key)) = e"
    using assms(1) unfolding key_for_def by blast+
  have n: "0 < ?n" "?n \<le> 64" using ok by (simp_all add: md_ok_def modulus_ok_def)
  have N: "N < limb_base ^ ?n" using big_val_bound [of ?n "md_m ?md"] ok(2,3) by simp
  have val: "big_val ?n s = be_nat sig" if "sn \<le> ?n"
    using v(1,4) that n by (metis big_val_zeros limbs_ok_def order_less_le_trans)
  have reject: "sn > ?n \<or> (sn = ?n \<and> md_ge ?md s) \<longleftrightarrow> \<not> be_nat sig < N"
  proof -
    consider "?n < sn" | "sn = ?n" | "sn < ?n" by linarith
    then show ?thesis
    proof cases
      case 1
      have "limb_base ^ ?n \<le> limb_base ^ (sn - 1)" using 1 by (intro power_increasing) (simp_all add: limb_base_def)
      then show ?thesis using 1 n big_from_be_top [OF sn assms(2)] N by simp
    next
      case 2
      then show ?thesis using val ok(2,3) by (simp add: md_ge_def big_cmp_val)
    next
      case 3
      have "limb_base ^ sn \<le> limb_base ^ (?n - 1)" using 3 by (intro power_increasing) (simp_all add: limb_base_def)
      then show ?thesis using 3 v(4) big_val_bound [of sn s] ok(4) by simp
    qed
  qed
  show ?thesis
  proof (cases "be_nat sig < N")
    case False
    then show ?thesis using reject sn by (simp add: recover_def)
  next
    case True
    then have "sn \<le> ?n" using reject by auto
    obtain m where m: "big_pow ?md s (drop (8 - pk_exp_len key) (pk_exp key)) = Some m" "limbs_ok ?n m"
      "big_val ?n m = be_nat sig ^ e mod N"
      using big_pow_val [OF ok(1), of s] ok(2,3) e val [OF \<open>sn \<le> ?n\<close>] by metis
    have "big_to_be m ?n (replicate 512 0) = i2osp (?n * 8) (be_nat sig ^ e mod N) @ drop (?n * 8) (replicate 512 0)"
      using big_to_be_val [of ?n m "replicate 512 0"] m(2,3) n(2) by (simp add: limbs_ok_def)
    then show ?thesis using True reject sn m(1) by (simp add: recover_def modulus_bytes_def)
  qed
qed

section \<open>PKCS\#1 v1.5 blocks\<close>

lemma skip_while_run:
  assumes "i \<le> n" "j = skip_while P em i n"
  shows "i \<le> j" "j \<le> n" "i \<le> k \<Longrightarrow> k < j \<Longrightarrow> P (em ! k)" "j < n \<Longrightarrow> \<not> P (em ! j)"
proof -
  have "i \<le> j \<and> j \<le> n \<and> (\<forall>k. i \<le> k \<longrightarrow> k < j \<longrightarrow> P (em ! k)) \<and> (j < n \<longrightarrow> \<not> P (em ! j))"
    using assms by (auto simp: skip_while_def split: option.splits dest: first_from_NoneD first_from_SomeD)
  then show "i \<le> j" "j \<le> n" "i \<le> k \<Longrightarrow> k < j \<Longrightarrow> P (em ! k)" "j < n \<Longrightarrow> \<not> P (em ! j)" by blast+
qed

lemma skip_while_stop:
  assumes "i \<le> j" "j < n" "\<And>k. i \<le> k \<Longrightarrow> k < j \<Longrightarrow> P (em ! k)" "\<not> P (em ! j)"
  shows "skip_while P em i n = j"
proof -
  have "first_from (\<lambda>i. \<not> P (em ! i)) i n = Some j" using assms by (auto simp: first_from_Some_iff)
  then show ?thesis by (simp add: skip_while_def)
qed

lemma skip_while_split:
  assumes "i \<le> n" "j = skip_while (\<lambda>b. b = c) em i n" "j < n" "n \<le> length em"
  shows "em = take i em @ replicate (j - i) c @ em ! j # drop (j + 1) em"
proof -
  note run = skip_while_run [OF assms(1,2)]
  have "take (j - i) (drop i em) = replicate (j - i) c"
    using run assms(3,4) by (intro nth_equalityI) auto
  moreover have "drop i em = take (j - i) (drop i em) @ drop j em"
    using append_take_drop_id [of "j - i" "drop i em"] run(1) by simp
  moreover have "drop j em = em ! j # drop (j + 1) em" using assms(3,4) by (simp add: Cons_nth_drop_Suc)
  ultimately show ?thesis by (metis append_take_drop_id append.assoc)
qed

lemma length_prefix [simp]: "length (digest_info_prefix h) = 19"
  by (cases h) (simp_all add: digest_info_def)

definition emsa_pkcs1 :: "nat \<Rightarrow> hash_id \<Rightarrow> bytes \<Rightarrow> bytes" where
  "emsa_pkcs1 n h digest =
     [0, 1] @ replicate (n - (19 + length digest) - 3) 0xFF @ [0] @ digest_info_prefix h @ digest"

lemma take_prefix: "length a = k \<Longrightarrow> take (k + m) (a @ r) = a @ take m r"
  by simp

lemma drop_prefix: "length a = k \<Longrightarrow> drop k (a @ r) = r"
  by simp

lemma pkcs1_block_iff:
  assumes "n \<le> length em"
  shows "pkcs1_block_ok n em h digest \<longleftrightarrow> 19 + length digest + 11 \<le> n \<and> take n em = emsa_pkcs1 n h digest"
proof (cases "19 + length digest + 11 \<le> n")
  case False
  then show ?thesis by (simp add: pkcs1_block_ok_def Let_def)
next
  case n: True
  let ?p = "digest_info_prefix h"
  let ?i = "skip_while (\<lambda>b. b = 0xFF) em 2 n"
  show ?thesis
  proof
    assume "pkcs1_block_ok n em h digest"
    define i where "i = skip_while (\<lambda>b. b = 0xFF) em 2 n"
    have ok: "em ! 0 = 0" "em ! 1 = 1" "10 \<le> i" "i < n" "em ! i = 0" "n - (i + 1) = 19 + length digest"
      "bslice (i + 1) 19 em = ?p" "bslice (i + 1 + 19) (length digest) em = digest"
      using \<open>pkcs1_block_ok n em h digest\<close> by (auto simp: i_def pkcs1_block_ok_def Let_def not_less not_le split: if_splits)
    have "em = take 2 em @ replicate (i - 2) 0xFF @ em ! i # drop (i + 1) em"
      by (rule skip_while_split [of 2 n]) (use n ok(4) assms in \<open>simp_all add: i_def\<close>)
    moreover have "take 2 em = [0, 1]"
      using ok(1,2) n assms by (intro nth_equalityI) (auto simp: less_2_cases_iff)
    ultimately have em: "em = ([0, 1] @ replicate (i - 2) 0xFF @ [0]) @ drop (i + 1) em" using ok(5) by simp
    have "take (19 + length digest) (drop (i + 1) em) = ?p @ digest"
      using ok(7,8) take_add [of 19 "length digest" "drop (i + 1) em"] by (simp add: bslice_def)
    moreover have "take (i + 1 + (19 + length digest)) (([0, 1] @ replicate (i - 2) 0xFF @ [0]) @ drop (i + 1) em) =
        ([0, 1] @ replicate (i - 2) 0xFF @ [0]) @ take (19 + length digest) (drop (i + 1) em)"
      by (rule take_prefix) (use ok(3) in simp)
    ultimately have "take (i + 1 + (19 + length digest)) em = ([0, 1] @ replicate (i - 2) 0xFF @ [0]) @ ?p @ digest"
      by (simp only: em [symmetric])
    moreover have "i + 1 + (19 + length digest) = n" "i - 2 = n - (19 + length digest) - 3" using ok(4,6) by simp_all
    ultimately show "19 + length digest + 11 \<le> n \<and> take n em = emsa_pkcs1 n h digest"
      using n by (simp add: emsa_pkcs1_def)
  next
    let ?k = "n - (19 + length digest) - 3"
    assume "19 + length digest + 11 \<le> n \<and> take n em = emsa_pkcs1 n h digest"
    then have em: "em = [0, 1] @ replicate ?k 0xFF @ [0] @ ?p @ digest @ drop n em"
      using append_take_drop_id [of n em] by (simp add: emsa_pkcs1_def)
    have at: "em ! (?k + 2) = 0" "\<And>k. 2 \<le> k \<Longrightarrow> k < ?k + 2 \<Longrightarrow> em ! k = 0xFF" "em ! 0 = 0" "em ! 1 = 1"
      by (subst em, simp add: nth_append nth_Cons')+
    have i: "?i = ?k + 2" using n at by (intro skip_while_stop) auto
    have "drop (?k + 3) (([0, 1] @ replicate ?k 0xFF @ [0]) @ (?p @ digest @ drop n em)) = ?p @ digest @ drop n em"
      by (rule drop_prefix) simp
    then have "drop (?k + 3) em = ?p @ digest @ drop n em" using em by simp
    moreover have "drop (?k + 22) (([0, 1] @ replicate ?k 0xFF @ [0] @ ?p) @ (digest @ drop n em)) = digest @ drop n em"
      by (rule drop_prefix) simp
    then have "drop (?k + 22) em = digest @ drop n em" using em by simp
    ultimately have "bslice (?k + 3) 19 em = ?p" "bslice (?k + 22) (length digest) em = digest" by (simp_all add: bslice_def)
    moreover define j where "j = ?k + 2"
    moreover have "10 \<le> j" "j < n" "n - (j + 1) = 19 + length digest" using n by (simp_all add: j_def)
    moreover have "?k + 3 = j + 1" "?k + 22 = j + 1 + 19" by (simp_all add: j_def)
    ultimately show "pkcs1_block_ok n em h digest"
      unfolding pkcs1_block_ok_def Let_def i length_prefix using n at by (simp only: if_False if_True) simp
  qed
qed

lemma verify_pkcs1_iff:
  assumes "key_for N e key"
  shows "verify_pkcs1_v15 key sig h digest = Some (
    length sig = modulus_bytes key \<and> length digest = digest_len h \<and> be_nat sig < N \<and>
    19 + length digest + 11 \<le> length sig \<and> i2osp (length sig) (be_nat sig ^ e mod N) = emsa_pkcs1 (length sig) h digest)"
proof (cases "length sig = modulus_bytes key \<and> length digest = digest_len h")
  case True
  have "modulus_bytes key \<le> 512"
    using assms by (simp add: key_for_def md_ok_def modulus_ok_def modulus_bytes_def)
  then show ?thesis
    using recover_spec [OF assms, of sig] True by (simp add: verify_pkcs1_v15_def Let_def pkcs1_block_iff)
qed (auto simp: verify_pkcs1_v15_def Let_def)

section \<open>The length of the modulus\<close>

lemma leading_zeros_upto:
  assumes "w \<noteq> 0" "unat w < 2 ^ k" "l = k - length (takeWhile (\<lambda>i. \<not> bit (w :: u64) i) (rev [0..<k]))"
  shows "0 < l \<and> l \<le> k \<and> 2 ^ (l - 1) \<le> unat w \<and> unat w < 2 ^ l"
  using assms
proof (induction k arbitrary: l)
  case 0
  then show ?case by (simp add: unat_eq_0)
next
  case (Suc k)
  have bit: "bit w k \<longleftrightarrow> odd (unat w div 2 ^ k)" by (simp add: bit_unsigned_iff flip: bit_iff_odd)
  show ?case
  proof (cases "bit w k")
    case True
    then have "unat w div 2 ^ k \<noteq> 0" using bit by (metis even_zero)
    then have "2 ^ k \<le> unat w" by (simp add: div_eq_0_iff)
    then show ?thesis using True Suc.prems by simp
  next
    case False
    have "unat w div 2 ^ k < 2" using Suc.prems(2) by (simp add: less_mult_imp_div_less)
    then have "unat w div 2 ^ k = 0 \<or> unat w div 2 ^ k = 1" by linarith
    with False bit have "unat w div 2 ^ k = 0" by auto
    then have "unat w < 2 ^ k" by (simp add: div_eq_0_iff)
    then show ?thesis using Suc.IH [OF Suc.prems(1)] False Suc.prems(3) by fastforce
  qed
qed

lemma limb_bits_val:
  assumes "0 < big_val n (md_m md)" "n \<le> md_n md"
  shows "0 < limb_bits md n \<and> limb_bits md n \<le> 64 * n \<and>
    2 ^ (limb_bits md n - 1) \<le> big_val n (md_m md) \<and> big_val n (md_m md) < 2 ^ limb_bits md n"
  using assms
proof (induction n)
  case (Suc i)
  have limb: "md_limb md i = md_m md ! i" using Suc.prems(2) by (simp add: md_limb_def)
  show ?case
  proof (cases "md_m md ! i = 0")
    case True
    then show ?thesis using Suc limb by simp
  next
    case False
    define l where "l = 64 - leading_zeros (md_m md ! i)"
    have "unat (md_m md ! i) < 2 ^ 64" using limb_bound [of "md_m md ! i"] by (simp add: limb_base_def)
    then have l: "0 < l" "l \<le> 64" "2 ^ (l - 1) \<le> unat (md_m md ! i)" "unat (md_m md ! i) < 2 ^ l"
      using leading_zeros_upto [OF False, of 64 l] by (simp_all add: l_def leading_zeros_def)
    have B: "limb_base ^ i = 2 ^ (i * 64)" by (simp only: limb_base_def mult.commute flip: power_mult)
    have "(2 ^ (l - 1)) * limb_base ^ i \<le> big_val (Suc i) (md_m md)"
      unfolding big_val_simps using mult_le_mono1 [OF l(3), of "limb_base ^ i"] by linarith
    moreover have "Suc (unat (md_m md ! i)) * limb_base ^ i \<le> 2 ^ l * limb_base ^ i"
      using l(4) by (intro mult_le_mono1) simp
    then have "big_val (Suc i) (md_m md) < 2 ^ l * limb_base ^ i"
      using big_val_bound [of i "md_m md"] by simp
    moreover have "(2 :: nat) ^ (i * 64 + l - 1) = 2 ^ (l - 1) * 2 ^ (i * 64)"
    proof -
      have "i * 64 + l - 1 = l - 1 + i * 64" using l(1) by simp
      then show ?thesis by (simp only: power_add)
    qed
    ultimately show ?thesis
      using False limb l(1,2) by (simp add: B power_add l_def [symmetric] mult.commute del: big_val_simps)
  qed
qed simp

lemma modulus_bits_val:
  assumes "key_for N e key"
  shows "0 < modulus_bits key" "modulus_bits key \<le> 8 * modulus_bytes key" "2 ^ (modulus_bits key - 1) \<le> N" "N < 2 ^ modulus_bits key"
proof -
  have "md_n (pk_md key) = pk_n key" "order_of (pk_md key) = N" "1 < N"
    using assms by (auto simp: key_for_def md_ok_def)
  then show "0 < modulus_bits key" "modulus_bits key \<le> 8 * modulus_bytes key" "2 ^ (modulus_bits key - 1) \<le> N" "N < 2 ^ modulus_bits key"
    using limb_bits_val [of "pk_n key" "pk_md key"] by (simp_all add: modulus_bits_def modulus_bytes_def)
qed

section \<open>PSS blocks\<close>

fun id_spec :: "hash_id \<Rightarrow> bytes \<Rightarrow> bytes" where
  "id_spec Id_Sha256 = sha256_spec"
| "id_spec Id_Sha384 = sha384_spec"
| "id_spec Id_Sha512 = sha512_spec"

lemma length_id_spec [simp]: "length (id_spec h msg) = digest_len h"
  by (cases h) simp_all

lemma digest_len_bound: "digest_len h \<le> 64" "0 < digest_len h"
  by (cases h; simp)+

lemma id_hash_spec: "id_hash h data out = (put_at 0 (id_spec h data) out, digest_len h)"
  by (cases h) (simp_all add: sha256_hash_spec hash384_spec hash512_spec)

lemma id_hash2_spec: "id_hash2 h a b out = (put_at 0 (id_spec h (a @ b)) out, digest_len h)"
  using sha256_chunks [of "[a, b]"] sha384_chunks [of "[a, b]"] sha512_chunks [of "[a, b]"] by (cases h) simp_all

lemma pss_hash_spec: "pss_hash h digest salt = put_at 0 (id_spec h (replicate 8 0 @ digest @ salt)) (replicate 64 0)"
  using sha256_chunks [of "[replicate 8 0, digest, salt]"] sha384_chunks [of "[replicate 8 0, digest, salt]"]
    sha512_chunks [of "[replicate 8 0, digest, salt]"]
  by (cases h) (simp_all add: pss_hash_def Let_def)

text \<open>RFC 8017, B.2.1 and 9.1.2, with the length of the salt recovered from the block.\<close>

definition mgf1 :: "hash_id \<Rightarrow> bytes \<Rightarrow> nat \<Rightarrow> bytes" where
  "mgf1 h seed len =
     take len (concat (map (\<lambda>c. id_spec h (seed @ to_be32 (of_nat c))) [0..<(len + digest_len h - 1) div digest_len h]))"

definition clear_top :: "nat \<Rightarrow> bytes \<Rightarrow> bytes" where
  "clear_top k bs = bs[0 := hd bs AND drop_bit k 0xFF]"

definition emsa_pss_verify :: "hash_id \<Rightarrow> bytes \<Rightarrow> bytes \<Rightarrow> nat \<Rightarrow> bool" where
  "emsa_pss_verify h mhash em em_bits =
     (let em_len = length em; h_len = digest_len h; unused = 8 * em_len - em_bits;
          db_len = em_len - h_len - 1;
          masked_db = take db_len em; hash = bslice db_len h_len em
      in h_len + 2 \<le> em_len \<and> last em = 0xbc \<and> drop_bit (8 - unused) (hd em) = 0 \<and>
         (case dropWhile (\<lambda>b. b = 0) (clear_top unused (map2 (XOR) masked_db (mgf1 h hash db_len))) of
            [] \<Rightarrow> False
          | b # salt \<Rightarrow> b = 1 \<and> id_spec h (replicate 8 0 @ mhash @ salt) = hash))"

lemma fold_xor_row:
  "fold (\<lambda>k db. db[m + k := em ! (m + k) XOR block ! k]) [0..<t] db =
     take m db @ map (\<lambda>k. em ! (m + k) XOR block ! k) [0..<t] @ drop (m + t) db"
  if "m + t \<le> length db" for db :: bytes
  using that
proof (induction t)
  case (Suc t)
  have "drop (m + t) db = db ! (m + t) # drop (m + Suc t) db" using Suc.prems by (simp add: Cons_nth_drop_Suc)
  then show ?case using Suc by (simp add: list_update_append)
qed simp

lemma mgf_step:
  assumes "length mgf_in = 68" "take (digest_len h) mgf_in = seed" "length seed = digest_len h"
  shows "take (digest_len h + 4) (put_at (digest_len h) (to_be32 c) mgf_in) = seed @ to_be32 c"
    "length (put_at (digest_len h) (to_be32 c) mgf_in) = 68"
    "take (digest_len h) (put_at (digest_len h) (to_be32 c) mgf_in) = seed"
proof -
  have "digest_len h + 4 \<le> 68" using digest_len_bound(1) [of h] by simp
  then show "take (digest_len h + 4) (put_at (digest_len h) (to_be32 c) mgf_in) = seed @ to_be32 c"
    "length (put_at (digest_len h) (to_be32 c) mgf_in) = 68"
    "take (digest_len h) (put_at (digest_len h) (to_be32 c) mgf_in) = seed"
    using assms by (simp_all add: put_at_def)
qed

lemma xor_row:
  fixes xs :: bytes
  assumes "m + t \<le> length xs" "t = min (length xs - m) (length ys)"
  shows "map2 (XOR) (take (length ys) (drop m xs)) ys = map (\<lambda>k. xs ! (m + k) XOR ys ! k) [0..<t]"
  using assms by (intro nth_equalityI) auto

lemma unmask_val:
  assumes "length seed = digest_len h" "length mgf_in = 68" "take (digest_len h) mgf_in = seed"
    "masked_len = min (c * digest_len h) (length xs)" "length xs \<le> length db"
  shows "unmask h (xs @ r) mgf_in (length xs) masked_len (of_nat c) db =
    take masked_len db @ map2 (XOR) (drop masked_len xs)
      (concat (map (\<lambda>c. id_spec h (seed @ to_be32 (of_nat c))) [c..<(length xs + digest_len h - 1) div digest_len h])) @
    drop (length xs) db"
  using assms(2-5)
proof (induction "length xs - masked_len" arbitrary: masked_len c mgf_in db rule: less_induct)
  case less
  let ?L = "digest_len h" and ?N = "(length xs + digest_len h - 1) div digest_len h"
  let ?S = "\<lambda>c. concat (map (\<lambda>c. id_spec h (seed @ to_be32 (of_nat c))) [c..<?N])"
  note L = digest_len_bound [of h]
  show ?case
  proof (cases "c * ?L < length xs")
    case False
    then show ?thesis using less.prems by (subst unmask.simps) simp
  next
    case True
    define D where "D = id_spec h (seed @ to_be32 (of_nat c))"
    define t where "t = min (length xs - c * ?L) ?L"
    define db1 where "db1 = take (c * ?L) db @ map (\<lambda>k. xs ! (c * ?L + k) XOR D ! k) [0..<t] @ drop (c * ?L + t) db"
    have m: "masked_len = c * ?L" using True less.prems(3) by simp
    have fit: "c * ?L + t \<le> length xs" using True by (simp add: t_def)
    note mgf = mgf_step [OF less.prems(1,2) assms(1), of "of_nat c"]
    have D: "length D = ?L" by (simp add: D_def)
    have "put_at 0 D (replicate 64 0) ! k = D ! k" if "k < t" for k
      using that D L by (simp add: nth_put_at t_def)
    then have row: "fold (\<lambda>k db. db[c * ?L + k := (xs @ r) ! (c * ?L + k) XOR put_at 0 D (replicate 64 0) ! k]) [0..<t] db = db1"
      using fit less.prems(4) by (subst fold_xor_row) (auto simp: db1_def nth_append)
    have step: "unmask h (xs @ r) mgf_in (length xs) masked_len (of_nat c) db =
        unmask h (xs @ r) (put_at ?L (to_be32 (of_nat c)) mgf_in) (length xs) (c * ?L + t) (of_nat (Suc c)) db1"
    proof -
      have "(of_nat (Suc c) :: u32) = of_nat c + 1" by simp
      then show ?thesis
        using True by (subst unmask.simps)
          (simp add: m mgf(1) id_hash_spec D_def [symmetric] t_def [symmetric] row Let_def del: of_nat_Suc)
    qed
    have next_len: "c * ?L + t = min (Suc c * ?L) (length xs)" using True by (simp add: t_def)
    have db1: "length db1 = length db" "take (c * ?L + t) db1 = take (c * ?L) db @ map (\<lambda>k. xs ! (c * ?L + k) XOR D ! k) [0..<t]"
      "drop (length xs) db1 = drop (length xs) db"
      using fit less.prems(4) by (simp_all add: db1_def)
    have IH: "unmask h (xs @ r) (put_at ?L (to_be32 (of_nat c)) mgf_in) (length xs) (c * ?L + t) (of_nat (Suc c)) db1 =
        take (c * ?L + t) db1 @ map2 (XOR) (drop (c * ?L + t) xs) (?S (Suc c)) @ drop (length xs) db1"
      using True L mgf(2,3) next_len less.prems(4) db1(1) by (intro less.hyps) (simp_all add: m t_def)
    have "c < ?N" using True L by (simp add: less_eq_div_iff_mult_less_eq Suc_le_eq [symmetric])
    then have S: "?S c = D @ ?S (Suc c)" by (simp add: upt_conv_Cons D_def)
    have "drop ?L (drop (c * ?L) xs) = drop (c * ?L + t) xs" using True by (simp add: t_def min_def add.commute)
    then have "map2 (XOR) (drop (c * ?L) xs) (?S c) =
        map (\<lambda>k. xs ! (c * ?L + k) XOR D ! k) [0..<t] @ map2 (XOR) (drop (c * ?L + t) xs) (?S (Suc c))"
      unfolding S using xor_row [of "c * ?L" t xs D] fit D by (simp add: zip_append2 t_def)
    then show ?thesis by (simp only: step IH db1(2,3) append_assoc) (simp add: m)
  qed
qed

lemma map2_take_right: "length xs \<le> n \<Longrightarrow> map2 f xs (take n ys) = map2 f xs ys"
  by (intro nth_equalityI) auto

text \<open>The unmasked block is the masked one under the MGF1 mask of the hash it carries.\<close>

lemma unmask_mgf1:
  assumes "length seed = digest_len h" "length xs \<le> 512"
  shows "unmask h (xs @ r) (put_at 0 seed (replicate 68 0)) (length xs) 0 0 (replicate 512 0) =
    map2 (XOR) xs (mgf1 h seed (length xs)) @ replicate (512 - length xs) 0"
proof -
  have "digest_len h \<le> 68" using digest_len_bound(1) [of h] by simp
  then have "length (put_at 0 seed (replicate 68 0)) = 68" "take (digest_len h) (put_at 0 seed (replicate 68 0)) = seed"
    using assms(1) by (simp, simp add: put_at_def)
  from unmask_val [OF assms(1) this, of 0 0 xs "replicate 512 0" r] assms(2)
  show ?thesis by (simp add: mgf1_def map2_take_right)
qed

lemma length_blocks_id: "length (concat (map (\<lambda>c. id_spec h (seed @ f c)) cs)) = length cs * digest_len h"
  by (induction cs) simp_all

lemma length_mgf1: "length (mgf1 h seed len) = len"
proof -
  let ?L = "digest_len h"
  have "len \<le> (len + ?L - 1) div ?L * ?L"
    using digest_len_bound(2) [of h] div_mult_mod_eq [of "len + ?L - 1" ?L] mod_less_divisor [of ?L "len + ?L - 1"] by linarith
  then show ?thesis by (simp add: mgf1_def length_blocks_id min_absorb2)
qed

text \<open>The scan for the separator, on the buffer and on the block.\<close>

lemma skip_zeros:
  assumes "n = length xs" "j = skip_while (\<lambda>b. b = 0) (xs @ r) 0 n"
  shows "dropWhile (\<lambda>b. b = 0) xs = drop j xs" "j \<le> n"
proof -
  note run = skip_while_run [OF le0 assms(2)]
  show j: "j \<le> n" by (rule run(2))
  have xs: "xs = take j xs @ drop j xs" by simp
  have "\<forall>b \<in> set (take j xs). b = 0"
    using run(3) j assms(1) by (auto simp: in_set_conv_nth nth_append dest: order_less_le_trans)
  then have "dropWhile (\<lambda>b. b = 0) xs = dropWhile (\<lambda>b. b = 0) (drop j xs)"
    using dropWhile_append2 [of "take j xs" "\<lambda>b. b = 0" "drop j xs"] by simp
  also have "\<dots> = drop j xs"
  proof (cases "j < n")
    case True
    then have "xs ! j \<noteq> 0" using run(4) assms(1) by (simp add: nth_append)
    then show ?thesis using True assms(1) Cons_nth_drop_Suc [of j xs] by (auto simp flip: Cons_nth_drop_Suc)
  qed (use j assms(1) in simp)
  finally show "dropWhile (\<lambda>b. b = 0) xs = drop j xs" .
qed

lemma xor_fold_zero: "fold (\<lambda>k diff. diff OR (f k XOR g k)) ks (d :: u8) = 0 \<longleftrightarrow> d = 0 \<and> (\<forall>k \<in> set ks. f k = g k)"
  by (induction ks arbitrary: d) (auto simp: xor_eq_0 or_eq_0)

lemma hash_compare:
  assumes "length x = l" "l \<le> 64" "d + l \<le> length em"
  shows "fold (\<lambda>k diff. diff OR (put_at 0 x (replicate 64 0) ! k XOR em ! (d + k))) [0..<l] (0 :: u8) = 0 \<longleftrightarrow> x = bslice d l em"
proof -
  have "x = bslice d l em \<longleftrightarrow> (\<forall>k<l. x ! k = bslice d l em ! k)"
    using assms(1,3) by (subst list_eq_iff_nth_eq) simp
  moreover have "bslice d l em ! k = em ! (d + k)" "put_at 0 x (replicate 64 0) ! k = x ! k" if "k < l" for k
    using that assms by (simp_all add: nth_bslice nth_put_at)
  ultimately show ?thesis unfolding xor_fold_zero by (metis atLeastLessThan_iff le0 set_upt)
qed

lemma separator_scan:
  fixes C r :: bytes
  assumes "length C = n"
  defines "i \<equiv> skip_while (\<lambda>b. b = 0) (C @ r) 0 n"
  shows "(if i \<ge> n \<or> (C @ r) ! i \<noteq> 1 then False else Q (bslice (i + 1) (n - (i + 1)) (C @ r))) \<longleftrightarrow>
    (case dropWhile (\<lambda>b. b = 0) C of [] \<Rightarrow> False | b # salt \<Rightarrow> b = 1 \<and> Q salt)"
proof -
  have dw: "dropWhile (\<lambda>b. b = 0) C = drop i C" using skip_zeros(1) [of n C i r] assms by simp
  show ?thesis
  proof (cases "i < n")
    case True
    then have "drop i C = C ! i # drop (i + 1) C" using assms(1) by (simp add: Cons_nth_drop_Suc)
    moreover have "bslice (i + 1) (n - (i + 1)) (C @ r) = drop (i + 1) C" using True assms(1) by (simp add: bslice_def)
    ultimately show ?thesis using True assms(1) by (simp add: dw nth_append)
  next
    case False
    then show ?thesis using assms(1) by (simp add: dw)
  qed
qed

lemma clear_top_at: "M \<noteq> [] \<Longrightarrow> (M @ z)[0 := (M @ z) ! 0 AND drop_bit k 0xFF] = clear_top k M @ z"
  by (cases M) (simp_all add: clear_top_def)

lemma pss_block_iff:
  assumes "length E = n" "n = (em_bits + 7) div 8" "em_bits < 8 * n" "n \<le> 512"
  shows "pss_block_ok n em_bits (E @ r) h digest \<longleftrightarrow> emsa_pss_verify h digest E em_bits"
proof (cases "digest_len h + 2 \<le> n")
  case False
  then show ?thesis using assms by (simp add: pss_block_ok_def emsa_pss_verify_def Let_def)
next
  case True
  let ?l = "digest_len h" and ?u = "8 * n - em_bits"
  define d where "d = n - digest_len h - 1"
  let ?H = "bslice d ?l E" and ?x = "take d E"
  let ?M = "map2 (XOR) ?x (mgf1 h ?H d)"
  let ?C = "clear_top ?u ?M"
  have u: "0 < ?u" "8 - ?u < 8" using assms(3) by simp_all
  have d: "0 < d" "d + ?l \<le> n" "length ?x = d" "length ?H = ?l" "length ?M = d"
    using True assms(1) by (simp_all add: length_mgf1 d_def)
  have H: "bslice d ?l (E @ r) = ?H" using d(2) assms(1) by (simp add: bslice_def)
  have E: "E @ r = ?x @ (drop d E @ r)" by (simp flip: append_assoc)
  have "unmask h (E @ r) (put_at 0 ?H (replicate (64 + 4) 0)) d 0 0 (replicate 512 0) = ?M @ replicate (512 - d) 0"
    using unmask_mgf1 [of ?H h ?x "drop d E @ r"] d assms(1,4) unfolding E [symmetric] by simp
  then have um: "unmask h (E @ r) (put_at 0 (bslice d ?l (E @ r)) (replicate (64 + 4) 0)) d 0 0 (replicate (64 * 8) 0) =
      ?M @ replicate (512 - d) 0" by (simp add: H)
  have "?M \<noteq> []" using d(1,5) by (metis length_0_conv less_numeral_extra(3))
  note db = clear_top_at [OF this, of "replicate (512 - d) 0" ?u]
  have "length ?C = d" using d(5) by (simp add: clear_top_def)
  note scan = separator_scan [OF this, of "replicate (512 - d) 0"
      "\<lambda>salt. id_spec h (replicate 8 0 @ digest @ salt) = ?H"]
  have cmp: "fold (\<lambda>k diff. diff OR (pss_hash h digest salt ! k XOR (E @ r) ! (d + k))) [0..<?l] (0 :: u8) = 0 \<longleftrightarrow>
      id_spec h (replicate 8 0 @ digest @ salt) = ?H" for salt
    unfolding pss_hash_spec H [symmetric] using d(2) assms(1) digest_len_bound(1) [of h] by (intro hash_compare) simp_all
  have ends: "(E @ r) ! (n - 1) = last E" "(E @ r) ! 0 = hd E"
  proof -
    have "E \<noteq> []" "0 < n" using True assms(1) by auto
    then show "(E @ r) ! (n - 1) = last E" "(E @ r) ! 0 = hd E"
      using assms(1) by (simp_all add: nth_append last_conv_nth hd_conv_nth)
  qed
  show ?thesis
    unfolding pss_block_ok_def emsa_pss_verify_def Let_def assms(2) [symmetric] assms(1) d_def [symmetric]
    using True u(1) by (simp only: um db ends shr8_def mod_less [OF u(2)] scan cmp if_True) auto
qed

text \<open>The length of a key: its significant bits, rounded up to whole limbs.\<close>

lemma key_bytes:
  assumes "key_for N e key" "2 ^ (k - 1) \<le> N" "N < 2 ^ k"
  shows "modulus_bits key = k" "modulus_bytes key = 8 * ((k + 63) div 64)" "0 < k" "modulus_bytes key \<le> 512"
proof -
  note bits = modulus_bits_val [OF assms(1)]
  have n: "0 < pk_n key" "pk_n key \<le> 64" "limb_base ^ (pk_n key - 1) \<le> N" "0 < N"
    using assms(1) by (auto simp: key_for_def md_ok_def modulus_ok_def)
  have pow: "a < b" if "(2::nat) ^ a \<le> N" "N < 2 ^ b" for a b
    using that by (meson le_less_trans power_less_imp_less_exp one_less_numeral_iff semiring_norm(76))
  show "0 < k" using assms(3) n(4) by (cases k) simp_all
  then show k: "modulus_bits key = k" using pow [OF bits(3) assms(3)] pow [OF assms(2) bits(4)] bits(1) by simp
  have "limb_base ^ (pk_n key - 1) = 2 ^ (64 * (pk_n key - 1))" by (simp only: limb_base_def flip: power_mult)
  then have "64 * (pk_n key - 1) < k" using n(3) assms(3) pow by simp
  moreover have "k \<le> 64 * pk_n key" using bits(2) k by (simp add: modulus_bytes_def)
  ultimately have "(k + 63) div 64 = pk_n key" using n(1) by (intro div_nat_eqI) simp_all
  then show "modulus_bytes key = 8 * ((k + 63) div 64)" "modulus_bytes key \<le> 512"
    using n(2) by (simp_all add: modulus_bytes_def)
qed

lemma verify_pss_iff:
  assumes "key_for N e key" "2 ^ (k - 1) \<le> N" "N < 2 ^ k" "64 dvd k"
  shows "verify_pss key sig h digest = Some (
    length sig = k div 8 \<and> be_nat sig < N \<and> emsa_pss_verify h digest (i2osp (k div 8) (be_nat sig ^ e mod N)) (k - 1))"
proof -
  note kb = key_bytes [OF assms(1-3)]
  let ?n = "modulus_bytes key"
  have sizes: "?n = k div 8" "?n = (k - 1 + 7) div 8" "k - 1 < 8 * ?n"
    using kb(2,3) assms(4) by (auto elim!: dvdE)
  show ?thesis
  proof (cases "length sig = ?n")
    case True
    then show ?thesis
      using recover_spec [OF assms(1), of sig] sizes(1) pss_block_iff [OF length_i2osp sizes(2,3) kb(4)] kb(4)
      by (simp add: verify_pss_def Let_def kb(1))
  qed (simp add: verify_pss_def Let_def sizes(1))
qed

lemma rsa_new_Some:
  assumes "exp_be \<noteq> []" "length exp_be \<le> 8" "length (der_magnitude modulus_be) \<le> 512" "odd (be_nat modulus_be)"
  obtains key where "rsa_new modulus_be exp_be = Some key"
proof -
  obtain m n where mn: "big_from_be (der_magnitude modulus_be) = (m, n)" by fastforce
  note v = big_from_be_val [OF mn assms(3)]
  have ne: "modulus_be \<noteq> []" using assms(4) by (auto simp: be_nat_def)
  have "der_magnitude modulus_be \<noteq> []" using assms(4) be_nat_magnitude [of modulus_be] by (metis be_nat_def even_zero fold_simps(1))
  then have n: "0 < n" "n \<le> 64" using v(2,3) by simp_all
  have "odd (of_nat (big_val n m) :: u64)" using v(4) assms(4) by simp
  then have "odd (m ! 0)" using of_nat_big_val [OF n(1), of m] by simp
  then obtain md where "modulus_new m n = Some md" using modulus_new_Some [OF n] by metis
  then show ?thesis using that mn n ne assms(1,2) by (simp add: rsa_new_def Let_def)
qed

lemma be_nat_ones: "be_nat (replicate k 0xFF) + 1 = 256 ^ k"
proof (induction k)
  case (Suc k)
  have "be_nat (replicate (Suc k) 0xFF) = 256 * be_nat (replicate k 0xFF) + 255"
    using be_nat_snoc [of "replicate k 0xFF" "0xFF"] by (simp add: replicate_append_same)
  then show ?case using Suc by simp
qed (simp add: be_nat_def)

section \<open>Properties\<close>

text \<open>C28: PKCS\#1 v1.5 verification.  Every odd modulus of up to 4096 bits makes a key, and the key
  accepts a signature exactly when it has the length of the key in whole limbs, is below the modulus,
  and its power modulo the modulus is the one padded encoding of the digest: no other placement of the
  digest is accepted, and no check panics.\<close>

theorem rsa_pkcs1_correct:
  assumes "exp_be \<noteq> []" "length exp_be \<le> 8" "length (der_magnitude modulus_be) \<le> 512"
    "odd (be_nat modulus_be)" "1 < be_nat modulus_be" "2 ^ (k - 1) \<le> be_nat modulus_be" "be_nat modulus_be < 2 ^ k"
  shows "\<exists>key. rsa_new modulus_be exp_be = Some key \<and>
    (\<forall>sig h digest. verify_pkcs1_v15 key sig h digest = Some (
      length sig = 8 * ((k + 63) div 64) \<and> length digest = digest_len h \<and> be_nat sig < be_nat modulus_be \<and>
      19 + length digest + 11 \<le> length sig \<and>
      i2osp (length sig) (be_nat sig ^ be_nat exp_be mod be_nat modulus_be) = emsa_pkcs1 (length sig) h digest))"
proof -
  obtain key where key: "rsa_new modulus_be exp_be = Some key" by (rule rsa_new_Some [OF assms(1-4)])
  note kf = rsa_new_key [OF key assms(3,5)]
  show ?thesis using key verify_pkcs1_iff [OF kf] unfolding key_bytes(2) [OF kf assms(6,7)] by blast
qed

theorem rsa_pkcs1_correct_witness:
  "\<exists>key. rsa_new (replicate 64 0xFF) [1] = Some key \<and>
    verify_pkcs1_v15 key (emsa_pkcs1 64 Id_Sha256 (replicate 32 7)) Id_Sha256 (replicate 32 7) = Some True"
proof -
  let ?s = "emsa_pkcs1 64 Id_Sha256 (replicate 32 7)" and ?N = "be_nat (replicate 64 0xFF)"
  have len: "length ?s = 64" by (simp add: emsa_pkcs1_def del: digest_info_prefix.simps)
  have N: "?N = 256 ^ 64 - 1" using be_nat_ones [of 64] by simp
  have "?s = [0] @ tl ?s" by (simp add: emsa_pkcs1_def)
  then have "be_nat ?s = be_nat (tl ?s)" using be_nat_append [of "[0]" "tl ?s"] by (simp add: be_nat_def [of "[0]"])
  also have "\<dots> < 256 ^ 63" using be_nat_bound [of "tl ?s"] len by simp
  finally have lt: "be_nat ?s < ?N" unfolding N by simp
  have eq: "i2osp 64 (be_nat ?s ^ be_nat [1] mod ?N) = ?s" using lt i2osp_be_nat [OF len] by (simp add: be_nat_def [of "[1]"])
  have bits: "2 ^ (512 - 1) \<le> ?N" "?N < 2 ^ 512" "odd ?N" "1 < ?N" unfolding N by simp_all
  obtain key where key: "rsa_new (replicate 64 0xFF) [1] = Some key"
    "\<forall>sig h digest. verify_pkcs1_v15 key sig h digest = Some (
      length sig = 8 * ((512 + 63) div 64) \<and> length digest = digest_len h \<and> be_nat sig < ?N \<and>
      19 + length digest + 11 \<le> length sig \<and> i2osp (length sig) (be_nat sig ^ be_nat [1] mod ?N) = emsa_pkcs1 (length sig) h digest)"
    using rsa_pkcs1_correct [of "[1]" "replicate 64 0xFF" 512] bits by (auto simp: der_magnitude_def)
  show ?thesis
    using key(1) spec [OF spec [OF spec [OF key(2), of ?s], of Id_Sha256], of "replicate 32 7"] len lt eq by simp
qed

text \<open>C29: PSS verification with a key whose length is a multiple of 64 bits, as every key size in use is:
  a signature is accepted exactly when it has the key's length, is below the modulus, and its power
  modulo the modulus passes the EMSA-PSS verification of the standard, the salt taking whatever length
  the block gives it.\<close>

theorem rsa_pss_correct:
  assumes "exp_be \<noteq> []" "length exp_be \<le> 8" "length (der_magnitude modulus_be) \<le> 512"
    "odd (be_nat modulus_be)" "1 < be_nat modulus_be"
    "2 ^ (k - 1) \<le> be_nat modulus_be" "be_nat modulus_be < 2 ^ k" "64 dvd k"
  shows "\<exists>key. rsa_new modulus_be exp_be = Some key \<and>
    (\<forall>sig h digest. verify_pss key sig h digest = Some (
      length sig = k div 8 \<and> be_nat sig < be_nat modulus_be \<and>
      emsa_pss_verify h digest (i2osp (k div 8) (be_nat sig ^ be_nat exp_be mod be_nat modulus_be)) (k - 1)))"
proof -
  obtain key where key: "rsa_new modulus_be exp_be = Some key" by (rule rsa_new_Some [OF assms(1-4)])
  with verify_pss_iff [OF rsa_new_key [OF key assms(3,5)] assms(6-8)] show ?thesis by blast
qed

theorem rsa_pss_correct_witness:
  "\<exists>key. rsa_new (replicate 8 0xFF) [1] = Some key \<and> verify_pss key (replicate 8 0) Id_Sha256 (replicate 32 7) = Some False"
proof -
  have "2 ^ (64 - 1) \<le> be_nat (replicate 8 0xFF)" "be_nat (replicate 8 0xFF) < 2 ^ 64"
    "odd (be_nat (replicate 8 0xFF))" "1 < be_nat (replicate 8 0xFF)" using be_nat_ones [of 8] by simp_all
  then show ?thesis
    using rsa_pss_correct [of "[1]" "replicate 8 0xFF" 64] by (auto simp: der_magnitude_def emsa_pss_verify_def)
qed

end
