(* ===== verification/Spec2Isabelle.thy ===== *)
theory Spec2Isabelle
  imports Paging Proc Login Sha256_Vectors Sha512_Vectors Boot_Disk Net_Link Hmac Rsa
begin

text \<open>
  A verification library for barryOS, an x86-64 kernel written in Rust.  File names below are relative
  to \<open>src/kernel/src\<close>.

  \<^bold>\<open>The program.\<close>  At start-up \<open>mem\<close> reads the memory map, sets up the frame allocator, the heap and the
  page tables; \<open>proc\<close> creates the idle process and schedules kernel threads; \<open>dev\<close> finds the PCI
  devices and the ATA disks; \<open>fs\<close> mounts the RAM file system from the disk, or formats it and installs
  the default accounts; \<open>net\<close> starts the network adapter with frames from the frame allocator and runs
  ARP, IPv4, ICMP, UDP, DNS, DHCP and TCP over it from a poll loop.  On top run TLS (\<open>crypto\<close>), a
  window manager and applications.

  \<^bold>\<open>How it is modelled.\<close>  The kernel is compiled in release mode and has no heap-allocated data in the
  modelled parts: the static variables of a subsystem are the fields of one record, every function is
  a HOL function that takes and returns that record, and machine integers are words or naturals with
  the wrap written out (\<open>wadd64\<close>, \<open>wsub64\<close>).  A panic (an index or slice out of range) is \<open>None\<close>, a
  refused operation the value the source returns.  Hardware is a parameter: port instructions and
  network cards are records of operations, instantiated in the theorems by devices that follow the
  documented protocol.  Log lines and other output are left out.

  \<^bold>\<open>Shared.\<close>  \<open>Prelude\<close>: word and byte-order lemmas, the codec interface \<open>field_codec\<close> for the fields of
  wire and disk records, bounded scans (\<open>first_from\<close>), disjoint blocks, and the bump-allocator interface
  \<open>bump_arena\<close>.  \<open>Text\<close>: the parts of the Rust standard library's text handling that are used.

  \<^bold>\<open>Memory.\<close>  \<open>Mem_Map\<close> (\<open>mem/efi.rs\<close>, \<open>mem/memmap.rs\<close>) and \<open>Frame_Alloc\<close> (\<open>mem/frame_alloc.rs\<close>, the
  bitmap behind the interface \<open>bit_store\<close>): \<open>alloc\<close> and \<open>alloc_contig\<close> hand out exactly what they
  should, and in no run a frame twice or a reserved frame.  \<open>Heap\<close> (\<open>mem/heap.rs\<close>): live blocks are
  disjoint, aligned and inside the heap.  \<open>Paging\<close> (\<open>mem/paging.rs\<close>, \<open>mem/mod.rs\<close>): what the built tables
  translate, by the walk of the processor.  The walk is that of canonical addresses; others fault
  before it.  Region ends are unbounded, where the source adds in 64 bits.

  \<^bold>\<open>Processes.\<close>  \<open>Proc\<close> (\<open>proc/*.rs\<close>): the invariant of every run of spawn, tick, yield, exit and the
  system calls, fairness of the round robin within 15 ticks, and the frame a new thread resumes from.
  The run relation enters the trampoline with the current slot naming the new process.

  \<^bold>\<open>File system.\<close>  \<open>Vfs\<close> and \<open>Vfs_Paths\<close> (\<open>fs/vfs.rs\<close>): the vnode table as a finite map; what create,
  unlink and rename do to every lookup, that they keep the tree well-formed, and that the printed path
  resolves to its vnode, with the conditions under which it does.  \<open>Ramfs\<close> (\<open>fs/ramfs.rs\<close>): reading back
  what was written, and that no two files share a byte of the pool in any run.  \<open>Perm\<close>, \<open>Perm_Text\<close>,
  \<open>Login\<close> (\<open>fs/perm.rs\<close>, \<open>fs/file.rs\<close>): the account formats, the installer and the password check
  end to end, and the protection of the hashes.  \<open>Diskfs\<close>, \<open>Diskfs_Image\<close> (\<open>fs/diskfs.rs\<close>, \<open>fs/mod.rs\<close>)
  are written against the interface \<open>sector_disk\<close>; \<open>Ata\<close>, \<open>Ata_Disk\<close> (\<open>dev/ata.rs\<close>) run the driver
  against a disk that follows the protocol; \<open>Boot_Disk\<close> interprets the interface on the driver and holds
  the properties that span both: a saved image is complete (records, contents, gapless extents, and
  the bitmap of exactly the blocks the files need), reads back, a formatted disk mounts, and when
  loading panics.

  \<^bold>\<open>Network.\<close>  \<open>Pci\<close> (\<open>dev/pci.rs\<close>) and \<open>E1000\<close> (\<open>net/e1000.rs\<close>) over an arbitrary card; \<open>E1000_Card\<close> has a
  card with the 8254x registers the driver programs (ring bases, lengths, heads and tails, the two
  control registers with their enable, filter and checksum bits, device control with reset and link
  request, the interrupt mask) that transmits and receives on its own when it runs, one descriptor at a
  time.  Start-up brings it from any register contents to agreed rings, and every sequence of sends and
  receives refines a link, an ordered cable and a queue of arriving frames.  \<open>Net_Ip\<close> (\<open>net/arp.rs\<close>, \<open>net/ipv4.rs\<close>), \<open>Net_Udp\<close>
  (\<open>net/icmp.rs\<close>, \<open>net/udp.rs\<close>, \<open>net/dns.rs\<close>, \<open>net/dhcp.rs\<close>), \<open>Net_Tcp\<close> (\<open>net/tcp.rs\<close>) and \<open>Net_Stack\<close>
  (\<open>net/mod.rs\<close>) model the stack on one state record.  \<open>Net_Stack\<close> shows that the static arrays stay
  in shape in every run; \<open>Net_Wire\<close> that no frame makes a handler panic, and what well-formed DNS and
  DHCP messages do, with the DHCP outcome and the request it sends given field by field; \<open>Tcp_Stream\<close>
  that the consumer reads a prefix of what the peer sent, whatever the network does; \<open>Tcp_Queue\<close> that
  unacknowledged data stays queued, in every run in which no close found the queue full, and what such
  a close does; \<open>Net_Link\<close> that IP datagrams and retransmissions reach the other end through the
  driver.  The tick of the HTTP client is an arbitrary function in the poll loop.

  \<^bold>\<open>Cryptography.\<close>  \<open>Hash_Stream\<close> has the interface \<open>stream_hash\<close>, interpreted by \<open>Sha256\<close> (\<open>sha256.rs\<close>)
  and \<open>Sha512\<close> (\<open>crypto/sha512.rs\<close>): a message fed in any pieces gives the digest of the padded blocks.
  The references use the compression functions and constants of the model; the digests of \<open>abc\<close> in
  \<open>Sha256_Vectors\<close> and \<open>Sha512_Vectors\<close>, and there the derivation of the constants of SHA-512 and SHA-384
  from roots of primes, tie these to the standard.  \<open>Hmac\<close> (\<open>crypto/hmac.rs\<close>,
  \<open>crypto/hkdf.rs\<close>): RFC 2104, RFC 5869 and the TLS 1.3 labels.  \<open>Bignum\<close> (\<open>crypto/bignum.rs\<close>): Montgomery
  exponentiation returns the power, with no carry out of its scratch array.  \<open>Rsa\<close> (\<open>crypto/rsa.rs\<close>):
  both paddings accept exactly what RFC 8017 says.

  \<^bold>\<open>Bounds.\<close>  Every recursive definition terminates; there is no artificial fuel.  The numbers in the
  loops are the source's own: a million polls in \<open>E1000\<close>, the poll limit of \<open>Ata\<close>, 16 levels of a path,
  64 vnodes.  Where a theorem needs hardware to answer within them (\<open>c_reset_time\<close> of the card, the busy
  time of the disk), this is a hypothesis or part of the device, and the theorem is that the loop
  succeeds.

  \<^bold>\<open>Not modelled.\<close>  AES, elliptic curves, X.509, TLS and the HTTP client on top of it; interrupt and
  descriptor tables, keyboard, mouse and framebuffer, which are instructions and port output; the
  window manager and the applications with the browser engine; loaders for foreign binaries; the
  boot loaders (assembly and C); the boot-time self tests, and the framebuffer fields of the boot
  record.
\<close>

end
